(* ===== verification/ErrorTypes.thy ===== *)
theory ErrorTypes
  imports Main "HOL-Library.Word"
begin

section \<open>Error codes (headers/error_types.h)\<close>

text \<open>
  The kernel reports every unrecoverable condition with \<open>ERROR(code, type)\<close>, whose
  first argument is one of the enumerators of \<open>enum ERROR_CODES\<close>. The datatype below has
  one constructor per enumerator, in the order of the header, and \<open>err_code\<close> is its
  numeric value. The enumeration is ordered by its numeric value, which gives the instance
  of \<open>linorder\<close>.
\<close>

datatype (plugins only:) error_code =
  ERR_FSC
| ERR_FSC2
| ERR_FSC3
| ERR_FSC4
| ERR_FSCUNIMP
| ERR_WFIRQ
| ERR_FVNS
| ERR_FRLX
| ERR_FDC_INUSE
| ERR_INODE_NE
| ERR_FILE_PASTBOUND
| ERR_READ_SIZE_TEMP
| ERR_FILE_DIRSTREAM
| ERR_IN_DIR_DNE
| ERR_IN_FILE_DNE
| ERR_FD_TOOHIGH
| ERR_FD_DNE
| ERR_TT_NT
| ERR_FREE_BADMETADATA
| ERR_FREE_SIZEMISMATCH
| ERR_PIT_WFI_MISP
| ERR_DOUBLE_FREE
| ERR_FREE_INVALID_PTR
| ERR_FREE_INVALID_PTR2
| ERR_FWDL
| ERR_WRITE_DISKINV
| ERR_READ_DISKINV
| ERR_FILESTREAM_RW
| ERR_FDT_MISMATCH
| ERR_FDT_W_MISMATCH
| ERR_MALLOC_OVERALLOC
| ERR_BROKEN_MEMCPY
| ERR_PAGE_NOFREESPACE
| ERR_PAGE_ALLOC_SHOULDNOTEXIST
| ERR_KPALLOC_NOFREE
| ERR_PL_FN_MISMATCH
| ERR_READ_SIZE
| ERR_WRITE_SIZE
| ERR_NOT_UM
| ERR_FILE_OPEN_SLASHCOUNT
| ERR_FILE_OPEN_WHY
| ERR_MALLOC_SIZE0
| ERR_MALLOC_SIZEMAX
| ERR_VERIFY_USER_FAIL
| ERR_8042_SELF_TEST
| ERR_PS2_NO_CHANNELS
| ERR_CTTCBN
| ERR_PS2_DATA_TIMEOUT
| ERR_PS2_READ_TIMEOUT
| ERR_PS2_CMD_TIMEOUT
| ERR_TFNTTNNZ
| ERR_SPLIT_FAIL
| ERR_OPEN_TWO
| ERR_NOKEYBOARD
| ERR_KC_OOR
| ERR_STDIO_NONZ
| ERR_MBASE_TOOHIGH
| ERR_PML4_DNE
| ERR_PL_CLEANUP
| ERR_DEADCODE
| ERR_MISP_BINDT
| ERR_MISP_BINDH
| ERR_INT
| ERR_POKE_NULLP
| ERR_TASK_SHOULD_BE_RUNNING
| ERR_SHOULD_NOT_BE_READY
| ERR_SHOULD_NOT_BE_READY2
| ERR_HAVENT_UNBLOCKED
| ERR_SHOULD_NOT_BE_READY3
| ERR_TASK_BADUNBLOCK
| ERR_AMBER_ALERT
| ERR_PT_EXISTS_ALREADY
| ERR_UPA_BIN
| ERR_AL_NOP
| ERR_ELF_MAGIC
| ERR_SYMI_OOR
| ERR_UNDEF_EXTSYM
| ERR_RLC_FAIL
| ERR_RLC_UNSP
| ERR_ELF_UNSUP
| ERR_FLAT_INV
| ERR_BINFMT_BROKEN
| ERR_TODO_SBRK
| ERR_PAGE_FAULT
| ERR_PID_NOT_FOUND
| ERR_AL_NOP_FREE
| ERR_ALSEG_LOGFAIL
| ERR_FCPID
| ERR_GSTDB
| ERR_DEV_NF
| ERR_NULL_PAIROUT
| ERR_FWS_UNIMP
| ERR_INODE_NE2
| ERR_PAGE_FAULT_PV
| ERR_DRIVER_NULLFD
| ERR_TODO_PROC_ERR
| ERR_UAL_NOP

primrec err_code :: "error_code \<Rightarrow> nat" where
  "err_code ERR_FSC = 0x0"
| "err_code ERR_FSC2 = 0x1"
| "err_code ERR_FSC3 = 0x2"
| "err_code ERR_FSC4 = 0x3"
| "err_code ERR_FSCUNIMP = 0x4"
| "err_code ERR_WFIRQ = 0x5"
| "err_code ERR_FVNS = 0x6"
| "err_code ERR_FRLX = 0x7"
| "err_code ERR_FDC_INUSE = 0x8"
| "err_code ERR_INODE_NE = 0x9"
| "err_code ERR_FILE_PASTBOUND = 0xa"
| "err_code ERR_READ_SIZE_TEMP = 0xb"
| "err_code ERR_FILE_DIRSTREAM = 0xc"
| "err_code ERR_IN_DIR_DNE = 0xd"
| "err_code ERR_IN_FILE_DNE = 0xe"
| "err_code ERR_FD_TOOHIGH = 0xf"
| "err_code ERR_FD_DNE = 0x10"
| "err_code ERR_TT_NT = 0x11"
| "err_code ERR_FREE_BADMETADATA = 0x12"
| "err_code ERR_FREE_SIZEMISMATCH = 0x13"
| "err_code ERR_PIT_WFI_MISP = 0x14"
| "err_code ERR_DOUBLE_FREE = 0x15"
| "err_code ERR_FREE_INVALID_PTR = 0x16"
| "err_code ERR_FREE_INVALID_PTR2 = 0x17"
| "err_code ERR_FWDL = 0x18"
| "err_code ERR_WRITE_DISKINV = 0x19"
| "err_code ERR_READ_DISKINV = 0x1a"
| "err_code ERR_FILESTREAM_RW = 0x1b"
| "err_code ERR_FDT_MISMATCH = 0x1c"
| "err_code ERR_FDT_W_MISMATCH = 0x1d"
| "err_code ERR_MALLOC_OVERALLOC = 0x1e"
| "err_code ERR_BROKEN_MEMCPY = 0x1f"
| "err_code ERR_PAGE_NOFREESPACE = 0x20"
| "err_code ERR_PAGE_ALLOC_SHOULDNOTEXIST = 0x21"
| "err_code ERR_KPALLOC_NOFREE = 0x22"
| "err_code ERR_PL_FN_MISMATCH = 0x23"
| "err_code ERR_READ_SIZE = 0x24"
| "err_code ERR_WRITE_SIZE = 0x25"
| "err_code ERR_NOT_UM = 0x26"
| "err_code ERR_FILE_OPEN_SLASHCOUNT = 0x27"
| "err_code ERR_FILE_OPEN_WHY = 0x28"
| "err_code ERR_MALLOC_SIZE0 = 0x29"
| "err_code ERR_MALLOC_SIZEMAX = 0x2a"
| "err_code ERR_VERIFY_USER_FAIL = 0x2b"
| "err_code ERR_8042_SELF_TEST = 0x2c"
| "err_code ERR_PS2_NO_CHANNELS = 0x2d"
| "err_code ERR_CTTCBN = 0x2e"
| "err_code ERR_PS2_DATA_TIMEOUT = 0x2f"
| "err_code ERR_PS2_READ_TIMEOUT = 0x30"
| "err_code ERR_PS2_CMD_TIMEOUT = 0x31"
| "err_code ERR_TFNTTNNZ = 0x32"
| "err_code ERR_SPLIT_FAIL = 0x33"
| "err_code ERR_OPEN_TWO = 0x34"
| "err_code ERR_NOKEYBOARD = 0x35"
| "err_code ERR_KC_OOR = 0x36"
| "err_code ERR_STDIO_NONZ = 0x37"
| "err_code ERR_MBASE_TOOHIGH = 0x38"
| "err_code ERR_PML4_DNE = 0x39"
| "err_code ERR_PL_CLEANUP = 0x3a"
| "err_code ERR_DEADCODE = 0x3b"
| "err_code ERR_MISP_BINDT = 0x3c"
| "err_code ERR_MISP_BINDH = 0x3d"
| "err_code ERR_INT = 0x3e"
| "err_code ERR_POKE_NULLP = 0x3f"
| "err_code ERR_TASK_SHOULD_BE_RUNNING = 0x40"
| "err_code ERR_SHOULD_NOT_BE_READY = 0x41"
| "err_code ERR_SHOULD_NOT_BE_READY2 = 0x42"
| "err_code ERR_HAVENT_UNBLOCKED = 0x43"
| "err_code ERR_SHOULD_NOT_BE_READY3 = 0x44"
| "err_code ERR_TASK_BADUNBLOCK = 0x45"
| "err_code ERR_AMBER_ALERT = 0x46"
| "err_code ERR_PT_EXISTS_ALREADY = 0x47"
| "err_code ERR_UPA_BIN = 0x48"
| "err_code ERR_AL_NOP = 0x49"
| "err_code ERR_ELF_MAGIC = 0x4a"
| "err_code ERR_SYMI_OOR = 0x4b"
| "err_code ERR_UNDEF_EXTSYM = 0x4c"
| "err_code ERR_RLC_FAIL = 0x4d"
| "err_code ERR_RLC_UNSP = 0x4e"
| "err_code ERR_ELF_UNSUP = 0x4f"
| "err_code ERR_FLAT_INV = 0x50"
| "err_code ERR_BINFMT_BROKEN = 0x51"
| "err_code ERR_TODO_SBRK = 0x52"
| "err_code ERR_PAGE_FAULT = 0x53"
| "err_code ERR_PID_NOT_FOUND = 0x54"
| "err_code ERR_AL_NOP_FREE = 0x55"
| "err_code ERR_ALSEG_LOGFAIL = 0x56"
| "err_code ERR_FCPID = 0x57"
| "err_code ERR_GSTDB = 0x58"
| "err_code ERR_DEV_NF = 0x59"
| "err_code ERR_NULL_PAIROUT = 0x5a"
| "err_code ERR_FWS_UNIMP = 0x5b"
| "err_code ERR_INODE_NE2 = 0x5c"
| "err_code ERR_PAGE_FAULT_PV = 0x5d"
| "err_code ERR_DRIVER_NULLFD = 0x5e"
| "err_code ERR_TODO_PROC_ERR = 0x5f"
| "err_code ERR_UAL_NOP = 0x60"

text \<open>
  The enumerators are compared by the simplifier only, never in evaluated code.
\<close>

declare err_code.simps [code del]

text \<open>
  \<open>err_table\<close> lists the enumerators at the position of their value: the header assigns
  consecutive values, so that the list inverts \<open>err_code\<close>.
\<close>

definition err_table :: "error_code list" where
  "err_table =
    [ERR_FSC, ERR_FSC2, ERR_FSC3, ERR_FSC4, ERR_FSCUNIMP, ERR_WFIRQ, ERR_FVNS, ERR_FRLX,
     ERR_FDC_INUSE, ERR_INODE_NE, ERR_FILE_PASTBOUND, ERR_READ_SIZE_TEMP, ERR_FILE_DIRSTREAM,
     ERR_IN_DIR_DNE, ERR_IN_FILE_DNE, ERR_FD_TOOHIGH, ERR_FD_DNE, ERR_TT_NT,
     ERR_FREE_BADMETADATA, ERR_FREE_SIZEMISMATCH, ERR_PIT_WFI_MISP, ERR_DOUBLE_FREE,
     ERR_FREE_INVALID_PTR, ERR_FREE_INVALID_PTR2, ERR_FWDL, ERR_WRITE_DISKINV,
     ERR_READ_DISKINV, ERR_FILESTREAM_RW, ERR_FDT_MISMATCH, ERR_FDT_W_MISMATCH,
     ERR_MALLOC_OVERALLOC, ERR_BROKEN_MEMCPY, ERR_PAGE_NOFREESPACE,
     ERR_PAGE_ALLOC_SHOULDNOTEXIST, ERR_KPALLOC_NOFREE, ERR_PL_FN_MISMATCH, ERR_READ_SIZE,
     ERR_WRITE_SIZE, ERR_NOT_UM, ERR_FILE_OPEN_SLASHCOUNT, ERR_FILE_OPEN_WHY,
     ERR_MALLOC_SIZE0, ERR_MALLOC_SIZEMAX, ERR_VERIFY_USER_FAIL, ERR_8042_SELF_TEST,
     ERR_PS2_NO_CHANNELS, ERR_CTTCBN, ERR_PS2_DATA_TIMEOUT, ERR_PS2_READ_TIMEOUT,
     ERR_PS2_CMD_TIMEOUT, ERR_TFNTTNNZ, ERR_SPLIT_FAIL, ERR_OPEN_TWO, ERR_NOKEYBOARD,
     ERR_KC_OOR, ERR_STDIO_NONZ, ERR_MBASE_TOOHIGH, ERR_PML4_DNE, ERR_PL_CLEANUP,
     ERR_DEADCODE, ERR_MISP_BINDT, ERR_MISP_BINDH, ERR_INT, ERR_POKE_NULLP,
     ERR_TASK_SHOULD_BE_RUNNING, ERR_SHOULD_NOT_BE_READY, ERR_SHOULD_NOT_BE_READY2,
     ERR_HAVENT_UNBLOCKED, ERR_SHOULD_NOT_BE_READY3, ERR_TASK_BADUNBLOCK, ERR_AMBER_ALERT,
     ERR_PT_EXISTS_ALREADY, ERR_UPA_BIN, ERR_AL_NOP, ERR_ELF_MAGIC, ERR_SYMI_OOR,
     ERR_UNDEF_EXTSYM, ERR_RLC_FAIL, ERR_RLC_UNSP, ERR_ELF_UNSUP, ERR_FLAT_INV,
     ERR_BINFMT_BROKEN, ERR_TODO_SBRK, ERR_PAGE_FAULT, ERR_PID_NOT_FOUND, ERR_AL_NOP_FREE,
     ERR_ALSEG_LOGFAIL, ERR_FCPID, ERR_GSTDB, ERR_DEV_NF, ERR_NULL_PAIROUT, ERR_FWS_UNIMP,
     ERR_INODE_NE2, ERR_PAGE_FAULT_PV, ERR_DRIVER_NULLFD, ERR_TODO_PROC_ERR, ERR_UAL_NOP]"

lemma length_err_table: "length err_table = 97"
  by (simp add: err_table_def)

lemma err_table_nth: "err_table ! err_code e = e"
  by (cases e) (simp_all add: err_table_def)

lemma err_code_less: "err_code e < 97"
  by (cases e) simp_all

lemma err_code_inj: "err_code a = err_code b \<longleftrightarrow> a = b"
  by (metis err_table_nth)

instantiation error_code :: linorder
begin

definition less_eq_error_code :: "error_code \<Rightarrow> error_code \<Rightarrow> bool" where
  "less_eq_error_code a b \<longleftrightarrow> err_code a \<le> err_code b"

definition less_error_code :: "error_code \<Rightarrow> error_code \<Rightarrow> bool" where
  "less_error_code a b \<longleftrightarrow> err_code a < err_code b"

instance
  by standard (auto simp: less_eq_error_code_def less_error_code_def err_code_inj)

end

instantiation error_code :: equal
begin

definition equal_error_code :: "error_code \<Rightarrow> error_code \<Rightarrow> bool" where
  "equal_error_code a b \<longleftrightarrow> err_code a = err_code b"

instance
  by standard (simp add: equal_error_code_def err_code_inj)

end

end
