(* ===== verification/Prelude.thy ===== *)
theory Prelude
  imports Main "HOL-Library.Word" ErrorTypes
begin

unbundle bit_operations_syntax

section \<open>Prelude: machine types, faults and the error monad\<close>

text \<open>
  The integer types of \<open>headers/stdint.h\<close> are words of their width. A call of
  \<open>ERROR\<close> or \<open>FAULT\<close> (asmbridge.S) never returns: both end in the endless
  loop at \<open>FAULT\<close>. A hardware exception of the kernel ends there too
  (idt_bridge.S). Every operation that can reach one of them returns a sum whose left side
  is the \<open>fault\<close> it stops with.
\<close>

type_synonym u8 = "8 word"
type_synonym u16 = "16 word"
type_synonym u32 = "32 word"
type_synonym u64 = "64 word"
type_synonym addr = "64 word"

datatype fault =
    ERROR error_code u64   \<comment> \<open>\<open>ERROR(code, type)\<close>\<close>
  | FAULT                  \<comment> \<open>a direct call of \<open>FAULT()\<close>\<close>
  | DE                     \<comment> \<open>divide error, vector 0 (\<open>IDT_DE\<close>)\<close>
  | PF addr                \<comment> \<open>page fault of the kernel itself: a NULL pointer is followed\<close>

text \<open>Theorem collections the component theories add to.\<close>

named_theorems c_int_simps \<open>arithmetic of C integer conversions and shifts\<close>
named_theorems frame_simps \<open>fields and addresses an operation leaves alone\<close>

subsection \<open>Ranges\<close>

lemma unat_bounds:
  "unat (a :: u8) < 256"
  "unat (b :: u16) < 65536"
  "unat (c :: u32) < 4294967296"
  "unat (d :: u64) < 18446744073709551616"
  using unsigned_less [of a] unsigned_less [of b] unsigned_less [of c] unsigned_less [of d] by simp_all

lemma unat_ucast_up:
  "unat (ucast (a :: u8) :: u16) = unat a"
  "unat (ucast (a :: u8) :: u32) = unat a"
  "unat (ucast (a :: u8) :: u64) = unat a"
  "unat (ucast (b :: u16) :: u32) = unat b"
  "unat (ucast (b :: u16) :: u64) = unat b"
  "unat (ucast (c :: u32) :: u64) = unat c"
  by (simp_all add: unsigned_ucast_eq)
    (simp_all add: take_bit_eq_mod unat_bounds order_less_trans [OF unat_bounds(1)]
      order_less_trans [OF unat_bounds(2)] order_less_trans [OF unat_bounds(3)])

lemma ucast_of_nat_down:
  "ucast (of_nat n :: u16) = (of_nat n :: u8)"
  "ucast (of_nat n :: u32) = (of_nat n :: u8)"
  "ucast (of_nat n :: u64) = (of_nat n :: u8)"
  "ucast (of_nat n :: u32) = (of_nat n :: u16)"
  "ucast (of_nat n :: u64) = (of_nat n :: u16)"
  "ucast (of_nat n :: u64) = (of_nat n :: u32)"
  by (rule bit_word_eqI; simp add: bit_simps)+

lemma unat_of_nat_small:
  "n < 256 \<Longrightarrow> unat (of_nat n :: u8) = n"
  "n < 65536 \<Longrightarrow> unat (of_nat n :: u16) = n"
  "n < 4294967296 \<Longrightarrow> unat (of_nat n :: u32) = n"
  "n < 18446744073709551616 \<Longrightarrow> unat (of_nat n :: u64) = n"
  by (simp_all add: unat_of_nat)
subsection \<open>The error monad\<close>

definition bindE :: "'e + 'a \<Rightarrow> ('a \<Rightarrow> 'e + 'b) \<Rightarrow> 'e + 'b" where
  "bindE m f = (case m of Inl e \<Rightarrow> Inl e | Inr a \<Rightarrow> f a)"

lemma bindE_simps [simp]:
  "bindE (Inl e) f = Inl e"
  "bindE (Inr a) f = f a"
  by (simp_all add: bindE_def)

lemma bindE_Inr_iff: "bindE m f = Inr b \<longleftrightarrow> (\<exists>a. m = Inr a \<and> f a = Inr b)"
  by (cases m) simp_all

lemma bindE_InrE [elim]:
  assumes "bindE m f = Inr b"
  obtains a where "m = Inr a" and "f a = Inr b"
  using assms by (cases m) simp_all

lemma bindE_assoc: "bindE (bindE m f) g = bindE m (\<lambda>x. bindE (f x) g)"
  by (cases m) simp_all

lemma bindE_cong [fundef_cong]:
  "m = m' \<Longrightarrow> (\<And>a. m' = Inr a \<Longrightarrow> f a = f' a) \<Longrightarrow> bindE m f = bindE m' f'"
  by (cases m') simp_all

definition isOk :: "'e + 'a \<Rightarrow> bool" where
  "isOk r = (case r of Inl _ \<Rightarrow> False | Inr _ \<Rightarrow> True)"

lemma isOk_simps [simp]: "isOk (Inr a)" "\<not> isOk (Inl e)"
  by (simp_all add: isOk_def)

text \<open>\<open>guard b e\<close> is the source's \<open>if (!b) ERROR(...)\<close>.\<close>

definition guard :: "bool \<Rightarrow> 'e \<Rightarrow> 'e + unit" where
  "guard b e = (if b then Inr () else Inl e)"

lemma guard_simps [simp]:
  "guard True e = Inr ()"
  "guard False e = Inl e"
  "guard b e = Inr u \<longleftrightarrow> b"
  by (simp_all add: guard_def)

subsection \<open>Division helpers of asmbridge.S\<close>

text \<open>
  \<open>DIV64_32\<close> and \<open>MOD64_32\<close> divide the 64-bit first argument by the 32-bit
  second one with a single \<open>div\<close>: the processor raises a divide error for a zero
  divisor and for a quotient that does not fit in 32 bits.
\<close>

definition DIV64_32 :: "u64 \<Rightarrow> u32 \<Rightarrow> fault + u32" where
  "DIV64_32 dd ds =
     (if ds = 0 \<or> 2 ^ 32 \<le> unat dd div unat ds then Inl DE
      else Inr (of_nat (unat dd div unat ds)))"

definition MOD64_32 :: "u64 \<Rightarrow> u32 \<Rightarrow> fault + u32" where
  "MOD64_32 dd ds =
     (if ds = 0 \<or> 2 ^ 32 \<le> unat dd div unat ds then Inl DE
      else Inr (of_nat (unat dd mod unat ds)))"

lemma DIV64_32_ok:
  assumes "ds \<noteq> 0" and "unat dd div unat ds < 2 ^ 32"
  shows "DIV64_32 dd ds = Inr (of_nat (unat dd div unat ds))"
  using assms by (simp add: DIV64_32_def)

lemma MOD64_32_ok:
  assumes "ds \<noteq> 0" and "unat dd div unat ds < 2 ^ 32"
  shows "MOD64_32 dd ds = Inr (of_nat (unat dd mod unat ds))"
  using assms by (simp add: MOD64_32_def)

subsection \<open>Mask literals\<close>

lemma mask_literals:
  "(0x1 :: 'a::len word) = mask 1"
  "(0x3 :: 'a::len word) = mask 2"
  "(0x7 :: 'a::len word) = mask 3"
  "(0xf :: 'a::len word) = mask 4"
  "(0x3f :: 'a::len word) = mask 6"
  "(0x7f :: 'a::len word) = mask 7"
  "(0xff :: 'a::len word) = mask 8"
  "(0x1ff :: 'a::len word) = mask 9"
  "(0xfff :: 'a::len word) = mask 12"
  "(0xffff :: 'a::len word) = mask 16"
  "(0xffffffff :: 'a::len word) = mask 32"
  by (simp_all add: mask_eq_exp_minus_1)

text \<open>The simplifier reads the bits of a word literal from the same literal as an integer.\<close>

lemma bit_mask_literals [c_int_simps]:
  "bit (0x3 :: int) k \<longleftrightarrow> k < 2"
  "bit (0x7 :: int) k \<longleftrightarrow> k < 3"
  "bit (0xf :: int) k \<longleftrightarrow> k < 4"
  "bit (0x3f :: int) k \<longleftrightarrow> k < 6"
  "bit (0x7f :: int) k \<longleftrightarrow> k < 7"
  "bit (0xff :: int) k \<longleftrightarrow> k < 8"
  "bit (0x1ff :: int) k \<longleftrightarrow> k < 9"
  "bit (0xfff :: int) k \<longleftrightarrow> k < 12"
  "bit (0xffff :: int) k \<longleftrightarrow> k < 16"
  "bit (0xffffffff :: int) k \<longleftrightarrow> k < 32"
proof -
  have "bit (mask n :: int) k \<longleftrightarrow> k < n" for n
    by (simp add: bit_mask_iff)
  from this [of 2] this [of 3] this [of 4] this [of 6] this [of 7] this [of 8] this [of 9]
    this [of 12] this [of 16] this [of 32]
  show "bit (0x3 :: int) k \<longleftrightarrow> k < 2"
    "bit (0x7 :: int) k \<longleftrightarrow> k < 3"
    "bit (0xf :: int) k \<longleftrightarrow> k < 4"
    "bit (0x3f :: int) k \<longleftrightarrow> k < 6"
    "bit (0x7f :: int) k \<longleftrightarrow> k < 7"
    "bit (0xff :: int) k \<longleftrightarrow> k < 8"
    "bit (0x1ff :: int) k \<longleftrightarrow> k < 9"
    "bit (0xfff :: int) k \<longleftrightarrow> k < 12"
    "bit (0xffff :: int) k \<longleftrightarrow> k < 16"
    "bit (0xffffffff :: int) k \<longleftrightarrow> k < 32"
    by (simp_all add: mask_eq_exp_minus_1)
qed

lemma and_mask_literals:
  "unat (w AND 0x3 :: 'a::len word) = unat w mod 4"
  "unat (w AND 0x7 :: 'a::len word) = unat w mod 8"
  "unat (w AND 0x3f :: 'a::len word) = unat w mod 64"
  "unat (w AND 0xff :: 'a::len word) = unat w mod 256"
  "unat (w AND 0x1ff :: 'a::len word) = unat w mod 512"
  "unat (w AND 0xfff :: 'a::len word) = unat w mod 4096"
  unfolding mask_literals
  by (simp_all only: unsigned_take_bit_eq flip: take_bit_eq_mask)
    (simp_all add: take_bit_eq_mod)

subsection \<open>C integer shifts\<close>

text \<open>
  The literal \<open>1\<close> in \<open>1 << n\<close> is an \<open>int\<close>. The target compiler (gcc for
  x86-64, Makefile) emits a 32-bit \<open>sal\<close>, which takes the shift count modulo 32, and
  widens the result to 64 bits with its sign. For \<open>n < 31\<close> this is the value the C
  standard defines; beyond it the standard leaves the behaviour open and the model follows
  the instruction.
\<close>

definition int_shl1 :: "nat \<Rightarrow> u32" where
  "int_shl1 n = push_bit (n mod 32) 1"

definition sx64 :: "u32 \<Rightarrow> u64" where
  "sx64 w = scast w"

lemma bit_int_shl1 [c_int_simps]: "bit (int_shl1 n) k \<longleftrightarrow> k = n mod 32"
  by (auto simp: int_shl1_def push_bit_of_1 bit_exp_iff)

lemma bit_sx64 [c_int_simps]: "bit (sx64 w) k \<longleftrightarrow> k < 64 \<and> (if k < 31 then bit w k else bit w 31)"
  by (auto simp: sx64_def bit_simps min_def)

lemma bit_sx64_shl1 [c_int_simps]:
  "bit (sx64 (int_shl1 n)) k \<longleftrightarrow> k < 64 \<and> (if n mod 32 = 31 then 31 \<le> k else k = n mod 32)"
proof -
  have "n mod 32 < 32" by simp
  then show ?thesis by (auto simp: bit_sx64 bit_int_shl1)
qed

end
