(* ===== verification/PortIO.thy ===== *)
theory PortIO
  imports Prelude
begin

section \<open>Port input and output (asmbridge.S)\<close>

text \<open>
  Drivers talk to devices through \<open>inb\<close> and \<open>outb\<close>. The devices are hardware and not
  part of the repository: what a device answers is the parameter \<open>dev\<close>, an arbitrary
  function of everything the kernel did to the ports before. The trace records, in order,
  every port access together with the calls a driver makes to the scheduler while it waits
  (\<open>nano_sleep\<close>, \<open>wait_for_irq\<close>), so that the order of device accesses and waits is part
  of a driver's result. The floppy controller also reads and writes the DMA buffer:
  \<open>DmaFill\<close> is the kernel's copy into it, and \<open>dma\<close> is what the device left there.
\<close>

datatype io_event =
    Outb u16 u8
  | Inb u16 u8
  | NanoSleep u64
  | WaitIrq u8 u64
  | DmaFill "u8 list"

record io =
  dev :: "io_event list \<Rightarrow> u16 \<Rightarrow> u8"
  dma :: "io_event list \<Rightarrow> nat \<Rightarrow> u8"
  trace :: "io_event list"

definition emit :: "io_event \<Rightarrow> 'a io_scheme \<Rightarrow> 'a io_scheme" where
  "emit e w = w\<lparr>trace := trace w @ [e]\<rparr>"

definition outb :: "u16 \<Rightarrow> u8 \<Rightarrow> 'a io_scheme \<Rightarrow> 'a io_scheme" where
  "outb port data w = emit (Outb port data) w"

definition outbs :: "(u16 \<times> u8) list \<Rightarrow> 'a io_scheme \<Rightarrow> 'a io_scheme" where
  "outbs ps w = fold (\<lambda>(port, data). outb port data) ps w"

definition inb :: "u16 \<Rightarrow> 'a io_scheme \<Rightarrow> u8 \<times> 'a io_scheme" where
  "inb port w = (let v = dev w (trace w) port in (v, emit (Inb port v) w))"

definition io_nano_sleep :: "u64 \<Rightarrow> 'a io_scheme \<Rightarrow> 'a io_scheme" where
  "io_nano_sleep t w = emit (NanoSleep t) w"

definition io_wait_for_irq :: "u8 \<Rightarrow> u64 \<Rightarrow> 'a io_scheme \<Rightarrow> 'a io_scheme" where
  "io_wait_for_irq irq timeout w = emit (WaitIrq irq timeout) w"

lemma emit_simps [simp]:
  "dev (emit e w) = dev w"
  "dma (emit e w) = dma w"
  "trace (emit e w) = trace w @ [e]"
  by (simp_all add: emit_def)

lemma outb_simps [simp]:
  "dev (outb p v w) = dev w"
  "dma (outb p v w) = dma w"
  "trace (outb p v w) = trace w @ [Outb p v]"
  by (simp_all add: outb_def)

lemma outbs_simps [simp]:
  "outbs [] w = w"
  "outbs ((p, v) # ps) w = outbs ps (outb p v w)"
  by (simp_all add: outbs_def)

lemma io_wait_simps [simp]:
  "dev (io_nano_sleep t w) = dev w"
  "dma (io_nano_sleep t w) = dma w"
  "trace (io_nano_sleep t w) = trace w @ [NanoSleep t]"
  "dev (io_wait_for_irq i t w) = dev w"
  "dma (io_wait_for_irq i t w) = dma w"
  "trace (io_wait_for_irq i t w) = trace w @ [WaitIrq i t]"
  by (simp_all add: io_nano_sleep_def io_wait_for_irq_def)

lemma fst_inb [simp]: "fst (inb p w) = dev w (trace w) p"
  by (simp add: inb_def Let_def)

lemma snd_inb [simp]: "snd (inb p w) = emit (Inb p (dev w (trace w) p)) w"
  by (simp add: inb_def Let_def)

lemma inb_pair: "inb p w = (dev w (trace w) p, emit (Inb p (dev w (trace w) p)) w)"
  by (simp add: inb_def Let_def)

text \<open>The values written to a port, in order.\<close>

fun outs_to :: "u16 \<Rightarrow> io_event list \<Rightarrow> u8 list" where
  "outs_to p [] = []"
| "outs_to p (Outb q v # es) = (if q = p then v # outs_to p es else outs_to p es)"
| "outs_to p (_ # es) = outs_to p es"

lemma outs_to_append [simp]: "outs_to p (xs @ ys) = outs_to p xs @ outs_to p ys"
  by (induction p xs rule: outs_to.induct) auto

text \<open>
  A trace grows: \<open>extends w w'\<close> says that \<open>w'\<close> is \<open>w\<close> after some more events, with the
  same devices attached.
\<close>

definition extends :: "'a io_scheme \<Rightarrow> 'a io_scheme \<Rightarrow> bool" where
  "extends w w' \<longleftrightarrow> dev w' = dev w \<and> dma w' = dma w \<and> (\<exists>es. trace w' = trace w @ es)"

lemma extends_refl [simp, intro]: "extends w w"
  by (simp add: extends_def)

lemma extends_trans [trans]: "extends u v \<Longrightarrow> extends v w \<Longrightarrow> extends u w"
  by (auto simp: extends_def)

lemma extends_emit [simp, intro]: "extends w (emit e w)"
  by (simp add: extends_def)

end
