(* ===== verification/Idt.thy ===== *)
theory Idt
  imports PortIO
begin

section \<open>Interrupt descriptors and the interrupt controller (idt.c)\<close>

text \<open>
  A descriptor has the fields of \<open>InterruptDescriptor64\<close>; the table is addressed by the
  byte address of the entry, as \<open>newIDTEntry\<close> computes it. Where the linker puts the
  handlers is not in the sources, so the function from handler symbols to their addresses is
  a parameter of \<open>constructIDT\<close>.
\<close>

record InterruptDescriptor64 =
  offset_1 :: u16
  selector :: u16
  ist :: u8
  type_attributes :: u8
  offset_2 :: u16
  offset_3 :: u32
  zero :: u32

type_synonym idt = "u64 \<Rightarrow> InterruptDescriptor64"

definition newIDTEntry ::
  "u64 \<Rightarrow> u64 \<Rightarrow> u16 \<Rightarrow> u8 \<Rightarrow> u8 \<Rightarrow> u64 \<Rightarrow> idt \<Rightarrow> idt" where
  "newIDTEntry addr offset selector' ist' type_attributes' offset2 t =
     (let a = addr + push_bit 4 offset2
      in t(a := (t a)\<lparr>
            offset_1 := ucast (offset AND 0xffff),
            offset_2 := ucast (drop_bit 16 offset AND 0xffff),
            offset_3 := ucast (drop_bit 32 offset AND 0xffffffff),
            selector := selector',
            ist := ist' AND 7,
            type_attributes := type_attributes'\<rparr>))"

text \<open>The entry point the processor takes from a descriptor, and its privilege level.\<close>

definition gate_offset :: "InterruptDescriptor64 \<Rightarrow> u64" where
  "gate_offset d =
     ucast (offset_1 d) OR push_bit 16 (ucast (offset_2 d)) OR push_bit 32 (ucast (offset_3 d))"

definition gate_dpl :: "InterruptDescriptor64 \<Rightarrow> u8" where
  "gate_dpl d = drop_bit 5 (type_attributes d) AND 3"

definition gate_present :: "InterruptDescriptor64 \<Rightarrow> bool" where
  "gate_present d \<longleftrightarrow> bit (type_attributes d) 7"

datatype handler =
    IDT_DE | IDT_DB | IDT_NMI | IDT_BP | IDT_OF | IDT_BR | IDT_UD | IDT_NM | IDT_DF
  | IDT_TS | IDT_NP | IDT_SS | IDT_GP | IDT_PF | IDT_MF | IDT_AC | IDT_MC | IDT_XM
  | IDT_VE | IDT_CP | TIMER_INTERRUPT | PS2_HANDLER | SER04 | FL | SPIRQ
  | PS2_HANDLER12 | Int0x80Handler | NULL_HANDLER

text \<open>
  The calls of \<open>constructIDT\<close> in order: handler, selector, ist, type attributes and
  vector. \<open>constructIDT\<close> runs them one after another.
\<close>

definition constructIDT_calls :: "(handler \<times> u16 \<times> u8 \<times> u8 \<times> u64) list" where
  "constructIDT_calls =
    [(IDT_DE, 0x08, 0, 0x8F, 0),
     (IDT_DB, 0x08, 0, 0x8F, 1),
     (IDT_NMI, 0x08, 0, 0x8E, 2),
     (IDT_BP, 0x08, 0, 0x8F, 3),
     (IDT_OF, 0x08, 0, 0x8F, 4),
     (IDT_BR, 0x08, 0, 0x8F, 5),
     (IDT_UD, 0x08, 0, 0x8F, 6),
     (IDT_NM, 0x08, 0, 0x8F, 7),
     (IDT_DF, 0x08, 0, 0x8F, 8),
     (NULL_HANDLER, 0x08, 0, 0x8F, 9),
     (IDT_TS, 0x08, 0, 0x8F, 10),
     (IDT_NP, 0x08, 0, 0x8F, 11),
     (IDT_SS, 0x08, 0, 0x8F, 12),
     (IDT_GP, 0x08, 0, 0x8F, 13),
     (IDT_PF, 0x08, 0, 0x8F, 14),
     (NULL_HANDLER, 0, 0, 0, 15),
     (IDT_MF, 0x08, 0, 0x8F, 16),
     (IDT_AC, 0x08, 0, 0x8F, 17),
     (IDT_MC, 0x08, 0, 0x8F, 18),
     (IDT_XM, 0x08, 0, 0x8F, 19),
     (IDT_VE, 0x08, 0, 0x8F, 20),
     (IDT_CP, 0x08, 0, 0x8F, 21),
     (TIMER_INTERRUPT, 0x08, 0, 0x8E, 0x20),
     (PS2_HANDLER, 0x08, 0, 0x8E, 0x21),
     (NULL_HANDLER, 0, 0, 0, 0x22),
     (NULL_HANDLER, 0, 0, 0, 0x23),
     (SER04, 0x08, 0, 0x8E, 0x24),
     (NULL_HANDLER, 0, 0, 0, 0x25),
     (FL, 0x08, 0, 0x8E, 0x26),
     (SPIRQ, 0x08, 0, 0x8F, 0x27),
     (PS2_HANDLER12, 0x08, 0, 0x8E, 0x2c),
     (Int0x80Handler, 0x08, 0, 0x8E OR 0x60, 0x80)]"

definition idt_call ::
  "(handler \<Rightarrow> u64) \<Rightarrow> u64 \<Rightarrow> handler \<times> u16 \<times> u8 \<times> u8 \<times> u64 \<Rightarrow> idt \<Rightarrow> idt" where
  "idt_call hsym addr c =
     (case c of (h, sel, i, ta, v) \<Rightarrow>
        newIDTEntry addr (if h = NULL_HANDLER then 0 else hsym h) sel i ta v)"

definition constructIDT :: "(handler \<Rightarrow> u64) \<Rightarrow> u64 \<Rightarrow> idt \<Rightarrow> idt" where
  "constructIDT hsym addr t =
     fold (idt_call hsym addr) constructIDT_calls t"

subsection \<open>The interrupt controller\<close>

definition PIC1 :: u16 where "PIC1 = 0x20"
definition PIC2 :: u16 where "PIC2 = 0xa0"

definition IRQ_clear_mask :: "u8 \<Rightarrow> 'a io_scheme \<Rightarrow> 'a io_scheme" where
  "IRQ_clear_mask IRQline w =
     (let (port, line) = (if IRQline < 8 then (PIC1 + 1, IRQline) else (PIC2 + 1, IRQline - 8));
          (v, w) = inb port w
      in outb port (v AND NOT (ucast (int_shl1 (unat line)))) w)"

definition IRQ_set_mask :: "u8 \<Rightarrow> 'a io_scheme \<Rightarrow> 'a io_scheme" where
  "IRQ_set_mask IRQline w =
     (let (port, line) = (if IRQline < 8 then (PIC1 + 1, IRQline) else (PIC2 + 1, IRQline - 8));
          (v, w) = inb port w
      in outb port (v AND ucast (int_shl1 (unat line))) w)"

definition PIC_sendEOI :: "u8 \<Rightarrow> 'a io_scheme \<Rightarrow> 'a io_scheme" where
  "PIC_sendEOI irq w =
     (let w = (if irq \<ge> 8 then outb PIC2 0x20 w else w) in outb PIC1 0x20 w)"

definition PIC_Remap :: "'a io_scheme \<Rightarrow> 'a io_scheme" where
  "PIC_Remap w =
     (let w = outb PIC1 0x11 w;
          w = outb (PIC1 + 1) 0x20 w;
          w = outb (PIC1 + 1) 0x04 w;
          w = outb (PIC1 + 1) 0x01 w;
          w = outb PIC2 0x11 w;
          w = outb (PIC2 + 1) 0x28 w;
          w = outb (PIC2 + 1) 2 w;
          w = outb (PIC2 + 1) 0x01 w;
          w = outb (PIC1 + 1) 0 w
      in outb (PIC2 + 1) 0 w)"

definition PIT_COUNT :: nat where "PIT_COUNT = 1193182 div 100"

definition PIT_SETFRQ :: "'a io_scheme \<Rightarrow> 'a io_scheme" where
  "PIT_SETFRQ w =
     (let w = outb 0x43 (4 OR 48) w;
          w = outb 0x40 (of_nat PIT_COUNT AND 0xff) w;
          w = outb 0x40 (ucast (drop_bit 8 (of_nat PIT_COUNT :: u32) AND 0xff)) w
      in IRQ_clear_mask 0 w)"

definition PIC_FL :: "'a io_scheme \<Rightarrow> 'a io_scheme" where
  "PIC_FL w = IRQ_clear_mask 6 w"

definition PIC_PS2 :: "'a io_scheme \<Rightarrow> 'a io_scheme" where
  "PIC_PS2 w = IRQ_set_mask 12 (IRQ_clear_mask 1 w)"

definition PIC_PS2off :: "'a io_scheme \<Rightarrow> 'a io_scheme" where
  "PIC_PS2off w = IRQ_set_mask 1 w"

definition COM_IRQ :: "'a io_scheme \<Rightarrow> 'a io_scheme" where
  "COM_IRQ w = IRQ_clear_mask 4 w"

subsection \<open>Descriptors\<close>

lemma gate_offset_newIDTEntry:
  "gate_offset (newIDTEntry addr offset sel i ta v t (addr + push_bit 4 v)) = offset"
proof (rule bit_word_eqI)
  fix n assume "n < LENGTH(64)"
  then show "bit (gate_offset (newIDTEntry addr offset sel i ta v t (addr + push_bit 4 v))) n
      = bit offset n"
    by (cases "n < 16"; cases "n < 32")
      (auto simp: gate_offset_def newIDTEntry_def Let_def bit_simps c_int_simps not_less)
qed

lemma newIDTEntry_other [frame_simps]:
  "a \<noteq> addr + push_bit 4 v \<Longrightarrow> newIDTEntry addr offset sel i ta v t a = t a"
  by (simp add: newIDTEntry_def Let_def)

lemma newIDTEntry_fields:
  "type_attributes (newIDTEntry addr offset sel i ta v t (addr + push_bit 4 v)) = ta"
  "selector (newIDTEntry addr offset sel i ta v t (addr + push_bit 4 v)) = sel"
  "ist (newIDTEntry addr offset sel i ta v t (addr + push_bit 4 v)) = i AND 7"
  by (simp_all add: newIDTEntry_def Let_def)

text \<open>Vectors are below 256, so that their entries are 16 bytes apart.\<close>

lemma vector_address_inj:
  fixes v w :: u64
  assumes "v < 256" "w < 256"
  shows "addr + push_bit 4 v = addr + push_bit 4 w \<longleftrightarrow> v = w"
proof -
  have "unat (push_bit 4 x) = 16 * unat x" if "x < 256" for x :: u64
    using that by (simp add: push_bit_eq_mult unat_word_ariths word_less_nat_alt)
  then show ?thesis
    using assms by (metis add_left_cancel mult_cancel_left word_unat_eq_iff zero_neq_numeral)
qed

lemma fold_idt_call_other:
  assumes "\<forall>c \<in> set cs. a \<noteq> addr + push_bit 4 (snd (snd (snd (snd c))))"
  shows "fold (idt_call hsym addr) cs t a = t a"
  using assms
  by (induction cs arbitrary: t) (auto simp: idt_call_def frame_simps split: prod.splits)

lemma fold_idt_call_at:
  assumes "distinct (map (\<lambda>c. snd (snd (snd (snd c)))) cs)"
    and "\<forall>c \<in> set cs. snd (snd (snd (snd c))) < 256"
    and "(h, sel, i, ta, v) \<in> set cs"
  shows "\<exists>t'. fold (idt_call hsym addr) cs t (addr + push_bit 4 v) =
     idt_call hsym addr (h, sel, i, ta, v) t' (addr + push_bit 4 v)"
  using assms
proof (induction cs arbitrary: t)
  case (Cons c cs)
  show ?case
  proof (cases "c = (h, sel, i, ta, v)")
    case True
    have "addr + push_bit 4 v \<noteq> addr + push_bit 4 (snd (snd (snd (snd d))))" if "d \<in> set cs" for d
    proof -
      have "v < 256" "snd (snd (snd (snd d))) < 256" using Cons.prems(2) True that by auto
      moreover have "v \<noteq> snd (snd (snd (snd d)))" using Cons.prems(1) True that by auto
      ultimately show ?thesis by (simp only: vector_address_inj) simp
    qed
    then have "fold (idt_call hsym addr) (c # cs) t (addr + push_bit 4 v) =
        idt_call hsym addr c t (addr + push_bit 4 v)"
      by (simp add: fold_idt_call_other)
    with True show ?thesis by blast
  next
    case False
    with Cons show ?thesis by auto
  qed
qed simp

subsection \<open>The table constructIDT leaves\<close>

lemma constructIDT_vectors:
  "distinct (map (\<lambda>c. snd (snd (snd (snd c)))) constructIDT_calls)"
  "\<forall>c \<in> set constructIDT_calls. snd (snd (snd (snd c))) < 256"
  by (simp_all add: constructIDT_calls_def)

lemma constructIDT_attributes:
  "(h, sel, i, ta, v) \<in> set constructIDT_calls \<Longrightarrow>
    drop_bit 5 ta AND 3 = (if v = 0x80 then 3 else 0) \<and>
    (h \<noteq> NULL_HANDLER \<longrightarrow> bit ta 7)"
  by (auto simp: constructIDT_calls_def)

text \<open>After \<open>constructIDT\<close> every vector it sets up leads to the handler named in the
  source (the address is split over the three offset fields and comes back whole), the gate
  of every real handler is present, and the only gate user code may enter with an
  \<open>int\<close> instruction is 0x80, the system call: every other gate has privilege level 0.\<close>

theorem constructIDT_gates:
  assumes "(h, sel, i, ta, v) \<in> set constructIDT_calls"
  shows "let d = constructIDT hsym addr t (addr + push_bit 4 v) in
      gate_offset d = (if h = NULL_HANDLER then 0 else hsym h) \<and>
      gate_dpl d = (if v = 0x80 then 3 else 0) \<and>
      (h \<noteq> NULL_HANDLER \<longrightarrow> gate_present d)"
proof -
  obtain t' where "constructIDT hsym addr t (addr + push_bit 4 v) =
      idt_call hsym addr (h, sel, i, ta, v) t' (addr + push_bit 4 v)"
    unfolding constructIDT_def using fold_idt_call_at [OF constructIDT_vectors assms] by blast
  then show ?thesis
    using constructIDT_attributes [OF assms]
    by (simp add: Let_def idt_call_def gate_offset_newIDTEntry gate_dpl_def gate_present_def
        newIDTEntry_fields)
qed

theorem constructIDT_gates_witness:
  "let d = constructIDT (\<lambda>_. 0x8000009abc) 0x8000050000 (\<lambda>_. undefined)
        (0x8000050000 + push_bit 4 0x80)
   in gate_offset d = 0x8000009abc \<and> gate_dpl d = 3 \<and> gate_present d"
  using constructIDT_gates [of Int0x80Handler "0x08" 0 "0x8E OR 0x60" "0x80"
      "\<lambda>_. 0x8000009abc" "0x8000050000" "\<lambda>_. undefined"]
  by (simp add: constructIDT_calls_def)

subsection \<open>Interrupt masks\<close>

text \<open>The mask register a line belongs to and its bit there.\<close>

definition pic_port :: "u8 \<Rightarrow> u16" where
  "pic_port line = (if line < 8 then PIC1 + 1 else PIC2 + 1)"

definition pic_bit :: "u8 \<Rightarrow> nat" where
  "pic_bit line = unat line mod 8"

lemma pic_line:
  "line < 16 \<Longrightarrow> unat (if line < 8 then line else line - 8) = pic_bit line"
  unfolding pic_bit_def by (simp add: word_less_nat_alt unat_sub_if' word_le_nat_alt) presburger

lemma bit_line_byte:
  "n < 8 \<Longrightarrow> bit (ucast (int_shl1 n) :: u8) k \<longleftrightarrow> k = n"
  by (auto simp: bit_simps c_int_simps)

lemma IRQ_masks_trace:
  "trace (IRQ_clear_mask line w) = trace w @
     [Inb (pic_port line) (dev w (trace w) (pic_port line)),
      Outb (pic_port line) (dev w (trace w) (pic_port line) AND
        NOT (ucast (int_shl1 (unat (if line < 8 then line else line - 8)))))]"
  "trace (IRQ_set_mask line w) = trace w @
     [Inb (pic_port line) (dev w (trace w) (pic_port line)),
      Outb (pic_port line) (dev w (trace w) (pic_port line) AND
        ucast (int_shl1 (unat (if line < 8 then line else line - 8))))]"
  by (simp_all add: IRQ_clear_mask_def IRQ_set_mask_def inb_pair pic_port_def Let_def)

text \<open>\<open>IRQ_clear_mask\<close> writes back the mask it read with exactly the bit of its line
  cleared. \<open>IRQ_set_mask\<close> combines the mask it read with the line's bit by \<open>AND\<close>, so the
  mask it writes has every other line of the controller unmasked, and its own line masked
  only if it already was: it never masks anything.\<close>

theorem IRQ_mask_values:
  assumes "line < 16"
  shows "\<exists>v c s. trace (IRQ_clear_mask line w) = trace w @ [Inb (pic_port line) v, Outb (pic_port line) c] \<and>
      trace (IRQ_set_mask line w) = trace w @ [Inb (pic_port line) v, Outb (pic_port line) s] \<and>
      (\<forall>k. bit c k \<longleftrightarrow> bit v k \<and> k \<noteq> pic_bit line) \<and>
      (\<forall>k. bit s k \<longleftrightarrow> bit v k \<and> k = pic_bit line)"
proof -
  have "pic_bit line < 8" by (simp add: pic_bit_def)
  then show ?thesis
    unfolding IRQ_masks_trace pic_line [OF assms]
    by (auto simp: bit_simps c_int_simps dest: bit_imp_le_length)
qed

theorem IRQ_mask_values_witness:
  "let w = \<lparr>dev = (\<lambda>_ _. 0xF8), dma = (\<lambda>_ _. 0), trace = []\<rparr>
   in \<exists>v c s. trace (IRQ_clear_mask 12 w) = trace w @ [Inb (pic_port 12) v, Outb (pic_port 12) c] \<and>
      trace (IRQ_set_mask 12 w) = trace w @ [Inb (pic_port 12) v, Outb (pic_port 12) s] \<and>
      (\<forall>k. bit c k \<longleftrightarrow> bit v k \<and> k \<noteq> pic_bit 12) \<and>
      (\<forall>k. bit s k \<longleftrightarrow> bit v k \<and> k = pic_bit 12)"
  unfolding Let_def by (rule IRQ_mask_values) simp

end
