(* ===== verification/Chs.thy ===== *)
theory Chs
  imports Idt
begin

section \<open>The floppy driver (chs.c)\<close>

text \<open>
  Sector addressing, the command protocol of the floppy controller and the sector transfers
  built on it. The controller is a device in the sense of \<open>PortIO\<close>: nothing is assumed
  about its answers. The scratch array \<open>aa\<close>, which the C code allocates and frees around a
  command, is a list of bytes here; \<open>aa0\<close> is the byte \<open>malloc\<close> left in its first cell, which
  the code reads when the controller returns no version byte.
\<close>

definition lba_2_chs :: "u32 \<Rightarrow> fault + u8 \<times> u8 \<times> u8" where
  "lba_2_chs lba =
     bindE (DIV64_32 (ucast lba) 36) (\<lambda>c.
     bindE (MOD64_32 (ucast lba) 36) (\<lambda>m.
     bindE (DIV64_32 (ucast m) 18) (\<lambda>h.
     bindE (MOD64_32 (ucast lba) 18) (\<lambda>s.
       Inr (ucast c, ucast h, ucast (s + 1))))))"

text \<open>Registers and commands (enums \<open>FloppyRegs\<close> and \<open>FloppyCommands\<close>).\<close>

definition DIGITAL_OUTPUT_REGISTER :: u16 where "DIGITAL_OUTPUT_REGISTER = 0x3f2"
definition MAIN_STATUS_REGISTER :: u16 where "MAIN_STATUS_REGISTER = 0x3f4"
definition DATA_FIFO :: u16 where "DATA_FIFO = 0x3f5"

definition SPECIFY :: u8 where "SPECIFY = 3"
definition WRITE_DATA :: u8 where "WRITE_DATA = 5"
definition READ_DATA :: u8 where "READ_DATA = 6"
definition RECALIBRATE :: u8 where "RECALIBRATE = 7"
definition SENSE_INTERRUPT :: u8 where "SENSE_INTERRUPT = 8"
definition VERSION :: u8 where "VERSION = 16"
definition CONFIGURE :: u8 where "CONFIGURE = 19"
definition LOCK :: u8 where "LOCK = 20"

lemmas floppy_ports = DIGITAL_OUTPUT_REGISTER_def MAIN_STATUS_REGISTER_def DATA_FIFO_def
lemmas floppy_commands = SPECIFY_def WRITE_DATA_def READ_DATA_def RECALIBRATE_def
  SENSE_INTERRUPT_def VERSION_def CONFIGURE_def LOCK_def

subsection \<open>DMA set-up\<close>

definition initialise_floppy_DMA :: "'a io_scheme \<Rightarrow> 'a io_scheme" where
  "initialise_floppy_DMA w =
     (let transfer_address_start = (0x1000 :: u16);
          transfer_address_end = (0x1000 + 511 :: u16)
      in outbs
        [(0x0a, 0x06),
         (0x0c, 0xff),
         (0x04, ucast (transfer_address_start AND 0xff)),
         (0x04, ucast (drop_bit 8 transfer_address_start AND 0xff)),
         (0x0c, 0xff),
         (0x05, ucast ((transfer_address_end - transfer_address_start) AND 0xff)),
         (0x05, ucast (drop_bit 8 (transfer_address_end - transfer_address_start) AND 0xff)),
         (0x81, 0x0),
         (0x0a, 0x02)] w)"

definition prepare_for_floppy_DMA_write :: "'a io_scheme \<Rightarrow> 'a io_scheme" where
  "prepare_for_floppy_DMA_write w = outbs [(0x0a, 0x06), (0x0b, 0x5a), (0x0a, 0x02)] w"

definition prepare_for_floppy_DMA_read :: "'a io_scheme \<Rightarrow> 'a io_scheme" where
  "prepare_for_floppy_DMA_read w = outbs [(0x0a, 0x06), (0x0b, 0x56), (0x0a, 0x02)] w"

subsection \<open>The command protocol\<close>

text \<open>
  A bounded poll, as the driver writes it: read the status; while it is not ready, wait
  (some loops sleep), count the \<open>uint16_t timeout\<close> down and stop with \<open>ERROR\<close> when it
  reaches zero. The counter that is left is returned, because the last loop of
  \<open>FLOPPY_SEND_COMMAND\<close> goes on with it. \<open>poll_first\<close> is the first loop of that function,
  which reads the status once more before it counts and sleeps.
\<close>

function poll :: "(u8 \<Rightarrow> bool) \<Rightarrow> u64 option \<Rightarrow> fault \<Rightarrow> u16 \<Rightarrow> 'a io_scheme \<Rightarrow>
    fault + u16 \<times> 'a io_scheme" where
  "poll ready slp err timeout w =
     (let (v, w) = inb MAIN_STATUS_REGISTER w
      in if ready v then Inr (timeout, w)
         else let w = (case slp of None \<Rightarrow> w | Some t \<Rightarrow> io_nano_sleep t w);
                  timeout = timeout - 1
              in if timeout = 0 then Inl err else poll ready slp err timeout w)"
  by pat_completeness auto
termination
  by (relation "measure (\<lambda>(_, _, _, t, _). if t = 0 then 65536 else unat t)")
    (auto simp: word_less_nat_alt unat_minus_one unat_gt_0 unat_bounds)

function poll_first :: "fault \<Rightarrow> u8 \<Rightarrow> u16 \<Rightarrow> 'a io_scheme \<Rightarrow> fault + 'a io_scheme" where
  "poll_first err msr timeout w =
     (if msr AND 0xc0 \<noteq> 0x80 then
        let (msr, w) = inb MAIN_STATUS_REGISTER w;
            timeout = timeout - 1;
            w = io_nano_sleep 10000000 w
        in if timeout = 0 then Inl err else poll_first err msr timeout w
      else Inr w)"
  by pat_completeness auto
termination
  by (relation "measure (\<lambda>(_, _, t, _). if t = 0 then 65536 else unat t)")
    (auto simp: word_less_nat_alt unat_minus_one unat_gt_0 unat_bounds)

declare poll.simps [simp del] poll_first.simps [simp del]

fun send_params :: "u8 \<Rightarrow> u8 list \<Rightarrow> 'a io_scheme \<Rightarrow> fault + 'a io_scheme" where
  "send_params cmd [] w = Inr w"
| "send_params cmd (p # ps) w =
     bindE (poll (\<lambda>v. v AND 0xc0 = 0x80) None (ERROR ERR_FSC (ucast cmd)) 1000 w) (\<lambda>(_, w).
       send_params cmd ps (outb DATA_FIFO p w))"

text \<open>The result phase, with room for \<open>n\<close> more bytes (\<open>out1l - out1\<close>).\<close>

fun read_results :: "u8 \<Rightarrow> nat \<Rightarrow> u16 \<Rightarrow> 'a io_scheme \<Rightarrow> fault + u8 list \<times> 'a io_scheme" where
  "read_results cmd n timeout w =
     (let (v, w) = inb MAIN_STATUS_REGISTER w
      in if v AND 0x50 = 0x50 then
           case n of
             0 \<Rightarrow> Inr ([], w)
           | Suc n' \<Rightarrow>
               let (b, w) = inb DATA_FIFO w
               in bindE (poll (\<lambda>v. v AND 0x80 = 0x80) None (ERROR ERR_FSC3 (ucast cmd)) timeout w)
                   (\<lambda>(timeout, w).
                    bindE (read_results cmd n' timeout w) (\<lambda>(bs, w). Inr (b # bs, w)))
         else Inr ([], w))"

declare read_results.simps [simp del]

definition irq6_wait :: "u8 \<Rightarrow> 'a io_scheme \<Rightarrow> 'a io_scheme" where
  "irq6_wait cmd w =
     (if cmd AND NOT 0x40 = READ_DATA \<or> cmd AND NOT 0x40 = WRITE_DATA
      then PIC_sendEOI 6 (io_wait_for_irq 6 0 w)
      else if cmd = RECALIBRATE
      then PIC_sendEOI 6 (io_wait_for_irq 6 3000000000 w)
      else w)"

definition FLOPPY_SEND_COMMAND ::
  "u8 \<Rightarrow> u8 list \<Rightarrow> nat \<Rightarrow> 'a io_scheme \<Rightarrow> fault + u8 list \<times> 'a io_scheme" where
  "FLOPPY_SEND_COMMAND cmd params nout w =
     (let (msr, w) = inb MAIN_STATUS_REGISTER w
      in bindE (poll_first (ERROR ERR_FSCUNIMP (ucast cmd)) msr 1000 w) (\<lambda>w.
         bindE (send_params cmd params (outb DATA_FIFO cmd w)) (\<lambda>w.
         let w = irq6_wait cmd w
         in if nout = 0
            then bindE (poll (\<lambda>v. v AND 0x80 = 0x80) (Some 10000000) (ERROR ERR_FSC4 (ucast cmd)) 1000 w)
                   (\<lambda>(_, w). Inr ([], w))
            else bindE (poll (\<lambda>v. v AND 0x80 = 0x80) (Some 1000000000) (ERROR ERR_FSC2 (ucast cmd)) 10000 w)
                   (\<lambda>(timeout, w). read_results cmd nout timeout w))))"

subsection \<open>Reset, initialisation and transfers\<close>

definition floppy_ctrlrs :: "'a io_scheme \<Rightarrow> fault + 'a io_scheme" where
  "floppy_ctrlrs w =
     (let (dor, w) = inb DIGITAL_OUTPUT_REGISTER w;
          w = outb DIGITAL_OUTPUT_REGISTER 0 w;
          w = io_nano_sleep 4000 w;
          w = outb DIGITAL_OUTPUT_REGISTER dor w;
          w = io_wait_for_irq 6 3000000000 w;
          w = PIC_sendEOI 6 w
      in bindE (FLOPPY_SEND_COMMAND SPECIFY [push_bit 4 8 OR 0, push_bit 1 5] 0 w) (\<lambda>(_, w).
           Inr (outb DIGITAL_OUTPUT_REGISTER dor w)))"

definition floppy_init :: "u8 \<Rightarrow> 'a io_scheme \<Rightarrow> fault + 'a io_scheme" where
  "floppy_init aa0 w =
     bindE (FLOPPY_SEND_COMMAND VERSION [] 1 w) (\<lambda>(out, w).
     bindE (guard ((case out of [] \<Rightarrow> aa0 | b # _ \<Rightarrow> b) = 0x90) (ERROR ERR_FVNS 0)) (\<lambda>_.
     bindE (FLOPPY_SEND_COMMAND CONFIGURE [0, push_bit 6 1 OR push_bit 4 1 OR 7, 0] 0 w) (\<lambda>(_, w).
     bindE (FLOPPY_SEND_COMMAND LOCK [] 1 w) (\<lambda>(_, w).
     bindE (floppy_ctrlrs w) (\<lambda>w.
     bindE (FLOPPY_SEND_COMMAND RECALIBRATE [0] 0 w) (\<lambda>(_, w).
     bindE (FLOPPY_SEND_COMMAND SENSE_INTERRUPT [] 2 w) (\<lambda>(_, w). Inr w)))))))"

record floppy = io +
  fDMA_uninit :: u8
  floppy_in_use :: u32

definition floppy_prepare :: "u8 \<Rightarrow> 'a floppy_scheme \<Rightarrow> fault + 'a floppy_scheme" where
  "floppy_prepare aa0 w =
     (if fDMA_uninit w \<noteq> 0
      then bindE (floppy_init aa0 (initialise_floppy_DMA w)) (\<lambda>w.
             Inr (w\<lparr>fDMA_uninit := 0, floppy_in_use := 0\<rparr>))
      else Inr w)"

definition transfer_params :: "u8 \<times> u8 \<times> u8 \<Rightarrow> u8 \<Rightarrow> u8 list" where
  "transfer_params chs disk =
     (case chs of (c, h, s) \<Rightarrow> [push_bit 2 h OR disk, c, h, s, 2, 36, 0x1b, 0xff])"

definition floppy_read ::
  "u8 \<Rightarrow> u64 \<Rightarrow> u16 \<Rightarrow> u8 \<Rightarrow> 'a floppy_scheme \<Rightarrow> fault + u8 list \<times> 'a floppy_scheme" where
  "floppy_read aa0 LBA len disk w =
     bindE (guard (len = 512) (ERROR ERR_FRLX (ucast len))) (\<lambda>_.
     bindE (floppy_prepare aa0 w) (\<lambda>w.
     bindE (guard (floppy_in_use w \<noteq> 1) (ERROR ERR_FDC_INUSE LBA)) (\<lambda>_.
     let w = prepare_for_floppy_DMA_read (w\<lparr>floppy_in_use := 1\<rparr>) in
     bindE (lba_2_chs (ucast LBA)) (\<lambda>chs.
     bindE (FLOPPY_SEND_COMMAND (READ_DATA OR 0x40) (transfer_params chs disk) 7 w) (\<lambda>(_, w).
     bindE (FLOPPY_SEND_COMMAND SENSE_INTERRUPT [] 2 w) (\<lambda>(_, w).
       Inr (map (dma w (trace w)) [0..<512], w\<lparr>floppy_in_use := 0\<rparr>)))))))"

definition floppy_write ::
  "u8 \<Rightarrow> u64 \<Rightarrow> u16 \<Rightarrow> addr \<times> u8 list \<Rightarrow> u8 \<Rightarrow> 'a floppy_scheme \<Rightarrow> fault + 'a floppy_scheme" where
  "floppy_write aa0 LBA len data disk w =
     bindE (guard (fst data AND 0xFFF = 0) (ERROR ERR_FWDL (fst data))) (\<lambda>_.
     bindE (guard (len = 512) (ERROR ERR_FRLX (ucast len))) (\<lambda>_.
     bindE (floppy_prepare aa0 w) (\<lambda>w.
     bindE (guard (floppy_in_use w \<noteq> 1) (ERROR ERR_FDC_INUSE LBA)) (\<lambda>_.
     let w = prepare_for_floppy_DMA_write (w\<lparr>floppy_in_use := 1\<rparr>) in
     bindE (lba_2_chs (ucast LBA)) (\<lambda>chs.
     let w = emit (DmaFill (take 512 (snd data))) w in
     bindE (FLOPPY_SEND_COMMAND (WRITE_DATA OR 0x40) (transfer_params chs disk) 7 w) (\<lambda>(_, w).
     bindE (FLOPPY_SEND_COMMAND SENSE_INTERRUPT [] 2 w) (\<lambda>(_, w).
       Inr (w\<lparr>floppy_in_use := 0\<rparr>))))))))"

subsection \<open>Sector addresses\<close>

text \<open>The inverse of the geometry: 2 heads of 18 sectors, numbered from 1.\<close>

definition chs_2_lba :: "u8 \<times> u8 \<times> u8 \<Rightarrow> nat" where
  "chs_2_lba chs = (case chs of (c, h, s) \<Rightarrow> 36 * unat c + 18 * unat h + (unat s - 1))"

lemma lba_2_chs_eq:
  "lba_2_chs lba = Inr (of_nat (unat lba div 36), of_nat (unat lba mod 36 div 18),
     of_nat (unat lba mod 18 + 1))"
proof -
  have suc: "(of_nat m + 1 :: u32) = of_nat (Suc m)" for m by simp
  have lt: "unat lba < 4294967296" by (rule unat_bounds)
  then have "unat lba div 36 < 4294967296" "unat lba div 18 < 4294967296"
    "unat lba mod 36 < 4294967296" "unat lba mod 36 div 18 < 4294967296" by linarith+
  then show ?thesis
    using lt unfolding lba_2_chs_def DIV64_32_def MOD64_32_def
    by (simp add: unat_ucast_up unat_of_nat_small ucast_of_nat_down suc del: of_nat_Suc)
qed

text \<open>The address \<open>lba_2_chs\<close> computes for a sector number.\<close>

definition geom :: "nat \<Rightarrow> u8 \<times> u8 \<times> u8" where
  "geom n = (of_nat (n div 36), of_nat (n mod 36 div 18), of_nat (n mod 18 + 1))"

lemma lba_2_chs_geom: "lba_2_chs lba = Inr (geom (unat lba))"
  by (simp add: lba_2_chs_eq geom_def)

lemma chs_2_lba_geom: "n < 36 * 256 \<Longrightarrow> chs_2_lba (geom n) = n"
proof -
  assume n: "n < 36 * 256"
  have d: "n div 36 < 256" "n mod 36 div 18 < 256" "Suc (n mod 18) < 256"
    using n by (simp_all add: less_mult_imp_div_less)
  have "36 * (n div 36) + 18 * (n mod 36 div 18) + n mod 18 = n"
    by (metis (no_types, opaque_lifting) add.assoc div_mult_mod_eq mod_mod_cancel
        mult.commute dvd_triv_left mult_numeral_1_right numeral_times_numeral
        semiring_norm(12) semiring_norm(13) semiring_norm(14))
  then show ?thesis using d by (simp add: geom_def chs_2_lba_def unat_of_nat_small del: of_nat_Suc of_nat_add)
qed

lemma geom_inj: "n < 9216 \<Longrightarrow> m < 9216 \<Longrightarrow> geom n = geom m \<longleftrightarrow> n = m"
proof
  assume n: "n < 9216" and m: "m < 9216" and e: "geom n = geom m"
  have "n = chs_2_lba (geom n)" by (rule chs_2_lba_geom[symmetric]) (use n in simp)
  also have "\<dots> = m" unfolding e by (rule chs_2_lba_geom) (use m in simp)
  finally show "n = m" .
qed simp

text \<open>For every sector number below 256 cylinders (36 * 256; a 1.44 MB disk has 2880)
  \<open>lba_2_chs\<close> returns a cylinder, head and sector that lead back to the sector number, with
  the head below 2 and the sector in 1..18; on a 1.44 MB disk the cylinder is below 80.\<close>

theorem lba_2_chs_roundtrip:
  assumes "unat lba < 36 * 256"
  shows "\<exists>c h s. lba_2_chs lba = Inr (c, h, s) \<and> chs_2_lba (c, h, s) = unat lba \<and>
     h < 2 \<and> 1 \<le> s \<and> s \<le> 18 \<and> (unat lba < 2880 \<longrightarrow> c < 80)"
proof -
  let ?n = "unat lba"
  have h: "?n mod 36 div 18 < 2" by (simp add: less_mult_imp_div_less)
  have d: "?n div 36 < 256" "?n mod 36 div 18 < 256" "Suc (?n mod 18) < 256"
    using assms by (simp_all add: less_mult_imp_div_less)
  show ?thesis
    using d h chs_2_lba_geom[OF assms] unfolding lba_2_chs_eq geom_def
    by (auto simp: unat_of_nat_small word_less_nat_alt word_le_nat_alt simp del: of_nat_Suc of_nat_add)
qed

theorem lba_2_chs_roundtrip_witness:
  "\<exists>c h s. lba_2_chs 2879 = Inr (c, h, s) \<and> chs_2_lba (c, h, s) = 2879 \<and>
     h < 2 \<and> 1 \<le> s \<and> s \<le> 18 \<and> ((2879::nat) < 2880 \<longrightarrow> c < 80)"
  using lba_2_chs_roundtrip [of 2879] by simp

subsection \<open>What a command sends\<close>

text \<open>
  \<open>fifo w\<close> are the bytes sent to the controller so far. Polling sends nothing; the
  interrupt wait only talks to the interrupt controller.
\<close>

definition fifo :: "'a io_scheme \<Rightarrow> u8 list" where
  "fifo w = outs_to DATA_FIFO (trace w)"

lemma fifo_simps [simp]:
  "fifo (outb DATA_FIFO v w) = fifo w @ [v]"
  "p \<noteq> DATA_FIFO \<Longrightarrow> fifo (outb p v w) = fifo w"
  "fifo (emit (Inb p v) w) = fifo w"
  "fifo (emit (DmaFill bs) w) = fifo w"
  "fifo (io_nano_sleep t w) = fifo w"
  "fifo (io_wait_for_irq i t w) = fifo w"
  by (simp_all add: fifo_def)

lemma fifo_irq6_wait [simp]: "fifo (irq6_wait cmd w) = fifo w"
  by (simp add: irq6_wait_def PIC_sendEOI_def PIC1_def DATA_FIFO_def)

text \<open>
  The loops only read the status and sleep: whatever those two events leave alone is the
  same after a loop.
\<close>

lemma poll_preserves:
  assumes emit: "\<And>v w. f (emit (Inb MAIN_STATUS_REGISTER v) w) = f w"
    and sleep: "\<And>u w. f (io_nano_sleep u w) = f w"
    and ret: "poll ready slp err timeout w = Inr (t, w')"
  shows "f w' = f w"
  using ret
proof (induction ready slp err timeout w rule: poll.induct)
  case (1 ready slp err timeout w)
  from "1.prems" show ?case
    by (subst (asm) poll.simps)
      (auto simp: inb_pair Let_def emit sleep split: if_splits option.splits
        dest!: "1.IH" [OF inb_pair [symmetric] refl _ refl refl])
qed

lemma poll_first_preserves:
  assumes emit: "\<And>v w. f (emit (Inb MAIN_STATUS_REGISTER v) w) = f w"
    and sleep: "\<And>u w. f (io_nano_sleep u w) = f w"
    and ret: "poll_first err msr timeout w = Inr w'"
  shows "f w' = f w"
  using ret
proof (induction err msr timeout w rule: poll_first.induct)
  case (1 err msr timeout w)
  from "1.prems" show ?case
    by (subst (asm) poll_first.simps)
      (auto simp: inb_pair Let_def emit sleep split: if_splits
        dest!: "1.IH" [OF _ inb_pair [symmetric] refl refl refl])
qed

lemma send_params_fifo:
  "send_params cmd ps w = Inr w' \<Longrightarrow> fifo w' = fifo w @ ps"
  by (induction ps arbitrary: w)
    (auto simp: bindE_Inr_iff dest!: poll_preserves [where f = fifo, rotated 2])

lemma read_results_fifo:
  "read_results cmd n timeout w = Inr (out, w') \<Longrightarrow> fifo w' = fifo w \<and> length out \<le> n"
proof (induction n arbitrary: timeout w out)
  case (0 timeout w out)
  then show ?case by (subst (asm) read_results.simps) (auto simp: inb_pair Let_def split: if_splits)
next
  case (Suc n timeout w out)
  from Suc.prems show ?case
    by (subst (asm) read_results.simps)
      (fastforce simp: inb_pair Let_def bindE_Inr_iff split: if_splits
        dest!: poll_preserves [where f = fifo, rotated 2] Suc.IH)
qed

lemma FLOPPY_SEND_COMMAND_fifo:
  "FLOPPY_SEND_COMMAND cmd params nout w = Inr (out, w') \<Longrightarrow>
    fifo w' = fifo w @ cmd # params \<and> length out \<le> nout"
  unfolding FLOPPY_SEND_COMMAND_def
  by (fastforce simp: inb_pair Let_def bindE_Inr_iff split: if_splits
      dest!: poll_preserves [where f = fifo, rotated 2]
        poll_first_preserves [where f = fifo, rotated 2] send_params_fifo read_results_fifo)

text \<open>Whatever the controller answers, a command that completes has sent the controller
  exactly the command byte followed by its parameters, in order, and returned no more result
  bytes than the caller made room for.\<close>

theorem FLOPPY_SEND_COMMAND_sends:
  assumes "FLOPPY_SEND_COMMAND cmd params nout w = Inr (out, w')"
  shows "outs_to DATA_FIFO (trace w') = outs_to DATA_FIFO (trace w) @ cmd # params \<and>
    length out \<le> nout"
  using FLOPPY_SEND_COMMAND_fifo [OF assms] by (simp add: fifo_def)

theorem FLOPPY_SEND_COMMAND_sends_witness:
  "let w = \<lparr>dev = (\<lambda>_ _. 0x80), dma = (\<lambda>_ _. 0), trace = []\<rparr>
   in \<exists>out w'. FLOPPY_SEND_COMMAND SPECIFY [128, 10] 0 w = Inr (out, w') \<and>
     outs_to DATA_FIFO (trace w') = [3, 128, 10] \<and> length out \<le> 0"
proof -
  let ?w = "\<lparr>dev = (\<lambda>_ _. 0x80), dma = (\<lambda>_ _. 0), trace = []\<rparr>"
  obtain w' where r: "FLOPPY_SEND_COMMAND SPECIFY [128, 10] 0 ?w = Inr ([], w')"
    by (simp add: FLOPPY_SEND_COMMAND_def inb_pair poll.simps poll_first.simps irq6_wait_def
        floppy_commands PIC_sendEOI_def)
  from FLOPPY_SEND_COMMAND_sends [OF r] r show ?thesis
    by (auto simp: SPECIFY_def)
qed

subsection \<open>A controller that never answers\<close>

lemma poll_first_dead:
  assumes "\<forall>es. dev w es MAIN_STATUS_REGISTER AND 0xc0 \<noteq> 0x80" and "msr AND 0xc0 \<noteq> 0x80"
  shows "poll_first err msr timeout w = Inl err"
  using assms
proof (induction err msr timeout w rule: poll_first.induct)
  case (1 err msr timeout w)
  then show ?case
    by (subst poll_first.simps)
      (simp add: inb_pair Let_def "1.IH" [OF _ inb_pair [symmetric] refl refl refl])
qed

text \<open>A controller whose status never says "ready for a command byte" cannot hang the
  kernel: the bounded poll stops every command with \<open>ERR_FSCUNIMP\<close>, naming the command.\<close>

theorem FLOPPY_SEND_COMMAND_dead:
  assumes "\<forall>es. dev w es MAIN_STATUS_REGISTER AND 0xc0 \<noteq> 0x80"
  shows "FLOPPY_SEND_COMMAND cmd params nout w = Inl (ERROR ERR_FSCUNIMP (ucast cmd))"
  using assms unfolding FLOPPY_SEND_COMMAND_def
  by (simp add: inb_pair Let_def poll_first_dead)

theorem FLOPPY_SEND_COMMAND_dead_witness:
  "FLOPPY_SEND_COMMAND RECALIBRATE [0] 0 \<lparr>dev = (\<lambda>_ _. 0xff), dma = (\<lambda>_ _. 0), trace = []\<rparr>
    = Inl (ERROR ERR_FSCUNIMP 7)"
  using FLOPPY_SEND_COMMAND_dead [of "\<lparr>dev = (\<lambda>_ _. 0xff), dma = (\<lambda>_ _. 0), trace = []\<rparr>"
      RECALIBRATE "[0]" 0]
  by (simp add: RECALIBRATE_def)

subsection \<open>Sector transfers\<close>

lemma floppy_DMA_fifo [simp]:
  "fifo (prepare_for_floppy_DMA_read w) = fifo w"
  "fifo (prepare_for_floppy_DMA_write w) = fifo w"
  by (simp_all add: prepare_for_floppy_DMA_read_def prepare_for_floppy_DMA_write_def DATA_FIFO_def)

lemma fifo_update [simp]:
  "fifo (w\<lparr>floppy_in_use := b\<rparr>) = fifo w"
  "trace (w\<lparr>floppy_in_use := b\<rparr>) = trace w"
  by (simp_all add: fifo_def)

text \<open>The bytes of a transfer of sector \<open>n\<close> of drive \<open>disk\<close>.\<close>

definition transfer_bytes :: "u8 \<Rightarrow> nat \<Rightarrow> u8 \<Rightarrow> u8 list" where
  "transfer_bytes cmd n disk =
     (let h = of_nat (n mod 36 div 18) in
      [cmd OR 0x40, push_bit 2 h OR disk, of_nat (n div 36), h, of_nat (n mod 18 + 1),
       2, 36, 0x1b, 0xff, SENSE_INTERRUPT])"

text \<open>Once the controller is initialised, a completed \<open>floppy_read\<close> of a sector has sent
  one READ command with the sector's head, cylinder and sector number and one SENSE INTERRUPT,
  returns the 512 bytes the controller left in the DMA buffer and releases the driver; while
  another transfer is under way it stops with \<open>ERR_FDC_INUSE\<close> instead.\<close>

theorem floppy_read_transfer:
  assumes "fDMA_uninit w = 0"
  shows "(floppy_in_use w = 1 \<longrightarrow> floppy_read aa0 LBA 512 disk w = Inl (ERROR ERR_FDC_INUSE LBA)) \<and>
    (floppy_read aa0 LBA 512 disk w = Inr (data, w') \<longrightarrow>
       outs_to DATA_FIFO (trace w') = outs_to DATA_FIFO (trace w) @
         transfer_bytes READ_DATA (unat (ucast LBA :: u32)) disk \<and>
       data = map (dma w' (trace w')) [0..<512] \<and> floppy_in_use w' = 0)"
proof (intro conjI impI)
  assume "floppy_in_use w = 1"
  with assms show "floppy_read aa0 LBA 512 disk w = Inl (ERROR ERR_FDC_INUSE LBA)"
    by (simp add: floppy_read_def floppy_prepare_def)
next
  assume "floppy_read aa0 LBA 512 disk w = Inr (data, w')"
  then show "outs_to DATA_FIFO (trace w') = outs_to DATA_FIFO (trace w) @
      transfer_bytes READ_DATA (unat (ucast LBA :: u32)) disk"
    and "data = map (dma w' (trace w')) [0..<512]" and "floppy_in_use w' = 0"
    using assms unfolding floppy_read_def floppy_prepare_def
    by (auto simp: bindE_Inr_iff lba_2_chs_eq transfer_params_def transfer_bytes_def Let_def
        simp flip: fifo_def simp del: of_nat_Suc of_nat_add dest!: FLOPPY_SEND_COMMAND_fifo)
qed

theorem floppy_read_transfer_witness:
  "let w = \<lparr>dev = (\<lambda>_ _. 0x80), dma = (\<lambda>_ i. of_nat i), trace = [],
             fDMA_uninit = 0, floppy_in_use = 0\<rparr>
   in \<exists>data w'. floppy_read 0 127 512 0 w = Inr (data, w') \<and>
        outs_to DATA_FIFO (trace w') = [0x46, 4, 3, 1, 2, 2, 36, 0x1b, 0xff, 8] \<and>
        data = map of_nat [0..<512] \<and> floppy_in_use w' = 0"
proof -
  let ?w = "\<lparr>dev = (\<lambda>_ _. 0x80), dma = (\<lambda>_ i. of_nat i), trace = [],
             fDMA_uninit = 0, floppy_in_use = 0\<rparr>"
  obtain data w' where r: "floppy_read 0 127 512 0 ?w = Inr (data, w')"
    and d: "dma w' = (\<lambda>_ i. of_nat i)"
    by (simp add: floppy_read_def floppy_prepare_def FLOPPY_SEND_COMMAND_def inb_pair poll.simps
        poll_first.simps read_results.simps irq6_wait_def floppy_commands PIC_sendEOI_def
        lba_2_chs_eq transfer_params_def prepare_for_floppy_DMA_read_def Let_def)
  have "fDMA_uninit ?w = 0" by simp
  from floppy_read_transfer [OF this, of 0 127 0 data w'] r d show ?thesis
    by (simp add: transfer_bytes_def floppy_commands Let_def)
qed

end
