(* ===== verification/Kmem.thy ===== *)
theory Kmem
  imports Prelude
begin

section \<open>Kernel memory and the page pool (page.c, headers/addresses.h)\<close>

text \<open>
  Kernel virtual memory is a function from the byte address of a quad to its value: the
  kernel data structures of \<open>page.c\<close> and \<open>malloc.c\<close> are arrays of \<open>uint64_t\<close> and every
  access to them is an aligned quad. \<open>KPALLOC\<close> hands out 4 KiB pages from the pool at
  \<open>MBASE+0x16000\<close>, an array of 512 page addresses in which 0 marks an empty slot. When it
  had to look as far as slot 32 it refills the first 64 slots with \<open>KP_ALLOC3\<close>, which maps
  a new page; that function is an argument here, so that the pool can be studied apart from
  the page tables.
\<close>

definition CBASE :: addr where "CBASE = 0x8000000000"
definition MBASE :: addr where "MBASE = CBASE + 0x20000"

record kmem =
  mem :: "addr \<Rightarrow> u64"

definition ldq :: "'a kmem_scheme \<Rightarrow> addr \<Rightarrow> u64" where
  "ldq s a = mem s a"

definition stq :: "addr \<Rightarrow> u64 \<Rightarrow> 'a kmem_scheme \<Rightarrow> 'a kmem_scheme" where
  "stq a v s = s\<lparr>mem := (mem s)(a := v)\<rparr>"

text \<open>The page of an address, and the quads of a page.\<close>

definition page_of :: "addr \<Rightarrow> addr" where
  "page_of a = a AND NOT 0xfff"

definition page_aligned :: "addr \<Rightarrow> bool" where
  "page_aligned p \<longleftrightarrow> p AND 0xfff = 0"

text \<open>\<open>memfill(p, 0x1000)\<close> clears a page.\<close>

definition memfill_page :: "addr \<Rightarrow> 'a kmem_scheme \<Rightarrow> 'a kmem_scheme" where
  "memfill_page p s = s\<lparr>mem := (\<lambda>a. if a - p < 0x1000 then 0 else mem s a)\<rparr>"

subsection \<open>KPALLOC\<close>

record kpool = kmem +
  PA_CALLING :: u8

definition POOL :: addr where "POOL = MBASE + 0x16000"

definition slot :: "nat \<Rightarrow> addr" where
  "slot i = POOL + 8 * of_nat i"

text \<open>
  The scan for the first non-empty slot: the page found (0 when there is none) and the last
  index looked at (\<open>AN\<close>).
\<close>

fun pool_scan :: "'a kpool_scheme \<Rightarrow> nat \<Rightarrow> nat \<Rightarrow> u64 \<times> nat" where
  "pool_scan s i 0 = (0, i - 1)"
| "pool_scan s i (Suc n) =
     (if ldq s (slot i) \<noteq> 0 then (ldq s (slot i), i) else pool_scan s (Suc i) n)"

fun refill :: "('a kpool_scheme \<Rightarrow> fault + addr \<times> 'a kpool_scheme) \<Rightarrow> nat \<Rightarrow> nat \<Rightarrow>
    'a kpool_scheme \<Rightarrow> fault + 'a kpool_scheme" where
  "refill kp_alloc3 i 0 s = Inr s"
| "refill kp_alloc3 i (Suc n) s =
     (if ldq s (slot i) \<noteq> 0 then refill kp_alloc3 (Suc i) n s
      else bindE (kp_alloc3 s) (\<lambda>(p, s). refill kp_alloc3 (Suc i) n (stq (slot i) p s)))"

definition KPALLOC :: "('a kpool_scheme \<Rightarrow> fault + addr \<times> 'a kpool_scheme) \<Rightarrow>
    'a kpool_scheme \<Rightarrow> fault + addr \<times> 'a kpool_scheme" where
  "KPALLOC kp_alloc3 s =
     (let (k, AN) = pool_scan s 0 512;
          s = (if k \<noteq> 0 then stq (slot AN) 0 s else s)
      in bindE (guard (k \<noteq> 0) (ERROR ERR_KPALLOC_NOFREE 0)) (\<lambda>_.
         bindE (if 32 \<le> AN \<and> PA_CALLING s = 0 then refill kp_alloc3 0 64 s else Inr s) (\<lambda>s.
           Inr (k, memfill_page k s))))"

subsection \<open>Loads and stores\<close>

lemma ldq_stq [simp]: "ldq (stq a v s) b = (if b = a then v else ldq s b)"
  by (simp add: ldq_def stq_def)

lemma ldq_memfill_page: "ldq (memfill_page p s) a = (if a - p < 0x1000 then 0 else ldq s a)"
  by (simp add: ldq_def memfill_page_def)

lemma PA_CALLING_stq [simp]:
  "PA_CALLING (stq a v s) = PA_CALLING s"
  "PA_CALLING (memfill_page p s) = PA_CALLING s"
  by (simp_all add: stq_def memfill_page_def)

lemma page_of_aligned [simp]: "page_aligned (page_of a)"
  by (simp add: page_of_def page_aligned_def and.assoc)

lemma page_split: "page_of a + (a AND 0xfff) = a"
proof -
  have "(a AND NOT 0xfff) AND (a AND 0xfff) = 0" by (simp add: bit_eq_iff bit_simps)
  moreover have "(a AND NOT 0xfff) OR (a AND 0xfff) = a" by (auto simp: bit_eq_iff bit_simps)
  ultimately show ?thesis
    using word_plus_and_or [of "a AND NOT 0xfff" "a AND 0xfff"] by (simp add: page_of_def)
qed

lemma low_bits_less: "a AND 0xfff < (0x1000 :: addr)"
  by (simp add: word_less_nat_alt and_mask_literals)

lemma low_bits_id: "(d :: addr) < 0x1000 \<Longrightarrow> d AND 0xfff = d"
  by (simp add: word_unat_eq_iff and_mask_literals word_less_nat_alt)

lemma page_of_offset:
  assumes p: "page_aligned p" and d: "d < 0x1000"
  shows "page_of (p + d) = p"
proof -
  have "p AND d = (p AND 0xfff) AND d"
    using low_bits_id [OF d] by (metis and.assoc and.commute)
  then have pd: "p AND d = 0" using p by (simp only: page_aligned_def bit.conj_zero_left)
  then have "p + d = p OR d" using word_plus_and_or [of p d] by simp
  moreover have "p AND NOT 0xfff = p" using page_split [of p] p by (simp add: page_aligned_def page_of_def)
  moreover have "d AND NOT 0xfff = 0"
    by (subst low_bits_id [OF d, symmetric]) (simp add: and.assoc)
  ultimately show ?thesis by (simp add: page_of_def bit.conj_disj_distrib2)
qed

lemma page_of_iff:
  assumes "page_aligned p"
  shows "page_of a = p \<longleftrightarrow> a - p < 0x1000"
proof
  assume "page_of a = p"
  then have "a - p = a AND 0xfff" using page_split [of a] by (metis add_diff_cancel_left')
  then show "a - p < 0x1000" using low_bits_less by simp
next
  assume "a - p < 0x1000"
  from page_of_offset [OF assms this] show "page_of a = p" by simp
qed

lemma page_of_self [simp]: "page_aligned p \<Longrightarrow> page_of p = p"
  by (simp add: page_of_iff)

lemma ldq_memfill: "page_aligned p \<Longrightarrow>
    ldq (memfill_page p s) a = (if page_of a = p then 0 else ldq s a)"
  by (simp add: ldq_memfill_page page_of_iff)

subsection \<open>The pool\<close>

lemma POOL_aligned [simp]: "page_aligned POOL"
  by (simp add: page_aligned_def POOL_def MBASE_def CBASE_def)

lemma slot_page: "i < 512 \<Longrightarrow> page_of (slot i) = POOL"
  unfolding slot_def
  by (rule page_of_offset) (simp_all add: word_less_nat_alt unat_word_ariths unat_of_nat_small)

lemma slot_inj: "i < 512 \<Longrightarrow> j < 512 \<Longrightarrow> slot i = slot j \<longleftrightarrow> i = j"
proof -
  assume "i < 512" "j < 512"
  moreover have "unat (8 * of_nat k :: addr) = 8 * k" if "k < 512" for k
    using that by (simp add: unat_word_ariths unat_of_nat_small)
  ultimately show ?thesis unfolding slot_def by (metis add_left_cancel mult_left_cancel zero_neq_numeral)
qed

lemma pool_scan_spec:
  "pool_scan s i n = (k, AN) \<Longrightarrow> k \<noteq> 0 \<Longrightarrow>
    i \<le> AN \<and> AN < i + n \<and> k = ldq s (slot AN) \<and> (\<forall>j. i \<le> j \<and> j < AN \<longrightarrow> ldq s (slot j) = 0)"
proof (induction s i n rule: pool_scan.induct)
  case (2 s i n)
  show ?case
  proof (cases "ldq s (slot i) = 0")
    case True
    with 2 have ih: "Suc i \<le> AN \<and> AN < Suc i + n \<and> k = ldq s (slot AN) \<and>
        (\<forall>j. Suc i \<le> j \<and> j < AN \<longrightarrow> ldq s (slot j) = 0)" by simp
    have "ldq s (slot j) = 0" if "i \<le> j" "j < AN" for j
      using that ih True by (cases "j = i") auto
    with ih show ?thesis by simp
  qed (use 2 in auto)
qed simp

lemma KPALLOC_first:
  assumes "k \<noteq> 0" and "AN < 32" and "ldq s (slot AN) = k" and "\<And>j. j < AN \<Longrightarrow> ldq s (slot j) = 0"
  shows "KPALLOC kp_alloc3 s = Inr (k, memfill_page k (stq (slot AN) 0 s))"
proof -
  have "pool_scan s i (n + 1 + (AN - i)) = (k, AN)" if "i \<le> AN" for i n
    using that
  proof (induction "AN - i" arbitrary: i)
    case 0
    with assms(1,3) show ?case by simp
  next
    case (Suc d)
    then have "i < AN" "d = AN - Suc i" by simp_all
    with Suc.hyps(1) [of "Suc i"] assms(4) [of i] Suc.hyps(2) [symmetric] show ?case by simp
  qed
  from this [of 0 "511 - AN"] assms(2) have "pool_scan s 0 512 = (k, AN)" by simp
  with assms(1,2) show ?thesis by (simp add: KPALLOC_def Let_def)
qed

subsection \<open>Interfaces\<close>

text \<open>
  What the heap relies on. \<open>held s U\<close> says that the pages \<open>U\<close> are handed out in state
  \<open>s\<close>: a page the source returns is none of them, comes cleared, and the contents of the
  pages of \<open>U\<close> survive the call. The owner of \<open>U\<close> may write to them.
\<close>

locale page_source =
  fixes kpalloc :: "'s \<Rightarrow> fault + addr \<times> 's"
    and ld :: "'s \<Rightarrow> addr \<Rightarrow> u64"
    and st :: "addr \<Rightarrow> u64 \<Rightarrow> 's \<Rightarrow> 's"
    and fill :: "addr \<Rightarrow> 's \<Rightarrow> 's"
    and held :: "'s \<Rightarrow> addr set \<Rightarrow> bool"
  assumes fresh: "held s U \<Longrightarrow> kpalloc s = Inr (p, s') \<Longrightarrow>
      page_aligned p \<and> p \<noteq> 0 \<and> p \<notin> U \<and> held s' (insert p U)"
    and zeroed: "held s U \<Longrightarrow> kpalloc s = Inr (p, s') \<Longrightarrow> page_of a = p \<Longrightarrow> ld s' a = 0"
    and kept: "held s U \<Longrightarrow> kpalloc s = Inr (p, s') \<Longrightarrow> page_of a \<in> U \<Longrightarrow> ld s' a = ld s a"
    and owner_writes: "held s U \<Longrightarrow> page_of a \<in> U \<Longrightarrow> held (st a v s) U"
    and owner_reads: "held s U \<Longrightarrow> page_of a \<in> U \<Longrightarrow> page_of b \<in> U \<Longrightarrow>
      ld (st a v s) b = (if b = a then v else ld s b)"
    and owner_fills: "held s U \<Longrightarrow> p \<in> U \<Longrightarrow> page_aligned p \<Longrightarrow> held (fill p s) U"
    and fill_reads: "held s U \<Longrightarrow> p \<in> U \<Longrightarrow> page_aligned p \<Longrightarrow> page_of b \<in> U \<Longrightarrow>
      ld (fill p s) b = (if page_of b = p then 0 else ld s b)"

text \<open>The pool's own state: every page in it is free, and no page is in it twice.\<close>

definition pool_held :: "'a kpool_scheme \<Rightarrow> addr set \<Rightarrow> bool" where
  "pool_held s U \<longleftrightarrow> POOL \<notin> U \<and>
     (\<forall>i<512. ldq s (slot i) \<noteq> 0 \<longrightarrow>
        page_aligned (ldq s (slot i)) \<and> ldq s (slot i) \<notin> U \<and> ldq s (slot i) \<noteq> POOL \<and>
        (\<forall>j<512. j \<noteq> i \<longrightarrow> ldq s (slot j) \<noteq> ldq s (slot i)))"

lemma pool_heldI:
  assumes "POOL \<notin> U"
    and "\<And>i. i < 512 \<Longrightarrow> ldq s (slot i) \<noteq> 0 \<Longrightarrow>
      page_aligned (ldq s (slot i)) \<and> ldq s (slot i) \<notin> U \<and> ldq s (slot i) \<noteq> POOL"
    and "\<And>i j. i < 512 \<Longrightarrow> j < 512 \<Longrightarrow> i \<noteq> j \<Longrightarrow> ldq s (slot i) \<noteq> 0 \<Longrightarrow>
      ldq s (slot j) \<noteq> ldq s (slot i)"
  shows "pool_held s U"
  using assms by (auto simp: pool_held_def)

lemma pool_heldD:
  assumes "pool_held s U"
  shows "POOL \<notin> U"
    and "i < 512 \<Longrightarrow> ldq s (slot i) \<noteq> 0 \<Longrightarrow>
      page_aligned (ldq s (slot i)) \<and> ldq s (slot i) \<notin> U \<and> ldq s (slot i) \<noteq> POOL"
    and "i < 512 \<Longrightarrow> j < 512 \<Longrightarrow> i \<noteq> j \<Longrightarrow> ldq s (slot i) \<noteq> 0 \<Longrightarrow>
      ldq s (slot j) \<noteq> ldq s (slot i)"
  using assms by (auto simp: pool_held_def)

lemma pool_held_take:
  assumes h: "pool_held s U" and i: "i < 512" and k: "ldq s (slot i) = k" "k \<noteq> 0"
  shows "page_aligned k \<and> k \<notin> U \<and> k \<noteq> POOL \<and> pool_held (stq (slot i) 0 s) (insert k U)"
proof -
  have kp: "page_aligned k" "k \<notin> U" "k \<noteq> POOL" using pool_heldD(2) [OF h i] k by auto
  have other: "ldq s (slot j) \<noteq> k" if "j < 512" "j \<noteq> i" for j
    using pool_heldD(3) [OF h i that(1)] that(2) k by auto
  have "pool_held (stq (slot i) 0 s) (insert k U)"
    by (rule pool_heldI)
      (use kp other pool_heldD [OF h] i in \<open>auto simp: slot_inj split: if_splits\<close>)
  with kp show ?thesis by simp
qed

lemma pool_held_cong:
  assumes "pool_held s U" and "\<And>i. i < 512 \<Longrightarrow> ldq s' (slot i) = ldq s (slot i)"
  shows "pool_held s' U"
  by (rule pool_heldI) (use assms(2) pool_heldD [OF assms(1)] in simp_all)

text \<open>
  What \<open>KPALLOC\<close> relies on when it refills the pool: \<open>KP_ALLOC3\<close> maps a page that is
  neither handed out nor in the pool.
\<close>

locale page_mapper =
  fixes kp_alloc3 :: "'a kpool_scheme \<Rightarrow> fault + addr \<times> 'a kpool_scheme"
  assumes mapped: "pool_held s U \<Longrightarrow> kp_alloc3 s = Inr (p, s') \<Longrightarrow>
      page_aligned p \<and> p \<noteq> 0 \<and> p \<notin> U \<and> p \<noteq> POOL \<and> pool_held s' (insert p U)"
    and unmoved: "pool_held s U \<Longrightarrow> kp_alloc3 s = Inr (p, s') \<Longrightarrow> page_of a \<in> U \<Longrightarrow> ldq s' a = ldq s a"
begin

lemma pool_held_drop: "pool_held s (insert p U) \<Longrightarrow> pool_held s U"
  by (auto simp: pool_held_def)

lemma refill_held:
  assumes "pool_held s U" and "refill kp_alloc3 i n s = Inr s'" and "i + n \<le> 512"
  shows "pool_held s' U \<and> (\<forall>a. page_of a \<in> U \<longrightarrow> ldq s' a = ldq s a)"
  using assms
proof (induction n arbitrary: i s)
  case (Suc n)
  show ?case
  proof (cases "ldq s (slot i) = 0")
    case False
    then show ?thesis using Suc.IH [of s "Suc i"] Suc.prems by simp
  next
    case True
    with Suc.prems(2) obtain p s1 where a: "kp_alloc3 s = Inr (p, s1)"
      and r: "refill kp_alloc3 (Suc i) n (stq (slot i) p s1) = Inr s'"
      by (auto simp: bindE_Inr_iff)
    have m: "page_aligned p" "p \<noteq> 0" "p \<notin> U" "p \<noteq> POOL" "pool_held s1 (insert p U)"
      using mapped [OF Suc.prems(1) a] by auto
    have i: "i < 512" using Suc.prems(3) by simp
    have "pool_held (stq (slot i) p s1) U"
      using m i by (auto simp: pool_held_def slot_inj)
    from Suc.IH [OF this r] Suc.prems(3)
    have ih: "pool_held s' U" "\<And>a. page_of a \<in> U \<Longrightarrow> ldq s' a = ldq (stq (slot i) p s1) a" by auto
    have "ldq (stq (slot i) p s1) a = ldq s a" if "page_of a \<in> U" for a
      using that Suc.prems(1) unmoved [OF Suc.prems(1) a that] slot_page [OF i]
      by (auto simp: pool_held_def)
    with ih show ?thesis by simp
  qed
qed simp

end

sublocale page_mapper \<subseteq> pool: page_source "KPALLOC kp_alloc3" ldq stq memfill_page pool_held
proof
  fix s s' :: "'a kpool_scheme" and U p a and v :: u64
  show "pool_held (stq a v s) U" if "pool_held s U" "page_of a \<in> U"
    by (rule pool_held_cong [OF that(1)])
      (use that slot_page pool_heldD(1) [OF that(1)] in auto)
  show "ldq (stq a v s) b = (if b = a then v else ldq s b)" for b by simp
  show "pool_held (memfill_page p s) U" if "pool_held s U" "p \<in> U" "page_aligned p"
    by (rule pool_held_cong [OF that(1)])
      (use that slot_page pool_heldD(1) [OF that(1)] in \<open>auto simp: ldq_memfill\<close>)
  show "ldq (memfill_page p s) b = (if page_of b = p then 0 else ldq s b)" if "page_aligned p" for b
    using that by (simp add: ldq_memfill)
next
  fix s s' :: "'a kpool_scheme" and U p a and v :: u64
  assume h: "pool_held s U" and r: "KPALLOC kp_alloc3 s = Inr (p, s')"
  obtain k AN where sc: "pool_scan s 0 512 = (k, AN)" by fastforce
  let ?s0 = "stq (slot AN) 0 s"
  from r sc have k: "k \<noteq> 0" and "p = k" by (auto simp: KPALLOC_def bindE_Inr_iff Let_def split: if_splits)
  with r sc obtain s1 where
      rf: "(if 32 \<le> AN \<and> PA_CALLING ?s0 = 0 then refill kp_alloc3 0 64 ?s0 else Inr ?s0) = Inr s1"
    and s': "s' = memfill_page k s1"
    by (auto simp: KPALLOC_def bindE_Inr_iff Let_def split: if_splits)
  have AN: "AN < 512" "ldq s (slot AN) = k" using pool_scan_spec [OF sc k] by auto
  have kp: "page_aligned k" "k \<notin> U" "k \<noteq> POOL" and h0: "pool_held ?s0 (insert k U)"
    using pool_held_take [OF h AN k] by auto
  have h1: "pool_held s1 (insert k U) \<and> (\<forall>a. page_of a \<in> insert k U \<longrightarrow> ldq s1 a = ldq ?s0 a)"
  proof (cases "32 \<le> AN \<and> PA_CALLING ?s0 = 0")
    case True
    with rf have "refill kp_alloc3 0 64 ?s0 = Inr s1" by simp
    from refill_held [OF h0 this] show ?thesis by simp
  next
    case False
    with rf have "s1 = ?s0" by (simp only: if_False sum.inject)
    with h0 show ?thesis by simp
  qed
  have "pool_held s' (insert k U)"
    by (rule pool_held_cong [OF h1 [THEN conjunct1]]) (use kp slot_page in \<open>auto simp: s' ldq_memfill\<close>)
  then show "page_aligned p \<and> p \<noteq> 0 \<and> p \<notin> U \<and> pool_held s' (insert p U)"
    using kp k \<open>p = k\<close> by simp
  show "ldq s' a = 0" if "page_of a = p"
    using that kp by (simp add: s' \<open>p = k\<close> ldq_memfill)
  show "ldq s' a = ldq s a" if "page_of a \<in> U"
    using that kp h1 [THEN conjunct2, rule_format, of a] slot_page [OF AN(1)] pool_heldD(1) [OF h]
    by (auto simp: s' ldq_memfill)
qed

end
