(* ===== verification/Malloc.thy ===== *)
theory Malloc
  imports Kmem
begin

section \<open>The kernel heap (malloc.c)\<close>

text \<open>
  The heap is a chain of table pages. Quads 2i and 2i+1 of a table (i < 255) are an entry: a
  bitmap of free 64-byte chunks and the address of the data page it describes (0 while there
  is none); quad 511 links to the next table. An allocation takes a run of chunks of one page,
  the first of which ends with three bookkeeping quads: the run length, the index of its last
  chunk and the address of the entry's page pointer.

  \<open>malloc\<close> has an option result: \<open>None\<close> means that the loop over the tables never ends (a
  cyclic chain). The bit masks are computed as the compiled code computes them (see
  \<open>int_shl1\<close>): \<open>1 << size\<close> and \<open>1 << j\<close> are 32-bit shifts.
\<close>

record kheap = kpool +
  ml1 :: addr

definition initMalloc :: "('a kheap_scheme \<Rightarrow> fault + addr \<times> 'a kheap_scheme) \<Rightarrow>
    'a kheap_scheme \<Rightarrow> fault + 'a kheap_scheme" where
  "initMalloc kpalloc s =
     bindE (kpalloc s) (\<lambda>(p, s).
       let s = s\<lparr>ml1 := p\<rparr>;
           s = stq (ml1 s + 8 * 511) 0 s
       in Inr (stq (ml1 s + 8 * 510) 0 s))"

definition sizemask :: "nat \<Rightarrow> u64" where
  "sizemask n = sx64 (int_shl1 n - 1)"

definition bit_test :: "u64 \<Rightarrow> nat \<Rightarrow> bool" where
  "bit_test bm j \<longleftrightarrow> bm AND sx64 (int_shl1 j) \<noteq> 0"

text \<open>A 64-bit shift takes its count modulo 64.\<close>

definition shl64 :: "u64 \<Rightarrow> u64 \<Rightarrow> u64" where
  "shl64 w n = push_bit (unat n mod 64) w"

text \<open>The inner loop over the bits of an entry, from bit \<open>j\<close> on with \<open>m\<close> bits matched.\<close>

fun find_run :: "u64 \<Rightarrow> nat \<Rightarrow> nat \<Rightarrow> nat \<Rightarrow> nat \<Rightarrow> nat option" where
  "find_run bm sz j 0 m = None"
| "find_run bm sz j (Suc n) m =
     (if bit_test bm j
      then if m + 1 = sz then Some j else find_run bm sz (Suc j) n (m + 1)
      else find_run bm sz (Suc j) n 0)"

datatype search = Found addr nat | NotFound addr

definition entry :: "addr \<Rightarrow> nat \<Rightarrow> addr" where
  "entry t i = t + of_nat (16 * i)"

fun scan_table :: "'a kheap_scheme \<Rightarrow> nat \<Rightarrow> addr \<Rightarrow> nat \<Rightarrow> nat \<Rightarrow> addr \<Rightarrow> search" where
  "scan_table s sz mcp i 0 NA = NotFound NA"
| "scan_table s sz mcp i (Suc n) NA =
     (let e = entry mcp i in
      if ldq s (e + 8) = 0 then scan_table s sz mcp (Suc i) n (if NA = 0 then e else NA)
      else if sizemask sz \<le> ldq s e then
        (case find_run (ldq s e) sz 0 64 0 of
           Some j \<Rightarrow> Found e j
         | None \<Rightarrow> scan_table s sz mcp (Suc i) n NA)
      else scan_table s sz mcp (Suc i) n NA)"

text \<open>
  The loop over the tables. It moves on before it tests the link of the table it moved to,
  so the last table of a chain of two or more is never searched.
\<close>

partial_function (option) scan_chain ::
  "'a kheap_scheme \<Rightarrow> nat \<Rightarrow> addr \<Rightarrow> addr \<Rightarrow> (search \<times> addr) option" where
  "scan_chain s sz mcp NA =
     (case scan_table s sz mcp 0 255 NA of
        Found e j \<Rightarrow> Some (Found e j, mcp)
      | NotFound NA \<Rightarrow>
          let mcp = (if ldq s (mcp + 0xff8) \<noteq> 0 then ldq s (mcp + 0xff8) else mcp)
          in if ldq s (mcp + 0xff8) \<noteq> 0 then scan_chain s sz mcp NA
             else Some (NotFound NA, mcp))"

text \<open>Rounding the request to chunks and adding the one for the bookkeeping.\<close>

definition chunks :: "u64 \<Rightarrow> fault + nat" where
  "chunks sz =
     bindE (guard (sz \<noteq> 0) (ERROR ERR_MALLOC_SIZE0 0)) (\<lambda>_.
     bindE (MOD64_32 sz 64) (\<lambda>m.
     let sz = (if m \<noteq> 0 then sz + ucast (64 - m) else sz) in
     bindE (guard (sz < 4096 - 64) (ERROR ERR_MALLOC_SIZEMAX 0)) (\<lambda>_.
     bindE (DIV64_32 sz 64) (\<lambda>d. Inr (unat d + 1)))))"

text \<open>The three bookkeeping quads before the returned address.\<close>

definition put_header :: "addr \<Rightarrow> addr \<Rightarrow> u64 \<Rightarrow> u64 \<Rightarrow> 'a kheap_scheme \<Rightarrow> 'a kheap_scheme" where
  "put_header p e j n s = stq (p - 24) n (stq (p - 16) j (stq (p - 8) (e + 8) s))"

definition take_found :: "addr \<Rightarrow> nat \<Rightarrow> nat \<Rightarrow> 'a kheap_scheme \<Rightarrow> fault + addr \<times> 'a kheap_scheme" where
  "take_found e j sz s =
     (let sh = of_nat j - of_nat sz + 1;
          m = shl64 (sizemask sz) sh
      in bindE (guard (NOT (ldq s e) AND m = 0) (ERROR ERR_FREE_SIZEMISMATCH (ldq s e))) (\<lambda>_.
         let s = stq e (ldq s e XOR m) s;
             p = ldq s (e + 8) + sh * 64 + 64
         in bindE (guard (p + of_nat sz * 8 - 64 \<le> ldq s (e + 8) + 0x1000)
                     (ERROR ERR_MALLOC_OVERALLOC p)) (\<lambda>_.
            Inr (p, put_header p e (of_nat j) (of_nat sz) s))))"

definition new_entry :: "('a kheap_scheme \<Rightarrow> fault + addr \<times> 'a kheap_scheme) \<Rightarrow> addr \<Rightarrow> addr \<Rightarrow>
    'a kheap_scheme \<Rightarrow> fault + addr \<times> 'a kheap_scheme" where
  "new_entry kpalloc NA mcp s =
     (if NA = 0
      then bindE (kpalloc s) (\<lambda>(t, s).
             let s = stq (mcp + 0xff8) t s;
                 s = memfill_page (ldq s (mcp + 0xff8)) s
             in Inr (ldq s (mcp + 0xff8), s))
      else Inr (NA, s))"

definition take_new :: "('a kheap_scheme \<Rightarrow> fault + addr \<times> 'a kheap_scheme) \<Rightarrow> addr \<Rightarrow> nat \<Rightarrow>
    'a kheap_scheme \<Rightarrow> fault + addr \<times> 'a kheap_scheme" where
  "take_new kpalloc NA sz s =
     (let s = stq NA (- 1 XOR sizemask sz) s
      in bindE (kpalloc s) (\<lambda>(d, s).
         let s = stq (NA + 8) d s;
             s = memfill_page (ldq s (NA + 8)) s;
             p = ldq s (NA + 8) + 64
         in Inr (p, put_header p NA (of_nat sz - 1) (of_nat sz) s)))"

definition malloc :: "('a kheap_scheme \<Rightarrow> fault + addr \<times> 'a kheap_scheme) \<Rightarrow> u64 \<Rightarrow>
    'a kheap_scheme \<Rightarrow> (fault + addr \<times> 'a kheap_scheme) option" where
  "malloc kpalloc sz s =
     (case chunks sz of
        Inl e \<Rightarrow> Some (Inl e)
      | Inr n \<Rightarrow>
          (case scan_chain s n (ml1 s) 0 of
             None \<Rightarrow> None
           | Some (Found e j, _) \<Rightarrow> Some (take_found e j n s)
           | Some (NotFound NA, mcp) \<Rightarrow>
               Some (bindE (new_entry kpalloc NA mcp s) (\<lambda>(NA, s). take_new kpalloc NA n s))))"

definition free :: "addr \<Rightarrow> 'a kheap_scheme \<Rightarrow> fault + 'a kheap_scheme" where
  "free ptr s =
     bindE (guard (ptr \<noteq> 0) (ERROR ERR_FREE_INVALID_PTR ptr)) (\<lambda>_.
     let bitmaskptr = ldq s (ptr - 8) - 8 in
     bindE (guard (bitmaskptr \<noteq> 0) (ERROR ERR_FREE_INVALID_PTR2 ptr)) (\<lambda>_.
     let j = ldq s (ptr - 16); sz = ldq s (ptr - 24) in
     bindE (guard (sz \<noteq> 0) (ERROR ERR_DOUBLE_FREE ptr)) (\<lambda>_.
     let m = shl64 (sizemask (unat sz)) (j - sz + 1) in
     bindE (guard (ldq s bitmaskptr AND m = 0)
              (ERROR ERR_FREE_BADMETADATA (ldq s bitmaskptr AND m))) (\<lambda>_.
     let s = stq bitmaskptr (ldq s bitmaskptr XOR m) s;
         s = stq (ptr - 24) 0 s;
         s = stq (ptr - 16) 0 s
     in Inr (stq (ptr - 8) 0 s)))))"


subsection \<open>Bit masks\<close>

lemma sizemask_small: "n < 32 \<Longrightarrow> sizemask n = mask n"
proof -
  assume n: "n < 32"
  have "int_shl1 n - 1 = (mask n :: u32)" using n by (simp add: int_shl1_def push_bit_eq_mult mask_eq_exp_minus_1)
  then show ?thesis using n by (simp add: sizemask_def) (rule bit_word_eqI; auto simp: bit_simps c_int_simps)
qed

lemma bit_shl_mask:
  "n < 32 \<Longrightarrow> lo < 64 \<Longrightarrow>
    bit (shl64 (sizemask n) (of_nat lo)) k \<longleftrightarrow> k < 64 \<and> lo \<le> k \<and> k < lo + n"
  by (auto simp: shl64_def sizemask_small unat_of_nat bit_simps)

lemma run_start:
  assumes "n \<le> j + 1"
  shows "of_nat j - of_nat n + 1 = (of_nat (j + 1 - n) :: u64)"
  using assms by (simp add: of_nat_diff)

lemma find_run_bounds:
  "find_run bm sz j k m = Some j' \<Longrightarrow> m < sz \<Longrightarrow> j \<le> j' \<and> j' < j + k \<and> sz \<le> m + (j' - j) + 1"
  by (induction bm sz j k m rule: find_run.induct) (force split: if_splits)+

lemma sub_mask_iff: "NOT b AND m = (0 :: u64) \<longleftrightarrow> (\<forall>k. bit m k \<longrightarrow> bit b k)"
proof
  assume a: "NOT b AND m = 0"
  show "\<forall>k. bit m k \<longrightarrow> bit b k"
  proof (intro allI impI)
    fix k assume "bit m k"
    moreover from this have "k < 64" by (simp add: bit_imp_le_length [where 'a = 64, simplified])
    moreover have "\<not> bit (NOT b AND m) k" using a by simp
    ultimately show "bit b k" by (simp add: bit_simps)
  qed
next
  assume "\<forall>k. bit m k \<longrightarrow> bit b k"
  then show "NOT b AND m = 0" by (auto intro!: bit_word_eqI simp: bit_simps)
qed

subsection \<open>Addresses in a page\<close>

lemma page_offset [simp]:
  assumes "page_aligned p" and "k < 4096"
  shows "page_of (p + of_nat k) = p"
  by (rule page_of_offset [OF assms(1)]) (use assms(2) in \<open>simp add: word_less_nat_alt unat_of_nat_small\<close>)

lemma page_offset_eq:
  assumes "page_aligned p" "page_aligned q" "k < 4096" "l < 4096"
  shows "p + of_nat k = q + of_nat l \<longleftrightarrow> p = q \<and> k = l"
proof
  assume e: "p + of_nat k = q + of_nat l"
  from arg_cong [OF this, of page_of] have "p = q" using assms by simp
  with e have "of_nat k = (of_nat l :: u64)" by simp
  then have "unat (of_nat k :: u64) = unat (of_nat l :: u64)" by simp
  then have "k = l" using assms(3,4) by (simp add: unat_of_nat_small)
  with \<open>p = q\<close> show "p = q \<and> k = l" by simp
qed simp


subsection \<open>The heap invariant\<close>

text \<open>
  A block is an entry, its first chunk and its number of chunks. \<open>heap_ok s U ts L\<close>: the
  tables are \<open>ts\<close>, the blocks in use \<open>L\<close>, and all of the heap lies in the pages \<open>U\<close>.
\<close>

type_synonym block = "addr \<times> nat \<times> nat"

fun chain :: "'a kheap_scheme \<Rightarrow> addr \<Rightarrow> addr list \<Rightarrow> bool" where
  "chain s p [] \<longleftrightarrow> p = 0"
| "chain s p (t # ts) \<longleftrightarrow> p = t \<and> t \<noteq> 0 \<and> chain s (ldq s (t + 0xff8)) ts"

definition entries :: "addr list \<Rightarrow> addr set" where
  "entries ts = {entry t i |t i. t \<in> set ts \<and> i < 255}"

definition data_page :: "'a kheap_scheme \<Rightarrow> addr \<Rightarrow> addr" where
  "data_page s e = ldq s (e + 8)"

fun block_ok :: "'a kheap_scheme \<Rightarrow> addr list \<Rightarrow> block \<Rightarrow> bool" where
  "block_ok s ts (e, lo, n) \<longleftrightarrow> e \<in> entries ts \<and> data_page s e \<noteq> 0 \<and> 2 \<le> n \<and> n < 32 \<and> lo + n \<le> 64 \<and>
     (\<forall>k. lo \<le> k \<and> k < lo + n \<longrightarrow> \<not> bit (ldq s e) k) \<and>
     ldq s (data_page s e + of_nat (64 * lo + 56)) = e + 8 \<and>
     ldq s (data_page s e + of_nat (64 * lo + 48)) = of_nat (lo + n - 1) \<and>
     ldq s (data_page s e + of_nat (64 * lo + 40)) = of_nat n"

fun overlap :: "block \<Rightarrow> block \<Rightarrow> bool" where
  "overlap (e, lo, n) (e', lo', n') \<longleftrightarrow> e = e' \<and> lo < lo' + n' \<and> lo' < lo + n"

definition tables_ok :: "'a kheap_scheme \<Rightarrow> addr set \<Rightarrow> addr list \<Rightarrow> bool" where
  "tables_ok s U ts \<longleftrightarrow> ts \<noteq> [] \<and> chain s (ml1 s) ts \<and> distinct ts \<and>
     (\<forall>t\<in>set ts. page_aligned t \<and> t \<in> U) \<and>
     (\<forall>e\<in>entries ts. data_page s e \<noteq> 0 \<longrightarrow>
        page_aligned (data_page s e) \<and> data_page s e \<in> U \<and> data_page s e \<notin> set ts \<and>
        (\<forall>e'\<in>entries ts. data_page s e' = data_page s e \<longrightarrow> e' = e))"

definition heap_ok :: "'a kheap_scheme \<Rightarrow> addr set \<Rightarrow> addr list \<Rightarrow> block set \<Rightarrow> bool" where
  "heap_ok s U ts L \<longleftrightarrow> tables_ok s U ts \<and> (\<forall>b\<in>L. block_ok s ts b) \<and>
     (\<forall>b\<in>L. \<forall>c\<in>L. overlap b c \<longrightarrow> b = c)"

text \<open>The address \<open>malloc\<close> returns for a block, and the quads its owner may use.\<close>

definition user_ptr :: "'a kheap_scheme \<Rightarrow> block \<Rightarrow> addr" where
  "user_ptr s b = (case b of (e, lo, n) \<Rightarrow> data_page s e + of_nat (64 * lo + 64))"

definition user_quad :: "'a kheap_scheme \<Rightarrow> block \<Rightarrow> addr \<Rightarrow> bool" where
  "user_quad s b a = (case b of (e, lo, n) \<Rightarrow>
     \<exists>k. 64 * lo + 64 \<le> k \<and> k < 64 * (lo + n) \<and> a = data_page s e + of_nat k)"

lemma entry_offsets:
  shows "entry t i = t + of_nat (16 * i)" and "entry t i + 8 = t + of_nat (16 * i + 8)"
  by (simp_all add: entry_def)

lemma entriesE:
  assumes "e \<in> entries ts"
  obtains t i where "t \<in> set ts" "i < 255" "e = t + of_nat (16 * i)" "e + 8 = t + of_nat (16 * i + 8)"
proof -
  from assms obtain t i where "t \<in> set ts" "i < 255" "e = entry t i" by (auto simp: entries_def)
  with entry_offsets [of t i] that show thesis by metis
qed

lemma chain_last:
  "chain s p ts \<Longrightarrow> ts \<noteq> [] \<Longrightarrow> ldq s (last ts + 0xff8) = 0"
  by (induction ts arbitrary: p) (auto split: if_splits)

lemma chain_cong:
  "chain s p ts \<Longrightarrow> (\<And>t. t \<in> set ts \<Longrightarrow> ldq s' (t + 0xff8) = ldq s (t + 0xff8)) \<Longrightarrow> chain s' p ts"
  by (induction ts arbitrary: p) auto

subsection \<open>The search\<close>

definition spare :: "'a kheap_scheme \<Rightarrow> addr list \<Rightarrow> addr \<Rightarrow> bool" where
  "spare s ts NA \<longleftrightarrow> NA = 0 \<or> NA \<in> entries ts \<and> data_page s NA = 0"

fun search_ok :: "'a kheap_scheme \<Rightarrow> nat \<Rightarrow> addr list \<Rightarrow> search \<Rightarrow> bool" where
  "search_ok s sz ts (Found e j) \<longleftrightarrow>
     e \<in> entries ts \<and> data_page s e \<noteq> 0 \<and> find_run (ldq s e) sz 0 64 0 = Some j"
| "search_ok s sz ts (NotFound NA) \<longleftrightarrow> spare s ts NA"

lemma entry_in_entries: "t \<in> set ts \<Longrightarrow> i < 255 \<Longrightarrow> entry t i \<in> entries ts"
  by (auto simp: entries_def)

lemma scan_table_ok:
  "t \<in> set ts \<Longrightarrow> i + k \<le> 255 \<Longrightarrow> spare s ts NA \<Longrightarrow> search_ok s sz ts (scan_table s sz t i k NA)"
proof (induction k arbitrary: i NA)
  case (Suc k)
  let ?e = "entry t i"
  have e: "?e \<in> entries ts" using Suc.prems by (simp add: entry_in_entries)
  have next_ok: "spare s ts NA' \<Longrightarrow> search_ok s sz ts (scan_table s sz t (Suc i) k NA')" for NA'
    using Suc.IH [of "Suc i" NA'] Suc.prems by simp
  have "spare s ts (if NA = 0 then ?e else NA)" if "ldq s (?e + 8) = 0"
    using Suc.prems(3) that e by (auto simp: spare_def data_page_def)
  with Suc.prems(3) e next_ok show ?case
    by (auto simp: Let_def data_page_def split: option.split)
qed simp

lemma scan_chain_ok:
  "chain s p us \<Longrightarrow> us \<noteq> [] \<Longrightarrow> set us \<subseteq> set ts \<Longrightarrow> spare s ts NA \<Longrightarrow>
    \<exists>r m. scan_chain s sz p NA = Some (r, m) \<and> search_ok s sz ts r \<and> (\<forall>NA. r = NotFound NA \<longrightarrow> m = last us)"
proof (induction us arbitrary: p NA)
  case (Cons t us)
  then have p: "p = t" and us: "chain s (ldq s (t + 0xff8)) us" and t: "t \<in> set ts" by auto
  have ok: "search_ok s sz ts (scan_table s sz t 0 255 NA)"
    using scan_table_ok [OF t _ Cons.prems(4)] by simp
  show ?case
  proof (cases "scan_table s sz t 0 255 NA")
    case (Found e j)
    with ok show ?thesis by (simp add: p scan_chain.simps)
  next
    case (NotFound NA')
    with ok have NA': "spare s ts NA'" by simp
    show ?thesis
    proof (cases us)
      case Nil
      with us NotFound ok show ?thesis by (simp add: p scan_chain.simps)
    next
      case (Cons u vs)
      with us have u: "ldq s (t + 0xff8) = u" "u \<noteq> 0" by auto
      show ?thesis
      proof (cases "ldq s (u + 0xff8) = 0")
        case True
        with us u Cons have "vs = []" by (cases vs) auto
        with True u NotFound ok Cons show ?thesis by (simp add: p scan_chain.simps)
      next
        case False
        with Cons.IH [OF us _ _ NA'] Cons.prems(3) Cons u NotFound show ?thesis
          by (simp add: p scan_chain.simps [of s sz t])
      qed
    qed
  qed
qed simp

subsection \<open>Operations on the invariant\<close>

text \<open>
  The heap is a client of the page allocator. Everything below uses only the laws of
  \<open>page_source\<close>, and that an allocation of a page leaves \<open>ml1\<close> alone.
\<close>

locale heap_pages = page_source kpalloc ldq stq memfill_page held
  for kpalloc :: "'a kheap_scheme \<Rightarrow> fault + addr \<times> 'a kheap_scheme"
    and held :: "'a kheap_scheme \<Rightarrow> addr set \<Rightarrow> bool" +
  assumes ml1_kept: "kpalloc s = Inr (p, s') \<Longrightarrow> ml1 s' = ml1 s"
    and held_ml1: "held (s\<lparr>ml1 := p\<rparr>) U = held s U"
begin

end

text \<open>What the invariant says about addresses, in the form the proofs use.\<close>

lemma tables_okD:
  assumes "tables_ok s U ts"
  shows "ts \<noteq> []" "chain s (ml1 s) ts" "distinct ts"
    and "t \<in> set ts \<Longrightarrow> page_aligned t" "t \<in> set ts \<Longrightarrow> t \<in> U"
    and "e \<in> entries ts \<Longrightarrow> data_page s e \<noteq> 0 \<Longrightarrow> page_aligned (data_page s e)"
    and "e \<in> entries ts \<Longrightarrow> data_page s e \<noteq> 0 \<Longrightarrow> data_page s e \<in> U"
    and "e \<in> entries ts \<Longrightarrow> data_page s e \<noteq> 0 \<Longrightarrow> data_page s e \<notin> set ts"
    and "e \<in> entries ts \<Longrightarrow> e' \<in> entries ts \<Longrightarrow> data_page s e \<noteq> 0 \<Longrightarrow>
      data_page s e' = data_page s e \<Longrightarrow> e' = e"
  using assms by (auto simp: tables_ok_def)

lemma entries_page:
  assumes "tables_ok s U ts" and "e \<in> entries ts"
  shows "page_of e \<in> set ts" "page_of (e + 8) \<in> set ts" "page_of e \<in> U" "page_of (e + 8) \<in> U"
proof -
  from assms(2) obtain t i where t: "t \<in> set ts" "i < 255" "e = t + of_nat (16 * i)"
    "e + 8 = t + of_nat (16 * i + 8)" by (rule entriesE)
  have "page_of e = t" "page_of (e + 8) = t"
    unfolding t(4) unfolding t(3) using t(1,2) tables_okD(4) [OF assms(1) t(1)] by (simp_all only: page_offset)
  with t(1) tables_okD(5) [OF assms(1) t(1)]
  show "page_of e \<in> set ts" "page_of (e + 8) \<in> set ts" "page_of e \<in> U" "page_of (e + 8) \<in> U" by simp_all
qed

lemma entry_quads_distinct:
  assumes T: "tables_ok s U ts" and e: "e \<in> entries ts" and e': "e' \<in> entries ts" and t: "t \<in> set ts"
  shows "e + 8 \<noteq> e'" "e + 8 = e' + 8 \<longleftrightarrow> e = e'" "e \<noteq> t + 0xff8" "e + 8 \<noteq> t + 0xff8"
proof -
  obtain u i where u: "u \<in> set ts" "i < 255" "e = u + of_nat (16 * i)" "e + 8 = u + of_nat (16 * i + 8)"
    using e by (rule entriesE)
  obtain u' i' where u': "u' \<in> set ts" "i' < 255" "e' = u' + of_nat (16 * i')"
    using e' by (rule entriesE)
  note al = tables_okD(4) [OF T]
  have "16 * i + 8 \<noteq> 16 * i'" by presburger
  then show "e + 8 \<noteq> e'"
    unfolding u(4) u'(3) using page_offset_eq [OF al [OF u(1)] al [OF u'(1)], of "16 * i + 8" "16 * i'"] u(2) u'(2)
    by simp
  show "e + 8 = e' + 8 \<longleftrightarrow> e = e'" by simp
  show "e \<noteq> t + 0xff8" "e + 8 \<noteq> t + 0xff8"
    unfolding u(4) unfolding u(3)
    using page_offset_eq [OF al [OF u(1)] al [OF t], of "16 * i" 4088]
      page_offset_eq [OF al [OF u(1)] al [OF t], of "16 * i + 8" 4088] u(2) by simp_all
qed

lemma ml1_stq [simp]: "ml1 (stq a v s) = ml1 s" "ml1 (memfill_page p s) = ml1 s"
  by (simp_all add: stq_def memfill_page_def)

lemma block_offsets:
  assumes "block_ok s ts (e, lo, n)"
  shows "64 * lo + 56 < 4096" "64 * (lo + n) \<le> 4096"
  using assms by auto

lemma tables_ok_cong:
  assumes T: "tables_ok s U ts" and m: "ml1 s' = ml1 s" and U: "U \<subseteq> U'"
    and link: "\<And>t. t \<in> set ts \<Longrightarrow> ldq s' (t + 0xff8) = ldq s (t + 0xff8)"
    and dp: "\<And>e. e \<in> entries ts \<Longrightarrow> data_page s' e = data_page s e"
  shows "tables_ok s' U' ts"
  using T U dp chain_cong [OF _ link, where p = "ml1 s"] unfolding tables_ok_def m by auto

lemma block_ok_cong:
  assumes B: "block_ok s ts (e, lo, n)" and "data_page s' e = data_page s e"
    and "\<And>k. lo \<le> k \<Longrightarrow> k < lo + n \<Longrightarrow> bit (ldq s' e) k \<Longrightarrow> bit (ldq s e) k"
    and "\<And>k. 64 * lo \<le> k \<Longrightarrow> k < 64 * lo + 64 \<Longrightarrow>
      ldq s' (data_page s e + of_nat k) = ldq s (data_page s e + of_nat k)"
  shows "block_ok s' ts (e, lo, n)"
  using B assms(2,3) assms(4) [of "64 * lo + 40"] assms(4) [of "64 * lo + 48"] assms(4) [of "64 * lo + 56"]
  by auto

lemma heap_ok_cong:
  assumes K: "heap_ok s U ts L" and m: "ml1 s' = ml1 s" and U: "U \<subseteq> U'"
    and same: "\<And>a. page_of a \<in> U \<Longrightarrow> ldq s' a = ldq s a"
  shows "heap_ok s' U' ts L"
proof -
  have T: "tables_ok s U ts" and B: "\<And>b. b \<in> L \<Longrightarrow> block_ok s ts b"
    and D: "\<forall>b\<in>L. \<forall>c\<in>L. overlap b c \<longrightarrow> b = c"
    using K by (auto simp: heap_ok_def)
  have e: "ldq s' e = ldq s e" "data_page s' e = data_page s e" if "e \<in> entries ts" for e
    using entries_page [OF T that] same by (simp_all add: data_page_def)
  have T': "tables_ok s' U' ts"
  proof (rule tables_ok_cong [OF T m U])
    show "ldq s' (t + 0xff8) = ldq s (t + 0xff8)" if "t \<in> set ts" for t
      using page_offset [OF tables_okD(4) [OF T that], of 4088] tables_okD(5) [OF T that] same by simp
  qed (rule e(2))
  have "block_ok s' ts (f, lo, n)" if b: "(f, lo, n) \<in> L" for f lo n
  proof (rule block_ok_cong [OF B [OF b]])
    have f: "f \<in> entries ts" "data_page s f \<noteq> 0" and o: "64 * (lo + n) \<le> 4096" "2 \<le> n" using B [OF b] by auto
    show "data_page s' f = data_page s f" by (rule e(2) [OF f(1)])
    show "bit (ldq s f) k" if "bit (ldq s' f) k" for k using that e(1) [OF f(1)] by simp
    show "ldq s' (data_page s f + of_nat k) = ldq s (data_page s f + of_nat k)"
      if "64 * lo \<le> k" "k < 64 * lo + 64" for k
      using that o page_offset [OF tables_okD(6) [OF T f], of k] tables_okD(7) [OF T f] same by simp
  qed
  with T' D show ?thesis by (auto simp: heap_ok_def)
qed

context heap_pages begin

lemma held_kept:
  assumes "held s U" "heap_ok s U ts L" "kpalloc s = Inr (p, s')"
  shows "heap_ok s' (insert p U) ts L"
  by (rule heap_ok_cong [OF assms(2)]) (use ml1_kept [OF assms(3)] kept [OF assms(1,3)] in auto)

text \<open>A write to a data page.\<close>

lemma data_write_tables:
  assumes H: "held s U" and T: "tables_ok s U ts" and e: "e \<in> entries ts" "data_page s e \<noteq> 0"
    and x: "page_of x = data_page s e"
  shows "tables_ok (stq x v s) U ts \<and> (\<forall>f\<in>entries ts. ldq (stq x v s) f = ldq s f \<and>
    data_page (stq x v s) f = data_page s f)"
proof -
  have xU: "page_of x \<in> U" and xt: "page_of x \<notin> set ts" using tables_okD(7,8) [OF T e] x by simp_all
  note rd = owner_reads [OF H xU]
  have f: "ldq (stq x v s) f = ldq s f" "data_page (stq x v s) f = data_page s f" if "f \<in> entries ts" for f
    unfolding data_page_def using rd entries_page [OF T that] xt by (auto split: if_splits)
  have "tables_ok (stq x v s) U ts"
  proof (rule tables_ok_cong [OF T _ order_refl])
    show "ldq (stq x v s) (t + 0xff8) = ldq s (t + 0xff8)" if t: "t \<in> set ts" for t
      using rd page_offset [OF tables_okD(4) [OF T t], of 4088] tables_okD(5) [OF T t] t xt by auto
  qed (simp, rule f(2))
  with f show ?thesis by simp
qed

lemma data_write:
  assumes H: "held s U" and K: "heap_ok s U ts L" and e: "e \<in> entries ts" "data_page s e \<noteq> 0"
    and i: "i < 4096"
    and out: "\<And>lo n. (e, lo, n) \<in> L \<Longrightarrow> i < 64 * lo \<or> 64 * lo + 64 \<le> i"
  shows "heap_ok (stq (data_page s e + of_nat i) v s) U ts L"
proof -
  let ?s = "stq (data_page s e + of_nat i) v s"
  have T: "tables_ok s U ts" and B: "\<And>b. b \<in> L \<Longrightarrow> block_ok s ts b"
    and D: "\<forall>b\<in>L. \<forall>c\<in>L. overlap b c \<longrightarrow> b = c"
    using K by (auto simp: heap_ok_def)
  have x: "page_of (data_page s e + of_nat i) = data_page s e"
    using tables_okD(6) [OF T e] i by simp
  then have xU: "page_of (data_page s e + of_nat i) \<in> U" using tables_okD(7) [OF T e] by simp
  note T' = data_write_tables [OF H T e x, of v]
  have "block_ok ?s ts (f, lo, n)" if b: "(f, lo, n) \<in> L" for f lo n
  proof (rule block_ok_cong [OF B [OF b]])
    have f: "f \<in> entries ts" "data_page s f \<noteq> 0" and o: "64 * (lo + n) \<le> 4096" "2 \<le> n" using B [OF b] by auto
    show "data_page ?s f = data_page s f" using T' f by simp
    show "bit (ldq s f) k" if "bit (ldq ?s f) k" for k using that T' f by simp
    show "ldq ?s (data_page s f + of_nat k) = ldq s (data_page s f + of_nat k)"
      if k: "64 * lo \<le> k" "k < 64 * lo + 64" for k
    proof -
      have "\<not> (data_page s f = data_page s e \<and> k = i)"
      proof
        assume a: "data_page s f = data_page s e \<and> k = i"
        then have "f = e" using tables_okD(9) [OF T e(1) f(1) e(2)] by simp
        with out [of lo n] b k a show False by simp
      qed
      then have "data_page s f + of_nat k \<noteq> data_page s e + of_nat i"
        using page_offset_eq [OF tables_okD(6) [OF T f] tables_okD(6) [OF T e], of k i] k o i by simp
      moreover have "page_of (data_page s f + of_nat k) \<in> U"
        using k o page_offset [OF tables_okD(6) [OF T f], of k] tables_okD(7) [OF T f] by simp
      ultimately show ?thesis using owner_reads [OF H xU] by simp
    qed
  qed
  with T' D show ?thesis by (auto simp: heap_ok_def)
qed

end

lemma chain_snoc:
  "chain s p ts \<Longrightarrow> ts \<noteq> [] \<Longrightarrow> distinct ts \<Longrightarrow> t \<noteq> 0 \<Longrightarrow>
    (\<And>u. u \<in> set ts \<Longrightarrow> u \<noteq> last ts \<Longrightarrow> ldq s' (u + 0xff8) = ldq s (u + 0xff8)) \<Longrightarrow>
    ldq s' (last ts + 0xff8) = t \<Longrightarrow> ldq s' (t + 0xff8) = 0 \<Longrightarrow> chain s' p (ts @ [t])"
proof (induction ts arbitrary: p)
  case (Cons u us)
  show ?case
  proof (cases "us = []")
    case True
    with Cons show ?thesis by simp
  next
    case False
    then have "u \<noteq> last us" using Cons.prems(3) by auto
    then have u: "ldq s' (u + 0xff8) = ldq s (u + 0xff8)" using Cons.prems(5) [of u] False by simp
    have "chain s' (ldq s (u + 0xff8)) (us @ [t])"
    proof (rule Cons.IH)
      show "ldq s' (w + 0xff8) = ldq s (w + 0xff8)" if "w \<in> set us" "w \<noteq> last us" for w
        using Cons.prems(5) [of w] that False by simp
    qed (use Cons.prems False in auto)
    then show ?thesis using u Cons.prems(1) by simp
  qed
qed simp

lemma entries_snoc: "entries (ts @ [t]) = entries ts \<union> entries [t]"
  by (auto simp: entries_def)

lemma data_quad_page:
  assumes T: "tables_ok s U ts" and B: "block_ok s ts (f, lo, n)" and k: "k < 64 * lo + 64"
  shows "page_of (data_page s f + of_nat k) = data_page s f"
    and "page_of (data_page s f + of_nat k) \<in> U" and "page_of (data_page s f + of_nat k) \<notin> set ts"
proof -
  have f: "f \<in> entries ts" "data_page s f \<noteq> 0" and "k < 4096" using B k by auto
  then show "page_of (data_page s f + of_nat k) = data_page s f"
    and "page_of (data_page s f + of_nat k) \<in> U" and "page_of (data_page s f + of_nat k) \<notin> set ts"
    using page_offset [OF tables_okD(6) [OF T f], of k] tables_okD(7,8) [OF T f] by simp_all
qed

lemma block_ok_more: "block_ok s ts b \<Longrightarrow> set ts \<subseteq> set us \<Longrightarrow> block_ok s us b"
  by (cases b) (auto simp: entries_def)

context heap_pages begin

lemma table_write_block:
  assumes H: "held s U" and T: "tables_ok s U ts" and x: "page_of x \<in> set ts"
    and B: "block_ok s ts (f, lo, n)" and ne: "x \<noteq> f + 8"
    and bits: "\<And>k. x = f \<Longrightarrow> lo \<le> k \<Longrightarrow> k < lo + n \<Longrightarrow> \<not> bit v k"
  shows "block_ok (stq x v s) ts (f, lo, n)"
proof (rule block_ok_cong [OF B])
  have f: "f \<in> entries ts" using B by simp
  have xU: "page_of x \<in> U" using tables_okD(5) [OF T x] by simp
  note rd = owner_reads [OF H xU] and fp = entries_page [OF T f]
  show "data_page (stq x v s) f = data_page s f" using rd [of "f + 8"] fp ne by (simp add: data_page_def)
  show "bit (ldq s f) k" if "lo \<le> k" "k < lo + n" "bit (ldq (stq x v s) f) k" for k
    using that rd [of f] fp bits by (auto split: if_splits)
  show "ldq (stq x v s) (data_page s f + of_nat k) = ldq s (data_page s f + of_nat k)"
    if "k < 64 * lo + 64" for k
    using data_quad_page [OF T B that] rd x by auto
qed

lemma bitmap_write:
  assumes H: "held s U" and K: "heap_ok s U ts L" and e: "e \<in> entries ts"
    and bits: "\<And>lo n k. (e, lo, n) \<in> L \<Longrightarrow> lo \<le> k \<Longrightarrow> k < lo + n \<Longrightarrow> \<not> bit v k"
  shows "heap_ok (stq e v s) U ts L"
proof -
  have T: "tables_ok s U ts" and B: "\<And>b. b \<in> L \<Longrightarrow> block_ok s ts b"
    and D: "\<forall>b\<in>L. \<forall>c\<in>L. overlap b c \<longrightarrow> b = c"
    using K by (auto simp: heap_ok_def)
  note ep = entries_page [OF T e] and rd = owner_reads [OF H entries_page(3) [OF T e]]
  have "tables_ok (stq e v s) U ts"
  proof (rule tables_ok_cong [OF T _ order_refl])
    show "ldq (stq e v s) (t + 0xff8) = ldq s (t + 0xff8)" if t: "t \<in> set ts" for t
      using rd page_offset [OF tables_okD(4) [OF T t], of 4088] tables_okD(5) [OF T t]
        entry_quads_distinct(3) [OF T e e t] by simp
    show "data_page (stq e v s) f = data_page s f" if f: "f \<in> entries ts" for f
      using rd [of "f + 8"] entries_page(4) [OF T f] entry_quads_distinct(1) [OF T f e] tables_okD(1) [OF T]
      by (metis data_page_def last_in_set)
  qed simp
  moreover have "block_ok (stq e v s) ts (f, lo, n)" if b: "(f, lo, n) \<in> L" for f lo n
  proof (rule table_write_block [OF H T ep(1) B [OF b]])
    have f: "f \<in> entries ts" using B [OF b] by simp
    show "e \<noteq> f + 8" using entry_quads_distinct(1) [OF T f e] tables_okD(1) [OF T] by (metis last_in_set)
    show "\<not> bit v k" if "e = f" "lo \<le> k" "k < lo + n" for k using bits [of lo n k] b that by simp
  qed
  ultimately show ?thesis using D by (auto simp: heap_ok_def)
qed

lemma attach_page:
  assumes H: "held s U" and K: "heap_ok s U ts L" and e: "e \<in> entries ts" and e0: "data_page s e = 0"
    and d: "page_aligned d" "d \<in> U" "d \<notin> set ts" "\<And>f. f \<in> entries ts \<Longrightarrow> data_page s f \<noteq> d"
  shows "heap_ok (stq (e + 8) d s) U ts L"
    and "f \<in> entries ts \<Longrightarrow> data_page (stq (e + 8) d s) f = (if f = e then d else data_page s f)"
proof -
  let ?s = "stq (e + 8) d s"
  have T: "tables_ok s U ts" and B: "\<And>b. b \<in> L \<Longrightarrow> block_ok s ts b"
    and D: "\<forall>b\<in>L. \<forall>c\<in>L. overlap b c \<longrightarrow> b = c"
    using K by (auto simp: heap_ok_def)
  note ep = entries_page [OF T e] and rd = owner_reads [OF H entries_page(4) [OF T e]]
  have dp: "data_page ?s f = (if f = e then d else data_page s f)" if f: "f \<in> entries ts" for f
    using rd [of "f + 8"] entries_page(4) [OF T f] by (simp add: data_page_def)
  then show "f \<in> entries ts \<Longrightarrow> data_page ?s f = (if f = e then d else data_page s f)" .
  have "ldq ?s (t + 0xff8) = ldq s (t + 0xff8)" if t: "t \<in> set ts" for t
    using rd page_offset [OF tables_okD(4) [OF T t], of 4088] tables_okD(5) [OF T t]
      entry_quads_distinct(4) [OF T e e t] by simp
  then have ch: "chain ?s (ml1 s) ts" by (rule chain_cong [OF tables_okD(2) [OF T]])
  have "tables_ok ?s U ts"
    unfolding tables_ok_def using T ch dp d by (auto simp: tables_ok_def)
  moreover have "block_ok ?s ts (f, lo, n)" if b: "(f, lo, n) \<in> L" for f lo n
  proof (rule table_write_block [OF H T ep(2) B [OF b]])
    have f: "f \<in> entries ts" "data_page s f \<noteq> 0" using B [OF b] by simp_all
    show "e + 8 \<noteq> f + 8" using f e0 by auto
    show "\<not> bit d k" if "e + 8 = f" for k
      using entry_quads_distinct(1) [OF T e f(1)] tables_okD(1) [OF T] that by (metis last_in_set)
  qed
  ultimately show "heap_ok ?s U ts L" using D by (auto simp: heap_ok_def)
qed

end

lemma header_offsets:
  fixes d :: addr
  shows "d + of_nat (64 * lo + 64) - 8 = d + of_nat (64 * lo + 56)"
    "d + of_nat (64 * lo + 64) - 16 = d + of_nat (64 * lo + 48)"
    "d + of_nat (64 * lo + 64) - 24 = d + of_nat (64 * lo + 40)"
  by simp_all

lemma heap_ok_insert:
  assumes "heap_ok s U ts L" and "block_ok s ts b" and "\<And>c. c \<in> L \<Longrightarrow> \<not> overlap b c"
  shows "heap_ok s U ts (insert b L)"
proof -
  have "\<not> overlap c b" if "c \<in> L" for c using assms(3) [OF that] by (cases b; cases c) auto
  with assms show ?thesis unfolding heap_ok_def by blast
qed

lemma heap_ok_remove: "heap_ok s U ts L \<Longrightarrow> heap_ok s U ts (L - {b})"
  by (auto simp: heap_ok_def)

context heap_pages begin

lemma held_stq_data:
  assumes "held s U" "tables_ok s U ts" "e \<in> entries ts" "data_page s e \<noteq> 0" "i < 4096"
  shows "held (stq (data_page s e + of_nat i) v s) U"
  using assms owner_writes page_offset [OF tables_okD(6) [OF assms(2-4)] assms(5)]
    tables_okD(7) [OF assms(2-4)] by simp

lemma install_block:
  assumes H: "held s U" and K: "heap_ok s U ts L" and e: "e \<in> entries ts" "data_page s e \<noteq> 0"
    and n: "2 \<le> n" "n < 32" "lo + n \<le> 64"
    and bits: "\<forall>k. lo \<le> k \<and> k < lo + n \<longrightarrow> \<not> bit (ldq s e) k"
    and free: "\<forall>c\<in>L. \<not> overlap (e, lo, n) c"
  defines "p \<equiv> data_page s e + of_nat (64 * lo + 64)"
  defines "s' \<equiv> put_header p e (of_nat (lo + n - 1)) (of_nat n) s"
  shows "heap_ok s' U ts (insert (e, lo, n) L)" and "held s' U"
    and "f \<in> entries ts \<Longrightarrow> data_page s' f = data_page s f"
    and "page_of a \<in> U \<Longrightarrow> a \<noteq> p - 8 \<Longrightarrow> a \<noteq> p - 16 \<Longrightarrow> a \<noteq> p - 24 \<Longrightarrow> ldq s' a = ldq s a"
proof -
  let ?d = "data_page s e"
  define s1 where "s1 = stq (?d + of_nat (64 * lo + 56)) (e + 8) s"
  define s2 where "s2 = stq (?d + of_nat (64 * lo + 48)) (of_nat (lo + n - 1)) s1"
  have s': "s' = stq (?d + of_nat (64 * lo + 40)) (of_nat n) s2"
    by (simp only: s'_def p_def put_header_def header_offsets s2_def s1_def)
  have out: "i < 64 * l \<or> 64 * l + 64 \<le> i" if "(e, l, m) \<in> L" "64 * lo \<le> i" "i < 64 * lo + 64" for l m i
  proof -
    have "2 \<le> m" using K that(1) by (auto simp: heap_ok_def)
    with free that(1) n have "l \<noteq> lo" by auto
    with that show ?thesis by linarith
  qed
  have T: "tables_ok s U ts" using K by (simp add: heap_ok_def)
  have o: "64 * lo + 56 < 4096" using n by simp
  have pg: "page_of (?d + of_nat i) = ?d" "page_of (?d + of_nat i) \<in> U" if "i < 4096" for i
    using page_offset [OF tables_okD(6) [OF T e] that] tables_okD(7) [OF T e] by simp_all
  have H1: "held s1 U" unfolding s1_def by (rule held_stq_data [OF H T e o])
  have K1: "heap_ok s1 U ts L"
    unfolding s1_def by (rule data_write [OF H K e o]) (rule out, assumption, use o in simp_all)
  have T1: "tables_ok s1 U ts" using K1 by (simp add: heap_ok_def)
  have d1: "data_page s1 e = ?d" "ldq s1 e = ldq s e"
    using data_write_tables [OF H T e pg(1) [OF o], of "e + 8"] e(1) by (simp_all add: s1_def)
  have o2: "64 * lo + 48 < 4096" and o3: "64 * lo + 40 < 4096" using o by simp_all
  have e1: "data_page s1 e \<noteq> 0" using d1 e by simp
  have s2_alt: "s2 = stq (data_page s1 e + of_nat (64 * lo + 48)) (of_nat (lo + n - 1)) s1"
    by (simp only: s2_def d1)
  have H2: "held s2 U" unfolding s2_alt by (rule held_stq_data [OF H1 T1 e(1) e1 o2])
  have K2: "heap_ok s2 U ts L"
    unfolding s2_alt by (rule data_write [OF H1 K1 e(1) e1 o2]) (rule out, assumption, use o in simp_all)
  have T2: "tables_ok s2 U ts" using K2 by (simp add: heap_ok_def)
  have d2: "data_page s2 e = ?d" "ldq s2 e = ldq s e"
    using data_write_tables [OF H1 T1 e(1) e1, of "?d + of_nat (64 * lo + 48)"] pg(1) [OF o2] e(1) d1
    by (simp_all add: s2_def)
  have e2: "data_page s2 e \<noteq> 0" using d2 e by simp
  have s'_alt: "s' = stq (data_page s2 e + of_nat (64 * lo + 40)) (of_nat n) s2"
    by (simp only: s' d2)
  show H3: "held s' U" unfolding s'_alt by (rule held_stq_data [OF H2 T2 e(1) e2 o3])
  have K3: "heap_ok s' U ts L"
    unfolding s'_alt by (rule data_write [OF H2 K2 e(1) e2 o3]) (rule out, assumption, use o in simp_all)
  have d3: "data_page s' e = ?d" "ldq s' e = ldq s e"
    using data_write_tables [OF H2 T2 e(1) e2, of "?d + of_nat (64 * lo + 40)"] pg(1) [OF o3] e(1) d2
    by (simp_all add: s')
  have rd: "ldq s' a = (if a = ?d + of_nat (64 * lo + 40) then of_nat n
      else if a = ?d + of_nat (64 * lo + 48) then of_nat (lo + n - 1)
      else if a = ?d + of_nat (64 * lo + 56) then e + 8 else ldq s a)" if "page_of a \<in> U" for a
    unfolding s' using owner_reads [OF H2 pg(2) [OF o3] that] unfolding s2_def
    using owner_reads [OF H1 pg(2) [OF o2] that] unfolding s1_def
    using owner_reads [OF H pg(2) [OF o] that] by simp
  show "ldq s' a = ldq s a" if "page_of a \<in> U" "a \<noteq> p - 8" "a \<noteq> p - 16" "a \<noteq> p - 24" for a
    using that unfolding p_def header_offsets by (simp add: rd)
  show "data_page s' f = data_page s f" if f: "f \<in> entries ts" for f
  proof -
    have "page_of (f + 8) \<noteq> ?d" using entries_page(2) [OF T f] tables_okD(8) [OF T e] by auto
    then have "f + 8 \<noteq> ?d + of_nat i" if "i < 4096" for i using pg(1) [OF that] by metis
    with rd [OF entries_page(4) [OF T f]] o o2 o3 show ?thesis
      unfolding data_page_def [of _ f] by (simp only: if_False)
  qed
  note ne = page_offset_eq [OF tables_okD(6) [OF T e] tables_okD(6) [OF T e]]
  have "block_ok s' ts (e, lo, n)"
    using e n bits rd [OF pg(2) [OF o]] rd [OF pg(2) [OF o2]] rd [OF pg(2) [OF o3]]
      ne [OF o o2] ne [OF o o3] ne [OF o2 o3]
    unfolding block_ok.simps d3 by simp
  then show "heap_ok s' U ts (insert (e, lo, n) L)"
    by (rule heap_ok_insert [OF K3 _ free [rule_format]])
qed

end

context heap_pages begin

lemma link_table:
  assumes H: "held s U" and K: "heap_ok s U ts L"
    and t: "page_aligned t" "t \<noteq> 0" "t \<in> U" "t \<notin> set ts"
    and dp: "\<forall>f\<in>entries ts. data_page s f \<noteq> t"
    and zero: "\<forall>a. page_of a = t \<longrightarrow> ldq s a = 0"
  defines "s' \<equiv> stq (last ts + 0xff8) t s"
  shows "heap_ok s' U (ts @ [t]) L" and "held s' U"
    and "page_of a \<in> U \<Longrightarrow> a \<noteq> last ts + 0xff8 \<Longrightarrow> ldq s' a = ldq s a"
proof -
  have T: "tables_ok s U ts" and B: "\<And>b. b \<in> L \<Longrightarrow> block_ok s ts b"
    and D: "\<forall>b\<in>L. \<forall>c\<in>L. overlap b c \<longrightarrow> b = c"
    using K by (auto simp: heap_ok_def)
  have l: "last ts \<in> set ts" using tables_okD(1) [OF T] by simp
  have lp: "page_of (u + 0xff8) = u" if "u \<in> set ts" for u
    using page_offset [OF tables_okD(4) [OF T that], of 4088] by simp
  have xU: "page_of (last ts + 0xff8) \<in> U" using lp [OF l] tables_okD(5) [OF T l] by simp
  note rd = owner_reads [OF H xU]
  show "held s' U" unfolding s'_def by (rule owner_writes [OF H xU])
  show "page_of a \<in> U \<Longrightarrow> a \<noteq> last ts + 0xff8 \<Longrightarrow> ldq s' a = ldq s a"
    unfolding s'_def using rd by simp
  have old: "data_page s' f = data_page s f" if f: "f \<in> entries ts" for f
    unfolding data_page_def s'_def using rd [OF entries_page(4) [OF T f]] entry_quads_distinct(4) [OF T f f l] by simp
  have tz: "ldq s' a = 0" if "page_of a = t" for a
    unfolding s'_def using rd [of a] that t(3,4) zero lp [OF l] l by auto
  have new: "data_page s' f = 0" if "f \<in> entries [t]" for f
  proof -
    from that obtain i where "i < 255" "f + 8 = t + of_nat (16 * i + 8)" by (rule entriesE) simp
    with page_offset [OF t(1), of "16 * i + 8"] have "page_of (f + 8) = t" by (simp only:)
    with tz show ?thesis by (simp add: data_page_def)
  qed
  have "chain s' (ml1 s) (ts @ [t])"
  proof (rule chain_snoc [OF tables_okD(2,1,3) [OF T] t(2)])
    show "ldq s' (u + 0xff8) = ldq s (u + 0xff8)" if "u \<in> set ts" "u \<noteq> last ts" for u
      unfolding s'_def using rd [of "u + 0xff8"] lp [OF that(1)] tables_okD(5) [OF T that(1)] that(2) by simp
    show "ldq s' (last ts + 0xff8) = t" unfolding s'_def using rd [OF xU] by simp
    show "ldq s' (t + 0xff8) = 0" using tz page_offset [OF t(1), of 4088] by simp
  qed
  then have "tables_ok s' U (ts @ [t])"
    using T t dp old new unfolding tables_ok_def entries_snoc s'_def by auto
  moreover have "block_ok s' ts (f, lo, n)" if b: "(f, lo, n) \<in> L" for f lo n
    unfolding s'_def
  proof (rule table_write_block [OF H T _ B [OF b]])
    have f: "f \<in> entries ts" using B [OF b] by simp
    show "page_of (last ts + 0xff8) \<in> set ts" using lp [OF l] l by simp
    show "last ts + 0xff8 \<noteq> f + 8" using entry_quads_distinct(4) [OF T f f l] by simp
    show "\<not> bit t k" if "last ts + 0xff8 = f" for k using entry_quads_distinct(3) [OF T f f l] that by simp
  qed
  then have "block_ok s' (ts @ [t]) b" if "b \<in> L" for b
    using that block_ok_more [of s' ts b "ts @ [t]"] by (cases b) auto
  ultimately show "heap_ok s' U (ts @ [t]) L" using D unfolding heap_ok_def by blast
qed

end

lemma chunks_small:
  assumes "chunks sz = Inr n" and "sz \<le> 1920"
  shows "2 \<le> n \<and> n < 32 \<and> unat sz \<le> 64 * (n - 1)"
proof -
  define x where "x = unat sz"
  have x: "x \<le> 1920" using assms(2) by (simp add: word_le_nat_alt x_def)
  define m where "m = (of_nat (x mod 64) :: u32)"
  have um: "unat m = x mod 64" unfolding m_def by (rule unat_of_nat_small) (use mod_less_divisor [of 64 x] in linarith)
  have "x div 64 < 2 ^ 32" using x div_le_dividend [of x 64] by simp
  then have mod: "MOD64_32 sz 64 = Inr m" by (simp add: MOD64_32_def m_def x_def)
  define y where "y = (if m \<noteq> 0 then sz + ucast (64 - m) else sz)"
  have "m \<le> 64" using um mod_less_divisor [of 64 x] by (simp add: word_le_nat_alt)
  then have "unat (ucast (64 - m) :: u64) = 64 - x mod 64"
    by (simp add: unat_ucast_up unat_sub um)
  then have "unat (sz + ucast (64 - m)) = x + (64 - x mod 64)"
    using x by (simp add: unat_word_ariths flip: x_def)
  then have uy: "unat y = (if x mod 64 \<noteq> 0 then x + (64 - x mod 64) else x)"
    using um unat_eq_zero [of m] by (auto simp: y_def x_def)
  obtain q r where q: "x = 64 * q + r" "r < 64" using mod_less_divisor [of 64 x] mult_div_mod_eq [of 64 x]
    by (metis zero_less_numeral)
  then have "unat y = 64 * (if r \<noteq> 0 then q + 1 else q)" using uy by simp
  then have y: "unat y = 64 * (unat y div 64)" "x \<le> unat y" "unat y \<le> 1920" using q x by auto
  then have "unat y div 64 < 2 ^ 32" using div_le_dividend [of "unat y" 64] by simp
  then have div: "DIV64_32 y 64 = Inr (of_nat (unat y div 64))" by (simp add: DIV64_32_def)
  have "unat y div 64 < 4294967296" using y by linarith
  then have "n = unat y div 64 + 1" and "sz \<noteq> 0"
    using assms(1) mod div by (auto simp: chunks_def bindE_Inr_iff Let_def unat_of_nat_small simp flip: y_def)
  moreover from \<open>sz \<noteq> 0\<close> have "x \<noteq> 0" by (simp add: x_def unat_eq_zero)
  ultimately show ?thesis using y x unfolding x_def [symmetric] by linarith
qed

text \<open>Blocks in use stay where they are and their contents survive.\<close>

definition keeps :: "'a kheap_scheme \<Rightarrow> 'a kheap_scheme \<Rightarrow> block set \<Rightarrow> bool" where
  "keeps s s' L \<longleftrightarrow> (\<forall>b\<in>L. user_ptr s' b = user_ptr s b \<and>
     (\<forall>a. user_quad s b a \<longrightarrow> ldq s' a = ldq s a))"

lemma user_quad_cong: "user_ptr s' b = user_ptr s b \<Longrightarrow> user_quad s' b = user_quad s b"
  by (cases b) (simp add: fun_eq_iff user_ptr_def user_quad_def)

lemma keeps_trans:
  assumes "keeps s s1 L" and "keeps s1 s2 L"
  shows "keeps s s2 L"
proof -
  have "user_quad s1 b = user_quad s b" if "b \<in> L" for b
    using assms(1) that by (intro user_quad_cong) (simp add: keeps_def)
  with assms show ?thesis by (simp add: keeps_def)
qed

lemma keepsI:
  assumes K: "heap_ok s U ts L"
    and dp: "\<And>f. f \<in> entries ts \<Longrightarrow> data_page s f \<noteq> 0 \<Longrightarrow> data_page s' f = data_page s f"
    and qs: "\<And>a. page_of a \<in> U \<Longrightarrow> page_of a \<notin> set ts \<Longrightarrow> ldq s' a = ldq s a"
  shows "keeps s s' L"
proof -
  have "user_ptr s' (f, l, k) = user_ptr s (f, l, k) \<and>
      (\<forall>a. user_quad s (f, l, k) a \<longrightarrow> ldq s' a = ldq s a)" if b: "(f, l, k) \<in> L" for f l k
  proof -
    have T: "tables_ok s U ts" and f: "f \<in> entries ts" "data_page s f \<noteq> 0" and o: "l + k \<le> 64"
      using K b by (auto simp: heap_ok_def)
    have "ldq s' a = ldq s a" if "user_quad s (f, l, k) a" for a
    proof -
      from that obtain i where "i < 64 * (l + k)" "a = data_page s f + of_nat i" by (auto simp: user_quad_def)
      with o page_offset [OF tables_okD(6) [OF T f], of i] tables_okD(7,8) [OF T f] qs
      show ?thesis by simp
    qed
    with dp [OF f] show ?thesis by (simp add: user_ptr_def)
  qed
  then show ?thesis by (auto simp: keeps_def)
qed

text \<open>As before, with one chunk of free memory changed as well.\<close>

lemma keeps_chunkI:
  assumes K: "heap_ok s U ts L" and e: "e \<in> entries ts" "data_page s e \<noteq> 0"
    and lo: "lo < 64" "0 < n" and free: "\<forall>c\<in>L. \<not> overlap (e, lo, n) c"
    and dp: "\<And>f. f \<in> entries ts \<Longrightarrow> data_page s' f = data_page s f"
    and qs: "\<And>a. page_of a \<in> U \<Longrightarrow> page_of a \<notin> set ts \<Longrightarrow>
      (\<And>h. 64 * lo \<le> h \<Longrightarrow> h < 64 * lo + 64 \<Longrightarrow> a \<noteq> data_page s e + of_nat h) \<Longrightarrow> ldq s' a = ldq s a"
  shows "keeps s s' L"
proof -
  have "user_ptr s' (f, l, k) = user_ptr s (f, l, k) \<and>
      (\<forall>a. user_quad s (f, l, k) a \<longrightarrow> ldq s' a = ldq s a)" if b: "(f, l, k) \<in> L" for f l k
  proof -
    have T: "tables_ok s U ts" and f: "f \<in> entries ts" "data_page s f \<noteq> 0" and o: "l + k \<le> 64"
      using K b by (auto simp: heap_ok_def)
    note al = tables_okD(6) [OF T f] and ale = tables_okD(6) [OF T e]
    have "ldq s' a = ldq s a" if "user_quad s (f, l, k) a" for a
    proof -
      from that obtain i where i: "64 * l + 64 \<le> i" "i < 64 * (l + k)" "a = data_page s f + of_nat i"
        by (auto simp: user_quad_def)
      have i4: "i < 4096" using i o by simp
      have "a \<noteq> data_page s e + of_nat h" if h: "64 * lo \<le> h" "h < 64 * lo + 64" for h
      proof
        assume a: "a = data_page s e + of_nat h"
        have h4: "h < 4096" using h lo by simp
        have "data_page s f = data_page s e \<and> i = h" using a unfolding i(3) page_offset_eq [OF al ale i4 h4] .
        moreover from this have "f = e" using tables_okD(9) [OF T e(1) f(1) e(2)] by simp
        ultimately show False using free b i h lo by auto
      qed
      with qs i(3) page_offset [OF al i4] tables_okD(7,8) [OF T f] show ?thesis by simp
    qed
    with dp [OF f(1)] show ?thesis by (simp add: user_ptr_def)
  qed
  then show ?thesis by (auto simp: keeps_def)
qed

context heap_pages begin

lemma entry_block_bits:
  assumes "heap_ok s U ts L" and "(e, l, m) \<in> L" and "l \<le> k" "k < l + m"
  shows "\<not> bit (ldq s e) k"
  using assms by (auto simp: heap_ok_def)

lemma take_found_ok:
  assumes H: "held s U" and K: "heap_ok s U ts L" and e: "e \<in> entries ts" "data_page s e \<noteq> 0"
    and n: "2 \<le> n" "n < 32" and j: "j < 64" "n \<le> j + 1" and r: "take_found e j n s = Inr (p, s')"
  shows "held s' U \<and> heap_ok s' U ts (insert (e, j + 1 - n, n) L) \<and> p = user_ptr s' (e, j + 1 - n, n) \<and>
    (\<forall>c\<in>L. \<not> overlap (e, j + 1 - n, n) c) \<and> keeps s s' L"
proof -
  let ?lo = "j + 1 - n" and ?bm = "ldq s e"
  define m where "m = shl64 (sizemask n) (of_nat ?lo)"
  define s1 where "s1 = stq e (?bm XOR m) s"
  have T: "tables_ok s U ts" using K by (simp add: heap_ok_def)
  have lo: "?lo < 64" "?lo + n \<le> 64" "?lo + n - 1 = j" using n j by simp_all
  have bit_m: "bit m k \<longleftrightarrow> ?lo \<le> k \<and> k < ?lo + n" for k
    unfolding m_def using bit_shl_mask [OF n(2) lo(1), of k] lo by auto
  have eU: "page_of e \<in> U" by (rule entries_page(3) [OF T e(1)])
  have dp1: "data_page s1 f = data_page s f" if "f \<in> entries ts" for f
    using owner_reads [OF H eU entries_page(4) [OF T that]] entry_quads_distinct(1) [OF T that e(1)]
      tables_okD(1) [OF T] by (metis data_page_def last_in_set s1_def)
  have bm1: "ldq s1 e = ?bm XOR m" using owner_reads [OF H eU eU] by (simp add: s1_def)
  have lin: "x + of_nat l * 64 + 64 = x + of_nat (64 * l + 64)" for x :: addr and l
    by (simp add: algebra_simps)
  from r have g: "NOT ?bm AND m = 0"
    and p: "p = data_page s e + of_nat (64 * ?lo + 64)"
    and s': "s' = put_header p e (of_nat j) (of_nat n) s1"
    unfolding take_found_def Let_def run_start [OF j(2)] m_def [symmetric] s1_def [symmetric]
    using dp1 [OF e(1)] unfolding lin by (auto simp: bindE_Inr_iff data_page_def add.assoc)
  have set_m: "bit ?bm k" if "?lo \<le> k" "k < ?lo + n" for k
    using g that unfolding sub_mask_iff bit_m by simp
  have free: "\<forall>c\<in>L. \<not> overlap (e, ?lo, n) c"
  proof (rule ballI, rule notI)
    fix c assume c: "c \<in> L"
    obtain f l k where cc: "c = (f, l, k)" by (cases c) auto
    assume "overlap (e, ?lo, n) c"
    then have f: "f = e" "?lo < l + k" "l < ?lo + n" by (auto simp: cc)
    have "2 \<le> k" using K c by (auto simp: heap_ok_def cc)
    then have "\<not> bit ?bm (max ?lo l)"
      using entry_block_bits [OF K c [unfolded cc f(1)], of "max ?lo l"] f n by simp
    moreover have "bit ?bm (max ?lo l)" by (rule set_m) (use f n in auto)
    ultimately show False by simp
  qed
  have H1: "held s1 U" unfolding s1_def by (rule owner_writes [OF H eU])
  have K1: "heap_ok s1 U ts L" unfolding s1_def
  proof (rule bitmap_write [OF H K e(1)])
    fix l k i assume b: "(e, l, k) \<in> L" and i: "l \<le> i" "i < l + k"
    have "\<not> bit ?bm i" by (rule entry_block_bits [OF K b i])
    then show "\<not> bit (?bm XOR m) i" using set_m [of i] by (auto simp: bit_xor_iff bit_m)
  qed
  have e1: "data_page s1 e \<noteq> 0" using dp1 e by simp
  have bits: "\<forall>k. ?lo \<le> k \<and> k < ?lo + n \<longrightarrow> \<not> bit (ldq s1 e) k"
    unfolding bm1 using set_m by (simp add: bit_xor_iff bit_m)
  note I = install_block [OF H1 K1 e(1) e1 n lo(2) bits free]
  have s'_alt: "s' = put_header (data_page s1 e + of_nat (64 * ?lo + 64)) e (of_nat (?lo + n - 1)) (of_nat n) s1"
    unfolding s' p lo(3) dp1 [OF e(1)] ..
  note I = I [folded s'_alt]
  have "keeps s s' L"
  proof (rule keeps_chunkI [OF K e lo(1) _ free])
    show "data_page s' f = data_page s f" if "f \<in> entries ts" for f
      using I(3) [OF that] dp1 [OF that] by simp
    show "ldq s' a = ldq s a" if a: "page_of a \<in> U" "page_of a \<notin> set ts"
      and far: "\<And>h. 64 * ?lo \<le> h \<Longrightarrow> h < 64 * ?lo + 64 \<Longrightarrow> a \<noteq> data_page s e + of_nat h" for a
    proof -
      have "ldq s1 a = ldq s a"
        using owner_reads [OF H eU a(1)] entries_page(1) [OF T e(1)] a(2) by (auto simp: s1_def)
      with I(4) [OF a(1)] far [of "64 * ?lo + 56"] far [of "64 * ?lo + 48"] far [of "64 * ?lo + 40"]
      show ?thesis unfolding dp1 [OF e(1)] header_offsets by simp
    qed
  qed (use n in simp)
  moreover have "p = user_ptr s' (e, ?lo, n)"
    using I(3) [OF e(1)] dp1 [OF e(1)] p by (simp add: user_ptr_def)
  ultimately show ?thesis using I(1,2) free by blast
qed

end

context heap_pages begin

lemma fill_fresh:
  assumes H: "held s U" and K: "heap_ok s U ts L" and p: "p \<in> U" "page_aligned p"
    and zero: "\<And>a. page_of a = p \<Longrightarrow> ldq s a = 0"
  shows "held (memfill_page p s) U \<and> heap_ok (memfill_page p s) U ts L \<and>
    (\<forall>a. page_of a \<in> U \<longrightarrow> ldq (memfill_page p s) a = ldq s a)"
proof -
  have "ldq (memfill_page p s) a = ldq s a" if "page_of a \<in> U" for a
    using fill_reads [OF H p that] zero by simp
  moreover from this have "heap_ok (memfill_page p s) U ts L"
    by (intro heap_ok_cong [OF K _ order_refl]) simp_all
  ultimately show ?thesis using owner_fills [OF H p] by simp
qed

lemma page_kept:
  assumes "held s U" and K: "heap_ok s U ts L" and "kpalloc s = Inr (p, s')"
  shows "keeps s s' L" and "f \<in> entries ts \<Longrightarrow> data_page s' f = data_page s f \<and> ldq s' f = ldq s f"
    and "p \<notin> set ts" and "f \<in> entries ts \<Longrightarrow> data_page s f \<noteq> p"
proof -
  have T: "tables_ok s U ts" using K by (simp add: heap_ok_def)
  note k = kept [OF assms(1,3)] and fr = fresh [OF assms(1,3)]
  show dp: "f \<in> entries ts \<Longrightarrow> data_page s' f = data_page s f \<and> ldq s' f = ldq s f" for f
    using k entries_page [OF T] by (simp add: data_page_def)
  show "keeps s s' L" by (rule keepsI [OF K]) (simp_all add: dp k)
  show "p \<notin> set ts" using fr tables_okD(5) [OF T] by auto
  show "data_page s f \<noteq> p" if "f \<in> entries ts" using fr tables_okD(7) [OF T that] by auto
qed

lemma new_entry_ok:
  assumes H: "held s U" and K: "heap_ok s U ts L" and NA: "spare s ts NA"
    and r: "new_entry kpalloc NA (last ts) s = Inr (e, s')"
  shows "\<exists>V us. U \<subseteq> V \<and> held s' V \<and> heap_ok s' V us L \<and> e \<in> entries us \<and> data_page s' e = 0 \<and> keeps s s' L"
proof (cases "NA = 0")
  case False
  with r NA have "s' = s" "e \<in> entries ts" "data_page s e = 0" by (auto simp: new_entry_def spare_def)
  moreover have "keeps s s L" by (simp add: keeps_def)
  ultimately show ?thesis using H K by blast
next
  case True
  with r obtain t s1 where a: "kpalloc s = Inr (t, s1)"
    and e: "e = ldq s' (last ts + 0xff8)"
    and s'0: "s' = memfill_page (ldq (stq (last ts + 0xff8) t s1) (last ts + 0xff8)) (stq (last ts + 0xff8) t s1)"
    by (auto simp: new_entry_def bindE_Inr_iff Let_def)
  let ?V = "insert t U"
  let ?s2 = "stq (last ts + 0xff8) t s1"
  have t: "page_aligned t" "t \<noteq> 0" "t \<notin> U" and H1: "held s1 ?V" using fresh [OF H a] by auto
  have K1: "heap_ok s1 ?V ts L" by (rule held_kept [OF H K a])
  have T1: "tables_ok s1 ?V ts" using K1 by (simp add: heap_ok_def)
  note pk = page_kept [OF H K a]
  have dp1: "\<forall>f\<in>entries ts. data_page s1 f \<noteq> t" using pk(2,4) by simp
  have z1: "\<forall>a. page_of a = t \<longrightarrow> ldq s1 a = 0" using zeroed [OF H a] by simp
  have l: "last ts \<in> set ts" using tables_okD(1) [OF T1] by simp
  have lp: "page_of (last ts + 0xff8) = last ts" "page_of (last ts + 0xff8) \<in> ?V"
    using page_offset [OF tables_okD(4) [OF T1 l], of 4088] tables_okD(5) [OF T1 l] by simp_all
  note L2 = link_table [OF H1 K1 t(1,2) insertI1 pk(3) dp1 z1]
  have z2: "ldq ?s2 a = 0" if "page_of a = t" for a
    using L2(3) [of a] zeroed [OF H a that] that lp(1) pk(3) l by auto
  have r2: "ldq ?s2 (last ts + 0xff8) = t" using owner_reads [OF H1 lp(2) lp(2)] by simp
  have s': "s' = memfill_page t ?s2" using s'0 unfolding r2 .
  from fill_fresh [OF L2(2,1) insertI1 t(1) z2]
  have s3: "held s' ?V" "heap_ok s' ?V (ts @ [t]) L" and same: "\<And>a. page_of a \<in> ?V \<Longrightarrow> ldq s' a = ldq ?s2 a"
    by (auto simp: s')
  have et: "e = t" using e same [OF lp(2)] r2 by simp
  have "t \<in> entries (ts @ [t])" using entry_in_entries [of t "ts @ [t]" 0] by (simp add: entry_def)
  moreover have "data_page s' t = 0"
    using page_offset [OF t(1), of 8] same [of "t + 8"] z2 [of "t + 8"] by (simp add: data_page_def)
  moreover have "keeps s1 s' L"
  proof (rule keepsI [OF K1])
    show "data_page s' f = data_page s1 f" if f: "f \<in> entries ts" for f
      using same [OF entries_page(4) [OF T1 f]] L2(3) [OF entries_page(4) [OF T1 f]] entry_quads_distinct(4) [OF T1 f f l]
      by (simp add: data_page_def)
    show "ldq s' a = ldq s1 a" if "page_of a \<in> ?V" "page_of a \<notin> set ts" for a
      using same [OF that(1)] L2(3) [OF that(1)] that(2) lp(1) l by auto
  qed
  ultimately show ?thesis using s3 et keeps_trans [OF pk(1)] by blast
qed

end

context heap_pages begin

lemma take_new_ok:
  assumes H: "held s U" and K: "heap_ok s U ts L" and e: "e \<in> entries ts" "data_page s e = 0"
    and n: "2 \<le> n" "n < 32" and r: "take_new kpalloc e n s = Inr (p, s')"
  shows "\<exists>V. U \<subseteq> V \<and> held s' V \<and> heap_ok s' V ts (insert (e, 0, n) L) \<and> p = user_ptr s' (e, 0, n) \<and>
    (\<forall>c\<in>L. \<not> overlap (e, 0, n) c) \<and> keeps s s' L"
proof -
  let ?s1 = "stq e (- 1 XOR sizemask n) s"
  from r obtain d s2 where al: "kpalloc ?s1 = Inr (d, s2)" and
      s'0: "s' = (let s = stq (e + 8) d s2; s = memfill_page (ldq s (e + 8)) s; p = ldq s (e + 8) + 64
                 in put_header p e (of_nat n - 1) (of_nat n) s)" and
      p0: "p = ldq (memfill_page (ldq (stq (e + 8) d s2) (e + 8)) (stq (e + 8) d s2)) (e + 8) + 64"
    by (auto simp: take_new_def bindE_Inr_iff Let_def)
  let ?s3 = "stq (e + 8) d s2"
  let ?s4 = "memfill_page d ?s3"
  let ?V = "insert d U"
  have T: "tables_ok s U ts" using K by (simp add: heap_ok_def)
  have none: "(e, l, k) \<notin> L" for l k using K e by (auto simp: heap_ok_def)
  note ep = entries_page [OF T e(1)]
  have H1: "held ?s1 U" by (rule owner_writes [OF H ep(3)])
  have K1: "heap_ok ?s1 U ts L" by (rule bitmap_write [OF H K e(1)]) (use none in blast)
  have dp1: "data_page ?s1 f = data_page s f" if f: "f \<in> entries ts" for f
    using owner_reads [OF H ep(3) entries_page(4) [OF T f]] entry_quads_distinct(1) [OF T f e(1)]
      tables_okD(1) [OF T] by (metis data_page_def last_in_set)
  have k01: "keeps s ?s1 L"
  proof (rule keepsI [OF K dp1])
    show "ldq ?s1 a = ldq s a" if "page_of a \<in> U" "page_of a \<notin> set ts" for a
      using owner_reads [OF H ep(3) that(1)] that(2) ep(1) by auto
  qed
  have d: "page_aligned d" "d \<noteq> 0" "d \<notin> U" and H2: "held s2 ?V" using fresh [OF H1 al] by auto
  have K2: "heap_ok s2 ?V ts L" by (rule held_kept [OF H1 K1 al])
  have T2: "tables_ok s2 ?V ts" using K2 by (simp add: heap_ok_def)
  note pk = page_kept [OF H1 K1 al] and ep2 = entries_page [OF T2 e(1)]
  have dp2: "data_page s2 f = data_page s f" if "f \<in> entries ts" for f using pk(2) [OF that] dp1 [OF that] by simp
  have bm2: "ldq s2 e = - 1 XOR sizemask n"
    using pk(2) [OF e(1)] owner_reads [OF H ep(3) ep(3)] by simp
  have e2: "data_page s2 e = 0" using dp2 [OF e(1)] e(2) by simp
  have nd: "data_page s2 f \<noteq> d" if "f \<in> entries ts" for f using pk(2,4) [OF that] by simp
  have K3: "heap_ok ?s3 ?V ts L"
    and dp3: "data_page ?s3 f = (if f = e then d else data_page s2 f)" if "f \<in> entries ts" for f
    using attach_page [OF H2 K2 e(1) e2 d(1) insertI1 pk(3) nd] that e by auto
  have K3: "heap_ok ?s3 ?V ts L" by (rule K3 [OF e(1)])
  have H3: "held ?s3 ?V" by (rule owner_writes [OF H2 ep2(4)])
  note rd3 = owner_reads [OF H2 ep2(4)]
  have dt: "page_of (e + 8) \<noteq> d" using ep2(2) pk(3) by auto
  have z3: "ldq ?s3 a = 0" if "page_of a = d" for a
    using rd3 [of a] that dt zeroed [OF H1 al that] by auto
  from fill_fresh [OF H3 K3 insertI1 d(1) z3]
  have H4: "held ?s4 ?V" and K4: "heap_ok ?s4 ?V ts L"
    and same: "\<And>a. page_of a \<in> ?V \<Longrightarrow> ldq ?s4 a = ldq ?s3 a" by auto
  have dp4: "data_page ?s4 f = (if f = e then d else data_page s f)" if f: "f \<in> entries ts" for f
    using same [OF entries_page(4) [OF T2 f]] dp3 [OF f] dp2 [OF f] by (simp add: data_page_def)
  have bm4: "ldq ?s4 e = - 1 XOR sizemask n"
    using same [OF ep2(3)] rd3 [OF ep2(3)] bm2 entry_quads_distinct(1) [OF T2 e(1) e(1)] tables_okD(1) [OF T2]
    by (metis last_in_set)
  have link: "ldq ?s3 (e + 8) = d" "ldq ?s4 (e + 8) = d"
    using dp3 [OF e(1)] dp4 [OF e(1)] by (simp_all add: data_page_def)
  have p: "p = data_page ?s4 e + of_nat (64 * 0 + 64)"
    and s': "s' = put_header p e (of_nat (0 + n - 1)) (of_nat n) ?s4"
    using p0 s'0 n dp4 [OF e(1)] unfolding Let_def link by (simp_all add: of_nat_diff)
  have free: "\<forall>c\<in>L. \<not> overlap (e, 0, n) c" using none by auto
  have bits: "\<forall>k. 0 \<le> k \<and> k < 0 + n \<longrightarrow> \<not> bit (ldq ?s4 e) k"
    unfolding bm4 using n by (simp add: sizemask_small bit_simps)
  have e4: "data_page ?s4 e \<noteq> 0" using dp4 [OF e(1)] d by simp
  have n64: "0 + n \<le> 64" using n by simp
  note I = install_block [OF H4 K4 e(1) e4 n n64 bits free, folded p, folded s']
  have "keeps ?s1 s' L"
  proof (rule keepsI [OF K1])
    show "data_page s' f = data_page ?s1 f" if f: "f \<in> entries ts" "data_page ?s1 f \<noteq> 0" for f
      using I(3) [OF f(1)] dp4 [OF f(1)] dp1 [OF f(1)] e f by auto
    show "ldq s' a = ldq ?s1 a" if a: "page_of a \<in> U" "page_of a \<notin> set ts" for a
    proof -
      have "a \<noteq> data_page ?s4 e + of_nat h" if "h < 4096" for h
        using page_offset [OF d(1) that] dp4 [OF e(1)] a(1) d(3) by auto
      from this [of "64 * 0 + 56"] this [of "64 * 0 + 48"] this [of "64 * 0 + 40"]
      have "ldq s' a = ldq ?s4 a" using I(4) [of a] a(1) unfolding p header_offsets by simp
      also have "\<dots> = ldq ?s3 a" using same a(1) by simp
      also have "\<dots> = ldq s2 a" using rd3 [of a] a ep2(2) by auto
      also have "\<dots> = ldq ?s1 a" by (rule kept [OF H1 al a(1)])
      finally show ?thesis .
    qed
  qed
  then have "keeps s s' L" by (rule keeps_trans [OF k01])
  moreover have "p = user_ptr s' (e, 0, n)" using I(3) [OF e(1)] p by (simp add: user_ptr_def)
  ultimately show ?thesis using I(1,2) free by blast
qed

end

subsection \<open>malloc and free\<close>

lemma malloc_returns:
  assumes "heap_ok s U ts L"
  shows "\<exists>r. malloc kpalloc sz s = Some r"
proof (cases "chunks sz")
  case (Inr n)
  have T: "tables_ok s U ts" using assms by (simp add: heap_ok_def)
  have "spare s ts 0" by (simp add: spare_def)
  from scan_chain_ok [OF tables_okD(2,1) [OF T] order_refl this, of n]
  obtain q m where "scan_chain s n (ml1 s) 0 = Some (q, m)" by blast
  with Inr show ?thesis by (cases q) (simp_all add: malloc_def)
qed (simp add: malloc_def)

context heap_pages begin

lemma malloc_ok:
  assumes H: "held s U" and K: "heap_ok s U ts L" and sz: "sz \<le> 1920"
    and r: "malloc kpalloc sz s = Some (Inr (p, s'))"
  shows "\<exists>V us e lo n. U \<subseteq> V \<and> held s' V \<and> heap_ok s' V us (insert (e, lo, n) L) \<and>
    p = user_ptr s' (e, lo, n) \<and> unat sz \<le> 64 * (n - 1) \<and> (\<forall>c\<in>L. \<not> overlap (e, lo, n) c) \<and> keeps s s' L"
proof -
  have T: "tables_ok s U ts" using K by (simp add: heap_ok_def)
  obtain n where c: "chunks sz = Inr n" using r by (auto simp: malloc_def split: sum.splits)
  have n: "2 \<le> n" "n < 32" "unat sz \<le> 64 * (n - 1)" using chunks_small [OF c sz] by auto
  obtain q m where q: "scan_chain s n (ml1 s) 0 = Some (q, m)" "search_ok s n ts q"
      "\<forall>NA. q = NotFound NA \<longrightarrow> m = last ts"
    using scan_chain_ok [OF tables_okD(2,1) [OF T] order_refl, of 0 n] by (auto simp: spare_def)
  show ?thesis
  proof (cases q)
    case (Found e j)
    with q have e: "e \<in> entries ts" "data_page s e \<noteq> 0" and f: "find_run (ldq s e) n 0 64 0 = Some j" by auto
    have j: "j < 64" "n \<le> j + 1" using find_run_bounds [OF f] n by auto
    have "take_found e j n s = Inr (p, s')" using r c q Found by (simp add: malloc_def)
    from take_found_ok [OF H K e n(1,2) j this] n(3) show ?thesis by blast
  next
    case (NotFound NA)
    with q r c obtain e s1 where a: "new_entry kpalloc NA (last ts) s = Inr (e, s1)"
      and b: "take_new kpalloc e n s1 = Inr (p, s')"
      by (auto simp: malloc_def bindE_Inr_iff)
    have "spare s ts NA" using q(2) NotFound by simp
    from new_entry_ok [OF H K this a] obtain V us where V: "U \<subseteq> V" "held s1 V" "heap_ok s1 V us L"
      "e \<in> entries us" "data_page s1 e = 0" "keeps s s1 L" by blast
    from take_new_ok [OF V(2-5) n(1,2) b] obtain W where W: "V \<subseteq> W" "held s' W"
      "heap_ok s' W us (insert (e, 0, n) L)" "p = user_ptr s' (e, 0, n)" "\<forall>c\<in>L. \<not> overlap (e, 0, n) c"
      "keeps s1 s' L" by blast
    show ?thesis
      using W V(1) n(3) keeps_trans [OF V(6) W(6)]
      by (intro exI [of _ W] exI [of _ us] exI [of _ e] exI [of _ 0] exI [of _ n]) simp
  qed
qed

lemma chunk_write:
  assumes H: "held s U" and K: "heap_ok s U ts L" and e: "e \<in> entries ts" "data_page s e \<noteq> 0"
    and n: "2 \<le> n" "lo + n \<le> 64" and free: "\<forall>c\<in>L. \<not> overlap (e, lo, n) c"
    and i: "64 * lo \<le> i" "i < 64 * lo + 64" and s': "s' = stq (data_page s e + of_nat i) v s"
  shows "held s' U \<and> heap_ok s' U ts L \<and>
    (\<forall>f\<in>entries ts. ldq s' f = ldq s f \<and> data_page s' f = data_page s f)"
proof -
  have T: "tables_ok s U ts" using K by (simp add: heap_ok_def)
  have i4: "i < 4096" using i n by simp
  have "i < 64 * l \<or> 64 * l + 64 \<le> i" if "(e, l, m) \<in> L" for l m
  proof -
    have "2 \<le> m" using K that(1) by (auto simp: heap_ok_def)
    with free that(1) n have "l \<noteq> lo" by auto
    with i show ?thesis by linarith
  qed
  then show ?thesis
    unfolding s' using held_stq_data [OF H T e i4] data_write [OF H K e i4]
      data_write_tables [OF H T e page_offset [OF tables_okD(6) [OF T e] i4]] by blast
qed

lemma free_ok:
  assumes H: "held s U" and K: "heap_ok s U ts L" and b: "(e, lo, n) \<in> L"
  defines "p \<equiv> user_ptr s (e, lo, n)" and "M \<equiv> L - {(e, lo, n)}"
  shows "\<exists>s'. free p s = Inr s' \<and> held s' U \<and> heap_ok s' U ts M \<and> keeps s s' M \<and>
    (\<forall>k. bit (ldq s' e) k \<longleftrightarrow> bit (ldq s e) k \<or> lo \<le> k \<and> k < lo + n) \<and>
    ldq s' (p - 24) = 0 \<and> ldq s' (p - 8) = 0 \<and> page_of (p - 24) \<in> U \<and> page_of (p - 8) \<in> U"
proof -
  define d where "d = data_page s e"
  have T: "tables_ok s U ts" and e: "e \<in> entries ts" "d \<noteq> 0" and n: "2 \<le> n" "n < 32" "lo + n \<le> 64"
    and bits: "\<And>k. lo \<le> k \<Longrightarrow> k < lo + n \<Longrightarrow> \<not> bit (ldq s e) k"
    and hd: "ldq s (d + of_nat (64 * lo + 56)) = e + 8" "ldq s (d + of_nat (64 * lo + 48)) = of_nat (lo + n - 1)"
      "ldq s (d + of_nat (64 * lo + 40)) = of_nat n"
    using K b by (auto simp: heap_ok_def d_def)
  have o: "64 * lo + 40 < 4096" "64 * lo + 48 < 4096" "64 * lo + 56 < 4096" using n by simp_all
  have p: "p = d + of_nat (64 * lo + 64)" by (simp only: p_def user_ptr_def d_def prod.case)
  have ps: "p - 8 = d + of_nat (64 * lo + 56)" "p - 16 = d + of_nat (64 * lo + 48)"
    "p - 24 = d + of_nat (64 * lo + 40)"
    unfolding p header_offsets by (rule refl)+
  define m where "m = shl64 (sizemask n) (of_nat lo)"
  have bit_m: "bit m k \<longleftrightarrow> lo \<le> k \<and> k < lo + n" for k
    unfolding m_def using bit_shl_mask [of n lo k] n by auto
  have m': "shl64 (sizemask (unat (of_nat n :: u64))) (of_nat (lo + n - 1) - of_nat n + 1) = m"
    using run_start [of n "lo + n - 1"] n unfolding m_def by (simp add: unat_of_nat_small)
  have disj: "ldq s e AND m = 0" by (rule bit_word_eqI) (auto simp: bit_and_iff bit_m bits)
  have others: "\<forall>c\<in>M. \<not> overlap (e, lo, n) c" using K b by (auto simp: heap_ok_def M_def)
  have K0: "heap_ok s U ts M" unfolding M_def by (rule heap_ok_remove [OF K])
  have pg: "page_of (d + of_nat i) = d" "page_of (d + of_nat i) \<in> U" if "i < 4096" for i
    using page_offset [OF tables_okD(6) [OF T e(1)] that] tables_okD(7) [OF T e(1)] e(2) by (simp_all add: d_def)
  note ep = entries_page [OF T e(1)]
  have "e \<noteq> 0"
  proof
    assume "e = 0"
    then have "(0 :: addr) \<in> set ts" using ep(1) by (simp add: page_of_def)
    moreover have "0 \<notin> set us" if "chain s q us" for q us
      using that by (induction us arbitrary: q) auto
    ultimately show False using tables_okD(2) [OF T] by blast
  qed
  moreover have "of_nat n \<noteq> (0 :: u64)" using n unat_of_nat_small(4) [of n] by force
  moreover have "page_of p = d"
    unfolding p using pg(1) [of "64 * lo + 64"] n by simp
  then have "p \<noteq> 0" using e(2) by (auto simp: page_of_def)
  moreover have un: "unat (of_nat n :: u64) = n" using n by (simp add: unat_of_nat_small)
  moreover have "shl64 (sizemask n) (of_nat (lo + n - 1) - of_nat n + 1) = m" using m' unfolding un .
  ultimately have F: "free p s = Inr (stq (p - 8) 0 (stq (p - 16) 0 (stq (p - 24) 0 (stq e (ldq s e XOR m) s))))"
    using hd disj unfolding free_def Let_def ps by (simp del: of_nat_diff of_nat_add of_nat_mult)
  define s1 where "s1 = stq e (ldq s e XOR m) s"
  define s2 where "s2 = stq (d + of_nat (64 * lo + 40)) 0 s1"
  define s3 where "s3 = stq (d + of_nat (64 * lo + 48)) 0 s2"
  define s4 where "s4 = stq (d + of_nat (64 * lo + 56)) 0 s3"
  have F4: "free p s = Inr s4" using F by (simp only: ps s4_def s3_def s2_def s1_def)
  have H1: "held s1 U" unfolding s1_def by (rule owner_writes [OF H ep(3)])
  have K1: "heap_ok s1 U ts M" unfolding s1_def
  proof (rule bitmap_write [OF H K0 e(1)])
    fix l k i assume c: "(e, l, k) \<in> M" and i: "l \<le> i" "i < l + k"
    have "\<not> bit (ldq s e) i" by (rule entry_block_bits [OF K0 c i])
    moreover have "\<not> bit m i" using others c i by (auto simp: bit_m)
    ultimately show "\<not> bit (ldq s e XOR m) i" by (simp add: bit_xor_iff)
  qed
  have dp1: "data_page s1 f = data_page s f" if "f \<in> entries ts" for f
    using owner_reads [OF H ep(3) entries_page(4) [OF T that]] entry_quads_distinct(1) [OF T that e(1)]
      tables_okD(1) [OF T] by (metis data_page_def last_in_set s1_def)
  have d1: "data_page s1 e = d" "data_page s1 e \<noteq> 0" using dp1 [OF e(1)] e(2) by (simp_all add: d_def)
  have C2: "held s2 U \<and> heap_ok s2 U ts M \<and> (\<forall>f\<in>entries ts. ldq s2 f = ldq s1 f \<and> data_page s2 f = data_page s1 f)"
    by (rule chunk_write [OF H1 K1 e(1) d1(2) n(1,3) others, where i = "64 * lo + 40"])
      (simp, simp, simp only: s2_def d1)
  have d2: "data_page s2 e = d" "data_page s2 e \<noteq> 0" using C2 e(1) d1 by simp_all
  have C3: "held s3 U \<and> heap_ok s3 U ts M \<and> (\<forall>f\<in>entries ts. ldq s3 f = ldq s2 f \<and> data_page s3 f = data_page s2 f)"
    by (rule chunk_write [OF C2 [THEN conjunct1] C2 [THEN conjunct2, THEN conjunct1] e(1) d2(2) n(1,3) others,
        where i = "64 * lo + 48"]) (simp, simp, simp only: s3_def d2)
  have d3: "data_page s3 e = d" "data_page s3 e \<noteq> 0" using C3 e(1) d2 by simp_all
  have C4: "held s4 U \<and> heap_ok s4 U ts M \<and> (\<forall>f\<in>entries ts. ldq s4 f = ldq s3 f \<and> data_page s4 f = data_page s3 f)"
    by (rule chunk_write [OF C3 [THEN conjunct1] C3 [THEN conjunct2, THEN conjunct1] e(1) d3(2) n(1,3) others,
        where i = "64 * lo + 56"]) (simp, simp, simp only: s4_def d3)
  have bm: "ldq s4 e = ldq s e XOR m"
    using C2 C3 C4 e(1) owner_reads [OF H ep(3) ep(3)] by (simp add: s1_def)
  have rd: "ldq s4 a = (if a = d + of_nat (64 * lo + 56) \<or> a = d + of_nat (64 * lo + 48) \<or>
      a = d + of_nat (64 * lo + 40) then 0 else ldq s1 a)" if a: "page_of a \<in> U" for a
    unfolding s4_def using owner_reads [OF C3 [THEN conjunct1] pg(2) [OF o(3)] a] unfolding s3_def
    using owner_reads [OF C2 [THEN conjunct1] pg(2) [OF o(2)] a] unfolding s2_def
    using owner_reads [OF H1 pg(2) [OF o(1)] a] by simp
  have "keeps s s4 M"
  proof (rule keeps_chunkI [OF K0 e(1) _ _ _ others])
    show "data_page s4 f = data_page s f" if "f \<in> entries ts" for f
      using that C2 C3 C4 dp1 by simp
    show "ldq s4 a = ldq s a" if a: "page_of a \<in> U" "page_of a \<notin> set ts"
      and far: "\<And>h. 64 * lo \<le> h \<Longrightarrow> h < 64 * lo + 64 \<Longrightarrow> a \<noteq> data_page s e + of_nat h" for a
    proof -
      have "ldq s1 a = ldq s a" using owner_reads [OF H ep(3) a(1)] ep(1) a(2) by (auto simp: s1_def)
      with rd [OF a(1)] far [of "64 * lo + 56"] far [of "64 * lo + 48"] far [of "64 * lo + 40"]
      show ?thesis by (simp add: d_def)
    qed
  qed (use n e d_def in simp_all)
  moreover have "bit (ldq s4 e) k \<longleftrightarrow> bit (ldq s e) k \<or> lo \<le> k \<and> k < lo + n" for k
    unfolding bm bit_xor_iff bit_m using bits by blast
  ultimately show ?thesis
    unfolding F4 ps using C4 rd [OF pg(2) [OF o(1)]] rd [OF pg(2) [OF o(3)]] pg(2) [OF o(1)] pg(2) [OF o(3)]
    by simp
qed

end

context heap_pages begin

lemma initMalloc_ok:
  assumes H: "held s U" and r: "initMalloc kpalloc s = Inr s'"
  shows "\<exists>t. t \<notin> U \<and> held s' (insert t U) \<and> heap_ok s' (insert t U) [t] {}"
proof -
  from r obtain t s1 where a: "kpalloc s = Inr (t, s1)"
    and s': "s' = stq (t + 0xff0) 0 (stq (t + 0xff8) 0 (s1\<lparr>ml1 := t\<rparr>))"
    by (auto simp: initMalloc_def bindE_Inr_iff Let_def stq_def)
  let ?s1 = "s1\<lparr>ml1 := t\<rparr>" and ?U = "insert t U"
  have t: "page_aligned t" "t \<noteq> 0" "t \<notin> U" and H1: "held ?s1 ?U"
    using fresh [OF H a] held_ml1 by auto
  have pg: "page_of (t + 0xff8) = t" "page_of (t + 0xff0) = t"
    using page_offset [OF t(1), of 4088] page_offset [OF t(1), of 4080] by simp_all
  then have pU: "page_of (t + 0xff8) \<in> ?U" "page_of (t + 0xff0) \<in> ?U" by simp_all
  have H2: "held (stq (t + 0xff8) 0 ?s1) ?U" by (rule owner_writes [OF H1 pU(1)])
  have "ldq s' q = 0" if q: "page_of q = t" for q
    using owner_reads [OF H1 pU(1), of q] owner_reads [OF H2 pU(2), of q] zeroed [OF H a q] q
    by (simp add: s' ldq_def)
  moreover have "ml1 s' = t" by (simp add: s')
  moreover have "page_of (e + 8) = t" if "e \<in> entries [t]" for e
  proof -
    from that obtain i where "i < 255" "e + 8 = t + of_nat (16 * i + 8)" by (rule entriesE) simp
    with page_offset [OF t(1), of "16 * i + 8"] show ?thesis by (simp only:)
  qed
  ultimately have "heap_ok s' ?U [t] {}"
    using t pg by (simp add: heap_ok_def tables_ok_def data_page_def)
  moreover have "held s' ?U" unfolding s' by (rule owner_writes [OF H2 pU(2)])
  ultimately show ?thesis using t(3) by blast
qed

lemma user_write_ok:
  assumes H: "held s U" and K: "heap_ok s U ts L" and b: "b \<in> L" and a: "user_quad s b a"
  shows "held (stq a v s) U \<and> heap_ok (stq a v s) U ts L"
proof -
  obtain e lo n where bb: "b = (e, lo, n)" by (cases b) auto
  from a obtain i where i: "64 * lo + 64 \<le> i" "i < 64 * (lo + n)" "a = data_page s e + of_nat i"
    by (auto simp: user_quad_def bb)
  have T: "tables_ok s U ts" and e: "e \<in> entries ts" "data_page s e \<noteq> 0" "lo + n \<le> 64"
    and D: "\<forall>b\<in>L. \<forall>c\<in>L. overlap b c \<longrightarrow> b = c"
    using K b by (auto simp: heap_ok_def bb)
  have i4: "i < 4096" using i e by simp
  have "i < 64 * l \<or> 64 * l + 64 \<le> i" if c: "(e, l, m) \<in> L" for l m
  proof (rule ccontr)
    assume no: "\<not> ?thesis"
    have "2 \<le> m" using K c by (auto simp: heap_ok_def)
    with no i have "overlap (e, lo, n) (e, l, m)" by auto
    with D b c have "l = lo" unfolding bb by blast
    with no i show False by simp
  qed
  then show ?thesis
    unfolding i(3) using held_stq_data [OF H T e(1,2) i4] data_write [OF H K e(1,2) i4] by blast
qed

end

subsection \<open>The heap on the page pool\<close>

text \<open>
  \<open>KPALLOC\<close> provides the contract, for every \<open>KP_ALLOC3\<close> that maps fresh pages and has no
  business with the heap's own variable.
\<close>

locale heap_mapper = page_mapper kp_alloc3
  for kp_alloc3 :: "'a kheap_scheme \<Rightarrow> fault + addr \<times> 'a kheap_scheme" +
  assumes ml1_mapped: "kp_alloc3 s = Inr (p, s') \<Longrightarrow> ml1 s' = ml1 s"
begin

lemma ml1_refill: "refill kp_alloc3 i n s = Inr s' \<Longrightarrow> ml1 s' = ml1 s"
proof (induction n arbitrary: i s)
  case (Suc n)
  show ?case
  proof (cases "ldq s (slot i) = 0")
    case True
    with Suc.prems obtain p s1 where "kp_alloc3 s = Inr (p, s1)"
      "refill kp_alloc3 (Suc i) n (stq (slot i) p s1) = Inr s'"
      by (auto simp: bindE_Inr_iff)
    with Suc.IH ml1_mapped show ?thesis by fastforce
  qed (use Suc in auto)
qed simp

lemma ml1_KPALLOC: "KPALLOC kp_alloc3 s = Inr (p, s') \<Longrightarrow> ml1 s' = ml1 s"
  by (auto simp: KPALLOC_def Let_def bindE_Inr_iff dest!: ml1_refill split: prod.splits if_splits)

end

sublocale heap_mapper \<subseteq> heap: heap_pages "KPALLOC kp_alloc3" pool_held
  by unfold_locales (rule ml1_KPALLOC, assumption, simp add: pool_held_def ldq_def)

context heap_mapper begin

lemmas pool_malloc_ok = heap.malloc_ok
lemmas pool_free_ok = heap.free_ok
lemmas pool_initMalloc_ok = heap.initMalloc_ok
lemmas pool_user_write_ok = heap.user_write_ok

end

text \<open>
  The pool before paging can add to it: \<open>KP_ALLOC3\<close> reports that the address space is
  exhausted, so every page comes from the slots filled so far.
\<close>

definition no_more_pages :: "'s \<Rightarrow> fault + addr \<times> 's" where
  "no_more_pages s = Inl (ERROR ERR_PAGE_NOFREESPACE 0)"

interpretation boot: heap_mapper no_more_pages
  by unfold_locales (simp_all add: no_more_pages_def)

text \<open>A pool with two pages, and the heap started on it.\<close>

definition boot_heap :: "unit kheap_scheme" where
  "boot_heap = \<lparr>mem = (\<lambda>a. if a = slot 0 then MBASE + 0x1f000 else if a = slot 1 then MBASE + 0x19000 else 0),
     PA_CALLING = 1, ml1 = 0\<rparr>"

lemma boot_heap_held: "pool_held boot_heap {}"
  by (rule pool_heldI)
    (auto simp: boot_heap_def ldq_def slot_inj page_aligned_def MBASE_def CBASE_def POOL_def split: if_splits)

definition started :: "unit kheap_scheme" where
  "started = projr (initMalloc (KPALLOC no_more_pages) boot_heap)"

lemma boot_starts: "isOk (initMalloc (KPALLOC no_more_pages) boot_heap)"
  by code_simp

text \<open>The first request on a table with no data page takes its first entry.\<close>

lemma scan_table_empty:
  "i + k \<le> 255 \<Longrightarrow> 0 < k \<Longrightarrow> page_aligned t \<Longrightarrow> t \<noteq> 0 \<Longrightarrow> (\<And>a. page_of a = t \<Longrightarrow> ldq s a = 0) \<Longrightarrow>
    scan_table s sz t i k NA = NotFound (if NA = 0 then entry t i else NA)"
proof (induction k arbitrary: i NA)
  case (Suc k)
  have "i < 255" using Suc.prems(1) by simp
  then have pg: "page_of (entry t i + 8) = t" "page_of (entry t i) = t"
    unfolding entry_offsets(2) unfolding entry_offsets(1)
    by (simp_all only: page_offset [OF Suc.prems(3), of "16 * i + 8"] page_offset [OF Suc.prems(3), of "16 * i"])
  have ne: "entry t i \<noteq> 0" using pg(2) Suc.prems(4) by (auto simp: page_of_def)
  have z: "ldq s (entry t i + 8) = 0" using Suc.prems(5) pg(1) by simp
  show ?case
    using Suc.IH [OF _ _ Suc.prems(3,4,5), of "Suc i" "if NA = 0 then entry t i else NA"] Suc.prems(1) ne
    by (cases k) (simp_all add: z)
qed simp

lemma scan_chain_empty:
  assumes "page_aligned t" "t \<noteq> 0" "\<And>a. page_of a = t \<Longrightarrow> ldq s a = 0"
  shows "scan_chain s sz t 0 = Some (NotFound t, t)"
proof -
  have "ldq s (t + 0xff8) = 0" using page_offset [OF assms(1), of 4088] assms(3) by simp
  then show ?thesis
    using scan_table_empty [OF _ _ assms, of 0 255 sz 0] by (simp add: scan_chain.simps entry_def)
qed

lemma started_state:
  "started = stq (MBASE + 0x1fff0) 0 (stq (MBASE + 0x1fff8) 0
     ((memfill_page (MBASE + 0x1f000) (stq (slot 0) 0 boot_heap))\<lparr>ml1 := MBASE + 0x1f000\<rparr>))"
  using KPALLOC_first [of "MBASE + 0x1f000" 0 boot_heap no_more_pages]
  by (simp add: started_def initMalloc_def Let_def boot_heap_def ldq_def MBASE_def CBASE_def)

lemma started_zero: "page_of a = MBASE + 0x1f000 \<Longrightarrow> ldq started a = 0"
proof -
  assume "page_of a = MBASE + 0x1f000"
  then have "a - (MBASE + 0x1f000) < 0x1000"
    using page_of_iff [of "MBASE + 0x1f000" a] by (simp add: page_aligned_def MBASE_def CBASE_def)
  then show ?thesis
    unfolding started_state by (simp add: ldq_def stq_def memfill_page_def)
qed

lemma take_new_isOk:
  "kpalloc (stq NA (- 1 XOR sizemask n) s) = Inr (d, s2) \<Longrightarrow> isOk (take_new kpalloc NA n s)"
  by (simp add: take_new_def Let_def)

lemma started_pool: "ldq started (slot 0) = 0" "ldq started (slot 1) = MBASE + 0x19000"
  unfolding started_state by (simp_all add: ldq_def stq_def memfill_page_def slot_def POOL_def MBASE_def CBASE_def boot_heap_def)

definition first_block :: "addr \<times> unit kheap_scheme" where
  "first_block = projr (take_new (KPALLOC no_more_pages) (MBASE + 0x1f000) 3 started)"

lemma first_block: "isOk (take_new (KPALLOC no_more_pages) (MBASE + 0x1f000) 3 started)"
proof -
  let ?s = "stq (MBASE + 0x1f000) (- 1 XOR sizemask 3) started"
  have ne: "MBASE + 0x19000 \<noteq> 0" "slot 0 \<noteq> MBASE + 0x1f000" "slot 1 \<noteq> MBASE + 0x1f000"
    by (simp_all add: slot_def POOL_def MBASE_def CBASE_def)
  have "KPALLOC no_more_pages ?s = Inr (MBASE + 0x19000, memfill_page (MBASE + 0x19000) (stq (slot 1) 0 ?s))"
    by (rule KPALLOC_first) (use ne in \<open>simp_all add: started_pool started_pool(2) [unfolded One_nat_def]\<close>)
  then show ?thesis by (rule take_new_isOk)
qed

lemma chunks_100: "chunks 100 = Inr 3"
  by (simp add: chunks_def MOD64_32_def DIV64_32_def)

lemma started_mallocs: "malloc (KPALLOC no_more_pages) 100 started = Some (Inr first_block)"
proof -
  have al: "page_aligned (MBASE + 0x1f000)" "MBASE + 0x1f000 \<noteq> (0 :: addr)"
    by (simp_all add: page_aligned_def MBASE_def CBASE_def)
  have "ml1 started = MBASE + 0x1f000" by (simp add: started_state)
  then show ?thesis
    using scan_chain_empty [OF al started_zero, of 3] first_block al(2)
    by (auto simp: malloc_def chunks_100 new_entry_def first_block_def isOk_def split: sum.splits)
qed

lemma started_heap: "\<exists>t. pool_held started {t} \<and> heap_ok started {t} [t] {}"
proof -
  have "initMalloc (KPALLOC no_more_pages) boot_heap = Inr started"
    using boot_starts by (simp add: started_def isOk_def split: sum.splits)
  from boot.pool_initMalloc_ok [OF boot_heap_held this] show ?thesis by auto
qed

lemma first_block_heap:
  "\<exists>V us e lo n. pool_held (snd first_block) V \<and> heap_ok (snd first_block) V us {(e, lo, n)} \<and>
    fst first_block = user_ptr (snd first_block) (e, lo, n)"
proof -
  obtain t where t: "pool_held started {t}" "heap_ok started {t} [t] {}" using started_heap by blast
  have "malloc (KPALLOC no_more_pages) 100 started = Some (Inr (fst first_block, snd first_block))"
    using started_mallocs by simp
  from boot.pool_malloc_ok [OF t _ this] obtain V us e lo n where
    "pool_held (snd first_block) V" "heap_ok (snd first_block) V us {(e, lo, n)}"
    "fst first_block = user_ptr (snd first_block) (e, lo, n)" by auto
  then show ?thesis by blast
qed

subsection \<open>Properties\<close>



text \<open>C28. \<open>free\<close> of a block in use succeeds, gives exactly the block's chunks back to the bitmap,
  keeps the heap well formed with that block gone and the other blocks untouched, and makes a second
  \<open>free\<close> of the same address stop with the double free error.\<close>

theorem free_sound:
  assumes "pool_held s U" and "heap_ok s U ts L" and "(e, lo, n) \<in> L"
  shows "\<exists>s'. free (user_ptr s (e, lo, n)) s = Inr s' \<and> pool_held s' U \<and> heap_ok s' U ts (L - {(e, lo, n)}) \<and>
    keeps s s' (L - {(e, lo, n)}) \<and>
    (\<forall>k. bit (ldq s' e) k \<longleftrightarrow> bit (ldq s e) k \<or> lo \<le> k \<and> k < lo + n) \<and>
    free (user_ptr s (e, lo, n)) s' = Inl (ERROR ERR_DOUBLE_FREE (user_ptr s (e, lo, n)))"
proof -
  let ?p = "user_ptr s (e, lo, n)"
  from boot.pool_free_ok [OF assms] obtain s' where
    s': "free ?p s = Inr s'" "pool_held s' U" "heap_ok s' U ts (L - {(e, lo, n)})"
      "keeps s s' (L - {(e, lo, n)})"
      "\<forall>k. bit (ldq s' e) k \<longleftrightarrow> bit (ldq s e) k \<or> lo \<le> k \<and> k < lo + n"
      "ldq s' (?p - 24) = 0" "ldq s' (?p - 8) = 0" by blast
  have "?p \<noteq> 0" using s'(1) by (auto simp: free_def)
  then have "free ?p s' = Inl (ERROR ERR_DOUBLE_FREE ?p)"
    using s'(6,7) by (simp add: free_def Let_def)
  with s' show ?thesis by blast
qed

theorem free_sound_witness:
  "\<exists>s' ts V. free (fst first_block) (snd first_block) = Inr s' \<and> heap_ok s' V ts {} \<and>
    free (fst first_block) s' = Inl (ERROR ERR_DOUBLE_FREE (fst first_block))"
proof -
  from first_block_heap obtain V us e lo n where b: "pool_held (snd first_block) V"
    "heap_ok (snd first_block) V us {(e, lo, n)}" "fst first_block = user_ptr (snd first_block) (e, lo, n)" by blast
  from free_sound [OF b(1,2) insertI1] show ?thesis unfolding b(3) by auto
qed



text \<open>Owners that write only inside their blocks cannot damage the heap: after any such write the
  heap is well formed with the same blocks.\<close>

theorem heap_user_write:
  assumes "pool_held s U" and "heap_ok s U ts L" and "b \<in> L" and "user_quad s b a"
  shows "pool_held (stq a v s) U \<and> heap_ok (stq a v s) U ts L"
  by (rule boot.pool_user_write_ok [OF assms])

theorem heap_user_write_witness:
  "\<exists>V us b. b \<noteq> {} \<and> heap_ok (stq (fst first_block) 7 (snd first_block)) V us b"
proof -
  from first_block_heap obtain V us e lo n where b: "pool_held (snd first_block) V"
    "heap_ok (snd first_block) V us {(e, lo, n)}" "fst first_block = user_ptr (snd first_block) (e, lo, n)" by blast
  have "2 \<le> n" using b(2) by (simp add: heap_ok_def)
  then have "user_quad (snd first_block) (e, lo, n) (fst first_block)"
    unfolding b(3) user_quad_def user_ptr_def prod.case by (intro exI [of _ "64 * lo + 64"]) simp
  from heap_user_write [OF b(1,2) insertI1 this] show ?thesis by blast
qed

subsection \<open>A request the masks cannot describe\<close>

lemma take_new_explicit:
  assumes "kpalloc (stq NA (- 1 XOR sizemask n) s) = Inr (d, s2)" and "\<not> NA + 8 - d < 0x1000"
  shows "take_new kpalloc NA n s = Inr (d + 64,
    put_header (d + 64) NA (of_nat n - 1) (of_nat n) (memfill_page d (stq (NA + 8) d s2)))"
  using assms by (simp add: take_new_def Let_def ldq_memfill_page)

definition T0 :: addr where "T0 = 0x800003f000"
definition D0 :: addr where "D0 = 0x8000039000"

definition big_heap :: "unit kheap_scheme" where
  "big_heap = put_header (D0 + 64) T0 31 32 (memfill_page D0 (stq (T0 + 8) D0
     (memfill_page D0 (stq (slot 1) 0 (stq T0 (- 1) started)))))"

lemma sizemask_32: "sizemask 32 = 0"
  by (simp add: sizemask_def int_shl1_def sx64_def)

lemma chunks_1984: "chunks 1984 = Inr 32"
  by (simp add: chunks_def MOD64_32_def DIV64_32_def)

lemma chunks_64: "chunks 64 = Inr 2"
  by (simp add: chunks_def MOD64_32_def DIV64_32_def)

lemma boot_addresses:
  "MBASE + 0x1f000 = T0" "MBASE + 0x19000 = D0" "D0 \<noteq> 0" "T0 \<noteq> 0" "slot 0 \<noteq> T0" "slot 1 \<noteq> T0"
  "\<not> T0 + 8 - D0 < 0x1000" "\<not> T0 - D0 < 0x1000" "page_aligned T0"
  by (simp_all add: T0_def D0_def slot_def POOL_def MBASE_def CBASE_def page_aligned_def)

lemma big_malloc: "malloc (KPALLOC no_more_pages) 1984 started = Some (Inr (D0 + 64, big_heap))"
proof -
  let ?s = "stq T0 (- 1 XOR sizemask 32) started"
  have "ldq ?s (slot 1) = D0" and "ldq ?s (slot j) = 0" if "j < 1" for j
    using started_pool boot_addresses(2,5,6) that by simp_all
  with KPALLOC_first [OF boot_addresses(3), of 1 ?s no_more_pages]
  have k: "KPALLOC no_more_pages ?s = Inr (D0, memfill_page D0 (stq (slot 1) 0 ?s))" by simp
  have tn: "take_new (KPALLOC no_more_pages) T0 32 started = Inr (D0 + 64, big_heap)"
    unfolding take_new_explicit [of "KPALLOC no_more_pages" T0 32, OF k boot_addresses(7)] by (simp add: sizemask_32 big_heap_def)
  have "ml1 started = T0" by (simp add: started_state boot_addresses)
  then show ?thesis
    using scan_chain_empty [OF boot_addresses(9,4) started_zero [unfolded boot_addresses(1)], of 32] tn boot_addresses(4)
    by (simp add: malloc_def chunks_1984 new_entry_def)
qed

lemma big_heap_entry: "ml1 big_heap = T0" "ldq big_heap T0 = - 1" "ldq big_heap (T0 + 8) = D0"
  by (simp_all add: big_heap_def put_header_def ldq_memfill_page started_state boot_addresses)
    (simp_all add: T0_def D0_def slot_def POOL_def MBASE_def CBASE_def)

lemma find_run_full: "find_run (- 1) 2 0 64 0 = Some 1"
proof -
  have "bit_test (- 1) j" if "j < 31" for j using that
    by (auto simp: bit_test_def bit_eq_iff bit_simps c_int_simps intro!: exI [of _ j])
  then have "find_run (- 1) 2 0 (Suc (Suc n)) 0 = Some 1" for n by simp
  from this [of 62] show ?thesis by simp
qed

text \<open>A request of 1984 bytes takes 32 chunks, whose mask \<open>(1 << 32) - 1\<close> is computed in 32 bits
  and is 0: the block is handed out without being marked, and the next small request returns the same
  address.\<close>

theorem malloc_large_overlap:
  "\<exists>p s q s'. malloc (KPALLOC no_more_pages) 1984 started = Some (Inr (p, s)) \<and>
    malloc (KPALLOC no_more_pages) 64 s = Some (Inr (q, s')) \<and> q = p"
proof -
  have "scan_table big_heap 2 T0 0 (Suc 254) 0 = Found T0 1"
    unfolding scan_table.simps
    by (simp add: entry_def big_heap_entry find_run_full boot_addresses sizemask_small Let_def)
  then have sc: "scan_chain big_heap 2 T0 0 = Some (Found T0 1, T0)"
    by (simp add: scan_chain.simps)
  have m: "shl64 (sizemask 2) 0 = 3" by (simp add: shl64_def sizemask_small mask_eq_exp_minus_1)
  have ovf: "16 + D0 \<le> D0 + 4096" by (simp add: D0_def)
  have "\<exists>s'. take_found T0 1 2 big_heap = Inr (D0 + 64, s')"
    using ovf by (simp add: take_found_def Let_def big_heap_entry m)
  then have "\<exists>s'. malloc (KPALLOC no_more_pages) 64 big_heap = Some (Inr (D0 + 64, s'))"
    by (simp add: malloc_def chunks_64 big_heap_entry sc)
  with big_malloc show ?thesis by blast
qed

subsection \<open>A heap with room\<close>

text \<open>
  States for witnesses: the first \<open>k\<close> chunks of the first data page are in use, the others are free.
  Requests are then served one behind the other, as long as they stay among the first 31 chunks.
\<close>

definition room :: "'a kheap_scheme \<Rightarrow> nat \<Rightarrow> bool" where
  "room s k \<longleftrightarrow> ml1 s = T0 \<and> ldq s T0 = NOT (mask k) \<and> ldq s (T0 + 8) = D0"

lemma find_run_room:
  assumes "k + n \<le> 31" "0 < n"
  shows "find_run (NOT (mask k)) n 0 64 0 = Some (k + n - 1)"
proof -
  have bt: "bit_test (NOT (mask k)) j \<longleftrightarrow> k \<le> j" if j: "j < 31" for j
  proof -
    have "sx64 (int_shl1 j) = push_bit j 1" using j by (intro bit_word_eqI) (auto simp: bit_sx64_shl1 bit_simps)
    then have "bit_test (NOT (mask k)) j \<longleftrightarrow> bit (NOT (mask k :: u64)) j"
      by (simp add: bit_test_def bit_iff_and_push_bit_not_eq_0)
    then show ?thesis using j by (auto simp: bit_simps)
  qed
  have hit: "find_run (NOT (mask k)) n (k + m) (n - m + r) m = Some (k + n - 1)" if "m < n" for m r
    using that
  proof (induction "n - m" arbitrary: m r)
    case (Suc d)
    have b: "bit_test (NOT (mask k)) (k + m)" using bt[of "k + m"] assms Suc.prems by simp
    obtain r' where r: "n - m + r = Suc r'" "r' = n - Suc m + r" using Suc.prems by (cases "n - m + r") auto
    show ?case
    proof (cases "Suc m = n")
      case True
      then show ?thesis using r b by auto
    next
      case False
      then show ?thesis using Suc.hyps(1)[of "Suc m" r] Suc.hyps(2) Suc.prems r b by simp
    qed
  qed simp
  have "find_run (NOT (mask k)) n j (k - j + (n + r)) 0 = Some (k + n - 1)" if "j \<le> k" for j r
    using that
  proof (induction "k - j" arbitrary: j)
    case 0
    then show ?case using hit[of 0 r] assms(2) by simp
  next
    case (Suc d)
    have b: "\<not> bit_test (NOT (mask k)) j" using bt[of j] Suc assms by simp
    show ?case using Suc.hyps(1)[of "Suc j"] Suc.hyps(2) b by (simp add: Suc_diff_Suc[symmetric])
  qed
  from this[of 0 "64 - k - n"] show ?thesis using assms by simp
qed

lemma room_malloc:
  assumes r: "room s k" and c: "chunks sz = Inr n" and n: "2 \<le> n" "k + n \<le> 31"
  shows "\<exists>s'. malloc kpalloc sz s = Some (Inr (D0 + of_nat (64 * k + 64), s')) \<and> room s' (k + n)"
proof -
  have bm: "ldq s T0 = NOT (mask k)" "ldq s (T0 + 8) = D0" "ml1 s = T0" using r by (simp_all add: room_def)
  have le: "sizemask n \<le> NOT (mask k)"
  proof -
    have "mask n AND mask 62 = (mask n :: u64)" by (rule bit_word_eqI) (use n in \<open>auto simp: bit_simps\<close>)
    then have "(mask n :: u64) \<le> mask 62" by (metis word_and_le1)
    also have "\<dots> \<le> mask 63 XOR mask 64" by (simp add: mask_eq_exp_minus_1)
    also have "NOT (mask k) AND (mask 63 XOR mask 64) = (mask 63 XOR mask 64 :: u64)"
      by (rule bit_word_eqI) (use n in \<open>auto simp: bit_and_iff bit_xor_iff bit_not_iff bit_mask_iff\<close>)
    then have "mask 63 XOR mask 64 \<le> (NOT (mask k) :: u64)" by (metis word_and_le2)
    finally show ?thesis using n by (simp add: sizemask_small)
  qed
  have "scan_table s n T0 0 (Suc 254) 0 = Found T0 (k + n - 1)"
    unfolding scan_table.simps using le n find_run_room[of k n] by (simp add: entry_def bm boot_addresses Let_def)
  then have sc: "scan_chain s n T0 0 = Some (Found T0 (k + n - 1), T0)" by (simp add: scan_chain.simps)
  have sh: "of_nat (k + n - 1) - of_nat n + 1 = (of_nat k :: u64)" using n by (simp add: of_nat_diff)
  have bits: "bit (shl64 (sizemask n) (of_nat k) :: u64) i \<longleftrightarrow> k \<le> i \<and> i < k + n" for i
    using bit_shl_mask[of n k i] n by auto
  have fit: "NOT (NOT (mask k)) AND shl64 (sizemask n) (of_nat k) = (0 :: u64)"
    by (rule bit_word_eqI) (auto simp: bit_and_iff bits bit_simps)
  have new: "NOT (mask k) XOR shl64 (sizemask n) (of_nat k) = (NOT (mask (k + n)) :: u64)"
    by (rule bit_word_eqI) (use n in \<open>auto simp: bit_xor_iff bits bit_simps\<close>)
  have "\<exists>s'. take_found T0 (k + n - 1) n s = Inr (D0 + of_nat (64 * k + 64), s') \<and> room s' (k + n)"
  proof -
    define p where "p = D0 + of_nat (64 * k + 64)"
    define s' where "s' = put_header p T0 (of_nat (k + n - 1)) (of_nat n) (stq T0 (NOT (mask (k + n))) s)"
    have pa: "D0 + of_nat k * 64 + 64 = p" by (simp add: p_def algebra_simps)
    have up: "unat p = unat D0 + (64 * k + 64)" "unat (of_nat n :: u64) = n"
      unfolding p_def using n by (simp_all add: unat_word_ariths unat_of_nat_small D0_def unat_of_nat)
    have ovf: "p + of_nat n * 8 - 64 \<le> D0 + 0x1000"
    proof -
      have "p + of_nat n * 8 - 64 = D0 + of_nat (64 * k + 8 * n)" by (simp add: p_def algebra_simps)
      moreover have "unat (D0 + of_nat (64 * k + 8 * n)) = unat D0 + (64 * k + 8 * n)"
        using n by (simp add: unat_word_ariths unat_of_nat D0_def)
      moreover have "unat (D0 + 0x1000) = unat D0 + 4096" by (simp add: D0_def)
      moreover have "64 * k + 8 * n \<le> 4096" using n by linarith
      ultimately show ?thesis unfolding word_le_nat_alt by (simp only: add_le_cancel_left)
    qed
    have t8: "(T0 + 8 = T0) = False" by simp
    have ne: "T0 \<noteq> p - 8" "T0 \<noteq> p - 16" "T0 \<noteq> p - 24" "T0 + 8 \<noteq> p - 8" "T0 + 8 \<noteq> p - 16" "T0 + 8 \<noteq> p - 24"
    proof -
      have "page_of (p - of_nat d) = D0" if "d \<in> {8, 16, 24}" for d
      proof -
        have "p - of_nat d = D0 + of_nat (64 * k + 64 - d)" using that by (auto simp: p_def)
        then show ?thesis using page_offset[of D0 "64 * k + 64 - d"] n by (simp add: D0_def page_aligned_def)
      qed
      from this[of 8] this[of 16] this[of 24] have "page_of (p - 8) = D0" "page_of (p - 16) = D0" "page_of (p - 24) = D0" by simp_all
      moreover have "page_of T0 \<noteq> D0" "page_of (T0 + 8) \<noteq> D0" by (simp_all add: T0_def D0_def page_of_def)
      ultimately show "T0 \<noteq> p - 8" "T0 \<noteq> p - 16" "T0 \<noteq> p - 24" "T0 + 8 \<noteq> p - 8" "T0 + 8 \<noteq> p - 16" "T0 + 8 \<noteq> p - 24" by metis+
    qed
    have "take_found T0 (k + n - 1) n s = Inr (p, s')"
      using ovf
      by (simp only: take_found_def Let_def sh ldq_stq bm t8 if_False fit pa guard_simps bindE_simps new s'_def simp_thms)
    moreover have "room s' (k + n)"
      using r ne by (simp add: room_def s'_def put_header_def)
    ultimately show ?thesis by (auto simp: p_def)
  qed
  then show ?thesis using sc bm c by (simp add: malloc_def)
qed

lemma room_cong: "mem s' = mem s \<Longrightarrow> ml1 s' = ml1 s \<Longrightarrow> room s' k = room s k"
  by (simp add: room_def ldq_def)

lemma chunks_of_small: "0 < sz \<Longrightarrow> sz \<le> 64 \<Longrightarrow> chunks sz = Inr 2"
proof -
  assume a: "0 < sz" "sz \<le> 64"
  then have u: "0 < unat sz" "unat sz \<le> 64" by (simp_all add: word_less_nat_alt word_le_nat_alt)
  show ?thesis
  proof (cases "sz = 64")
    case False
    then have l: "unat sz < 64" using False a(2) order.not_eq_order_implies_strict[of sz 64] by (simp add: word_less_nat_alt)
    obtain r :: u32 where r: "MOD64_32 sz 64 = Inr r" "unat r = unat sz"
    proof -
      have "unat (of_nat (unat sz) :: u32) = unat sz" by (rule unat_of_nat_small) (use l in simp)
      moreover have "MOD64_32 sz 64 = Inr (of_nat (unat sz))" using l by (simp add: MOD64_32_def)
      ultimately show ?thesis using that by blast
    qed
    have nz: "r \<noteq> 0" using r(2) u by auto
    have "unat (ucast (64 - r) :: u64) = 64 - unat sz"
      using l r(2) by (simp add: unat_ucast_up unat_sub word_le_nat_alt)
    then have "unat (sz + ucast (64 - r)) = 64" using l by (simp add: unat_word_ariths)
    then have "sz + ucast (64 - r) = 64" by (simp add: word_unat_eq_iff)
    moreover have "sz \<noteq> 0" using a by auto
    ultimately show ?thesis using r nz by (simp add: chunks_def DIV64_32_def)
  qed (simp add: chunks_def MOD64_32_def DIV64_32_def)
qed

lemma chunks_265: "chunks 265 = Inr 6"
  by (simp add: chunks_def MOD64_32_def DIV64_32_def)

lemma first_block_state:
  "snd first_block = put_header (D0 + 64) T0 2 3 (memfill_page D0 (stq (T0 + 8) D0 (memfill_page D0
     (stq (slot 1) 0 (stq T0 (- 1 XOR sizemask 3) started)))))"
proof -
  let ?s = "stq T0 (- 1 XOR sizemask 3) started"
  have "ldq ?s (slot 1) = D0" and "ldq ?s (slot j) = 0" if "j < 1" for j
    using started_pool boot_addresses(2,5,6) that by simp_all
  with KPALLOC_first [OF boot_addresses(3), of 1 ?s no_more_pages]
  have k: "KPALLOC no_more_pages ?s = Inr (D0, memfill_page D0 (stq (slot 1) 0 ?s))" by simp
  show ?thesis
    unfolding first_block_def boot_addresses(1) take_new_explicit [of "KPALLOC no_more_pages" T0 3, OF k boot_addresses(7)] by simp
qed

lemma room_first_block: "room (snd first_block) 3"
  by (simp add: first_block_state room_def put_header_def ldq_memfill_page started_state boot_addresses sizemask_small mask_eq_exp_minus_1)
    (simp add: T0_def D0_def slot_def POOL_def MBASE_def CBASE_def)

end
