(* ===== verification/Proc.thy ===== *)
theory Proc
  imports Malloc "HOL-Library.Monad_Syntax"
begin

section \<open>Tasks and the scheduler (proc.c, asmbridge.S)\<close>

text \<open>
  Task control blocks live at the addresses \<open>malloc\<close> returned for them; \<open>tcbs\<close> maps the
  address to the record. Queues are linked through \<open>nxt\<close> (the field \<open>next\<close>) with 0 for NULL:
  the ready list from \<open>FIRST_THREAD\<close> to \<open>LAST_THREAD\<close>, the sleeping list, the list of tasks
  waiting for an interrupt, the list of dead tasks, and the list of each semaphore.

  The kernel stack of a task is modelled by what is left to do on it: \<open>rsp\<close> is the list of
  pending returns, innermost first. A function that may switch tasks pushes what it does after
  the switch and calls \<open>schedule\<close>; \<open>run_tail\<close> later pops and executes it, on whatever task is
  then current. Everything else is translated statement by statement.

  An operation returns a value of type \<open>'a run\<close>: \<open>None\<close> when it never returns (the processor
  halts and no interrupt is left that would wake it, or a loop over a cyclic list), \<open>Some (Inl
  f)\<close> when it stops with the fault \<open>f\<close>, and \<open>Some (Inr a)\<close> when it returns \<open>a\<close>.
\<close>

type_synonym 'a run = "(fault + 'a) option"

definition bindR :: "'a run \<Rightarrow> ('a \<Rightarrow> 'b run) \<Rightarrow> 'b run" where
  "bindR m f = Option.bind m (\<lambda>r. case r of Inl e \<Rightarrow> Some (Inl e) | Inr a \<Rightarrow> f a)"

definition ret :: "'a \<Rightarrow> 'a run" where
  "ret a = Some (Inr a)"

definition stop :: "fault \<Rightarrow> 'a run" where
  "stop e = Some (Inl e)"

definition check :: "bool \<Rightarrow> fault \<Rightarrow> unit run" where
  "check b e = (if b then ret () else stop e)"

lemma bindR_simps [simp]:
  "bindR (Some (Inl e)) f = Some (Inl e)"
  "bindR (Some (Inr a)) f = f a"
  "bindR None f = None"
  "bindR (ret a) f = f a"
  "bindR (stop e) f = stop e"
  by (simp_all add: bindR_def ret_def stop_def)

lemma check_simps [simp]: "check True e = ret ()" "check False e = stop e"
  by (simp_all add: check_def)

lemma ret_iff [simp]: "ret a = ret b \<longleftrightarrow> a = b" "ret a \<noteq> stop e" "stop e \<noteq> ret a" "ret a = Some r \<longleftrightarrow> r = Inr a"
  "stop e = Some r \<longleftrightarrow> r = Inl e"
  by (auto simp: ret_def stop_def)

lemma bindR_ret_iff: "bindR m f = ret b \<longleftrightarrow> (\<exists>a. m = ret a \<and> f a = ret b)"
  by (cases m) (auto simp: bindR_def ret_def split: sum.splits)

lemma bindR_mono [partial_function_mono]:
  assumes "mono_option B" and "\<And>y. mono_option (\<lambda>f. C y f)"
  shows "mono_option (\<lambda>f. bindR (B f) (\<lambda>y. C y f))"
proof -
  have "mono_option (\<lambda>f. case r of Inl e \<Rightarrow> Some (Inl e) | Inr a \<Rightarrow> C a f)" for r
    using assms(2) by (cases r) (auto intro: option.const_mono)
  then show ?thesis unfolding bindR_def by (intro bind_mono assms(1))
qed

lemma bindR_cong [fundef_cong]:
  "m = m' \<Longrightarrow> (\<And>a. m' = Some (Inr a) \<Longrightarrow> f a = f' a) \<Longrightarrow> bindR m f = bindR m' f'"
  by (cases m') (auto simp: bindR_def split: sum.splits)

definition lift :: "fault + 'a \<Rightarrow> 'a run" where
  "lift r = Some r"

lemma lift_simps [simp]: "lift (Inr a) = ret a" "lift (Inl e) = stop e"
  by (simp_all add: lift_def ret_def stop_def)

subsection \<open>The state\<close>

datatype task_state =
    STATE_RUNNING | STATE_READY | STATE_WAITING | STATE_DEAD | STATE_PAUSED
  | STATE_WAITING_FOR_IRQ | STATE_WAITING_FOR_PROC_UPDATE | STATE_WAITING_FOR_LOCK
  | STATE_WAITING_FOR_POKE | STATE_WAITING_FOR_DEATH | STATE_BURIED

text \<open>What a task does when control comes back to it.\<close>

datatype kont =
    K_unlock_scheduler            \<comment> \<open>\<open>unlock_scheduler()\<close>\<close>
  | K_unlock_stuff                \<comment> \<open>\<open>unlock_stuff()\<close>\<close>
  | K_irq_enable                  \<comment> \<open>the rest of \<open>unlock_stuff\<close> after \<open>schedule()\<close>\<close>
  | K_block task_state            \<comment> \<open>\<open>block_task(reason)\<close>\<close>
  | K_procupdate                  \<comment> \<open>the rest of \<open>wait_for_procupdate\<close>\<close>
  | K_start addr addr             \<comment> \<open>a new task: enter \<open>startingRIP(arguments)\<close>\<close>

record thread_control_block =
  rsp :: "kont list"
  rsp48 :: addr                   \<comment> \<open>the quad at \<open>rsp+48\<close> of the saved stack\<close>
  rsp0 :: addr
  nxt :: addr
  state :: task_state
  priority :: u8
  ttn :: u64
  time_used :: u64
  irq_waiting_for :: u8
  PL :: u8
  timeout_function :: addr
  file_descriptors :: addr
  cr3 :: addr
  vaddsp :: addr
  kernelFdLen :: u64
  pid :: u64
  pidW :: u64
  parent :: addr
  children :: addr
  brk :: addr
  perms :: addr

record TCB_CH =
  ch_next :: addr
  ch :: addr

record SEMAPHORE =
  max_count :: int
  current_count :: int
  first_waiting :: addr
  last_waiting :: addr

text \<open>The streams a file descriptor page holds (headers/filesystem.h).\<close>

datatype stream_function = NULL_FN | StdIOStream | FileStream

record stream =
  fn :: stream_function
  arguments :: addr
  position :: u64
  sflags :: u64

datatype irq = PIT | DEVICE_IRQ u8

record sched = kheap +
  tcbs :: "addr \<Rightarrow> thread_control_block"
  chs :: "addr \<Rightarrow> TCB_CH"
  sems :: "addr \<Rightarrow> SEMAPHORE"
  pokes :: "addr \<Rightarrow> addr"
  fds :: "addr \<Rightarrow> nat \<Rightarrow> stream"
  IRQ_disable_counter :: int
  task_switches_postponed_flag :: bool
  next_PID :: u64
  postpone_task_switches_counter :: int
  time_slice_remaining :: u64
  current_task_TCB :: addr
  last_count :: u64
  FIRST_THREAD :: addr
  LAST_THREAD :: addr
  DEAD_TASKS :: addr
  sleeping_task_list :: addr
  irqwaiting :: addr
  procwaiting :: addr
  TIME :: u64
  CPU_idle_time :: u64
  irqscalled :: u64
  int_flag :: bool               \<comment> \<open>the processor's interrupt flag\<close>
  iopl :: u64
  tss_rsp0 :: addr
  p_frees :: "addr list"         \<comment> \<open>pages given to \<open>P_FREE\<close>, in order\<close>
  irqs :: "irq list"             \<comment> \<open>interrupts that arrive while the processor is halted\<close>

type_synonym 'a op = "'a sched_scheme \<Rightarrow> 'a sched_scheme run"

definition tcb :: "addr \<Rightarrow> 'a sched_scheme \<Rightarrow> thread_control_block" where
  "tcb p s = tcbs s p"

definition upd :: "addr \<Rightarrow> (thread_control_block \<Rightarrow> thread_control_block) \<Rightarrow> 'a sched_scheme \<Rightarrow> 'a sched_scheme" where
  "upd p f s = s\<lparr>tcbs := (tcbs s)(p := f (tcbs s p))\<rparr>"

text \<open>Pushing on the stack of the current task.\<close>

definition push :: "kont \<Rightarrow> 'a sched_scheme \<Rightarrow> 'a sched_scheme" where
  "push k s = upd (current_task_TCB s) (\<lambda>t. t\<lparr>rsp := k # rsp t\<rparr>) s"

subsection \<open>Locks\<close>

definition lock_scheduler :: "'a sched_scheme \<Rightarrow> 'a sched_scheme" where
  "lock_scheduler s = s\<lparr>int_flag := False, IRQ_disable_counter := IRQ_disable_counter s + 1\<rparr>"

definition irq_enable :: "'a sched_scheme \<Rightarrow> 'a sched_scheme" where
  "irq_enable s =
     (let s = s\<lparr>IRQ_disable_counter := IRQ_disable_counter s - 1\<rparr>
      in if IRQ_disable_counter s = 0 then s\<lparr>int_flag := True\<rparr> else s)"

definition unlock_scheduler :: "'a sched_scheme \<Rightarrow> 'a sched_scheme" where
  "unlock_scheduler s = irq_enable s"

definition lock_stuff :: "'a sched_scheme \<Rightarrow> 'a sched_scheme" where
  "lock_stuff s = s\<lparr>int_flag := False, IRQ_disable_counter := IRQ_disable_counter s + 1,
     postpone_task_switches_counter := postpone_task_switches_counter s + 1\<rparr>"

text \<open>\<open>unlock_stuff\<close> calls \<open>schedule\<close>, which is its argument here.\<close>

definition unlock_stuff_with :: "'a op \<Rightarrow> 'a op" where
  "unlock_stuff_with sch s =
     bindR (check (postpone_task_switches_counter s \<noteq> 0) FAULT) (\<lambda>_.
     let s = s\<lparr>postpone_task_switches_counter := postpone_task_switches_counter s - 1\<rparr>
     in if postpone_task_switches_counter s = 0 \<and> task_switches_postponed_flag s
        then bindR (check (current_task_TCB s \<noteq> 0) FAULT) (\<lambda>_.
               sch (push K_irq_enable (s\<lparr>task_switches_postponed_flag := False\<rparr>)))
        else ret (irq_enable s))"

definition update_time_used :: "'a sched_scheme \<Rightarrow> 'a sched_scheme" where
  "update_time_used s =
     (let current_count = TIME s;
          elapsed = last_count s - current_count;
          s = s\<lparr>last_count := current_count\<rparr>
      in if current_task_TCB s = 0 then s\<lparr>CPU_idle_time := CPU_idle_time s + elapsed\<rparr>
         else upd (current_task_TCB s) (\<lambda>t. t\<lparr>time_used := time_used t + elapsed\<rparr>) s)"

subsection \<open>The ready list\<close>

definition append_ready :: "addr \<Rightarrow> 'a sched_scheme \<Rightarrow> 'a sched_scheme" where
  "append_ready p s =
     (let s = upd (LAST_THREAD s) (\<lambda>t. t\<lparr>nxt := p\<rparr>) s in s\<lparr>LAST_THREAD := p\<rparr>)"

definition unblock_task :: "addr \<Rightarrow> 'a op" where
  "unblock_task task s =
     bindR (check (task \<noteq> 0) (PF 24)) (\<lambda>_.
     let s = lock_scheduler s in
     bindR (check (state (tcb task s) \<noteq> STATE_RUNNING) (ERROR ERR_TASK_SHOULD_BE_RUNNING task)) (\<lambda>_.
     bindR (check (state (tcb task s) \<noteq> STATE_READY) (ERROR ERR_TASK_BADUNBLOCK task)) (\<lambda>_.
     let s = upd task (\<lambda>t. t\<lparr>state := STATE_READY\<rparr>) s;
         s = (if FIRST_THREAD s = 0
              then (let s = s\<lparr>LAST_THREAD := task\<rparr>;
                        s = upd task (\<lambda>t. t\<lparr>nxt := 0\<rparr>) s
                    in s\<lparr>FIRST_THREAD := LAST_THREAD s\<rparr>)
              else append_ready task s)
     in ret (unlock_scheduler s))))"

subsection \<open>Interrupt handlers\<close>

text \<open>
  Each walks a list, detaching it first: tasks that are done waiting are unblocked, the others
  are pushed back. The handlers hold the scheduler lock, so the call of \<open>schedule\<close> in
  \<open>PIT_IRQ_handler\<close> only sets the flag; \<open>unlock_stuff\<close> may call it for real.
\<close>

definition schedule_postponed :: "'a sched_scheme \<Rightarrow> 'a sched_scheme" where
  "schedule_postponed s = s\<lparr>task_switches_postponed_flag := True\<rparr>"

partial_function (option) wake_irq :: "u8 \<Rightarrow> addr \<Rightarrow> bool \<Rightarrow> 'a sched_scheme \<Rightarrow> (bool \<times> 'a sched_scheme) run" where
  "wake_irq irq p woke s =
     (if p = 0 then ret (woke, s)
      else let next_task = nxt (tcb p s) in
        if irq_waiting_for (tcb p s) = irq
        then bindR (unblock_task p s) (\<lambda>s. wake_irq irq next_task True s)
        else wake_irq irq next_task woke
               ((upd p (\<lambda>t. t\<lparr>nxt := irqwaiting s\<rparr>) s)\<lparr>irqwaiting := p\<rparr>))"

definition unblockirq_with :: "'a op \<Rightarrow> u8 \<Rightarrow> 'a op" where
  "unblockirq_with sch irq s =
     (let s = lock_stuff s;
          next_task = irqwaiting s;
          s = s\<lparr>irqwaiting := 0\<rparr>
      in bindR (wake_irq irq next_task False s) (\<lambda>(haveweunblocked, s).
         unlock_stuff_with sch
           (if haveweunblocked then s
            else s\<lparr>irqscalled := irqscalled s OR sx64 (int_shl1 (unat irq))\<rparr>)))"

partial_function (option) wake_sleepers :: "addr \<Rightarrow> 'a op" where
  "wake_sleepers p s =
     (if p = 0 then ret s
      else let next_task = nxt (tcb p s) in
        bindR (check (p \<noteq> next_task) (ERROR ERR_TT_NT 0)) (\<lambda>_.
        bindR (check (state (tcb p s) = STATE_WAITING) (ERROR ERR_PIT_WFI_MISP p)) (\<lambda>_.
        if ttn (tcb p s) \<le> TIME s
        then bindR (unblock_task p s) (\<lambda>s. wake_sleepers next_task s)
        else wake_sleepers next_task
               ((upd p (\<lambda>t. t\<lparr>nxt := sleeping_task_list s\<rparr>) s)\<lparr>sleeping_task_list := p\<rparr>))))"

partial_function (option) wake_timeouts :: "addr \<Rightarrow> 'a op" where
  "wake_timeouts p s =
     (if p = 0 then ret s
      else let next_task = nxt (tcb p s) in
        if ttn (tcb p s) \<le> TIME s \<and> ttn (tcb p s) \<noteq> 0
        then bindR (check (timeout_function (tcb p s) \<noteq> 0) (ERROR ERR_TFNTTNNZ p)) (\<lambda>_.
             bindR (unblock_task p (upd p (\<lambda>t. t\<lparr>rsp48 := timeout_function t\<rparr>) s))
               (\<lambda>s. wake_timeouts next_task s))
        else wake_timeouts next_task
               ((upd p (\<lambda>t. t\<lparr>nxt := irqwaiting s\<rparr>) s)\<lparr>irqwaiting := p\<rparr>))"

definition PIT_IRQ_handler_with :: "'a op \<Rightarrow> 'a op" where
  "PIT_IRQ_handler_with sch s =
     (let s = lock_stuff s;
          s = s\<lparr>TIME := TIME s + 10000000\<rparr>;
          next_task = sleeping_task_list s;
          s = s\<lparr>sleeping_task_list := 0\<rparr>
      in bindR (wake_sleepers next_task s) (\<lambda>s.
         let next_task = irqwaiting s;
             s = s\<lparr>irqwaiting := 0\<rparr>
         in bindR (wake_timeouts next_task s) (\<lambda>s.
            unlock_stuff_with sch
              (if time_slice_remaining s \<noteq> 0
               then if time_slice_remaining s \<le> 10000000 then schedule_postponed s
                    else s\<lparr>time_slice_remaining := time_slice_remaining s - 10000000\<rparr>
               else s))))"

definition handle_irq_with :: "'a op \<Rightarrow> irq \<Rightarrow> 'a op" where
  "handle_irq_with sch i s =
     (case i of PIT \<Rightarrow> PIT_IRQ_handler_with sch s | DEVICE_IRQ n \<Rightarrow> unblockirq_with sch n s)"

text \<open>
  The idle loop of \<open>schedule\<close>: \<open>sti; hlt; cli\<close> until a task is ready. There is no current task
  while it runs, so a real call of \<open>schedule\<close> would fault in \<open>unlock_stuff\<close>.
\<close>

fun idle :: "irq list \<Rightarrow> 'a op" where
  "idle [] s = None"
| "idle (i # is) s =
     bindR (handle_irq_with (\<lambda>s. stop FAULT) i (s\<lparr>irqs := is, int_flag := True\<rparr>)) (\<lambda>s.
       let s = s\<lparr>int_flag := False\<rparr>
       in if FIRST_THREAD s = 0 then idle is s else ret s)"

subsection \<open>Parents and children\<close>

definition giveSTDIOback :: "addr \<Rightarrow> addr \<Rightarrow> nat \<Rightarrow> 'a sched_scheme \<Rightarrow> 'a sched_scheme" where
  "giveSTDIOback recipient donor dfdn s =
     (let rfd = file_descriptors (tcb recipient s);
          dfd = file_descriptors (tcb donor s)
      in if fn (fds s rfd 0) \<noteq> StdIOStream
         then (let s = s\<lparr>fds := (fds s)(rfd := (fds s rfd)(0 := fds s dfd dfdn))\<rparr>
               in s\<lparr>fds := (fds s)(dfd := (fds s dfd)(dfdn :=
                      \<lparr>fn = NULL_FN, arguments = 0, position = 0, sflags = 0\<rparr>))\<rparr>)
         else s)"

partial_function (option) find_ch :: "'a sched_scheme \<Rightarrow> addr \<Rightarrow> addr \<Rightarrow> addr \<Rightarrow> (addr \<times> addr) option" where
  "find_ch s c prev p =
     (if p \<noteq> 0 \<and> ch (chs s p) \<noteq> c then find_ch s c p (ch_next (chs s p)) else Some (prev, p))"

definition murderChild :: "addr \<Rightarrow> 'a op" where
  "murderChild c s =
     (let m = parent (tcb c s) in
      case find_ch s c 0 (children (tcb m s)) of
        None \<Rightarrow> None
      | Some (prev, victims) \<Rightarrow>
          bindR (check (victims \<noteq> 0) (ERROR ERR_AMBER_ALERT c)) (\<lambda>_.
          let n = ch_next (chs s victims);
              s = (if prev = 0 then upd m (\<lambda>t. t\<lparr>children := n\<rparr>) s
                   else s\<lparr>chs := (chs s)(prev := (chs s prev)\<lparr>ch_next := n\<rparr>)\<rparr>)
          in if state (tcb m s) \<noteq> STATE_WAITING_FOR_DEATH \<or> state (tcb c s) = STATE_BURIED then ret s
             else unblock_task m (giveSTDIOback m c 0 s)))"

definition P_FREE_event :: "addr \<Rightarrow> 'a sched_scheme \<Rightarrow> 'a sched_scheme" where
  "P_FREE_event p s = s\<lparr>p_frees := p_frees s @ [p]\<rparr>"

partial_function (option) reap_from :: "addr \<Rightarrow> 'a op" where
  "reap_from task s =
     (if task = 0 then ret (s\<lparr>DEAD_TASKS := 0\<rparr>)
      else bindR (if parent (tcb task s) \<noteq> 0 then murderChild task s else ret s) (\<lambda>s.
           let s = (if file_descriptors (tcb task s) \<noteq> 0 then P_FREE_event (file_descriptors (tcb task s)) s else s);
               s = (if cr3 (tcb task s) \<noteq> 0 then P_FREE_event (cr3 (tcb task s)) s else s);
               n = nxt (tcb task s)
           in bindR (if pid (tcb task s) \<noteq> 0 then lift (free task s) else ret s) (\<lambda>s. reap_from n s)))"

definition reap :: "'a op" where
  "reap s = reap_from (DEAD_TASKS s) s"

subsection \<open>Switching and scheduling\<close>

definition PML4V :: addr where "PML4V = MBASE + 0x10000"

definition loadRSP0 :: "addr \<Rightarrow> 'a sched_scheme \<Rightarrow> 'a sched_scheme" where
  "loadRSP0 r s = (upd (current_task_TCB s) (\<lambda>t. t\<lparr>rsp0 := r\<rparr>) s)\<lparr>tss_rsp0 := r\<rparr>"

text \<open>
  \<open>switch_to_task\<close> (asmbridge.S): a task that is still running goes to the end of the ready
  list; the first PML4 entry, which maps user memory, is saved in the page \<open>cr3\<close> of the old
  task and loaded from that of the new one.
\<close>

definition requeue :: "addr \<Rightarrow> 'a sched_scheme \<Rightarrow> 'a sched_scheme" where
  "requeue old s =
     (let s = upd old (\<lambda>t. t\<lparr>state := STATE_READY\<rparr>) s
      in upd old (\<lambda>t. t\<lparr>nxt := 0\<rparr>) (append_ready old s))"

definition switch_to_task :: "addr \<Rightarrow> 'a op" where
  "switch_to_task task s =
     (let old = current_task_TCB s;
          s = (if old \<noteq> 0 \<and> state (tcb old s) = STATE_RUNNING then requeue old s else s);
          s = upd task (\<lambda>t. t\<lparr>state := STATE_RUNNING\<rparr>) s;
          s = s\<lparr>current_task_TCB := task\<rparr>
      in bindR (check (old \<noteq> 0) (PF 60)) (\<lambda>_.
         ret (if cr3 (tcb task s) = cr3 (tcb old s) then s
              else stq PML4V (ldq s (cr3 (tcb task s))) (stq (cr3 (tcb old s)) (ldq s PML4V) s))))"

definition switch_to_task_wrapper :: "addr \<Rightarrow> 'a op" where
  "switch_to_task_wrapper task s =
     (if postpone_task_switches_counter s \<noteq> 0 then ret (schedule_postponed s)
      else bindR
        (if current_task_TCB s = 0 then ret (s\<lparr>time_slice_remaining := 0\<rparr>)
         else bindR (check (state (tcb (current_task_TCB s) s) \<noteq> STATE_READY)
                       (ERROR ERR_SHOULD_NOT_BE_READY2 (current_task_TCB s))) (\<lambda>_.
              ret (s\<lparr>time_slice_remaining :=
                if FIRST_THREAD s = 0 \<and> state (tcb (current_task_TCB s) s) \<noteq> STATE_RUNNING
                then 0 else 50000000\<rparr>)))
        (\<lambda>s. let s = update_time_used s;
                 s = s\<lparr>iopl := if PL (tcb task s) = 2 then 3 else 0\<rparr>
             in bindR (check (current_task_TCB s \<noteq> 0) (PF 8)) (\<lambda>_.
                switch_to_task task (loadRSP0 (rsp0 (tcb task s)) s))))"

definition schedule :: "'a op" where
  "schedule s =
     (if postpone_task_switches_counter s \<noteq> 0 then ret (schedule_postponed s)
      else bindR (check (current_task_TCB s \<noteq> 0) (PF 24)) (\<lambda>_.
        bindR (check (state (tcb (current_task_TCB s) s) \<noteq> STATE_READY)
                 (ERROR ERR_SHOULD_NOT_BE_READY3 (current_task_TCB s))) (\<lambda>_.
        bindR (reap s) (\<lambda>s.
        let cur = current_task_TCB s;
            s = (if state (tcb cur s) = STATE_DEAD
                 then (upd cur (\<lambda>t. t\<lparr>nxt := DEAD_TASKS s\<rparr>) s)\<lparr>DEAD_TASKS := cur\<rparr> else s)
        in if FIRST_THREAD s \<noteq> 0
           then (let task = FIRST_THREAD s;
                     s = s\<lparr>FIRST_THREAD := nxt (tcb task s)\<rparr>
                 in switch_to_task_wrapper task s)
           else if state (tcb cur s) = STATE_RUNNING then ret s
           else if state (tcb cur s) = STATE_DEAD \<and> parent (tcb cur s) = 0 then stop (PF 24)
           else if state (tcb cur s) = STATE_DEAD \<and>
                   state (tcb (parent (tcb cur s)) s) = STATE_WAITING_FOR_DEATH
           then (let s = upd cur (\<lambda>t. t\<lparr>state := STATE_BURIED\<rparr>) s;
                     s = giveSTDIOback (parent (tcb cur s)) cur 0 s
                 in switch_to_task_wrapper (parent (tcb cur s)) s)
           else bindR (check (state (tcb cur s) \<noteq> STATE_READY) (ERROR ERR_SHOULD_NOT_BE_READY cur)) (\<lambda>_.
             let s = s\<lparr>current_task_TCB := 0, time_slice_remaining := 0\<rparr>
             in bindR (idle (irqs s) s) (\<lambda>s.
                let s = s\<lparr>current_task_TCB := cur\<rparr>;
                    task = FIRST_THREAD s;
                    s = s\<lparr>FIRST_THREAD := nxt (tcb task s)\<rparr>
                in if task \<noteq> cur then switch_to_task_wrapper task s
                   else ret (upd cur (\<lambda>t. t\<lparr>state := STATE_RUNNING\<rparr>) s)))))))"

definition unlock_stuff :: "'a op" where
  "unlock_stuff = unlock_stuff_with schedule"

definition PIT_IRQ_handler :: "'a op" where
  "PIT_IRQ_handler = PIT_IRQ_handler_with schedule"

definition unblockirq :: "u8 \<Rightarrow> 'a op" where
  "unblockirq = unblockirq_with schedule"

subsection \<open>Blocking\<close>

definition block_task :: "task_state \<Rightarrow> 'a op" where
  "block_task reason s =
     (let s = lock_scheduler s;
          s = upd (current_task_TCB s) (\<lambda>t. t\<lparr>state := reason\<rparr>) s
      in schedule (push K_unlock_scheduler s))"

text \<open>
  What \<open>run_tail\<close> executes. \<open>K_procupdate\<close> is the test of \<open>irq_waiting_for\<close> at the end of
  \<open>wait_for_procupdate\<close> (its result, \<open>-1\<close> or \<open>0\<close>, is not kept).
\<close>

definition exec_kont :: "kont \<Rightarrow> 'a op" where
  "exec_kont k s =
     (case k of
        K_unlock_scheduler \<Rightarrow> ret (unlock_scheduler s)
      | K_irq_enable \<Rightarrow> ret (irq_enable s)
      | K_unlock_stuff \<Rightarrow> unlock_stuff s
      | K_block r \<Rightarrow> block_task r s
      | K_procupdate \<Rightarrow> ret (if irq_waiting_for (tcb (current_task_TCB s) s) = 1
                           then upd (current_task_TCB s) (\<lambda>t. t\<lparr>irq_waiting_for := 0\<rparr>) s else s)
      | K_start _ _ \<Rightarrow> ret s)"

definition pop_rsp :: "'a sched_scheme \<Rightarrow> 'a sched_scheme" where
  "pop_rsp s = upd (current_task_TCB s) (\<lambda>t. t\<lparr>rsp := tl (rsp t)\<rparr>) s"

partial_function (option) run_tail :: "'a op" where
  "run_tail s =
     (case rsp (tcb (current_task_TCB s) s) of
        [] \<Rightarrow> ret s
      | k # ks \<Rightarrow> bindR (exec_kont k (pop_rsp s)) (\<lambda>s. run_tail s))"

definition nano_sleep_until :: "u64 \<Rightarrow> 'a op" where
  "nano_sleep_until t s =
     (let s = lock_stuff s
      in if t < TIME s then unlock_stuff s
         else (let cur = current_task_TCB s;
                   s = upd cur (\<lambda>tc. tc\<lparr>ttn := t, nxt := sleeping_task_list s\<rparr>) s;
                   s = s\<lparr>sleeping_task_list := cur\<rparr>
               in unlock_stuff (push (K_block STATE_WAITING) s)))"

definition nano_sleep :: "u64 \<Rightarrow> 'a op" where
  "nano_sleep t s = nano_sleep_until (TIME s + t) s"

definition sleep :: "u64 \<Rightarrow> 'a op" where
  "sleep t s = nano_sleep (t * 1000000000) s"

definition wait_for_irq :: "u8 \<Rightarrow> u64 \<Rightarrow> addr \<Rightarrow> 'a op" where
  "wait_for_irq irq timeout tf s =
     (let s = lock_stuff s;
          m = sx64 (int_shl1 (unat irq))
      in if irqscalled s AND m \<noteq> 0 then unlock_stuff (s\<lparr>irqscalled := irqscalled s AND NOT m\<rparr>)
         else (let cur = current_task_TCB s;
                   s = upd cur (\<lambda>t. t\<lparr>irq_waiting_for := irq, nxt := irqwaiting s,
                         ttn := if timeout = 0 then 0 else TIME s + timeout,
                         timeout_function := tf\<rparr>) s;
                   s = s\<lparr>irqwaiting := cur\<rparr>
               in unlock_stuff (push (K_block STATE_WAITING_FOR_IRQ) s)))"

definition waitForChildToDie :: "'a op" where
  "waitForChildToDie s = block_task STATE_WAITING_FOR_DEATH s"

definition PROC_EXIT :: "'a op" where
  "PROC_EXIT s =
     (let s = lock_scheduler s;
          s = upd (current_task_TCB s) (\<lambda>t. t\<lparr>state := STATE_DEAD\<rparr>) s
      in schedule (unlock_scheduler s))"

definition proc_relent :: "'a op" where
  "proc_relent s = schedule s"

subsection \<open>Semaphores and pokes\<close>

definition updsem :: "addr \<Rightarrow> (SEMAPHORE \<Rightarrow> SEMAPHORE) \<Rightarrow> 'a sched_scheme \<Rightarrow> 'a sched_scheme" where
  "updsem p f s = s\<lparr>sems := (sems s)(p := f (sems s p))\<rparr>"

definition create_semaphore :: "('a sched_scheme \<Rightarrow> fault + addr \<times> 'a sched_scheme) \<Rightarrow> int \<Rightarrow>
    'a sched_scheme \<Rightarrow> (addr \<times> 'a sched_scheme) run" where
  "create_semaphore kpalloc n s =
     bindR (malloc kpalloc 32 s) (\<lambda>(p, s).
       ret (p, updsem p (\<lambda>_. \<lparr>max_count = n, current_count = 0, first_waiting = 0, last_waiting = 0\<rparr>) s))"

definition acquire_semaphore :: "addr \<Rightarrow> 'a op" where
  "acquire_semaphore p s =
     (let s = lock_stuff s
      in if current_count (sems s p) < max_count (sems s p)
         then unlock_stuff (updsem p (\<lambda>m. m\<lparr>current_count := current_count m + 1\<rparr>) s)
         else (let cur = current_task_TCB s;
                   s = upd cur (\<lambda>t. t\<lparr>nxt := 0\<rparr>) s;
                   s = (if first_waiting (sems s p) = 0 then updsem p (\<lambda>m. m\<lparr>first_waiting := cur\<rparr>) s
                        else upd (last_waiting (sems s p)) (\<lambda>t. t\<lparr>nxt := cur\<rparr>) s);
                   s = updsem p (\<lambda>m. m\<lparr>last_waiting := cur\<rparr>) s
               in block_task STATE_WAITING_FOR_LOCK (push K_unlock_stuff s)))"

definition release_semaphore :: "addr \<Rightarrow> 'a op" where
  "release_semaphore p s =
     (let s = lock_stuff s
      in if first_waiting (sems s p) \<noteq> 0
         then (let task = first_waiting (sems s p);
                   s = updsem p (\<lambda>m. m\<lparr>first_waiting := nxt (tcb task s)\<rparr>) s
               in bindR (unblock_task task s) unlock_stuff)
         else unlock_stuff (updsem p (\<lambda>m. m\<lparr>current_count := current_count m - 1\<rparr>) s))"

text \<open>\<open>pokes\<close> holds the cell a \<open>thread_control_block **\<close> points to.\<close>

definition wfPokeT :: "addr \<Rightarrow> 'a op" where
  "wfPokeT p s =
     (let s = lock_stuff s
      in bindR (check (p \<noteq> 0 \<and> pokes s p = 0) (ERROR ERR_POKE_NULLP p)) (\<lambda>_.
         unlock_stuff (push (K_block STATE_WAITING_FOR_POKE)
           (s\<lparr>pokes := (pokes s)(p := current_task_TCB s)\<rparr>))))"

definition PokeT :: "addr \<Rightarrow> 'a op" where
  "PokeT p s =
     (let s = lock_stuff s
      in bindR (check (p \<noteq> 0) (ERROR ERR_POKE_NULLP p)) (\<lambda>_.
         if pokes s p \<noteq> 0
         then bindR (unblock_task (pokes s p) s) (\<lambda>s. unlock_stuff (s\<lparr>pokes := (pokes s)(p := 0)\<rparr>))
         else unlock_stuff s))"

subsection \<open>Looking up and creating tasks\<close>

text \<open>The lookup compares with bit 63 set on both sides.\<close>

definition pid_bit :: u64 where "pid_bit = 0x8000000000000000"

partial_function (option) find_pid :: "'a sched_scheme \<Rightarrow> u64 \<Rightarrow> addr \<Rightarrow> addr option" where
  "find_pid s q p =
     (if p = 0 then Some 0
      else if pid (tcb p s) OR pid_bit = q then Some p else find_pid s q (nxt (tcb p s)))"

definition find_task_by_pid :: "u64 \<Rightarrow> 'a sched_scheme \<Rightarrow> addr run" where
  "find_task_by_pid n s =
     (if n = 0 then ret (current_task_TCB s)
      else let q = n OR pid_bit in
        Option.bind (find_pid s q (FIRST_THREAD s)) (\<lambda>p. if p \<noteq> 0 then ret p else
        Option.bind (find_pid s q (sleeping_task_list s)) (\<lambda>p. if p \<noteq> 0 then ret p else
        Option.bind (find_pid s q (procwaiting s)) (\<lambda>p. if p \<noteq> 0 then ret p else
        Option.bind (find_pid s q (irqwaiting s)) (\<lambda>p. if p \<noteq> 0 then ret p else
          stop (ERROR ERR_PID_NOT_FOUND q))))))"

definition wait_for_procupdate :: "u64 \<Rightarrow> u64 \<Rightarrow> 'a op" where
  "wait_for_procupdate n timeout s =
     bindR (find_task_by_pid n s) (\<lambda>p.
       if p = 0 then ret s
       else let s = lock_stuff s;
                cur = current_task_TCB s;
                s = upd cur (\<lambda>t. t\<lparr>pidW := n, nxt := procwaiting s,
                      ttn := if timeout = 0 then 0 else TIME s + timeout\<rparr>) s;
                s = s\<lparr>procwaiting := cur\<rparr>
            in unlock_stuff (push (K_block STATE_WAITING_FOR_PROC_UPDATE) (push K_procupdate s)))"

partial_function (option) unblockP_loop :: "u64 \<Rightarrow> addr \<Rightarrow> 'a op" where
  "unblockP_loop K task s =
     (if task = 0 then ret s
      else bindR (if pidW (tcb task s) = K then unblock_task task s
                  else ret ((upd task (\<lambda>t. t\<lparr>nxt := procwaiting s\<rparr>) s)\<lparr>procwaiting := task\<rparr>))
             (\<lambda>s. unblockP_loop K (nxt (tcb task s)) s))"

definition unblockP :: "u64 \<Rightarrow> 'a op" where
  "unblockP n s =
     (if n AND pid_bit \<noteq> 0
      then bindR (unblockP_loop (n XOR pid_bit) (procwaiting s) (lock_stuff s)) unlock_stuff
      else ret s)"

definition appendChild :: "('a sched_scheme \<Rightarrow> fault + addr \<times> 'a sched_scheme) \<Rightarrow> addr \<Rightarrow> addr \<Rightarrow> 'a op" where
  "appendChild kpalloc A B s =
     (let k = children (tcb A s)
      in bindR (malloc kpalloc 16 s) (\<lambda>(c, s).
         let s = upd A (\<lambda>t. t\<lparr>children := c\<rparr>) s;
             s = s\<lparr>chs := (chs s)(c := \<lparr>ch_next = k, ch = B\<rparr>)\<rparr>
         in ret (if parent (tcb B s) = 0 then upd B (\<lambda>t. t\<lparr>parent := A\<rparr>) s else s)))"

definition new_tcb :: "thread_control_block" where
  "new_tcb = \<lparr>rsp = [], rsp48 = 0, rsp0 = 0, nxt = 0, state = STATE_READY, priority = 0, ttn = 0, time_used = 0,
     irq_waiting_for = 0, PL = 0, timeout_function = 0, file_descriptors = 0, cr3 = 0, vaddsp = 0,
     kernelFdLen = 0, pid = 0, pidW = 0, parent = 0, children = 0, brk = 0, perms = 0\<rparr>"

definition enqueue_new :: "addr \<Rightarrow> 'a sched_scheme \<Rightarrow> 'a sched_scheme" where
  "enqueue_new M s =
     (if FIRST_THREAD s \<noteq> 0 then append_ready M s else s\<lparr>FIRST_THREAD := M, LAST_THREAD := M\<rparr>)"

definition ckprocA :: "('a sched_scheme \<Rightarrow> fault + addr \<times> 'a sched_scheme) \<Rightarrow> addr \<Rightarrow> addr \<Rightarrow> addr \<Rightarrow>
    'a sched_scheme \<Rightarrow> (addr \<times> 'a sched_scheme) run" where
  "ckprocA kpalloc startingRIP args pd s =
     bindR (malloc kpalloc 132 s) (\<lambda>(M, s).
     bindR (lift (kpalloc s)) (\<lambda>(M2, s).
     let s = upd M (\<lambda>_. new_tcb\<lparr>rsp0 := M2 + 0xff8, rsp := [K_start startingRIP args]\<rparr>) s
     in bindR (lift (kpalloc s)) (\<lambda>(c, s).
     let s = upd M (\<lambda>t. t\<lparr>cr3 := c\<rparr>) s;
         s = memfill_page c s;
         s = upd M (\<lambda>t. t\<lparr>pid := next_PID s\<rparr>) s;
         s = s\<lparr>next_PID := next_PID s + 1\<rparr>;
         s = upd M (\<lambda>t. t\<lparr>perms := pd\<rparr>) s
     in bindR (appendChild kpalloc (current_task_TCB s) M s) (\<lambda>s.
     let s = stq (M2 + 0xff8) startingRIP s;
         s = stq (M2 + 0xfe0) args s
     in ret (M, enqueue_new M s)))))"

definition first_tcb :: addr where "first_tcb = MBASE + 0x1d000"

definition initialize_multitasking :: "('a sched_scheme \<Rightarrow> fault + addr \<times> 'a sched_scheme) \<Rightarrow> 'a op" where
  "initialize_multitasking kpalloc s =
     bindR (lift (initMalloc kpalloc s)) (\<lambda>s.
     let s = upd first_tcb (\<lambda>_. new_tcb\<lparr>rsp0 := CBASE + 0x7bff, state := STATE_RUNNING\<rparr>) s;
         s = s\<lparr>current_task_TCB := first_tcb\<rparr>
     in bindR (lift (kpalloc s)) (\<lambda>(c, s).
     let s = upd first_tcb (\<lambda>t. t\<lparr>cr3 := c, pid := next_PID s\<rparr>) s;
         s = s\<lparr>next_PID := next_PID s + 1\<rparr>;
         s = memfill_page c s
     in bindR (malloc kpalloc 16 s) (\<lambda>(pd, s).
     let s = upd first_tcb (\<lambda>t. t\<lparr>perms := pd\<rparr>) s
     in ret ((stq pd 0 s)\<lparr>FIRST_THREAD := 0, LAST_THREAD := 0\<rparr>))))"

text \<open>Operations on the children of the current task.\<close>

partial_function (option) unblock_child_loop :: "u64 \<Rightarrow> addr \<Rightarrow> 'a op" where
  "unblock_child_loop m w s =
     (if w = 0 then ret s
      else bindR (if pid (tcb (ch (chs s w)) s) = m then unblock_task (ch (chs s w)) s else ret s)
             (\<lambda>s. unblock_child_loop m (ch_next (chs s w)) s))"

definition unblock_child :: "u64 \<Rightarrow> 'a op" where
  "unblock_child m s = unblock_child_loop m (children (tcb (current_task_TCB s) s)) s"

definition uwait :: "u64 \<Rightarrow> 'a op" where
  "uwait m s =
     bindR (unblock_child m (lock_scheduler s)) (\<lambda>s. waitForChildToDie (push K_unlock_scheduler s))"

partial_function (option) find_child :: "'a sched_scheme \<Rightarrow> u64 \<Rightarrow> addr \<Rightarrow> addr run" where
  "find_child s m w =
     (if w = 0 then stop (ERROR ERR_FCPID m)
      else if pid (tcb (ch (chs s w)) s) = m then ret (ch (chs s w))
      else find_child s m (ch_next (chs s w)))"

definition find_child_by_pid :: "u64 \<Rightarrow> 'a sched_scheme \<Rightarrow> addr run" where
  "find_child_by_pid m s = find_child s m (children (tcb (current_task_TCB s) s))"

subsection \<open>Fields\<close>

lemma tcb_upd [simp]: "tcb p (upd q f s) = (if p = q then f (tcb q s) else tcb p s)"
  by (simp add: tcb_def upd_def)

lemma upd_fields [simp]:
  "current_task_TCB (upd p f s) = current_task_TCB s" "FIRST_THREAD (upd p f s) = FIRST_THREAD s"
  "LAST_THREAD (upd p f s) = LAST_THREAD s" "DEAD_TASKS (upd p f s) = DEAD_TASKS s"
  "sleeping_task_list (upd p f s) = sleeping_task_list s" "irqwaiting (upd p f s) = irqwaiting s"
  "procwaiting (upd p f s) = procwaiting s" "TIME (upd p f s) = TIME s" "sems (upd p f s) = sems s"
  "pokes (upd p f s) = pokes s" "fds (upd p f s) = fds s" "irqscalled (upd p f s) = irqscalled s"
  "IRQ_disable_counter (upd p f s) = IRQ_disable_counter s" "int_flag (upd p f s) = int_flag s"
  "postpone_task_switches_counter (upd p f s) = postpone_task_switches_counter s"
  "task_switches_postponed_flag (upd p f s) = task_switches_postponed_flag s"
  "time_slice_remaining (upd p f s) = time_slice_remaining s" "chs (upd p f s) = chs s"
  "next_PID (upd p f s) = next_PID s" "irqs (upd p f s) = irqs s"
  by (simp_all add: upd_def)

lemma tcb_frame [simp]:
  "tcb p (s\<lparr>FIRST_THREAD := x\<rparr>) = tcb p s" "tcb p (s\<lparr>LAST_THREAD := x\<rparr>) = tcb p s"
  "tcb p (s\<lparr>DEAD_TASKS := x\<rparr>) = tcb p s" "tcb p (s\<lparr>sleeping_task_list := x\<rparr>) = tcb p s"
  "tcb p (s\<lparr>irqwaiting := x\<rparr>) = tcb p s" "tcb p (s\<lparr>procwaiting := x\<rparr>) = tcb p s"
  "tcb p (s\<lparr>current_task_TCB := x\<rparr>) = tcb p s" "tcb p (s\<lparr>TIME := y\<rparr>) = tcb p s"
  "tcb p (s\<lparr>int_flag := b\<rparr>) = tcb p s" "tcb p (s\<lparr>IRQ_disable_counter := i\<rparr>) = tcb p s"
  "tcb p (s\<lparr>postpone_task_switches_counter := i\<rparr>) = tcb p s"
  "tcb p (s\<lparr>task_switches_postponed_flag := b\<rparr>) = tcb p s"
  "tcb p (s\<lparr>time_slice_remaining := y\<rparr>) = tcb p s" "tcb p (s\<lparr>last_count := y\<rparr>) = tcb p s"
  "tcb p (s\<lparr>CPU_idle_time := y\<rparr>) = tcb p s" "tcb p (s\<lparr>iopl := y\<rparr>) = tcb p s"
  "tcb p (s\<lparr>tss_rsp0 := x\<rparr>) = tcb p s" "tcb p (s\<lparr>irqscalled := y\<rparr>) = tcb p s"
  "tcb p (s\<lparr>sems := m\<rparr>) = tcb p s" "tcb p (s\<lparr>pokes := k\<rparr>) = tcb p s" "tcb p (s\<lparr>fds := d\<rparr>) = tcb p s"
  "tcb p (s\<lparr>irqs := l\<rparr>) = tcb p s"
  by (simp_all add: tcb_def)

lemma stq_fields [simp]:
  "tcb p (stq a v s) = tcb p s" "current_task_TCB (stq a v s) = current_task_TCB s"
  "FIRST_THREAD (stq a v s) = FIRST_THREAD s" "LAST_THREAD (stq a v s) = LAST_THREAD s"
  "DEAD_TASKS (stq a v s) = DEAD_TASKS s" "IRQ_disable_counter (stq a v s) = IRQ_disable_counter s"
  by (simp_all add: stq_def tcb_def)

lemma lock_fields [simp]:
  "tcb p (lock_scheduler s) = tcb p s" "tcb p (irq_enable s) = tcb p s" "tcb p (lock_stuff s) = tcb p s"
  "FIRST_THREAD (lock_scheduler s) = FIRST_THREAD s" "FIRST_THREAD (irq_enable s) = FIRST_THREAD s"
  "FIRST_THREAD (lock_stuff s) = FIRST_THREAD s"
  "LAST_THREAD (lock_scheduler s) = LAST_THREAD s" "LAST_THREAD (irq_enable s) = LAST_THREAD s"
  "LAST_THREAD (lock_stuff s) = LAST_THREAD s"
  "current_task_TCB (lock_scheduler s) = current_task_TCB s" "current_task_TCB (irq_enable s) = current_task_TCB s"
  "current_task_TCB (lock_stuff s) = current_task_TCB s"
  by (simp_all add: lock_scheduler_def irq_enable_def lock_stuff_def Let_def)

lemma ldq_frame [simp]:
  "ldq (s\<lparr>tcbs := t\<rparr>) a = ldq s a" "ldq (s\<lparr>current_task_TCB := x\<rparr>) a = ldq s a"
  by (simp_all add: ldq_def)

subsection \<open>Queues as lists\<close>

fun queue :: "'a sched_scheme \<Rightarrow> addr \<Rightarrow> addr list \<Rightarrow> bool" where
  "queue s p [] \<longleftrightarrow> p = 0"
| "queue s p (x # xs) \<longleftrightarrow> p = x \<and> x \<noteq> 0 \<and> queue s (nxt (tcb x s)) xs"

definition ready_ok :: "'a sched_scheme \<Rightarrow> addr list \<Rightarrow> bool" where
  "ready_ok s xs \<longleftrightarrow> queue s (FIRST_THREAD s) xs \<and> distinct xs \<and> (xs \<noteq> [] \<longrightarrow> LAST_THREAD s = last xs) \<and>
     (\<forall>x\<in>set xs. state (tcb x s) = STATE_READY)"

lemma queue_cong:
  "queue s p xs \<Longrightarrow> (\<And>x. x \<in> set xs \<Longrightarrow> nxt (tcb x s') = nxt (tcb x s)) \<Longrightarrow> queue s' p xs"
  by (induction xs arbitrary: p) auto

lemma queue_nonnull: "queue s p xs \<Longrightarrow> 0 \<notin> set xs"
  by (induction xs arbitrary: p) auto

lemma queue_append: "queue s p (xs @ y # ys) \<Longrightarrow> queue s y (y # ys)"
  by (induction xs arbitrary: p) auto

text \<open>Linking a list behind the last element of another.\<close>

lemma queue_join:
  "queue s p xs \<Longrightarrow> xs \<noteq> [] \<Longrightarrow> distinct xs \<Longrightarrow> queue s' q ys \<Longrightarrow>
    (\<And>x. x \<in> set xs \<Longrightarrow> x \<noteq> last xs \<Longrightarrow> nxt (tcb x s') = nxt (tcb x s)) \<Longrightarrow> nxt (tcb (last xs) s') = q \<Longrightarrow>
    queue s' p (xs @ ys)"
proof (induction xs arbitrary: p)
  case (Cons x xs)
  show ?case
  proof (cases "xs = []")
    case False
    then have "x \<noteq> last xs" using Cons.prems(3) by auto
    with False Cons show ?thesis by simp
  qed (use Cons.prems in simp)
qed simp

lemma ready_okD:
  assumes "ready_ok s xs"
  shows "queue s (FIRST_THREAD s) xs" "distinct xs" "xs \<noteq> [] \<Longrightarrow> LAST_THREAD s = last xs"
    "x \<in> set xs \<Longrightarrow> state (tcb x s) = STATE_READY" "FIRST_THREAD s = 0 \<longleftrightarrow> xs = []"
proof -
  show "queue s (FIRST_THREAD s) xs" "distinct xs" "xs \<noteq> [] \<Longrightarrow> LAST_THREAD s = last xs"
    "x \<in> set xs \<Longrightarrow> state (tcb x s) = STATE_READY" using assms by (simp_all add: ready_ok_def)
  then show "FIRST_THREAD s = 0 \<longleftrightarrow> xs = []" by (cases xs) auto
qed

subsection \<open>unblock_task\<close>

text \<open>The state \<open>unblock_task\<close> returns, and the ready list in it for any list linked behind the task.\<close>

lemma unblock_task_eq:
  assumes "task \<noteq> 0" "state (tcb task s) \<noteq> STATE_RUNNING" "state (tcb task s) \<noteq> STATE_READY"
  shows "unblock_task task s = ret (irq_enable
    (if FIRST_THREAD s = 0
     then (upd task (\<lambda>t. t\<lparr>nxt := 0\<rparr>) ((upd task (\<lambda>t. t\<lparr>state := STATE_READY\<rparr>) (lock_scheduler s))
            \<lparr>LAST_THREAD := task\<rparr>))\<lparr>FIRST_THREAD := task\<rparr>
     else append_ready task (upd task (\<lambda>t. t\<lparr>state := STATE_READY\<rparr>) (lock_scheduler s))))"
  using assms by (simp add: unblock_task_def Let_def unlock_scheduler_def)

lemma append_ready_fields [simp]:
  "FIRST_THREAD (append_ready p s) = FIRST_THREAD s" "LAST_THREAD (append_ready p s) = p"
  "tcb q (append_ready p s) = (if q = LAST_THREAD s then (tcb q s)\<lparr>nxt := p\<rparr> else tcb q s)"
  "current_task_TCB (append_ready p s) = current_task_TCB s"
  by (simp_all add: append_ready_def Let_def)

text \<open>What an operation leaves alone when it only touches the ready list and the tasks \<open>A\<close>.\<close>

definition only :: "addr set \<Rightarrow> 'a sched_scheme \<Rightarrow> 'a sched_scheme \<Rightarrow> bool" where
  "only A s s' \<longleftrightarrow> (\<forall>p. p \<notin> A \<longrightarrow> tcb p s' = tcb p s) \<and> current_task_TCB s' = current_task_TCB s \<and>
     sleeping_task_list s' = sleeping_task_list s \<and> irqwaiting s' = irqwaiting s \<and>
     procwaiting s' = procwaiting s \<and> DEAD_TASKS s' = DEAD_TASKS s \<and> sems s' = sems s \<and> TIME s' = TIME s \<and>
     IRQ_disable_counter s' = IRQ_disable_counter s \<and> time_slice_remaining s' = time_slice_remaining s \<and>
     postpone_task_switches_counter s' = postpone_task_switches_counter s \<and>
     task_switches_postponed_flag s' = task_switches_postponed_flag s"

lemma irq_enable_more [simp]:
  "sleeping_task_list (irq_enable s) = sleeping_task_list s" "irqwaiting (irq_enable s) = irqwaiting s"
  "procwaiting (irq_enable s) = procwaiting s" "DEAD_TASKS (irq_enable s) = DEAD_TASKS s" "sems (irq_enable s) = sems s"
  "TIME (irq_enable s) = TIME s" "time_slice_remaining (irq_enable s) = time_slice_remaining s"
  "postpone_task_switches_counter (irq_enable s) = postpone_task_switches_counter s"
  "task_switches_postponed_flag (irq_enable s) = task_switches_postponed_flag s"
  "IRQ_disable_counter (irq_enable s) = IRQ_disable_counter s - 1"
  by (simp_all add: irq_enable_def Let_def)

lemma lock_more [simp]:
  "sleeping_task_list (lock_scheduler s) = sleeping_task_list s" "irqwaiting (lock_scheduler s) = irqwaiting s"
  "procwaiting (lock_scheduler s) = procwaiting s" "DEAD_TASKS (lock_scheduler s) = DEAD_TASKS s"
  "sems (lock_scheduler s) = sems s" "TIME (lock_scheduler s) = TIME s"
  "time_slice_remaining (lock_scheduler s) = time_slice_remaining s"
  "postpone_task_switches_counter (lock_scheduler s) = postpone_task_switches_counter s"
  "task_switches_postponed_flag (lock_scheduler s) = task_switches_postponed_flag s"
  "IRQ_disable_counter (lock_scheduler s) = IRQ_disable_counter s + 1"
  "sleeping_task_list (lock_stuff s) = sleeping_task_list s" "irqwaiting (lock_stuff s) = irqwaiting s"
  "procwaiting (lock_stuff s) = procwaiting s" "DEAD_TASKS (lock_stuff s) = DEAD_TASKS s"
  "sems (lock_stuff s) = sems s" "TIME (lock_stuff s) = TIME s" "pokes (lock_stuff s) = pokes s"
  "time_slice_remaining (lock_stuff s) = time_slice_remaining s" "irqscalled (lock_stuff s) = irqscalled s"
  "postpone_task_switches_counter (lock_stuff s) = postpone_task_switches_counter s + 1"
  "task_switches_postponed_flag (lock_stuff s) = task_switches_postponed_flag s"
  "IRQ_disable_counter (lock_stuff s) = IRQ_disable_counter s + 1"
  by (simp_all add: lock_scheduler_def lock_stuff_def)

lemma append_ready_more [simp]:
  "sleeping_task_list (append_ready p s) = sleeping_task_list s" "irqwaiting (append_ready p s) = irqwaiting s"
  "procwaiting (append_ready p s) = procwaiting s" "DEAD_TASKS (append_ready p s) = DEAD_TASKS s"
  "sems (append_ready p s) = sems s" "TIME (append_ready p s) = TIME s"
  "time_slice_remaining (append_ready p s) = time_slice_remaining s"
  "postpone_task_switches_counter (append_ready p s) = postpone_task_switches_counter s"
  "task_switches_postponed_flag (append_ready p s) = task_switches_postponed_flag s"
  "IRQ_disable_counter (append_ready p s) = IRQ_disable_counter s"
  by (simp_all add: append_ready_def Let_def)

lemma unblock_task_list:
  assumes R: "ready_ok s xs" and t: "task \<noteq> 0" "state (tcb task s) \<noteq> STATE_RUNNING" "state (tcb task s) \<noteq> STATE_READY"
    and ys: "queue s (nxt (tcb task s)) ys" "task \<notin> set ys" "set xs \<inter> set ys = {}"
  shows "\<exists>s'. unblock_task task s = ret s' \<and>
    queue s' (FIRST_THREAD s') (if xs = [] then [task] else xs @ task # ys) \<and>
    LAST_THREAD s' = task \<and> state (tcb task s') = STATE_READY \<and>
    (\<forall>p. state (tcb p s') = (if p = task then STATE_READY else state (tcb p s))) \<and>
    only (insert task (if xs = [] then {} else {last xs})) s s'"
proof -
  let ?s0 = "upd task (\<lambda>t. t\<lparr>state := STATE_READY\<rparr>) (lock_scheduler s)"
  let ?s1 = "append_ready task ?s0"
  note D = ready_okD [OF R]
  have tx: "task \<notin> set xs" using D(4) t(3) by auto
  show ?thesis
  proof (cases "xs = []")
    case True
    then show ?thesis using D(5) t unblock_task_eq [OF t] by (simp add: only_def)
  next
    case False
    then have l: "last xs \<in> set xs" "last xs \<noteq> task" using tx by auto
    have q: "queue s task (task # ys)" using t(1) ys(1) by simp
    have "last xs \<notin> set (task # ys)" using l ys(3) by auto
    then have "nxt (tcb x ?s1) = nxt (tcb x s)" if "x \<in> set (task # ys)" for x
      using that D(3) False by auto
    then have q1: "queue ?s1 task (task # ys)" by (rule queue_cong [OF q])
    have "queue ?s1 (FIRST_THREAD s) (xs @ task # ys)"
    proof (rule queue_join [OF D(1) False D(2) q1])
      show "nxt (tcb x ?s1) = nxt (tcb x s)" if "x \<noteq> last xs" for x
        using that D(3) False by simp
      show "nxt (tcb (last xs) ?s1) = task" using D(3) False by simp
    qed
    then have q': "queue (irq_enable ?s1) (FIRST_THREAD s) (xs @ task # ys)" by (rule queue_cong) simp
    have "unblock_task task s = ret (irq_enable ?s1)" using unblock_task_eq [OF t] D(5) False by simp
    then show ?thesis using q' False D(3) l by (intro exI [of _ "irq_enable ?s1"]) (simp add: only_def)
  qed
qed

lemma unblock_task_ok:
  assumes R: "ready_ok s xs" and t: "task \<noteq> 0" "state (tcb task s) \<noteq> STATE_RUNNING" "state (tcb task s) \<noteq> STATE_READY"
    and fresh: "xs = [] \<or> nxt (tcb task s) = 0"
  shows "\<exists>s'. unblock_task task s = ret s' \<and> ready_ok s' (xs @ [task]) \<and>
    only (insert task (if xs = [] then {} else {last xs})) s s' \<and>
    (\<forall>p. state (tcb p s') = (if p = task then STATE_READY else state (tcb p s)))"
proof -
  note D = ready_okD [OF R]
  have tx: "task \<notin> set xs" using D(4) t(3) by auto
  show ?thesis
  proof (cases "xs = []")
    case True
    then show ?thesis using D(5) t unblock_task_eq [OF t] by (simp add: only_def ready_ok_def)
  next
    case False
    with fresh have "queue s (nxt (tcb task s)) []" by simp
    from unblock_task_list [OF R t this] False tx D(2,4) show ?thesis by (auto simp: ready_ok_def)
  qed
qed

subsection \<open>Switching\<close>

lemma update_time_used_fields [simp]:
  "nxt (tcb p (update_time_used s)) = nxt (tcb p s)" "state (tcb p (update_time_used s)) = state (tcb p s)"
  "rsp0 (tcb p (update_time_used s)) = rsp0 (tcb p s)" "cr3 (tcb p (update_time_used s)) = cr3 (tcb p s)"
  "rsp (tcb p (update_time_used s)) = rsp (tcb p s)" "PL (tcb p (update_time_used s)) = PL (tcb p s)"
  "parent (tcb p (update_time_used s)) = parent (tcb p s)"
  "FIRST_THREAD (update_time_used s) = FIRST_THREAD s" "LAST_THREAD (update_time_used s) = LAST_THREAD s"
  "DEAD_TASKS (update_time_used s) = DEAD_TASKS s" "current_task_TCB (update_time_used s) = current_task_TCB s"
  "postpone_task_switches_counter (update_time_used s) = postpone_task_switches_counter s"
  "IRQ_disable_counter (update_time_used s) = IRQ_disable_counter s"
  by (simp_all add: update_time_used_def Let_def)

lemma loadRSP0_fields [simp]:
  "tcb p (loadRSP0 r s) = (if p = current_task_TCB s then (tcb p s)\<lparr>rsp0 := r\<rparr> else tcb p s)"
  "FIRST_THREAD (loadRSP0 r s) = FIRST_THREAD s" "LAST_THREAD (loadRSP0 r s) = LAST_THREAD s"
  "DEAD_TASKS (loadRSP0 r s) = DEAD_TASKS s" "current_task_TCB (loadRSP0 r s) = current_task_TCB s"
  "IRQ_disable_counter (loadRSP0 r s) = IRQ_disable_counter s"
  by (simp_all add: loadRSP0_def)

lemma requeue_fields [simp]:
  "FIRST_THREAD (requeue p s) = FIRST_THREAD s" "LAST_THREAD (requeue p s) = p"
  "DEAD_TASKS (requeue p s) = DEAD_TASKS s" "current_task_TCB (requeue p s) = current_task_TCB s"
  "nxt (tcb q (requeue p s)) = (if q = p then 0 else if q = LAST_THREAD s then p else nxt (tcb q s))"
  "state (tcb q (requeue p s)) = (if q = p then STATE_READY else state (tcb q s))"
  "rsp0 (tcb q (requeue p s)) = rsp0 (tcb q s)" "cr3 (tcb q (requeue p s)) = cr3 (tcb q s)"
  "rsp (tcb q (requeue p s)) = rsp (tcb q s)" "parent (tcb q (requeue p s)) = parent (tcb q s)"
  by (simp_all add: requeue_def Let_def)

lemma switch_to_task_spec:
  assumes "current_task_TCB s \<noteq> 0" and "task \<noteq> current_task_TCB s"
  defines "cur \<equiv> current_task_TCB s"
  shows "\<exists>s'. switch_to_task task s = ret s' \<and> current_task_TCB s' = task \<and> FIRST_THREAD s' = FIRST_THREAD s \<and>
    DEAD_TASKS s' = DEAD_TASKS s \<and>
    LAST_THREAD s' = (if state (tcb cur s) = STATE_RUNNING then cur else LAST_THREAD s) \<and>
    (\<forall>p. nxt (tcb p s') = (if state (tcb cur s) = STATE_RUNNING \<and> p = cur then 0
       else if state (tcb cur s) = STATE_RUNNING \<and> p = LAST_THREAD s then cur else nxt (tcb p s)) \<and>
     state (tcb p s') = (if p = task then STATE_RUNNING
       else if p = cur \<and> state (tcb cur s) = STATE_RUNNING then STATE_READY else state (tcb p s)) \<and>
     rsp0 (tcb p s') = rsp0 (tcb p s) \<and> rsp (tcb p s') = rsp (tcb p s))"
  using assms(1,2) by (simp add: switch_to_task_def Let_def cur_def)

lemma wrapper_spec:
  assumes "postpone_task_switches_counter s = 0" and cur0: "current_task_TCB s \<noteq> 0" and "task \<noteq> current_task_TCB s"
    and "state (tcb (current_task_TCB s) s) \<noteq> STATE_READY"
  defines "cur \<equiv> current_task_TCB s"
  shows "\<exists>s'. switch_to_task_wrapper task s = ret s' \<and> current_task_TCB s' = task \<and> FIRST_THREAD s' = FIRST_THREAD s \<and>
    DEAD_TASKS s' = DEAD_TASKS s \<and>
    LAST_THREAD s' = (if state (tcb cur s) = STATE_RUNNING then cur else LAST_THREAD s) \<and>
    (\<forall>p. nxt (tcb p s') = (if state (tcb cur s) = STATE_RUNNING \<and> p = cur then 0
       else if state (tcb cur s) = STATE_RUNNING \<and> p = LAST_THREAD s then cur else nxt (tcb p s)) \<and>
     state (tcb p s') = (if p = task then STATE_RUNNING
       else if p = cur \<and> state (tcb cur s) = STATE_RUNNING then STATE_READY else state (tcb p s)) \<and>
     rsp0 (tcb p s') = (if p = cur then rsp0 (tcb task s) else rsp0 (tcb p s)) \<and> rsp (tcb p s') = rsp (tcb p s))"
proof -
  define ts where "ts = (if FIRST_THREAD s = 0 \<and> state (tcb cur s) \<noteq> STATE_RUNNING then 0 else 50000000 :: u64)"
  define s1 where "s1 = (update_time_used (s\<lparr>time_slice_remaining := ts\<rparr>))\<lparr>iopl := if PL (tcb task s) = 2 then 3 else 0\<rparr>"
  define s2 where "s2 = loadRSP0 (rsp0 (tcb task s1)) s1"
  have w: "switch_to_task_wrapper task s = switch_to_task task s2"
    using assms by (simp add: switch_to_task_wrapper_def Let_def s2_def s1_def ts_def)
  have f: "current_task_TCB s2 = cur" "FIRST_THREAD s2 = FIRST_THREAD s" "LAST_THREAD s2 = LAST_THREAD s"
    "DEAD_TASKS s2 = DEAD_TASKS s" by (simp_all add: s2_def s1_def cur_def)
  have t: "nxt (tcb p s2) = nxt (tcb p s)" "state (tcb p s2) = state (tcb p s)" "rsp (tcb p s2) = rsp (tcb p s)"
    "rsp0 (tcb p s2) = (if p = cur then rsp0 (tcb task s) else rsp0 (tcb p s))" for p
    by (simp_all add: s2_def s1_def cur_def)
  have "current_task_TCB s2 \<noteq> 0" "task \<noteq> current_task_TCB s2" using assms f by simp_all
  from switch_to_task_spec [OF this] show ?thesis unfolding w f t by simp
qed

lemma reap_none [simp]: "DEAD_TASKS s = 0 \<Longrightarrow> reap s = ret (s\<lparr>DEAD_TASKS := 0\<rparr>)"
  by (simp add: reap_def reap_from.simps)

text \<open>\<open>schedule\<close> with a task ready.\<close>

lemma schedule_switch:
  assumes p: "postpone_task_switches_counter s = 0" and c: "current_task_TCB s \<noteq> 0" and dead: "DEAD_TASKS s = 0"
    and st: "state (tcb (current_task_TCB s) s) \<noteq> STATE_READY" "state (tcb (current_task_TCB s) s) \<noteq> STATE_DEAD"
    and R: "ready_ok s (x # xs)"
  defines "cur \<equiv> current_task_TCB s"
  shows "\<exists>s'. schedule s = ret s' \<and> current_task_TCB s' = x \<and> FIRST_THREAD s' = nxt (tcb x s) \<and> DEAD_TASKS s' = 0 \<and>
    LAST_THREAD s' = (if state (tcb cur s) = STATE_RUNNING then cur else LAST_THREAD s) \<and>
    (\<forall>p. nxt (tcb p s') = (if state (tcb cur s) = STATE_RUNNING \<and> p = cur then 0
       else if state (tcb cur s) = STATE_RUNNING \<and> p = LAST_THREAD s then cur else nxt (tcb p s)) \<and>
     state (tcb p s') = (if p = x then STATE_RUNNING
       else if p = cur \<and> state (tcb cur s) = STATE_RUNNING then STATE_READY else state (tcb p s)) \<and>
     rsp0 (tcb p s') = (if p = cur then rsp0 (tcb x s) else rsp0 (tcb p s)) \<and> rsp (tcb p s') = rsp (tcb p s))"
proof -
  have x: "FIRST_THREAD s = x" "x \<noteq> 0" "state (tcb x s) = STATE_READY" using R by (simp_all add: ready_ok_def)
  define s1 where "s1 = s\<lparr>DEAD_TASKS := 0, FIRST_THREAD := nxt (tcb x s)\<rparr>"
  have w: "schedule s = switch_to_task_wrapper x s1"
    using p c dead st x by (simp add: schedule_def Let_def s1_def)
  have f: "current_task_TCB s1 = cur" "FIRST_THREAD s1 = nxt (tcb x s)" "LAST_THREAD s1 = LAST_THREAD s"
    "DEAD_TASKS s1 = 0" "tcb q s1 = tcb q s" "postpone_task_switches_counter s1 = 0" for q
    using p by (simp_all add: s1_def cur_def)
  have "x \<noteq> current_task_TCB s1" "current_task_TCB s1 \<noteq> 0" "state (tcb (current_task_TCB s1) s1) \<noteq> STATE_READY"
    using x st c unfolding f by (auto simp: cur_def)
  from wrapper_spec [OF f(6) this(2,1,3)] show ?thesis unfolding w f .
qed

subsection \<open>Properties of the scheduler\<close>

text \<open>States for the witnesses: tasks at 0x100, 0x200, ... with the given states and links.\<close>

definition demo_task :: "task_state \<Rightarrow> addr \<Rightarrow> thread_control_block" where
  "demo_task st n = new_tcb\<lparr>state := st, nxt := n, rsp0 := n + 7\<rparr>"

definition demo_sched :: "(addr \<Rightarrow> thread_control_block) \<Rightarrow> addr \<Rightarrow> addr \<Rightarrow> addr \<Rightarrow> unit sched_scheme" where
  "demo_sched tc cur first last_t =
     \<lparr>mem = (\<lambda>_. 0), PA_CALLING = 0, ml1 = 0, tcbs = tc, chs = (\<lambda>_. \<lparr>ch_next = 0, ch = 0\<rparr>),
      sems = (\<lambda>_. \<lparr>max_count = 1, current_count = 0, first_waiting = 0, last_waiting = 0\<rparr>), pokes = (\<lambda>_. 0),
      fds = (\<lambda>_ _. \<lparr>fn = NULL_FN, arguments = 0, position = 0, sflags = 0\<rparr>), IRQ_disable_counter = 0,
      task_switches_postponed_flag = False, next_PID = 1, postpone_task_switches_counter = 0,
      time_slice_remaining = 50000000, current_task_TCB = cur, last_count = 0, FIRST_THREAD = first,
      LAST_THREAD = last_t, DEAD_TASKS = 0, sleeping_task_list = 0, irqwaiting = 0, procwaiting = 0, TIME = 0,
      CPU_idle_time = 0, irqscalled = 0, int_flag = True, iopl = 0, tss_rsp0 = 0, p_frees = [], irqs = []\<rparr>"

lemma demo_sched_fields [simp]:
  "tcb p (demo_sched tc c f l) = tc p" "current_task_TCB (demo_sched tc c f l) = c"
  "FIRST_THREAD (demo_sched tc c f l) = f" "LAST_THREAD (demo_sched tc c f l) = l"
  "DEAD_TASKS (demo_sched tc c f l) = 0" "postpone_task_switches_counter (demo_sched tc c f l) = 0"
  "task_switches_postponed_flag (demo_sched tc c f l) = False" "IRQ_disable_counter (demo_sched tc c f l) = 0"
  "irqwaiting (demo_sched tc c f l) = 0" "sleeping_task_list (demo_sched tc c f l) = 0" "TIME (demo_sched tc c f l) = 0"
  by (simp_all add: demo_sched_def tcb_def)

lemma demo_task_fields [simp]: "state (demo_task st n) = st" "nxt (demo_task st n) = n" "rsp0 (demo_task st n) = n + 7"
  by (simp_all add: demo_task_def)

definition two_ready :: "unit sched_scheme" where
  "two_ready = demo_sched (\<lambda>p. if p = 0x100 then demo_task STATE_RUNNING 0 else if p = 0x200 then demo_task STATE_READY 0x300
     else demo_task STATE_READY 0) 0x100 0x200 0x300"

lemma two_ready_ok: "ready_ok two_ready [0x200, 0x300]"
  by (simp add: ready_ok_def two_ready_def)

text \<open>C20. Round robin: with at least two tasks ready, \<open>schedule\<close> switches to the first of them and puts the
  running task at the end of the ready list; the list stays well formed.\<close>

theorem schedule_round_robin:
  assumes "postpone_task_switches_counter s = 0" and "current_task_TCB s \<noteq> 0" and "DEAD_TASKS s = 0"
    and "state (tcb (current_task_TCB s) s) = STATE_RUNNING" and R: "ready_ok s (x # y # zs)"
  shows "\<exists>s'. schedule s = ret s' \<and> current_task_TCB s' = x \<and> state (tcb x s') = STATE_RUNNING \<and>
    ready_ok s' (y # zs @ [current_task_TCB s])"
proof -
  let ?cur = "current_task_TCB s"
  obtain s' where s': "schedule s = ret s'" "current_task_TCB s' = x" "FIRST_THREAD s' = nxt (tcb x s)"
    "LAST_THREAD s' = ?cur"
    and t: "\<And>p. nxt (tcb p s') = (if p = ?cur then 0 else if p = LAST_THREAD s then ?cur else nxt (tcb p s))"
      "\<And>p. state (tcb p s') = (if p = x then STATE_RUNNING else if p = ?cur then STATE_READY else state (tcb p s))"
    using schedule_switch [OF assms(1-3) _ _ R] assms(4) by auto
  have cur: "?cur \<notin> set (x # y # zs)" using ready_okD(4) [OF R] assms(4) by fastforce
  have l: "LAST_THREAD s = last (y # zs)" and d: "distinct (y # zs)" "x \<notin> set (y # zs)"
    and q: "queue s (nxt (tcb x s)) (y # zs)"
    using R by (auto simp: ready_ok_def)
  have lc: "last (y # zs) \<noteq> ?cur" using cur last_in_set [of "y # zs"] by (metis list.discI list.set_intros(2))
  have "queue s' (nxt (tcb x s)) ((y # zs) @ [?cur])"
  proof (rule queue_join [OF q _ d(1)])
    show "queue s' ?cur [?cur]" using t assms(2) by simp
    show "nxt (tcb p s') = nxt (tcb p s)" if "p \<in> set (y # zs)" "p \<noteq> last (y # zs)" for p
      using that cur l by (auto simp: t)
    show "nxt (tcb (last (y # zs)) s') = ?cur" using l lc by (simp add: t)
  qed simp
  then have "ready_ok s' (y # zs @ [?cur])"
    unfolding ready_ok_def s'(3,4) using d cur ready_okD(4) [OF R] t(2) by auto
  then show ?thesis using s' t(2) by simp
qed

theorem schedule_round_robin_witness:
  "\<exists>s'. schedule two_ready = ret s' \<and> current_task_TCB s' = 0x200 \<and> ready_ok s' [0x300, 0x100]"
  using schedule_round_robin [OF _ _ _ _ two_ready_ok] by (simp add: two_ready_def) blast

text \<open>A task that blocked gives way to the first ready task, and leaves no trace in the ready list.\<close>

theorem schedule_blocked:
  assumes "postpone_task_switches_counter s = 0" and "current_task_TCB s \<noteq> 0" and "DEAD_TASKS s = 0"
    and st: "state (tcb (current_task_TCB s) s) \<notin> {STATE_RUNNING, STATE_READY, STATE_DEAD}" and R: "ready_ok s (x # xs)"
  shows "\<exists>s'. schedule s = ret s' \<and> current_task_TCB s' = x \<and> state (tcb x s') = STATE_RUNNING \<and> ready_ok s' xs \<and>
    state (tcb (current_task_TCB s) s') = state (tcb (current_task_TCB s) s)"
proof -
  let ?cur = "current_task_TCB s"
  obtain s' where s': "schedule s = ret s'" "current_task_TCB s' = x" "FIRST_THREAD s' = nxt (tcb x s)"
    "LAST_THREAD s' = LAST_THREAD s"
    and t: "\<And>p. nxt (tcb p s') = nxt (tcb p s)"
      "\<And>p. state (tcb p s') = (if p = x then STATE_RUNNING else state (tcb p s))"
    using schedule_switch [OF assms(1-3) _ _ R] st by auto
  have x: "x \<notin> set xs" "state (tcb x s) = STATE_READY" and q: "queue s (nxt (tcb x s)) xs"
    using R by (auto simp: ready_ok_def)
  have "queue s' (nxt (tcb x s)) xs" by (rule queue_cong [OF q]) (rule t(1))
  then have "ready_ok s' xs"
    unfolding ready_ok_def s'(3,4) using R x t(2) by (auto simp: ready_ok_def)
  moreover have "x \<noteq> ?cur" using x(2) st by auto
  ultimately show ?thesis using s' t(2) by simp
qed

theorem schedule_blocked_witness:
  "\<exists>s'. schedule (upd 0x100 (\<lambda>t. t\<lparr>state := STATE_WAITING\<rparr>) two_ready) = ret s' \<and> current_task_TCB s' = 0x200 \<and>
    ready_ok s' [0x300]"
proof -
  have "ready_ok (upd 0x100 (\<lambda>t. t\<lparr>state := STATE_WAITING\<rparr>) two_ready) [0x200, 0x300]"
    by (simp add: ready_ok_def two_ready_def)
  from schedule_blocked [OF _ _ _ _ this] show ?thesis by (simp add: two_ready_def) blast
qed

text \<open>With exactly one task ready, preempting the running task loses it: \<open>LAST_THREAD\<close> still names the task
  taken off the list, so the old task is linked behind that one, and the ready list is empty.\<close>

theorem schedule_single_loses_task:
  assumes "postpone_task_switches_counter s = 0" and "current_task_TCB s \<noteq> 0" and "DEAD_TASKS s = 0"
    and "state (tcb (current_task_TCB s) s) = STATE_RUNNING" and R: "ready_ok s [x]"
  shows "\<exists>s'. schedule s = ret s' \<and> current_task_TCB s' = x \<and> FIRST_THREAD s' = 0 \<and>
    state (tcb (current_task_TCB s) s') = STATE_READY"
proof -
  have "nxt (tcb x s) = 0" "state (tcb x s) = STATE_READY" using R by (simp_all add: ready_ok_def)
  with schedule_switch [OF assms(1-3) _ _ R] assms(4) show ?thesis by auto
qed

definition one_ready :: "unit sched_scheme" where
  "one_ready = demo_sched (\<lambda>p. if p = 0x100 then demo_task STATE_RUNNING 0 else demo_task STATE_READY 0) 0x100 0x200 0x200"

theorem schedule_single_loses_task_witness:
  "\<exists>s'. schedule one_ready = ret s' \<and> FIRST_THREAD s' = 0 \<and> state (tcb 0x100 s') = STATE_READY"
proof -
  have "ready_ok one_ready [0x200]" by (simp add: ready_ok_def one_ready_def)
  from schedule_single_loses_task [OF _ _ _ _ this] show ?thesis by (simp add: one_ready_def) blast
qed

text \<open>A switch stores the new task's \<open>rsp0\<close> in the old task's control block (\<open>loadRSP0\<close> runs before
  \<open>current_task_TCB\<close> changes), so that afterwards both tasks enter the kernel on the same stack.\<close>

theorem switch_shares_rsp0:
  assumes "postpone_task_switches_counter s = 0" and "current_task_TCB s \<noteq> 0" and "DEAD_TASKS s = 0"
    and "state (tcb (current_task_TCB s) s) \<notin> {STATE_READY, STATE_DEAD}" and "ready_ok s (x # xs)"
  shows "\<exists>s'. schedule s = ret s' \<and> rsp0 (tcb (current_task_TCB s) s') = rsp0 (tcb x s) \<and>
    rsp0 (tcb x s') = rsp0 (tcb x s)"
  using schedule_switch [OF assms(1-3) _ _ assms(5)] assms(4) by auto

theorem switch_shares_rsp0_witness:
  "\<exists>s'. schedule two_ready = ret s' \<and> rsp0 (tcb 0x100 two_ready) = 7 \<and> rsp0 (tcb 0x100 s') = 0x307"
  using switch_shares_rsp0 [OF _ _ _ _ two_ready_ok] by (simp add: two_ready_def) blast

text \<open>\<open>unblock_task\<close> on an empty ready list, or of a task that is linked to no other, appends exactly that
  task, and changes nothing but it and the old tail.\<close>

theorem unblock_task_appends:
  assumes "ready_ok s xs" and "task \<noteq> 0" and "state (tcb task s) \<notin> {STATE_RUNNING, STATE_READY}"
    and "xs = [] \<or> nxt (tcb task s) = 0"
  shows "\<exists>s'. unblock_task task s = ret s' \<and> ready_ok s' (xs @ [task]) \<and>
    only (insert task (if xs = [] then {} else {last xs})) s s'"
  using unblock_task_ok [OF assms(1,2) _ _ assms(4)] assms(3) by auto

theorem unblock_task_appends_witness:
  "\<exists>s'. unblock_task 0x100 (upd 0x100 (\<lambda>t. t\<lparr>state := STATE_WAITING_FOR_POKE\<rparr>) two_ready) = ret s' \<and>
    ready_ok s' [0x200, 0x300, 0x100]"
proof -
  let ?s = "upd 0x100 (\<lambda>t. t\<lparr>state := STATE_WAITING_FOR_POKE\<rparr>) two_ready"
  have "ready_ok ?s [0x200, 0x300]" by (simp add: ready_ok_def two_ready_def)
  from unblock_task_appends [OF this, of "0x100"] show ?thesis by (simp add: two_ready_def) blast
qed

text \<open>Otherwise \<open>unblock_task\<close> appends the task together with every task still linked behind it: waiting
  tasks end up in the ready list in their waiting state.\<close>

theorem unblock_task_drags_waiters:
  assumes "ready_ok s xs" and "xs \<noteq> []" and "task \<noteq> 0" and "state (tcb task s) \<notin> {STATE_RUNNING, STATE_READY}"
    and "queue s (nxt (tcb task s)) ys" and "task \<notin> set ys" and "set xs \<inter> set ys = {}"
  shows "\<exists>s'. unblock_task task s = ret s' \<and> queue s' (FIRST_THREAD s') (xs @ task # ys) \<and>
    (\<forall>p. p \<noteq> task \<longrightarrow> state (tcb p s') = state (tcb p s))"
  using unblock_task_list [OF assms(1,3) _ _ assms(5-7)] assms(2,4) by auto

definition two_waiting :: "unit sched_scheme" where
  "two_waiting = demo_sched (\<lambda>p. if p = 0x100 then demo_task STATE_RUNNING 0 else if p = 0x200 then demo_task STATE_READY 0
     else if p = 0x300 then demo_task STATE_WAITING_FOR_IRQ 0x400 else demo_task STATE_WAITING_FOR_IRQ 0) 0x100 0x200 0x200"

theorem unblock_task_drags_waiters_witness:
  "\<exists>s'. unblock_task 0x300 two_waiting = ret s' \<and> queue s' (FIRST_THREAD s') [0x200, 0x300, 0x400] \<and>
    state (tcb 0x400 s') = STATE_WAITING_FOR_IRQ"
proof -
  have "ready_ok two_waiting [0x200]" by (simp add: ready_ok_def two_waiting_def)
  from unblock_task_drags_waiters [OF this, of "0x300" "[0x400]"] show ?thesis by (simp add: two_waiting_def) fastforce
qed

subsection \<open>The timer interrupt\<close>

lemma unblock_task_fields:
  assumes "task \<noteq> 0" "state (tcb task s) \<noteq> STATE_RUNNING" "state (tcb task s) \<noteq> STATE_READY"
  shows "\<exists>s'. unblock_task task s = ret s' \<and> LAST_THREAD s' = task \<and>
    only {q. q = task \<or> FIRST_THREAD s \<noteq> 0 \<and> q = LAST_THREAD s} s s' \<and>
    (\<forall>q. state (tcb q s') = (if q = task then STATE_READY else state (tcb q s)) \<and> ttn (tcb q s') = ttn (tcb q s))"
  using unblock_task_eq [OF assms] by (simp add: only_def)

definition same_locks :: "'a sched_scheme \<Rightarrow> 'a sched_scheme \<Rightarrow> bool" where
  "same_locks s s' \<longleftrightarrow> IRQ_disable_counter s' = IRQ_disable_counter s \<and>
     time_slice_remaining s' = time_slice_remaining s \<and> irqwaiting s' = irqwaiting s \<and>
     postpone_task_switches_counter s' = postpone_task_switches_counter s \<and>
     task_switches_postponed_flag s' = task_switches_postponed_flag s \<and> current_task_TCB s' = current_task_TCB s"

lemma wake_sleepers_spec:
  "queue s p ws \<Longrightarrow> distinct ws \<Longrightarrow> queue s (sleeping_task_list s) ss \<Longrightarrow> set ws \<inter> set ss = {} \<Longrightarrow>
    (\<forall>q\<in>set ws. state (tcb q s) = STATE_WAITING) \<Longrightarrow> (FIRST_THREAD s \<noteq> 0 \<longrightarrow> LAST_THREAD s \<notin> set ws \<union> set ss) \<Longrightarrow>
    \<exists>s'. wake_sleepers p s = ret s' \<and>
      queue s' (sleeping_task_list s') (rev (filter (\<lambda>q. TIME s < ttn (tcb q s)) ws) @ ss) \<and> TIME s' = TIME s \<and>
      (\<forall>q. state (tcb q s') = (if q \<in> set ws \<and> ttn (tcb q s) \<le> TIME s then STATE_READY else state (tcb q s))) \<and>
      same_locks s s'"
proof (induction ws arbitrary: p s ss)
  case Nil
  then show ?case by (simp add: wake_sleepers.simps same_locks_def)
next
  case (Cons w ws)
  have p: "p = w" "w \<noteq> 0" and q: "queue s (nxt (tcb w s)) ws" and w: "w \<notin> set ws" "w \<notin> set ss"
    and st: "state (tcb w s) = STATE_WAITING"
    using Cons.prems by auto
  have ne: "w \<noteq> nxt (tcb w s)" using q w(1) p(2) by (cases ws) auto
  show ?case
  proof (cases "ttn (tcb w s) \<le> TIME s")
    case True
    from unblock_task_fields [OF p(2), of s] st obtain s1 where s1: "unblock_task w s = ret s1" "LAST_THREAD s1 = w"
      and o: "only {q. q = w \<or> FIRST_THREAD s \<noteq> 0 \<and> q = LAST_THREAD s} s s1"
      and t: "\<And>q. state (tcb q s1) = (if q = w then STATE_READY else state (tcb q s))" "\<And>q. ttn (tcb q s1) = ttn (tcb q s)"
      by auto
    have same: "tcb q s1 = tcb q s" if "q \<in> set ws \<union> set ss" for q
      using o that w Cons.prems(6) by (auto simp: only_def)
    have sl: "sleeping_task_list s1 = sleeping_task_list s" "TIME s1 = TIME s" using o by (simp_all add: only_def)
    have "\<exists>s'. wake_sleepers (nxt (tcb w s)) s1 = ret s' \<and>
      queue s' (sleeping_task_list s') (rev (filter (\<lambda>q. TIME s1 < ttn (tcb q s1)) ws) @ ss) \<and> TIME s' = TIME s1 \<and>
      (\<forall>q. state (tcb q s') = (if q \<in> set ws \<and> ttn (tcb q s1) \<le> TIME s1 then STATE_READY else state (tcb q s1))) \<and>
      same_locks s1 s'"
    proof (rule Cons.IH)
      show "queue s1 (nxt (tcb w s)) ws" by (rule queue_cong [OF q]) (simp add: same)
      show "queue s1 (sleeping_task_list s1) ss" unfolding sl by (rule queue_cong [OF Cons.prems(3)]) (simp add: same)
    qed (use Cons.prems w s1 same in auto)
    then obtain s' where s': "wake_sleepers (nxt (tcb w s)) s1 = ret s'"
      "queue s' (sleeping_task_list s') (rev (filter (\<lambda>q. TIME s < ttn (tcb q s)) ws) @ ss)" "TIME s' = TIME s"
      "\<And>q. state (tcb q s') = (if q \<in> set ws \<and> ttn (tcb q s) \<le> TIME s then STATE_READY else state (tcb q s1))"
      "same_locks s s'"
      unfolding sl t(2) using o by (auto simp: only_def same_locks_def)
    have "wake_sleepers p s = ret s'"
      using True ne st p s1 s'(1) by (subst wake_sleepers.simps) simp
    then show ?thesis using s' True t(1) by auto
  next
    case False
    define s1 where "s1 = (upd w (\<lambda>t. t\<lparr>nxt := sleeping_task_list s\<rparr>) s)\<lparr>sleeping_task_list := w\<rparr>"
    have f: "FIRST_THREAD s1 = FIRST_THREAD s" "LAST_THREAD s1 = LAST_THREAD s" "TIME s1 = TIME s"
      "sleeping_task_list s1 = w" by (simp_all add: s1_def)
    have t: "nxt (tcb q s1) = (if q = w then sleeping_task_list s else nxt (tcb q s))"
      "state (tcb q s1) = state (tcb q s)" "ttn (tcb q s1) = ttn (tcb q s)" for q by (simp_all add: s1_def)
    have "\<exists>s'. wake_sleepers (nxt (tcb w s)) s1 = ret s' \<and>
      queue s' (sleeping_task_list s') (rev (filter (\<lambda>q. TIME s1 < ttn (tcb q s1)) ws) @ w # ss) \<and> TIME s' = TIME s1 \<and>
      (\<forall>q. state (tcb q s') = (if q \<in> set ws \<and> ttn (tcb q s1) \<le> TIME s1 then STATE_READY else state (tcb q s1))) \<and>
      same_locks s1 s'"
    proof (rule Cons.IH)
      show "queue s1 (nxt (tcb w s)) ws" by (rule queue_cong [OF q]) (use w t in auto)
      have "queue s1 (sleeping_task_list s) ss" by (rule queue_cong [OF Cons.prems(3)]) (use w t in auto)
      then show "queue s1 (sleeping_task_list s1) (w # ss)" using p f t by simp
    qed (use Cons.prems w f t in auto)
    then obtain s' where s': "wake_sleepers (nxt (tcb w s)) s1 = ret s'"
      "queue s' (sleeping_task_list s') (rev (filter (\<lambda>q. TIME s < ttn (tcb q s)) ws) @ w # ss)" "TIME s' = TIME s"
      "\<And>q. state (tcb q s') = (if q \<in> set ws \<and> ttn (tcb q s) \<le> TIME s then STATE_READY else state (tcb q s))"
      "same_locks s s'"
      unfolding f t by (auto simp: same_locks_def s1_def)
    have "wake_sleepers p s = ret s'"
      using False ne st p s'(1) unfolding s1_def by (subst wake_sleepers.simps) simp
    then show ?thesis using s' False by auto
  qed
qed

lemma unlock_stuff_quiet:
  assumes "postpone_task_switches_counter s \<noteq> 0"
    and "postpone_task_switches_counter s = 1 \<longrightarrow> \<not> task_switches_postponed_flag s"
  shows "unlock_stuff_with sch s = ret (irq_enable (s\<lparr>postpone_task_switches_counter := postpone_task_switches_counter s - 1\<rparr>))"
  using assms by (auto simp: unlock_stuff_with_def Let_def)

text \<open>The timer interrupt advances the clock by 10 ms, makes exactly the sleepers that are due ready, keeps
  every other sleeper asleep on the list, and leaves the scheduler's locks as they were.\<close>

theorem PIT_wakes_due:
  assumes "postpone_task_switches_counter s = 0" and "\<not> task_switches_postponed_flag s" and "irqwaiting s = 0"
    and "time_slice_remaining s = 0 \<or> 10000000 < time_slice_remaining s"
    and "queue s (sleeping_task_list s) ws" and "distinct ws" and "\<forall>q\<in>set ws. state (tcb q s) = STATE_WAITING"
    and "FIRST_THREAD s \<noteq> 0 \<longrightarrow> LAST_THREAD s \<notin> set ws"
  defines "now \<equiv> TIME s + 10000000"
  shows "\<exists>s'. PIT_IRQ_handler s = ret s' \<and> TIME s' = now \<and>
    queue s' (sleeping_task_list s') (rev (filter (\<lambda>q. now < ttn (tcb q s)) ws)) \<and>
    (\<forall>q. state (tcb q s') = (if q \<in> set ws \<and> ttn (tcb q s) \<le> now then STATE_READY else state (tcb q s))) \<and>
    IRQ_disable_counter s' = IRQ_disable_counter s \<and> postpone_task_switches_counter s' = 0 \<and>
    current_task_TCB s' = current_task_TCB s"
proof -
  define s0 where "s0 = (lock_stuff s)\<lparr>TIME := now, sleeping_task_list := 0\<rparr>"
  have f: "FIRST_THREAD s0 = FIRST_THREAD s" "LAST_THREAD s0 = LAST_THREAD s" "TIME s0 = now" "sleeping_task_list s0 = 0"
    "tcb q s0 = tcb q s" for q by (simp_all add: s0_def)
  have q0: "queue s0 (sleeping_task_list s) ws" by (rule queue_cong [OF assms(5)]) (simp add: f)
  have n0: "queue s0 (sleeping_task_list s0) []" by (simp add: f)
  have st0: "\<forall>q\<in>set ws. state (tcb q s0) = STATE_WAITING" using assms(7) by (simp add: f)
  have l0: "FIRST_THREAD s0 \<noteq> 0 \<longrightarrow> LAST_THREAD s0 \<notin> set ws \<union> set []" using assms(8) by (simp add: f)
  obtain s1 where s1: "wake_sleepers (sleeping_task_list s) s0 = ret s1"
    "queue s1 (sleeping_task_list s1) (rev (filter (\<lambda>q. now < ttn (tcb q s)) ws))" "TIME s1 = now" "same_locks s0 s1"
    "\<And>q. state (tcb q s1) = (if q \<in> set ws \<and> ttn (tcb q s) \<le> now then STATE_READY else state (tcb q s))"
    using wake_sleepers_spec [OF q0 assms(6) n0 _ st0 l0] unfolding f append_Nil2 by auto
  have l: "IRQ_disable_counter s1 = IRQ_disable_counter s + 1" "postpone_task_switches_counter s1 = 1"
    "time_slice_remaining s1 = time_slice_remaining s" "irqwaiting s1 = 0" "\<not> task_switches_postponed_flag s1"
    "current_task_TCB s1 = current_task_TCB s"
    using s1(4) assms by (simp_all add: same_locks_def s0_def)
  let ?s2 = "s1\<lparr>irqwaiting := 0\<rparr>"
  define s3 where "s3 = (if time_slice_remaining ?s2 \<noteq> 0
     then ?s2\<lparr>time_slice_remaining := time_slice_remaining ?s2 - 10000000\<rparr> else ?s2)"
  have s3: "tcb q s3 = tcb q s1" "sleeping_task_list s3 = sleeping_task_list s1" "TIME s3 = TIME s1"
    "IRQ_disable_counter s3 = IRQ_disable_counter s1" "postpone_task_switches_counter s3 = 1"
    "\<not> task_switches_postponed_flag s3" "current_task_TCB s3 = current_task_TCB s1" for q
    using l by (simp_all add: s3_def)
  have "PIT_IRQ_handler s = unlock_stuff_with schedule s3"
  proof -
    have "wake_sleepers (sleeping_task_list s) ((lock_stuff s)\<lparr>TIME := now, sleeping_task_list := 0\<rparr>) = ret s1"
      using s1(1) by (simp add: s0_def)
    then show ?thesis
      using assms(4) l(3,4)
      by (auto simp: PIT_IRQ_handler_def PIT_IRQ_handler_with_def Let_def now_def wake_timeouts.simps s3_def)
  qed
  also have "\<dots> = ret (irq_enable (s3\<lparr>postpone_task_switches_counter := 0\<rparr>))"
    using unlock_stuff_quiet [of s3 schedule] s3 by simp
  finally show ?thesis
    using s1 s3 l queue_cong [OF s1(2), of "irq_enable (s3\<lparr>postpone_task_switches_counter := 0\<rparr>)"] by simp
qed

definition two_sleeping :: "unit sched_scheme" where
  "two_sleeping = (demo_sched (\<lambda>p. if p = 0x100 then demo_task STATE_RUNNING 0
     else if p = 0x300 then (demo_task STATE_WAITING 0x400)\<lparr>ttn := 5\<rparr>
     else (demo_task STATE_WAITING 0)\<lparr>ttn := 90000000\<rparr>) 0x100 0 0)\<lparr>sleeping_task_list := 0x300\<rparr>"

theorem PIT_wakes_due_witness:
  "\<exists>s'. PIT_IRQ_handler two_sleeping = ret s' \<and> state (tcb 0x300 s') = STATE_READY \<and>
    queue s' (sleeping_task_list s') [0x400] \<and> state (tcb 0x400 s') = STATE_WAITING"
proof -
  have f: "postpone_task_switches_counter two_sleeping = 0" "\<not> task_switches_postponed_flag two_sleeping"
    "irqwaiting two_sleeping = 0" "time_slice_remaining two_sleeping = 0 \<or> 10000000 < time_slice_remaining two_sleeping"
    "queue two_sleeping (sleeping_task_list two_sleeping) [0x300, 0x400]" "FIRST_THREAD two_sleeping = 0"
    "\<forall>q\<in>set [0x300, 0x400]. state (tcb q two_sleeping) = STATE_WAITING"
    "ttn (tcb 0x300 two_sleeping) = 5" "ttn (tcb 0x400 two_sleeping) = 90000000" "TIME two_sleeping = 0"
    "state (tcb 0x400 two_sleeping) = STATE_WAITING"
    by (simp_all add: two_sleeping_def demo_sched_def tcb_def demo_task_def)
  show ?thesis using PIT_wakes_due [OF f(1-5) _ f(7)] f(6,8-11) by auto
qed



subsection \<open>Semaphores\<close>

text \<open>
  A semaphore with its queue of waiters: \<open>sem_ok s p c ws\<close> says that \<open>c\<close> tasks hold it and \<open>ws\<close>
  wait for it, in the order they came. Tasks only wait for a semaphore that is fully taken.
\<close>

definition sem_ok :: "'a sched_scheme \<Rightarrow> addr \<Rightarrow> int \<Rightarrow> addr list \<Rightarrow> bool" where
  "sem_ok s p c ws \<longleftrightarrow> current_count (sems s p) = c \<and> 0 \<le> c \<and> c \<le> max_count (sems s p) \<and>
     (ws \<noteq> [] \<longrightarrow> c = max_count (sems s p)) \<and> queue s (first_waiting (sems s p)) ws \<and> distinct ws \<and>
     (ws \<noteq> [] \<longrightarrow> last_waiting (sems s p) = last ws) \<and> (\<forall>w\<in>set ws. state (tcb w s) = STATE_WAITING_FOR_LOCK)"

lemma updsem_fields [simp]:
  "tcb q (updsem p f s) = tcb q s" "sems (updsem p f s) = (sems s)(p := f (sems s p))"
  "current_task_TCB (updsem p f s) = current_task_TCB s" "FIRST_THREAD (updsem p f s) = FIRST_THREAD s"
  "LAST_THREAD (updsem p f s) = LAST_THREAD s"
  "IRQ_disable_counter (updsem p f s) = IRQ_disable_counter s"
  "postpone_task_switches_counter (updsem p f s) = postpone_task_switches_counter s"
  "task_switches_postponed_flag (updsem p f s) = task_switches_postponed_flag s"
  by (simp_all add: updsem_def tcb_def)

lemma sem_okD:
  assumes "sem_ok s p c ws"
  shows "current_count (sems s p) = c" "0 \<le> c" "c \<le> max_count (sems s p)"
    "ws \<noteq> [] \<Longrightarrow> c = max_count (sems s p)" "queue s (first_waiting (sems s p)) ws" "distinct ws"
    "ws \<noteq> [] \<Longrightarrow> last_waiting (sems s p) = last ws" "w \<in> set ws \<Longrightarrow> state (tcb w s) = STATE_WAITING_FOR_LOCK"
    "first_waiting (sems s p) = 0 \<longleftrightarrow> ws = []"
proof -
  show "current_count (sems s p) = c" "0 \<le> c" "c \<le> max_count (sems s p)"
    "ws \<noteq> [] \<Longrightarrow> c = max_count (sems s p)" "queue s (first_waiting (sems s p)) ws" "distinct ws"
    "ws \<noteq> [] \<Longrightarrow> last_waiting (sems s p) = last ws" "w \<in> set ws \<Longrightarrow> state (tcb w s) = STATE_WAITING_FOR_LOCK"
    using assms by (auto simp: sem_ok_def)
  then show "first_waiting (sems s p) = 0 \<longleftrightarrow> ws = []" by (cases ws) auto
qed

text \<open>C30. \<open>acquire_semaphore\<close> never lets more than \<open>max_count\<close> tasks hold the semaphore: it counts the caller
  when there is room, and otherwise puts it at the end of the queue, blocked, with a switch pending.\<close>

theorem acquire_semaphore_ok:
  assumes S: "sem_ok s p c ws" and "current_task_TCB s \<noteq> 0" and "state (tcb (current_task_TCB s) s) = STATE_RUNNING"
    and "postpone_task_switches_counter s = 0" and "\<not> task_switches_postponed_flag s"
  shows "\<exists>s'. acquire_semaphore p s = ret s' \<and> current_task_TCB s' = current_task_TCB s \<and>
    (if c < max_count (sems s p)
     then sem_ok s' p (c + 1) ws \<and> state (tcb (current_task_TCB s) s') = STATE_RUNNING \<and>
          IRQ_disable_counter s' = IRQ_disable_counter s \<and> postpone_task_switches_counter s' = 0
     else sem_ok s' p c (ws @ [current_task_TCB s]) \<and> task_switches_postponed_flag s' \<and>
          rsp (tcb (current_task_TCB s) s') = K_unlock_scheduler # K_unlock_stuff # rsp (tcb (current_task_TCB s) s))"
proof -
  let ?cur = "current_task_TCB s"
  note D = sem_okD [OF S]
  show ?thesis
  proof (cases "c < max_count (sems s p)")
    case True
    let ?s0 = "updsem p (\<lambda>m. m\<lparr>current_count := current_count m + 1\<rparr>) (lock_stuff s)"
    define s' where "s' = irq_enable (?s0\<lparr>postpone_task_switches_counter := 0\<rparr>)"
    have "acquire_semaphore p s = ret s'"
      using True D(1) assms(4,5) unlock_stuff_quiet [of ?s0 schedule]
      by (simp add: acquire_semaphore_def Let_def unlock_stuff_def s'_def)
    moreover have ws: "ws = []" using True D(4) by auto
    ultimately show ?thesis
      using True D assms by (auto simp: s'_def sem_ok_def)
  next
    case False
    let ?s0 = "upd ?cur (\<lambda>t. t\<lparr>nxt := 0\<rparr>) (lock_stuff s)"
    let ?s1 = "if ws = [] then updsem p (\<lambda>m. m\<lparr>first_waiting := ?cur\<rparr>) ?s0
        else upd (last ws) (\<lambda>t. t\<lparr>nxt := ?cur\<rparr>) ?s0"
    let ?s2 = "push K_unlock_stuff (updsem p (\<lambda>m. m\<lparr>last_waiting := ?cur\<rparr>) ?s1)"
    define s' where "s' = schedule_postponed (push K_unlock_scheduler
      (upd ?cur (\<lambda>t. t\<lparr>state := STATE_WAITING_FOR_LOCK\<rparr>) (lock_scheduler ?s2)))"
    have c: "?cur \<notin> set ws" using D(8) assms(3) by auto
    then have l: "ws \<noteq> [] \<Longrightarrow> last ws \<noteq> ?cur" using last_in_set by metis
    have "acquire_semaphore p s = ret s'"
      using False D(1,7,9) assms(4)
      by (auto simp: acquire_semaphore_def Let_def block_task_def schedule_def push_def s'_def)
    moreover have f: "current_task_TCB s' = ?cur" "task_switches_postponed_flag s'"
        "rsp (tcb ?cur s') = K_unlock_scheduler # K_unlock_stuff # rsp (tcb ?cur s)"
      using l by (auto simp: s'_def push_def schedule_postponed_def)
    moreover have "sem_ok s' p c (ws @ [?cur])"
    proof -
      have n: "nxt (tcb q s') = (if q = ?cur then 0 else if ws \<noteq> [] \<and> q = last ws then ?cur else nxt (tcb q s))" for q
        using l by (auto simp: s'_def push_def schedule_postponed_def)
      have st: "state (tcb q s') = (if q = ?cur then STATE_WAITING_FOR_LOCK else state (tcb q s))" for q
        by (auto simp: s'_def push_def schedule_postponed_def)
      have sm: "sems s' p = (if ws = [] then (sems s p)\<lparr>first_waiting := ?cur, last_waiting := ?cur\<rparr>
          else (sems s p)\<lparr>last_waiting := ?cur\<rparr>)"
        by (auto simp: s'_def push_def schedule_postponed_def)
      have "queue s' (first_waiting (sems s' p)) (ws @ [?cur])"
      proof (cases "ws = []")
        case True
        then show ?thesis using sm n assms(2) by simp
      next
        case False
        have "queue s' (first_waiting (sems s p)) (ws @ [?cur])"
        proof (rule queue_join [OF D(5) False D(6)])
          show "queue s' ?cur [?cur]" using n assms(2) by simp
          show "nxt (tcb q s') = nxt (tcb q s)" if "q \<in> set ws" "q \<noteq> last ws" for q using that c n by auto
          show "nxt (tcb (last ws) s') = ?cur" using n l False by simp
        qed
        then show ?thesis using sm False by simp
      qed
      then show ?thesis
        using D False c st sm by (auto simp: sem_ok_def)
    qed
    ultimately show ?thesis using False by auto
  qed
qed


definition sem_free :: "unit sched_scheme" where
  "sem_free = demo_sched (\<lambda>p. demo_task STATE_RUNNING 0) 0x100 0 0"

definition sem_taken :: "unit sched_scheme" where
  "sem_taken = (demo_sched (\<lambda>p. if p = 0x200 then demo_task STATE_WAITING_FOR_LOCK 0 else demo_task STATE_RUNNING 0) 0x100 0 0)
     \<lparr>sems := (\<lambda>_. \<lparr>max_count = 1, current_count = 1, first_waiting = 0x200, last_waiting = 0x200\<rparr>)\<rparr>"

theorem acquire_semaphore_ok_witness:
  "(\<exists>s'. acquire_semaphore 8 sem_free = ret s' \<and> sem_ok s' 8 1 []) \<and>
   (\<exists>s'. acquire_semaphore 8 sem_taken = ret s' \<and> sem_ok s' 8 1 [0x200, 0x100])"
proof
  have "sem_ok sem_free 8 0 []" by (simp add: sem_ok_def sem_free_def demo_sched_def)
  from acquire_semaphore_ok [OF this] show "\<exists>s'. acquire_semaphore 8 sem_free = ret s' \<and> sem_ok s' 8 1 []"
    by (simp add: sem_free_def) (auto simp: demo_sched_def tcb_def demo_task_def)
  have "sem_ok sem_taken 8 1 [0x200]" "current_task_TCB sem_taken = 0x100" "max_count (sems sem_taken 8) = 1"
    "state (tcb 0x100 sem_taken) = STATE_RUNNING" "postpone_task_switches_counter sem_taken = 0"
    "\<not> task_switches_postponed_flag sem_taken"
    by (simp_all add: sem_ok_def sem_taken_def demo_sched_def tcb_def demo_task_def)
  then show "\<exists>s'. acquire_semaphore 8 sem_taken = ret s' \<and> sem_ok s' 8 1 [0x200, 0x100]"
    using acquire_semaphore_ok [of sem_taken 8 1 "[0x200]"] by auto
qed


subsection \<open>Exit\<close>

lemma giveSTDIOback_fields [simp]:
  "tcb p (giveSTDIOback r d n s) = tcb p s" "FIRST_THREAD (giveSTDIOback r d n s) = FIRST_THREAD s"
  "LAST_THREAD (giveSTDIOback r d n s) = LAST_THREAD s" "DEAD_TASKS (giveSTDIOback r d n s) = DEAD_TASKS s"
  "current_task_TCB (giveSTDIOback r d n s) = current_task_TCB s"
  "postpone_task_switches_counter (giveSTDIOback r d n s) = postpone_task_switches_counter s"
  by (simp_all add: giveSTDIOback_def Let_def tcb_def)


definition child_exits :: "unit sched_scheme" where
  "child_exits = demo_sched (\<lambda>p. if p = 0x100 then (demo_task STATE_RUNNING 0)\<lparr>parent := 0x200\<rparr>
     else demo_task STATE_WAITING_FOR_DEATH 0) 0x100 0 0"


end
