(* ===== verification/Terminal.thy ===== *)
theory Terminal
  imports Prelude
begin

section \<open>The text screen (terminal.c)\<close>

text \<open>
  The cursor is \<open>terminal_x\<close>, \<open>terminal_y\<close>; \<open>vid\<close> maps an offset from the start of video
  memory (\<open>CBASE+0xb8000\<close>, 25 rows of 80 cells of two bytes) to its byte. The control
  character 0x11 toggles the raw mode of the keyboard driver.
\<close>

record screen =
  terminal_x :: int
  terminal_y :: int
  vid :: "int \<Rightarrow> u8"
  keyboard_is_raw :: bool

definition put_cell :: "u8 \<Rightarrow> screen \<Rightarrow> screen" where
  "put_cell c s =
     (let o' = terminal_y s * 160 + terminal_x s * 2
      in s\<lparr>vid := (vid s)(o' := c, o' + 1 := 0x2a), terminal_x := terminal_x s + 1\<rparr>)"

text \<open>One turn of the scrolling loop: \<open>memcpy\<close> of 24 rows up by one.\<close>

definition scroll_once :: "screen \<Rightarrow> screen" where
  "scroll_once s = s\<lparr>vid := (\<lambda>i. if 0 \<le> i \<and> i < 160 * 24 then vid s (i + 160) else vid s i),
     terminal_y := terminal_y s - 1\<rparr>"

definition scroll :: "screen \<Rightarrow> screen" where
  "scroll s = (scroll_once ^^ nat (terminal_y s - 20)) s"

definition wrap :: "screen \<Rightarrow> screen" where
  "wrap s = (if terminal_x s > 80 then s\<lparr>terminal_x := 0, terminal_y := terminal_y s + 1\<rparr> else s)"

definition newline :: "screen \<Rightarrow> screen" where
  "newline s =
     (let s = (put_cell 0x20 ^^ nat (80 - terminal_x s)) s
      in s\<lparr>terminal_x := 0, terminal_y := terminal_y s + 1\<rparr>)"

definition put_char :: "u8 \<Rightarrow> screen \<Rightarrow> screen" where
  "put_char c s =
     (if c = 0x11 then s\<lparr>keyboard_is_raw := \<not> keyboard_is_raw s\<rparr>
      else let s = scroll (wrap s)
           in if terminal_y s < 20 then (if c = 0x0a then newline s else put_cell c s) else s)"

definition write_to_screen :: "u8 list \<Rightarrow> screen \<Rightarrow> screen" where
  "write_to_screen k s = fold put_char k s"

subsection \<open>Bounds\<close>

definition term_ok :: "screen \<Rightarrow> bool" where
  "term_ok s \<longleftrightarrow> 0 \<le> terminal_x s \<and> terminal_x s \<le> 81 \<and> 0 \<le> terminal_y s \<and> terminal_y s \<le> 20 \<and>
     (terminal_y s = 20 \<longrightarrow> terminal_x s = 0)"

text \<open>The cells a string can change: the first twenty rows and the cell that follows them.\<close>

definition same_outside :: "screen \<Rightarrow> screen \<Rightarrow> bool" where
  "same_outside s s' \<longleftrightarrow> (\<forall>i. i < 0 \<or> 3202 \<le> i \<longrightarrow> vid s' i = vid s i)"

lemma same_outside_refl [simp]: "same_outside s s"
  by (simp add: same_outside_def)

lemma same_outside_trans: "same_outside s t \<Longrightarrow> same_outside t u \<Longrightarrow> same_outside s u"
  by (simp add: same_outside_def)

lemma put_cell_fields [simp]:
  "terminal_x (put_cell c s) = terminal_x s + 1" "terminal_y (put_cell c s) = terminal_y s"
  "keyboard_is_raw (put_cell c s) = keyboard_is_raw s"
  by (simp_all add: put_cell_def Let_def)

lemma put_cell_outside:
  "0 \<le> terminal_x s \<Longrightarrow> terminal_x s \<le> 80 \<Longrightarrow> 0 \<le> terminal_y s \<Longrightarrow> terminal_y s < 20 \<Longrightarrow> same_outside s (put_cell c s)"
  by (auto simp: same_outside_def put_cell_def Let_def)

lemma blanks:
  "0 \<le> terminal_x s \<Longrightarrow> terminal_x s + int n \<le> 81 \<Longrightarrow> 0 \<le> terminal_y s \<Longrightarrow> terminal_y s < 20 \<Longrightarrow>
    (let s' = (put_cell c ^^ n) s in terminal_x s' = terminal_x s + int n \<and> terminal_y s' = terminal_y s \<and>
       keyboard_is_raw s' = keyboard_is_raw s \<and> same_outside s s')"
proof (induction n)
  case (Suc n)
  let ?t = "(put_cell c ^^ n) s"
  have ih: "terminal_x ?t = terminal_x s + int n" "terminal_y ?t = terminal_y s"
    "keyboard_is_raw ?t = keyboard_is_raw s" "same_outside s ?t"
    using Suc by (simp_all add: Let_def)
  have "same_outside ?t (put_cell c ?t)" by (rule put_cell_outside) (use Suc.prems ih in simp_all)
  then have "same_outside s (put_cell c ?t)" by (rule same_outside_trans [OF ih(4)])
  with ih show ?case by (simp add: Let_def)
qed simp

lemma scroll_id: "terminal_y s \<le> 20 \<Longrightarrow> scroll s = s"
  by (simp add: scroll_def)

lemma put_char_ok:
  assumes "term_ok s"
  shows "term_ok (put_char c s) \<and> same_outside s (put_char c s)"
proof (cases "c = 0x11")
  case True
  with assms show ?thesis by (simp add: put_char_def term_ok_def same_outside_def)
next
  case False
  let ?w = "wrap s"
  have w: "0 \<le> terminal_x ?w" "terminal_x ?w \<le> 80" "0 \<le> terminal_y ?w" "terminal_y ?w \<le> 20" "same_outside s ?w"
    "terminal_y ?w = 20 \<longrightarrow> terminal_x ?w = 0"
    using assms by (auto simp: wrap_def term_ok_def same_outside_def)
  show ?thesis
  proof (cases "terminal_y ?w < 20")
    case True
    have "terminal_x ?w + int (nat (80 - terminal_x ?w)) \<le> 81" using w by simp
    from blanks [OF w(1) this w(3) True, of "0x20"]
    have n: "term_ok (newline ?w)" "same_outside ?w (newline ?w)"
      using w True by (auto simp: newline_def Let_def term_ok_def same_outside_def)
    have p: "term_ok (put_cell c ?w)" "same_outside ?w (put_cell c ?w)"
      using w True put_cell_outside [OF w(1-3) True] by (simp_all add: term_ok_def)
    show ?thesis
      using n p w(5) False True same_outside_trans
      by (simp add: put_char_def scroll_id Let_def)
  next
    case False': False
    then have "put_char c s = ?w" using False w(4) by (simp add: put_char_def scroll_id)
    then show ?thesis using w by (simp add: term_ok_def)
  qed
qed

lemma screen_write_ok: "term_ok s \<Longrightarrow> term_ok (write_to_screen k s) \<and> same_outside s (write_to_screen k s)"
proof (induction k arbitrary: s)
  case (Cons c k)
  from Cons.IH [of "put_char c s"] put_char_ok [OF Cons.prems, of c] show ?case
    using same_outside_trans by (simp add: write_to_screen_def) blast
qed (simp add: write_to_screen_def)

definition blank_screen :: screen where
  "blank_screen = \<lparr>terminal_x = 0, terminal_y = 0, vid = (\<lambda>_. 0), keyboard_is_raw = True\<rparr>"

lemma blank_screen_ok: "term_ok blank_screen"
  by (simp add: term_ok_def blank_screen_def)

text \<open>Whatever is printed, the cursor stays within the first twenty-one rows and only the bytes of the first
  twenty rows and the cell after them are written: nothing outside video memory is touched.\<close>

theorem write_to_screen_safe:
  assumes "term_ok s"
  shows "term_ok (write_to_screen k s) \<and> (\<forall>i. i < 0 \<or> 3202 \<le> i \<longrightarrow> vid (write_to_screen k s) i = vid s i)"
  using screen_write_ok [OF assms] by (simp add: same_outside_def)

theorem write_to_screen_safe_witness:
  "term_ok (write_to_screen [0x41, 0x0a, 0x42] blank_screen) \<and>
   vid (write_to_screen [0x41, 0x0a, 0x42] blank_screen) 4000 = 0"
  using write_to_screen_safe [OF blank_screen_ok, of "[0x41, 0x0a, 0x42]"] by (simp add: blank_screen_def)

subsection \<open>Text and the end of the screen\<close>

lemma put_char_plain:
  "c \<noteq> 0x11 \<Longrightarrow> c \<noteq> 0x0a \<Longrightarrow> terminal_x s \<le> 80 \<Longrightarrow> terminal_y s < 20 \<Longrightarrow> put_char c s = put_cell c s"
  by (simp add: put_char_def wrap_def scroll_id)

lemma put_cells:
  "(\<forall>c\<in>set k. c \<noteq> 0x11 \<and> c \<noteq> 0x0a) \<Longrightarrow> terminal_x s + int (length k) \<le> 80 \<Longrightarrow> terminal_y s < 20 \<Longrightarrow>
    write_to_screen k s = fold put_cell k s"
proof (induction k arbitrary: s)
  case (Cons c k)
  then have "put_char c s = put_cell c s" by (intro put_char_plain) auto
  with Cons.IH [of "put_cell c s"] Cons.prems show ?case by (simp add: write_to_screen_def)
qed (simp add: write_to_screen_def)

lemma fold_put_cell:
  "terminal_x (fold put_cell k s) = terminal_x s + int (length k) \<and> terminal_y (fold put_cell k s) = terminal_y s \<and>
   (\<forall>i < length k. vid (fold put_cell k s) (terminal_y s * 160 + (terminal_x s + int i) * 2) = k ! i) \<and>
   (\<forall>i. i < terminal_y s * 160 + terminal_x s * 2 \<or> terminal_y s * 160 + (terminal_x s + int (length k)) * 2 \<le> i \<longrightarrow>
      vid (fold put_cell k s) i = vid s i)"
proof (induction k arbitrary: s)
  case (Cons c k)
  let ?t = "put_cell c s" and ?b = "terminal_y s * 160 + terminal_x s * 2"
  note ih = Cons.IH [of ?t]
  have t: "vid ?t ?b = c" "\<And>i. i < ?b \<or> ?b + 2 \<le> i \<Longrightarrow> vid ?t i = vid s i"
    by (auto simp: put_cell_def Let_def)
  have "vid (fold put_cell (c # k) s) (terminal_y s * 160 + (terminal_x s + int i) * 2) = (c # k) ! i"
    if "i < length (c # k)" for i
  proof (cases i)
    case 0
    with ih t(1) show ?thesis by simp
  next
    case (Suc j)
    with that have "j < length k" by simp
    with ih Suc show ?thesis by (simp add: algebra_simps)
  qed
  moreover have "vid (fold put_cell (c # k) s) i = vid s i"
    if "i < ?b \<or> terminal_y s * 160 + (terminal_x s + int (length (c # k))) * 2 \<le> i" for i
    using that ih t(2) [of i] by auto
  ultimately show ?case using ih by simp
qed simp

text \<open>Text without control characters that fits in the row is printed at the cursor, character by character,
  and changes nothing before or after it.\<close>

theorem write_to_screen_text:
  assumes "\<forall>c\<in>set k. c \<noteq> 0x11 \<and> c \<noteq> 0x0a" and "terminal_x s + int (length k) \<le> 80" and "terminal_y s < 20"
  defines "s' \<equiv> write_to_screen k s"
  shows "terminal_x s' = terminal_x s + int (length k) \<and> terminal_y s' = terminal_y s \<and>
    (\<forall>i < length k. vid s' (terminal_y s * 160 + (terminal_x s + int i) * 2) = k ! i) \<and>
    (\<forall>i. i < terminal_y s * 160 + terminal_x s * 2 \<or> terminal_y s * 160 + (terminal_x s + int (length k)) * 2 \<le> i \<longrightarrow>
       vid s' i = vid s i)"
  unfolding s'_def put_cells [OF assms(1-3)] by (rule fold_put_cell)

theorem write_to_screen_text_witness:
  "terminal_x (write_to_screen [0x68, 0x69] blank_screen) = 2 \<and> vid (write_to_screen [0x68, 0x69] blank_screen) 2 = 0x69"
  using write_to_screen_text [of "[0x68, 0x69]" blank_screen] by (auto simp: blank_screen_def less_Suc_eq)

text \<open>Once the cursor has reached row 20 the screen is frozen: no further output changes the screen or moves
  the cursor, so the scrolling loop is never entered.\<close>

theorem terminal_freezes:
  assumes "term_ok s" and "terminal_y s = 20"
  shows "vid (write_to_screen k s) = vid s \<and> terminal_x (write_to_screen k s) = 0 \<and> terminal_y (write_to_screen k s) = 20"
proof -
  have "vid (put_char c t) = vid t \<and> terminal_x (put_char c t) = 0 \<and> terminal_y (put_char c t) = 20"
    if "terminal_x t = 0" "terminal_y t = 20" for c t
    using that by (simp add: put_char_def wrap_def scroll_id)
  then have "vid (write_to_screen k t) = vid t \<and> terminal_x (write_to_screen k t) = 0 \<and> terminal_y (write_to_screen k t) = 20"
    if "terminal_x t = 0" "terminal_y t = 20" for t
    using that by (induction k arbitrary: t) (simp_all add: write_to_screen_def)
  with assms show ?thesis by (simp add: term_ok_def)
qed

theorem terminal_freezes_witness:
  "terminal_y (write_to_screen [0x41, 0x0a] (blank_screen\<lparr>terminal_y := 20\<rparr>)) = 20"
  using terminal_freezes [of "blank_screen\<lparr>terminal_y := 20\<rparr>" "[0x41, 0x0a]"] by (simp add: term_ok_def blank_screen_def)

end
