(* ===== verification/Ps2.thy ===== *)
theory Ps2
  imports PortIO Idt Terminal
begin

section \<open>The keyboard driver (ps2.c)\<close>

text \<open>
  The 8042 controller is talked to through the ports of \<open>PortIO\<close>: every command waits for the
  input buffer to drain, and a read for the output buffer to fill, for at most 4096 polls. The
  second half is the decoder of \<open>PS2_DRIVER\<close>: it keeps a byte of modifier states, which it
  toggles on both press and release, and emits a key packet or a character for every other key.
\<close>

subsection \<open>The controller\<close>

fun wait_8042 :: "(u8 \<Rightarrow> bool) \<Rightarrow> fault \<Rightarrow> nat \<Rightarrow> 'a io_scheme \<Rightarrow> fault + 'a io_scheme" where
  "wait_8042 ok e 0 w = Inr w"
| "wait_8042 ok e (Suc n) w =
     (let (v, w) = inb 0x64 w in
      if ok v then Inr w
      else if n = 0 then Inl e
      else wait_8042 ok e n (io_nano_sleep 0x1000000 w))"

definition SEND_8042_CMD :: "u8 \<Rightarrow> 'a io_scheme \<Rightarrow> fault + 'a io_scheme" where
  "SEND_8042_CMD byte w =
     bindE (wait_8042 (\<lambda>v. v AND 2 = 0) (ERROR ERR_PS2_CMD_TIMEOUT (ucast byte)) 0x1000 w)
       (\<lambda>w. Inr (outb 0x64 byte w))"

definition SEND_8042_DATA :: "u8 \<Rightarrow> 'a io_scheme \<Rightarrow> fault + 'a io_scheme" where
  "SEND_8042_DATA byte w =
     bindE (wait_8042 (\<lambda>v. v AND 2 = 0) (ERROR ERR_PS2_DATA_TIMEOUT (ucast byte)) 0x1000 w)
       (\<lambda>w. Inr (outb 0x60 byte w))"

definition READ_8042 :: "'a io_scheme \<Rightarrow> fault + u8 \<times> 'a io_scheme" where
  "READ_8042 w =
     bindE (wait_8042 (\<lambda>v. v AND 1 \<noteq> 0) (ERROR ERR_PS2_READ_TIMEOUT 0) 0x1000 w) (\<lambda>w. Inr (inb 0x60 w))"

definition READ_KB_DATA :: "'a io_scheme \<Rightarrow> u8 \<times> 'a io_scheme" where
  "READ_KB_DATA w =
     (let w = PIC_PS2 w;
          w = io_wait_for_irq 1 0 w;
          (j, w) = inb 0x60 w;
          w = PIC_sendEOI 1 w
      in (j, PIC_PS2off w))"

definition READ_KB_DATA2 :: "'a io_scheme \<Rightarrow> u8 \<times> 'a io_scheme" where
  "READ_KB_DATA2 w =
     (let w = io_wait_for_irq 12 0 w;
          (j, w) = inb 0x60 w
      in (j, PIC_sendEOI 12 w))"

text \<open>The phases of \<open>PS2_INIT\<close>. The last one returns \<open>PS2_SUPPORTED_CHANNELS\<close>.\<close>

definition ps2_self_test :: "'a io_scheme \<Rightarrow> fault + 'a io_scheme" where
  "ps2_self_test w =
     bindE (SEND_8042_CMD 0xAD w) (\<lambda>w.
     bindE (SEND_8042_CMD 0xA7 w) (\<lambda>w.
     let (_, w) = inb 0x60 w in
     bindE (SEND_8042_CMD 0x20 w) (\<lambda>w.
     bindE (READ_8042 w) (\<lambda>(k, w).
     let k = k AND (0xFF XOR (1 OR push_bit 6 1 OR push_bit 4 1)) in
     bindE (SEND_8042_CMD 0x60 w) (\<lambda>w.
     bindE (SEND_8042_DATA k w) (\<lambda>w.
     bindE (SEND_8042_CMD 0xAA w) (\<lambda>w.
     bindE (READ_8042 w) (\<lambda>(j, w).
     bindE (guard (j = 0x55) (ERROR ERR_8042_SELF_TEST (ucast j))) (\<lambda>_. Inr w)))))))))"

definition ps2_channels :: "'a io_scheme \<Rightarrow> fault + (bool \<times> u8) \<times> 'a io_scheme" where
  "ps2_channels w =
     bindE (SEND_8042_CMD 0xA8 w) (\<lambda>w.
     bindE (SEND_8042_CMD 0x20 w) (\<lambda>w.
     bindE (READ_8042 w) (\<lambda>(j, w).
     if j AND push_bit 5 1 \<noteq> 0 then Inr ((False, 1), w)
     else bindE (SEND_8042_CMD 0xA7 w) (\<lambda>w.
          bindE (SEND_8042_CMD 0x60 w) (\<lambda>w.
          bindE (SEND_8042_DATA (j AND NOT (1 OR push_bit 5 1)) w) (\<lambda>w. Inr ((True, 3), w)))))))"

definition ps2_interface_test :: "bool \<Rightarrow> u8 \<Rightarrow> 'a io_scheme \<Rightarrow> fault + u8 \<times> 'a io_scheme" where
  "ps2_interface_test dual ch w =
     bindE (SEND_8042_CMD 0xAB w) (\<lambda>w.
     bindE (READ_8042 w) (\<lambda>(r, w).
     let ch = (if r \<noteq> 0 then ch AND 2 else ch) in
     bindE (if dual then bindE (SEND_8042_CMD 0xAB w) (\<lambda>w.
                         bindE (READ_8042 w) (\<lambda>(r, w). Inr (if r \<noteq> 0 then ch AND 1 else ch, w)))
            else Inr (ch, w)) (\<lambda>(ch, w).
     bindE (guard (ch \<noteq> 0) (ERROR ERR_PS2_NO_CHANNELS 0)) (\<lambda>_. Inr (ch, w)))))"

definition ps2_enable :: "u8 \<Rightarrow> 'a io_scheme \<Rightarrow> fault + u8 \<times> 'a io_scheme" where
  "ps2_enable ch w =
     bindE (if ch AND 1 \<noteq> 0 then SEND_8042_CMD 0xAE w else Inr w) (\<lambda>w.
     bindE (SEND_8042_CMD 0x20 w) (\<lambda>w.
     bindE (READ_8042 w) (\<lambda>(j, w).
     bindE (SEND_8042_CMD 0x60 w) (\<lambda>w.
     bindE (SEND_8042_DATA ((j AND NOT 3) OR ch OR push_bit 6 1) w) (\<lambda>w.
     Inr (ch, PIC_PS2 w))))))"

definition PS2_INIT :: "'a io_scheme \<Rightarrow> fault + u8 \<times> 'a io_scheme" where
  "PS2_INIT w =
     bindE (ps2_self_test w) (\<lambda>w.
     bindE (ps2_channels w) (\<lambda>((dual, ch), w).
     bindE (ps2_interface_test dual ch w) (\<lambda>(ch, w). ps2_enable ch w)))"

subsection \<open>Decoding\<close>

text \<open>\<open>KeyMap\<close> after its table \<open>KM\<close> has been read from \<open>/etc/keymap\<close>.\<close>

definition KeyMap :: "(nat \<Rightarrow> u8) \<Rightarrow> u8 \<Rightarrow> u8 \<Rightarrow> u8" where
  "KeyMap KM keycode mods =
     (let index = unat keycode;
          index = (if mods AND 3 \<noteq> 0 then index + 0x80 else index);
          index = (if mods AND 8 \<noteq> 0 then index + 0x100 else index)
      in KM index)"

record KP =
  ascii :: u8
  keycode :: u8
  pR :: u8
  states :: u8

datatype key_out = Packet KP | Char u8

record keyboard =
  mods :: u8
  scr :: screen

text \<open>The bit each modifier key toggles: without a prefix, and after 0xe0.\<close>

definition mod_bit :: "u8 \<Rightarrow> u8" where
  "mod_bit c = (if c = 0x1D then 0x40 else if c = 0x2A then 0x1 else if c = 0x36 then 0x2
     else if c = 0x38 then 0x4 else if c = 0x3A then 0x10 else if c = 0x45 then 0x20 else 0)"

definition mod_bit_e0 :: "u8 \<Rightarrow> u8" where
  "mod_bit_e0 c = (if c = 0x1D then 0x80 else if c = 0x38 then 0x8 else 0)"

text \<open>The body of the driver's loop for a plain byte and for a byte that follows 0xe0.\<close>

definition plain_key :: "(nat \<Rightarrow> u8) \<Rightarrow> u8 \<Rightarrow> keyboard \<Rightarrow> fault + key_out list \<times> keyboard" where
  "plain_key KM b1 k =
     (let code = (b1 OR 0x80) XOR 0x80;
          rel = drop_bit 7 (b1 AND 0x80)
      in if mod_bit code \<noteq> 0 then Inr ([], k\<lparr>mods := mods k XOR mod_bit code\<rparr>)
         else bindE (guard (code \<le> 0x80) (ERROR ERR_KC_OOR (ucast code))) (\<lambda>_.
              let a = KeyMap KM code (mods k) in
              if keyboard_is_raw (scr k)
              then Inr ([Packet \<lparr>ascii = a, keycode = code, pR = rel, states = mods k\<rparr>], k)
              else if rel \<noteq> 0 then Inr ([Char a], k\<lparr>scr := write_to_screen [a] (scr k)\<rparr>)
              else Inr ([], k)))"

definition e0_key :: "(nat \<Rightarrow> u8) \<Rightarrow> u8 \<Rightarrow> keyboard \<Rightarrow> key_out list \<times> keyboard" where
  "e0_key KM b2 k =
     (let code = b2 OR 0x80;
          rel = drop_bit 7 (b2 AND 0x80)
      in if mod_bit_e0 (code XOR 0x80) \<noteq> 0 then ([], k\<lparr>mods := mods k XOR mod_bit_e0 (code XOR 0x80)\<rparr>)
         else if keyboard_is_raw (scr k)
         then ([Packet \<lparr>ascii = KeyMap KM code (mods k), keycode = code, pR = rel, states = mods k\<rparr>], k)
         else ([], k))"

text \<open>The loop over the bytes \<open>READ_KB_DATA\<close> returns, until they run out.\<close>

fun kb_loop :: "(nat \<Rightarrow> u8) \<Rightarrow> u8 list \<Rightarrow> keyboard \<Rightarrow> fault + key_out list \<times> keyboard" where
  "kb_loop KM [] k = Inr ([], k)"
| "kb_loop KM (b1 # bs) k =
     (if b1 = 0xe0
      then (case bs of
              [] \<Rightarrow> Inr ([], k)
            | b2 # bs \<Rightarrow> let (out, k) = e0_key KM b2 k
                in bindE (kb_loop KM bs k) (\<lambda>(out', k). Inr (out @ out', k)))
      else bindE (plain_key KM b1 k) (\<lambda>(out, k).
           bindE (kb_loop KM bs k) (\<lambda>(out', k). Inr (out @ out', k))))"

definition PS2_DRIVER_loop :: "u8 \<Rightarrow> (nat \<Rightarrow> u8) \<Rightarrow> u8 list \<Rightarrow> keyboard \<Rightarrow> fault + key_out list \<times> keyboard" where
  "PS2_DRIVER_loop PS2_KB_CHANNEL KM bs k =
     (if PS2_KB_CHANNEL AND 1 \<noteq> 0 then kb_loop KM bs k else Inl (ERROR ERR_NOKEYBOARD 0))"

subsection \<open>Properties of the controller code\<close>

lemma wait_8042_extends:
  "wait_8042 ok e n w = Inr w' \<Longrightarrow> extends w w' \<and> outs_to p (trace w') = outs_to p (trace w)"
proof (induction n arbitrary: w)
  case (Suc n)
  let ?w1 = "emit (Inb 0x64 (dev w (trace w) 0x64)) w"
  show ?case
  proof (cases "ok (dev w (trace w) 0x64)")
    case True
    with Suc.prems have "w' = ?w1" by (simp add: inb_pair)
    then show ?thesis by simp
  next
    case False
    with Suc.prems have "n \<noteq> 0" and "wait_8042 ok e n (io_nano_sleep 0x1000000 ?w1) = Inr w'"
      by (auto simp: inb_pair split: if_splits)
    with Suc.IH have "extends (io_nano_sleep 0x1000000 ?w1) w'"
      "outs_to p (trace w') = outs_to p (trace (io_nano_sleep 0x1000000 ?w1))" by blast+
    then show ?thesis by (auto simp: extends_def)
  qed
qed simp

text \<open>A device that never reports ready is given up on.\<close>

lemma wait_8042_dead:
  "(\<And>h p. \<not> ok (dev w h p)) \<Longrightarrow> 0 < n \<Longrightarrow> wait_8042 ok e n w = Inl e"
proof (induction n arbitrary: w)
  case (Suc n)
  show ?case
  proof (cases "n = 0")
    case False
    have "wait_8042 ok e n (io_nano_sleep 0x1000000 (emit (Inb 0x64 (dev w (trace w) 0x64)) w)) = Inl e"
      by (rule Suc.IH) (use Suc.prems False in simp_all)
    with False Suc.prems show ?thesis by (simp add: inb_pair)
  qed (use Suc.prems in \<open>simp add: inb_pair\<close>)
qed simp

lemma SEND_8042_CMD_outs:
  assumes "SEND_8042_CMD b w = Inr w'"
  shows "outs_to p (trace w') = outs_to p (trace w) @ (if p = 0x64 then [b] else [])"
  using assms wait_8042_extends [where w = w and p = p] by (auto simp: SEND_8042_CMD_def bindE_Inr_iff)

lemma SEND_8042_DATA_outs:
  assumes "SEND_8042_DATA b w = Inr w'"
  shows "outs_to p (trace w') = outs_to p (trace w) @ (if p = 0x60 then [b] else [])"
  using assms wait_8042_extends [where w = w and p = p] by (auto simp: SEND_8042_DATA_def bindE_Inr_iff)

lemma READ_8042_outs:
  assumes "READ_8042 w = Inr (v, w')"
  shows "outs_to p (trace w') = outs_to p (trace w)"
  using assms wait_8042_extends [where w = w and p = p] by (auto simp: READ_8042_def bindE_Inr_iff inb_pair)

lemma PIC_PS2_outs: "outs_to 0x60 (trace (PIC_PS2 w)) = outs_to 0x60 (trace w)"
  by (simp add: PIC_PS2_def IRQ_clear_mask_def IRQ_set_mask_def PIC1_def PIC2_def Let_def inb_pair)

text \<open>When \<open>PS2_INIT\<close> completes, whatever the controller answered, at least one channel was found, and the
  last configuration byte sent enables the interrupts of exactly the channels found, and scan code
  translation.\<close>

theorem PS2_INIT_configures:
  assumes "PS2_INIT w = Inr (ch, w')"
  shows "ch \<in> {1, 2, 3} \<and> (\<exists>j. last (outs_to 0x60 (trace w')) = (j AND NOT 3) OR ch OR 0x40)"
proof -
  from assms obtain w1 dual c0 w2 w3 where t: "ps2_channels w1 = Inr ((dual, c0), w2)"
    "ps2_interface_test dual c0 w2 = Inr (ch, w3)" "ps2_enable ch w3 = Inr (ch, w')"
    by (auto simp: PS2_INIT_def bindE_Inr_iff) (auto simp: ps2_enable_def bindE_Inr_iff)
  have "c0 = 1 \<or> c0 = 3" using t(1) by (auto simp: ps2_channels_def bindE_Inr_iff split: if_splits)
  with t(2) have "ch \<in> {1, 2, 3}"
    by (auto simp: ps2_interface_test_def bindE_Inr_iff Let_def split: if_splits)
  moreover from t(3) obtain j w4 w5 where "SEND_8042_DATA ((j AND NOT 3) OR ch OR push_bit 6 1) w4 = Inr w5"
    "w' = PIC_PS2 w5" by (auto simp: ps2_enable_def bindE_Inr_iff)
  then have "last (outs_to 0x60 (trace w')) = (j AND NOT 3) OR ch OR 0x40"
    using SEND_8042_DATA_outs [of _ w4 w5 "0x60"] by (simp add: PIC_PS2_outs)
  ultimately show ?thesis by blast
qed

text \<open>A controller whose input buffer never drains makes \<open>PS2_INIT\<close> stop with \<open>ERR_PS2_CMD_TIMEOUT\<close> for its
  first command instead of hanging.\<close>

theorem PS2_INIT_dead:
  assumes "\<forall>h p. dev w h p AND 2 \<noteq> 0"
  shows "PS2_INIT w = Inl (ERROR ERR_PS2_CMD_TIMEOUT 0xAD)"
  using wait_8042_dead [of "\<lambda>v. v AND 2 = 0" w "0x1000"] assms
  by (simp add: PS2_INIT_def ps2_self_test_def SEND_8042_CMD_def)

definition io_of :: "(io_event list \<Rightarrow> u16 \<Rightarrow> u8) \<Rightarrow> io" where
  "io_of d = \<lparr>dev = d, dma = (\<lambda>_ _. 0), trace = []\<rparr>"

theorem PS2_INIT_dead_witness: "PS2_INIT (io_of (\<lambda>_ _. 0xff)) = Inl (ERROR ERR_PS2_CMD_TIMEOUT 0xAD)"
  by (rule PS2_INIT_dead) (simp add: io_of_def)

subsection \<open>Properties of the decoder\<close>

lemma code_7bit: "(b OR 0x80) XOR 0x80 = b AND (0x7f :: u8)"
  by (rule bit_word_eqI) (auto simp: bit_simps c_int_simps less_Suc_eq numeral_eq_Suc)

lemma code_small: "b AND 0x7f \<le> (0x80 :: u8)"
  using word_and_le1 [of b "0x7f"] by (rule order_trans) simp

text \<open>The decoder accepts every byte sequence: \<open>ERR_KC_OOR\<close> is unreachable.\<close>

theorem kb_loop_total: "\<exists>out k'. kb_loop KM bs k = Inr (out, k')"
proof (induction KM bs k rule: kb_loop.induct)
  case (2 KM b1 bs k)
  have plain: "\<exists>out k'. plain_key KM b1 k = Inr (out, k')"
    by (auto simp: plain_key_def Let_def code_7bit code_small)
  show ?case
  proof (cases "b1 = 0xe0")
    case True
    with 2 show ?thesis by (cases bs) (auto split: prod.split, metis bindE_simps(2) prod.case)
  next
    case False
    from plain obtain out k' where p: "plain_key KM b1 k = Inr (out, k')" by blast
    with 2(2) [OF False] obtain out' k'' where "kb_loop KM bs k' = Inr (out', k'')" by blast
    with False p show ?thesis by simp
  qed
qed simp

text \<open>A controller that passes its tests.\<close>

definition good_8042 :: "io_event list \<Rightarrow> u16 \<Rightarrow> u8" where
  "good_8042 h p = (if p = 0x64 then 1 else if outs_to 0x64 h \<noteq> [] \<and> last (outs_to 0x64 h) = 0xAA then 0x55 else 0)"

lemma good_8042_ok: "isOk (PS2_INIT (io_of good_8042))"
  by code_simp

theorem PS2_INIT_configures_witness:
  "\<exists>ch w'. PS2_INIT (io_of good_8042) = Inr (ch, w') \<and> ch \<in> {1, 2, 3}"
proof -
  obtain ch w' where "PS2_INIT (io_of good_8042) = Inr (ch, w')"
    using good_8042_ok by (auto simp: isOk_def split: sum.splits)
  with PS2_INIT_configures [OF this] show ?thesis by blast
qed

lemma low_byte:
  fixes b :: u8
  assumes "b < 0x80"
  shows "b AND 0x7f = b" "b AND 0x80 = 0" "(b OR 0x80) AND 0x7f = b" "(b OR 0x80) AND 0x80 = 0x80" "b \<noteq> 0xe0"
    "b \<noteq> 0x60 \<Longrightarrow> b OR 0x80 \<noteq> 0xe0"
proof -
  have "unat (b AND 0x7f) = unat b mod 128"
    unfolding mask_literals by (simp only: unsigned_take_bit_eq flip: take_bit_eq_mask) (simp add: take_bit_eq_mod)
  then have "unat (b AND 0x7f) = unat b" using assms by (simp add: word_less_nat_alt)
  then show m: "b AND 0x7f = b" by (simp add: word_unat_eq_iff)
  then have "b AND 0x80 = (b AND 0x7f) AND 0x80" by simp
  also have "\<dots> = 0" by (simp add: and.assoc)
  finally show z: "b AND 0x80 = 0" .
  show o: "(b OR 0x80) AND 0x7f = b" using m by (simp add: bit.conj_disj_distrib2)
  show "(b OR 0x80) AND 0x80 = 0x80" using z by (simp add: bit.conj_disj_distrib2)
  show "b \<noteq> 0xe0" using assms by auto
  show "b OR 0x80 \<noteq> 0xe0" if "b \<noteq> 0x60" using o that by auto
qed

text \<open>A key struck while a modifier key is held is decoded with that modifier's layer, both on press and on
  release, and releasing the modifier restores the state there was before.\<close>

theorem chord_decoding:
  assumes m: "mod_bit c \<noteq> 0" "c < 0x80" and x: "mod_bit x = 0" "x < 0x80" "x \<noteq> 0x60"
    and raw: "keyboard_is_raw (scr k)"
  defines "ms \<equiv> mods k XOR mod_bit c"
  shows "kb_loop KM [c, x, x OR 0x80, c OR 0x80] k =
    Inr ([Packet \<lparr>ascii = KeyMap KM x ms, keycode = x, pR = 0, states = ms\<rparr>,
          Packet \<lparr>ascii = KeyMap KM x ms, keycode = x, pR = 1, states = ms\<rparr>], k)"
proof -
  have c60: "c \<noteq> 0x60" using m by (auto simp: mod_bit_def)
  show ?thesis
    using m x raw low_byte [OF m(2)] low_byte [OF x(2)] c60 order_less_imp_le [OF x(2)]
    by (simp add: plain_key_def code_7bit code_small ms_def Let_def xor.assoc)
qed

theorem chord_decoding_witness:
  "kb_loop (\<lambda>i. of_nat i) [0x2A, 0x1E, 0x9E, 0xAA] \<lparr>mods = 0, scr = blank_screen\<rparr> =
    Inr ([Packet \<lparr>ascii = 0x9E, keycode = 0x1E, pR = 0, states = 1\<rparr>,
          Packet \<lparr>ascii = 0x9E, keycode = 0x1E, pR = 1, states = 1\<rparr>], \<lparr>mods = 0, scr = blank_screen\<rparr>)"
  using chord_decoding [of "0x2A" "0x1E" "\<lparr>mods = 0, scr = blank_screen\<rparr>" "\<lambda>i. of_nat i"]
  by (simp add: mod_bit_def KeyMap_def blank_screen_def)

end
