(* ===== verification/Bytes.thy ===== *)
theory Bytes
  imports Prelude
begin

section \<open>Bytes, little-endian numbers and byte memory\<close>

text \<open>
  Packed structures and user memory are read and written as bytes. A number of \<open>n\<close> bytes is kept
  least significant byte first. A byte memory is a function from addresses; \<open>ldb\<close> reads and \<open>stb\<close>
  writes a run of bytes.
\<close>

subsection \<open>Little-endian numbers\<close>

primrec le_word :: "u8 list \<Rightarrow> 'a::len word" where
  "le_word [] = 0"
| "le_word (b # bs) = ucast b OR push_bit 8 (le_word bs)"

definition le_bytes :: "nat \<Rightarrow> 'a::len word \<Rightarrow> u8 list" where
  "le_bytes n w = map (\<lambda>i. ucast (drop_bit (8 * i) w)) [0..<n]"

lemma bit_le_word:
  "bit (le_word bs :: 'a::len word) k \<longleftrightarrow>
    k < LENGTH('a) \<and> k div 8 < length bs \<and> bit (bs ! (k div 8)) (k mod 8)"
proof (induction bs arbitrary: k)
  case (Cons b bs)
  show ?case
  proof (cases "k < 8")
    case True
    then show ?thesis by (auto simp: bit_simps)
  next
    case False
    then have k: "k div 8 = Suc ((k - 8) div 8)" "k mod 8 = (k - 8) mod 8" by (simp_all add: le_div_geq le_mod_geq)
    have "\<not> bit b k" using False by (auto dest: bit_imp_le_length)
    with False show ?thesis by (auto simp: bit_simps Cons.IH k)
  qed
qed simp

lemma length_le_bytes [simp]: "length (le_bytes n w) = n"
  by (simp add: le_bytes_def)

lemma bit_le_bytes: "i < n \<Longrightarrow> bit (le_bytes n (w :: 'a::len word) ! i) k \<longleftrightarrow> k < 8 \<and> bit w (8 * i + k)"
  by (auto simp: le_bytes_def bit_simps dest: bit_imp_le_length)

lemma le_word_bytes: "LENGTH('a) \<le> 8 * n \<Longrightarrow> le_word (le_bytes n w) = (w :: 'a::len word)"
  by (rule bit_word_eqI) (auto simp: bit_le_word bit_le_bytes less_mult_imp_div_less)

lemma le_bytes_word:
  assumes "8 * length bs \<le> LENGTH('a)"
  shows "le_bytes (length bs) (le_word bs :: 'a::len word) = bs"
proof (rule nth_equalityI)
  fix i assume i: "i < length (le_bytes (length bs) (le_word bs :: 'a word))"
  show "le_bytes (length bs) (le_word bs :: 'a word) ! i = bs ! i"
  proof (rule bit_word_eqI)
    fix k assume "k < LENGTH(8)"
    with i assms show "bit (le_bytes (length bs) (le_word bs :: 'a word) ! i) k = bit (bs ! i) k"
      by (simp add: bit_le_bytes bit_le_word)
  qed
qed simp

subsection \<open>Byte memory\<close>

definition ldb :: "(nat \<Rightarrow> u8) \<Rightarrow> nat \<Rightarrow> nat \<Rightarrow> u8 list" where
  "ldb m a n = map (\<lambda>i. m (a + i)) [0..<n]"

definition stb :: "nat \<Rightarrow> u8 list \<Rightarrow> (nat \<Rightarrow> u8) \<Rightarrow> nat \<Rightarrow> u8" where
  "stb a bs m = (\<lambda>x. if a \<le> x \<and> x < a + length bs then bs ! (x - a) else m x)"

lemma length_ldb [simp]: "length (ldb m a n) = n"
  by (simp add: ldb_def)

lemma nth_ldb [simp]: "i < n \<Longrightarrow> ldb m a n ! i = m (a + i)"
  by (simp add: ldb_def)

lemma ldb_stb_same: "n = length bs \<Longrightarrow> ldb (stb a bs m) a n = bs"
  by (rule nth_equalityI) (simp_all add: stb_def)

lemma ldb_stb_other: "b + n \<le> a \<or> a + length bs \<le> b \<Longrightarrow> ldb (stb a bs m) b n = ldb m b n"
  by (rule nth_equalityI) (auto simp: stb_def)

lemma stb_outside: "x < a \<or> a + length bs \<le> x \<Longrightarrow> stb a bs m x = m x"
  by (auto simp: stb_def)

lemma stb_ldb_inside: "i < length bs \<Longrightarrow> stb a bs m (a + i) = bs ! i"
  by (simp add: stb_def)

lemma ldb_append: "ldb m a (n + k) = ldb m a n @ ldb m (a + n) k"
  by (rule nth_equalityI) (auto simp: nth_append)

lemma stb_append: "stb (a + length xs) ys (stb a xs m) = stb a (xs @ ys) m"
  by (rule ext) (auto simp: stb_def nth_append)

lemma ldb_sub: "k + n \<le> m \<Longrightarrow> take n (drop k (ldb f a m)) = ldb f (a + k) n"
  by (rule nth_equalityI) (auto simp: add.assoc)

lemma ldb_cong: "(\<And>i. i < n \<Longrightarrow> f (a + i) = g (a + i)) \<Longrightarrow> ldb f a n = ldb g a n"
  by (simp add: ldb_def)

lemma stb_cong: "f x = g x \<Longrightarrow> stb a bs f x = stb a bs g x"
  by (simp add: stb_def)

text \<open>Loads and stores of 32 and 64 bits.\<close>

definition ld32 :: "(nat \<Rightarrow> u8) \<Rightarrow> nat \<Rightarrow> u32" where "ld32 m a = le_word (ldb m a 4)"
definition ld64 :: "(nat \<Rightarrow> u8) \<Rightarrow> nat \<Rightarrow> u64" where "ld64 m a = le_word (ldb m a 8)"
definition st32 :: "nat \<Rightarrow> u32 \<Rightarrow> (nat \<Rightarrow> u8) \<Rightarrow> nat \<Rightarrow> u8" where "st32 a v = stb a (le_bytes 4 v)"
definition st64 :: "nat \<Rightarrow> u64 \<Rightarrow> (nat \<Rightarrow> u8) \<Rightarrow> nat \<Rightarrow> u8" where "st64 a v = stb a (le_bytes 8 v)"

lemma ld_st_same [simp]: "ld32 (st32 a v m) a = v" "ld64 (st64 a w m) a = w"
  by (simp_all add: ld32_def st32_def ld64_def st64_def ldb_stb_same le_word_bytes)

lemma ld_st_other:
  "b + 4 \<le> a \<or> a + 4 \<le> b \<Longrightarrow> ld32 (st32 a v m) b = ld32 m b"
  "b + 4 \<le> a \<or> a + 8 \<le> b \<Longrightarrow> ld32 (st64 a w m) b = ld32 m b"
  "b + 8 \<le> a \<or> a + 4 \<le> b \<Longrightarrow> ld64 (st32 a v m) b = ld64 m b"
  "b + 8 \<le> a \<or> a + 8 \<le> b \<Longrightarrow> ld64 (st64 a w m) b = ld64 m b"
  by (simp_all add: ld32_def st32_def ld64_def st64_def ldb_stb_other)

lemma st_outside:
  "x < a \<or> a + 4 \<le> x \<Longrightarrow> st32 a v m x = m x"
  "x < a \<or> a + 8 \<le> x \<Longrightarrow> st64 a w m x = m x"
  by (simp_all add: st32_def st64_def stb_outside)

end
