(* ===== verification/Libc.thy ===== *)
theory Libc
  imports Bytes
begin

section \<open>The user-mode C library (userland/libc.c)\<close>

text \<open>
  Strings are lists of bytes without the terminating NUL. \<open>splitc\<close> counts the arguments of a
  command line and \<open>splitv\<close> splits it into an array of the size it is given; the start-up code (crt0.S)
  runs both. The second half is the bucket allocator \<open>malloc\<close>/\<open>free\<close>, whose block headers
  are four 32-bit words: the bucket, the requested size, and the link of a free block.
\<close>

definition SPACE :: u8 where "SPACE = 0x20"
definition BKSL :: u8 where "BKSL = 0x5c"
definition DQ :: u8 where "DQ = 0x22"
definition SQ :: u8 where "SQ = 0x27"

lemmas chars = SPACE_def BKSL_def DQ_def SQ_def

subsection \<open>Counting arguments\<close>

text \<open>The quote state is 0, 1 (single) or 2 (double), as \<open>inquote\<close> in the source.\<close>

fun splitc_loop :: "u8 list \<Rightarrow> nat \<Rightarrow> bool \<Rightarrow> nat \<Rightarrow> nat" where
  "splitc_loop [] inquote inbksl ar = ar"
| "splitc_loop (c # cs) inquote inbksl ar =
     (if inbksl then splitc_loop cs inquote False ar
      else if inquote \<noteq> 0
      then if c = BKSL then splitc_loop cs inquote True ar
           else if c = SQ \<and> inquote = 1 \<or> c = DQ \<and> inquote = 2 then splitc_loop cs 0 False ar
           else splitc_loop cs inquote False ar
      else splitc_loop cs (if c = SQ then 1 else if c = DQ then 2 else 0) (c = BKSL) (if c = SPACE then ar + 1 else ar))"

definition splitc :: "u8 list \<Rightarrow> nat" where
  "splitc argv = splitc_loop argv 0 False 1"

subsection \<open>Splitting\<close>

text \<open>
  \<open>done\<close> are the words before the current one, in reverse; \<open>cur\<close> is the current word, also in
  reverse. A backslash outside quotes at the end of the string makes the loop step over the
  terminator and read beyond the string: the result is then \<open>None\<close>. A word to which no character
  was added is \<open>[]\<close> here, and an uninitialised buffer in the program.
\<close>

definition escapable :: "nat \<Rightarrow> u8 \<Rightarrow> bool" where
  "escapable inquote c \<longleftrightarrow> c = SQ \<and> inquote = 1 \<or> c = DQ \<and> inquote = 2 \<or> c = BKSL"

function (sequential) splitv_loop :: "u8 list \<Rightarrow> nat \<Rightarrow> u8 list list \<Rightarrow> u8 list \<Rightarrow> u8 list list option" where
  "splitv_loop [] inquote ws cur = Some (rev (rev cur # ws))"
| "splitv_loop (c # cs) inquote ws cur =
     (if c = BKSL
      then if inquote \<noteq> 0
           then (case cs of
                   d # ds \<Rightarrow> if escapable inquote d then splitv_loop ds inquote ws (d # cur)
                             else splitv_loop cs inquote ws (c # cur)
                 | [] \<Rightarrow> splitv_loop cs inquote ws (c # cur))
           else (case cs of
                   [] \<Rightarrow> None
                 | d # ds \<Rightarrow> splitv_loop ds inquote ws (d # cur))
      else if c = DQ \<or> c = SQ
      then if inquote = 1 \<and> c = SQ \<or> inquote = 2 \<and> c = DQ then splitv_loop cs 0 ws cur
           else if inquote = 0 then splitv_loop cs (if c = SQ then 1 else 2) ws cur
           else splitv_loop cs inquote ws (c # cur)
      else if c = SPACE \<and> inquote = 0
      then splitv_loop (dropWhile (\<lambda>c. c = SPACE) cs) inquote (rev cur # ws) []
      else splitv_loop cs inquote ws (c # cur))"

  by pat_completeness auto
termination
  by (relation "measure (\<lambda>(cs, _). length cs)") (auto simp: length_dropWhile_le le_imp_less_Suc)

definition splitv :: "u8 list \<Rightarrow> u8 list list option" where
  "splitv arg = splitv_loop arg 0 [] []"

subsection \<open>The two passes agree\<close>

text \<open>
  \<open>qnext inquote c\<close> is the quote state after a character that is not escaped: the two loops compute
  it in different ways.
\<close>

definition qnext :: "nat \<Rightarrow> u8 \<Rightarrow> nat" where
  "qnext q c = (if q = 1 then if c = SQ then 0 else 1
                else if q = 2 then if c = DQ then 0 else 2
                else if c = SQ then 1 else if c = DQ then 2 else 0)"

lemma splitc_loop_mono: "ar \<le> splitc_loop cs q b ar"
  by (induction cs q b ar rule: splitc_loop.induct) (auto intro: order_trans)

lemma splitc_loop_spaces: "splitc_loop (dropWhile (\<lambda>c. c = SPACE) cs) 0 False ar \<le> splitc_loop cs 0 False ar"
proof (induction cs arbitrary: ar)
  case (Cons c cs)
  have "splitc_loop cs 0 False ar \<le> splitc_loop cs 0 False (ar + 1)" for ar
  proof -
    have *: "splitc_loop cs q b ar \<le> splitc_loop cs q b (ar + 1)" for q b
      by (induction cs q b ar rule: splitc_loop.induct) auto
    show ?thesis by (rule *)
  qed
  moreover have "(SPACE :: u8) \<noteq> SQ" "(SPACE :: u8) \<noteq> DQ" "(SPACE :: u8) \<noteq> BKSL" by (simp_all add: chars)
  ultimately show ?case using Cons.IH[of ar] by (auto intro: order_trans)
qed simp

lemma char_neq: "SPACE \<noteq> SQ" "SPACE \<noteq> DQ" "SPACE \<noteq> BKSL" "SQ \<noteq> DQ" "BKSL \<noteq> SQ" "BKSL \<noteq> DQ"
  by (simp_all add: chars)

lemma splitv_loop_count:
  assumes "splitv_loop cs q ws cur = Some r" "q \<le> 2"
  shows "length r \<le> splitc_loop cs q False (length ws + 1)"
  using assms
proof (induction cs q ws cur arbitrary: r rule: splitv_loop.induct)
  case (2 c cs q ws cur)
  note S = "2.prems"(1) and q = "2.prems"(2)
  show ?case
  proof (cases "c = BKSL \<and> q \<noteq> 0 \<and> cs \<noteq> [] \<and> \<not> escapable q (hd cs)")
    case True
    then obtain d ds where cs: "cs = d # ds" by (cases cs) auto
    have r: "splitv_loop cs q ws (c # cur) = Some r" using S True cs by (subst (asm) splitv_loop.simps(2)) (simp del: splitv_loop.simps(2))
    have "length r \<le> splitc_loop cs q False (length ws + 1)"
      using "2.IH"(3)[OF _ _ cs _ r q] True cs by simp
    then show ?thesis using True cs q by (auto simp: escapable_def split: if_splits)
  next
    case False
    then show ?thesis
      using "2.IH" S q char_neq splitc_loop_spaces[of cs "length ws + 2"]
      by (cases cs) (auto simp: escapable_def simp del: splitv_loop.simps(2) simp add: splitv_loop.simps(2)[of c] split: if_splits intro: order_trans)
  qed
qed simp



subsection \<open>Plain words, and quoting\<close>

definition plain :: "u8 list \<Rightarrow> bool" where
  "plain w \<longleftrightarrow> w \<noteq> [] \<and> (\<forall>c \<in> set w. c \<notin> {SPACE, BKSL, DQ, SQ})"

text \<open>Words joined by single spaces.\<close>
fun join :: "u8 list list \<Rightarrow> u8 list" where
  "join [] = []"
| "join [w] = w"
| "join (w # ws) = w @ SPACE # join ws"

lemma splitv_loop_plain:
  "\<forall>c \<in> set w. c \<notin> {SPACE, BKSL, DQ, SQ} \<Longrightarrow> splitv_loop (w @ cs) 0 ws cur = splitv_loop cs 0 ws (rev w @ cur)"
  by (induction w arbitrary: cur) auto

lemma splitc_loop_plain:
  "\<forall>c \<in> set w. c \<notin> {SPACE, BKSL, DQ, SQ} \<Longrightarrow> splitc_loop (w @ cs) 0 False ar = splitc_loop cs 0 False ar"
  by (induction w) auto

lemma dropWhile_join:
  "\<forall>w \<in> set ws. plain w \<Longrightarrow> dropWhile (\<lambda>c. c = SPACE) (join ws) = join ws"
proof (induction ws rule: join.induct)
  case (2 w)
  then show ?case by (cases w) (auto simp: plain_def)
next
  case (3 w v vs)
  then show ?case by (cases w) (auto simp: plain_def)
qed simp

lemma splitv_loop_join:
  "\<lbrakk>ws \<noteq> []; \<forall>w \<in> set ws. plain w\<rbrakk> \<Longrightarrow> splitv_loop (join ws) 0 acc [] = Some (rev acc @ ws)"
proof (induction ws arbitrary: acc rule: join.induct)
  case (2 w)
  then show ?case using splitv_loop_plain[of w "[]" acc "[]"] by (simp add: plain_def)
next
  case (3 w v vs)
  have p: "\<forall>c \<in> set w. c \<notin> {SPACE, BKSL, DQ, SQ}" using 3 by (simp add: plain_def)
  have "dropWhile (\<lambda>c. c = SPACE) (join (v # vs)) = join (v # vs)" using 3 by (intro dropWhile_join) simp
  then show ?case using 3 char_neq by (simp add: splitv_loop_plain[OF p])
qed simp

lemma splitc_loop_join:
  "\<lbrakk>ws \<noteq> []; \<forall>w \<in> set ws. plain w\<rbrakk> \<Longrightarrow> splitc_loop (join ws) 0 False (Suc n) = n + length ws"
proof (induction ws arbitrary: n rule: join.induct)
  case (2 w)
  then show ?case using splitc_loop_plain[of w "[]"] by (simp add: plain_def)
next
  case (3 w v vs)
  have p: "\<forall>c \<in> set w. c \<notin> {SPACE, BKSL, DQ, SQ}" using 3 by (simp add: plain_def)
  show ?case using 3 char_neq by (simp add: splitc_loop_plain[OF p])
qed simp

text \<open>Splitting inverts joining: a command line made of non-empty words without quotes or
  backslashes, with one space between them, splits into exactly those words, and the counting pass
  gives exactly their number.
\<close>
theorem splitv_join:
  assumes "ws \<noteq> []" "\<forall>w \<in> set ws. plain w"
  shows "splitv (join ws) = Some ws \<and> splitc (join ws) = length ws"
  using splitv_loop_join[OF assms, of "[]"] splitc_loop_join[OF assms, of 0] by (simp add: splitv_def splitc_def)

lemma splitv_join_witness:
  "splitv (join [[0x6c, 0x73], [0x2d, 0x6c]]) = Some [[0x6c, 0x73], [0x2d, 0x6c]] \<and> splitc (join [[0x6c, 0x73], [0x2d, 0x6c]]) = 2"
  using splitv_join[of "[[0x6c, 0x73], [0x2d, 0x6c]]"] by (simp add: plain_def chars)

text \<open>A word in double quotes, with the quote and the backslash escaped.\<close>

fun escape :: "u8 list \<Rightarrow> u8 list" where
  "escape [] = []"
| "escape (c # cs) = (if c = DQ \<or> c = BKSL then BKSL # c # escape cs else c # escape cs)"

definition quote :: "u8 list \<Rightarrow> u8 list" where
  "quote w = DQ # escape w @ [DQ]"

lemma splitv_loop_escape: "splitv_loop (escape w @ cs) 2 ws cur = splitv_loop cs 2 ws (rev w @ cur)"
  using char_neq by (induction w arbitrary: cur) (auto simp: escapable_def)

lemma splitc_loop_escape: "splitc_loop (escape w @ cs) 2 False ar = splitc_loop cs 2 False ar"
  using char_neq by (induction w) auto

lemma dropWhile_quote: "dropWhile (\<lambda>c. c = SPACE) (quote w @ cs) = quote w @ cs"
  using char_neq by (simp add: quote_def)

lemma splitv_loop_quote: "splitv_loop (quote w @ cs) 0 ws cur = splitv_loop cs 0 ws (rev w @ cur)"
  using char_neq by (auto simp: quote_def splitv_loop_escape)

lemma splitc_loop_quote: "splitc_loop (quote w @ cs) 0 False ar = splitc_loop cs 0 False ar"
  using char_neq by (auto simp: quote_def splitc_loop_escape)

lemma split_quoted:
  "ws \<noteq> [] \<Longrightarrow> splitv_loop (join (map quote ws)) 0 acc [] = Some (rev acc @ ws) \<and>
    splitc_loop (join (map quote ws)) 0 False (Suc n) = n + length ws"
proof (induction ws arbitrary: acc n rule: join.induct)
  case (2 w)
  show ?case using splitv_loop_quote[of w "[]" acc "[]"] splitc_loop_quote[of w "[]"] by simp
next
  case (3 w v vs)
  have d: "dropWhile (\<lambda>c. c = SPACE) (join (map quote (v # vs))) = join (map quote (v # vs))"
    using dropWhile_quote[of v "[]"] dropWhile_quote[of v] by (cases vs) simp_all
  show ?case using "3.IH"[of "w # acc" "Suc n"] d char_neq by (simp add: splitv_loop_quote splitc_loop_quote)
qed simp

text \<open>Quoting is lossless: any sequence of words, spaces, quotes, backslashes and empty words
  included, survives being written with each word in double quotes (quote and backslash escaped):
  the splitter returns the words and the counter their number.
\<close>
theorem quote_roundtrip:
  assumes "ws \<noteq> []"
  shows "splitv (join (map quote ws)) = Some ws \<and> splitc (join (map quote ws)) = length ws"
  using split_quoted[OF assms, of "[]" 0] by (simp add: splitv_def splitc_def)

lemma quote_roundtrip_witness:
  "splitv [0x22, 0x61, 0x20, 0x5c, 0x22, 0x5c, 0x5c, 0x22, 0x20, 0x22, 0x22] = Some [[0x61, 0x20, 0x22, 0x5c], []]"
  using quote_roundtrip[of "[[0x61, 0x20, 0x22, 0x5c], []]"] by (simp add: quote_def chars)

text \<open>Two blind spots of the pair. Between words, a run of spaces is one separator for the splitter
  and one separator per space for the counter, so \<open>argc\<close> exceeds the words stored (and the last
  entries of the array are uninitialised); and a backslash that ends the command line outside quotes
  makes the splitter step over the terminator.
\<close>
theorem splitv_blind_spots:
  "splitv [0x61, SPACE, SPACE, 0x62] = Some [[0x61], [0x62]] \<and> splitc [0x61, SPACE, SPACE, 0x62] = 3 \<and>
   (\<forall>w. plain w \<longrightarrow> splitv (w @ [BKSL]) = None)"
proof -
  have "splitv (w @ [BKSL]) = None" if "plain w" for w
    using that char_neq by (simp add: splitv_def splitv_loop_plain plain_def)
  then show ?thesis by (simp add: splitv_def splitc_def chars)
qed

lemma splitv_blind_spots_witness: "splitv [0x61, BKSL] = None \<and> splitc [0x61, SPACE, SPACE, 0x62] = 3"
proof -
  have "plain [0x61]" by (simp add: plain_def chars)
  moreover have "plain w \<Longrightarrow> splitv (w @ [BKSL]) = None" for w using splitv_blind_spots by blast
  ultimately have "splitv ([0x61] @ [BKSL]) = None" by blast
  then show ?thesis using splitv_blind_spots by simp
qed

subsection \<open>The bucket allocator\<close>

text \<open>
  The state of a program: its memory, the end of its program break and the heads of the four free
  lists (0 is \<open>NULL\<close>). \<open>sbrk\<close> is system call 5: it adds to the end of the break and returns the new
  end. A block at \<open>k\<close> has its bucket number at \<open>k - 16\<close>, the requested size at \<open>k - 12\<close> and, while
  it is free, the next free block at \<open>k - 8\<close>. Bucket 4 marks a block of more than 4096 bytes.
\<close>

record umem =
  ubytes :: "nat \<Rightarrow> u8"
  brk_end :: nat
  bucket :: "nat \<Rightarrow> nat"

definition sbrk :: "nat \<Rightarrow> umem \<Rightarrow> nat \<times> umem" where
  "sbrk sz s = (let e = (brk_end s + sz) mod 2 ^ 64 in (e, s\<lparr>brk_end := e\<rparr>))"

definition init_umalloc :: "umem \<Rightarrow> umem" where
  "init_umalloc s = s\<lparr>bucket := (\<lambda>_. 0)\<rparr>"

definition bucket_of :: "nat \<Rightarrow> nat" where
  "bucket_of sz = (if 64 < sz then if 512 < sz then 3 else 2 else if 8 < sz then 1 else 0)"

definition bucket_size :: "nat \<Rightarrow> nat" where
  "bucket_size b = (if b = 0 then 8 else if b = 1 then 64 else if b = 2 then 512 else 4096)"

definition set_header :: "nat \<Rightarrow> nat \<Rightarrow> nat \<Rightarrow> umem \<Rightarrow> umem" where
  "set_header k sz b s = s\<lparr>ubytes := st32 (k - 16) (of_nat b) (st32 (k - 12) (of_nat sz) (ubytes s))\<rparr>"

definition umalloc :: "nat \<Rightarrow> umem \<Rightarrow> nat \<times> umem" where
  "umalloc sz s =
     (if 4096 < sz
      then let (e, s) = sbrk (sz + 16) s; k = e - sz in (k, set_header k sz 4 s)
      else let b = bucket_of sz;
               (k, s) = (if bucket s b \<noteq> 0
                         then (bucket s b, s\<lparr>bucket := (bucket s)(b := unat (ld64 (ubytes s) (bucket s b - 8)))\<rparr>)
                         else let (e, s) = sbrk (bucket_size b + 16) s in (e - bucket_size b, s))
           in (k, set_header k sz b s))"

definition ufree :: "nat \<Rightarrow> umem \<Rightarrow> umem" where
  "ufree a s =
     (let b = unat (ld32 (ubytes s) (a - 16)) in
      if b = 4 then s
      else s\<lparr>ubytes := st64 (a - 8) (of_nat (bucket s b)) (ubytes s), bucket := (bucket s)(b := a)\<rparr>)"

definition umemcpy :: "nat \<Rightarrow> nat \<Rightarrow> nat \<Rightarrow> umem \<Rightarrow> umem" where
  "umemcpy b a n s = s\<lparr>ubytes := stb b (ldb (ubytes s) a n) (ubytes s)\<rparr>"

definition urealloc :: "nat \<Rightarrow> nat \<Rightarrow> umem \<Rightarrow> nat \<times> umem" where
  "urealloc a sz s =
     (let (b, s) = umalloc sz s;
          s = umemcpy b a (unat (ld32 (ubytes s) (a - 12))) s
      in (b, ufree a s))"

text \<open>
  A block is its address, bucket and capacity. \<open>F b\<close> is the free list of a bucket, \<open>L\<close> the set of
  blocks in use. Blocks, headers included, lie below the break and do not meet.
\<close>

type_synonym ublock = "nat \<times> nat \<times> nat"

definition free_blocks :: "(nat \<Rightarrow> nat list) \<Rightarrow> ublock set" where
  "free_blocks F = {(k, b, bucket_size b) |k b. b < 4 \<and> k \<in> set (F b)}"

fun apart :: "ublock \<Rightarrow> ublock \<Rightarrow> bool" where
  "apart (k, b, n) (k', b', n') \<longleftrightarrow> k + n \<le> k' - 16 \<or> k' + n' \<le> k - 16"

fun placed :: "umem \<Rightarrow> ublock \<Rightarrow> bool" where
  "placed s (k, b, n) \<longleftrightarrow> 16 \<le> k \<and> k + n \<le> brk_end s \<and> (b < 4 \<and> n = bucket_size b \<or> b = 4 \<and> 4096 < n)"

fun headed :: "umem \<Rightarrow> ublock \<Rightarrow> bool" where
  "headed s (k, b, n) \<longleftrightarrow> ld32 (ubytes s) (k - 16) = of_nat b \<and> unat (ld32 (ubytes s) (k - 12)) \<le> n"

fun linked :: "umem \<Rightarrow> nat \<Rightarrow> nat list \<Rightarrow> bool" where
  "linked s k [] \<longleftrightarrow> k = 0"
| "linked s k (x # xs) \<longleftrightarrow> k = x \<and> linked s (unat (ld64 (ubytes s) (x - 8))) xs"

definition uheap_ok :: "umem \<Rightarrow> (nat \<Rightarrow> nat list) \<Rightarrow> ublock set \<Rightarrow> bool" where
  "uheap_ok s F L \<longleftrightarrow> brk_end s < 2 ^ 64 \<and> (\<forall>x \<in> free_blocks F \<union> L. placed s x) \<and>
     (\<forall>x \<in> free_blocks F \<union> L. \<forall>y \<in> free_blocks F \<union> L. x \<noteq> y \<longrightarrow> apart x y) \<and>
     free_blocks F \<inter> L = {} \<and> (\<forall>b < 4. distinct (F b) \<and> linked s (bucket s b) (F b)) \<and> (\<forall>x \<in> L. headed s x)"

text \<open>Writing the header of one block leaves the others alone.\<close>

definition same_block :: "umem \<Rightarrow> umem \<Rightarrow> ublock \<Rightarrow> bool" where
  "same_block s s' x = (case x of (k, b, n) \<Rightarrow>
     ld32 (ubytes s') (k - 16) = ld32 (ubytes s) (k - 16) \<and> ld32 (ubytes s') (k - 12) = ld32 (ubytes s) (k - 12) \<and>
     ld64 (ubytes s') (k - 8) = ld64 (ubytes s) (k - 8) \<and> (\<forall>i < n. ubytes s' (k + i) = ubytes s (k + i)))"

lemma same_block_header:
  assumes a: "apart (p, c, m) (k, b, n)" "16 \<le> p" "16 \<le> k" "8 \<le> m" "8 \<le> n"
    and u: "ubytes s' = st32 (p - 16) v (st32 (p - 12) w (ubytes s))"
  shows "same_block s s' (k, b, n)"
proof -
  obtain p' k' where e: "p = p' + 16" "k = k' + 16" using a(2,3) by (metis le_add_diff_inverse2)
  have "p' + 16 + m \<le> k' \<or> k' + 16 + n \<le> p'" using a(1) e by simp
  then show ?thesis using a(4,5) by (auto simp: same_block_def e u ld_st_other st_outside)
qed

lemma same_block_link:
  assumes a: "apart (p, c, m) (k, b, n)" "16 \<le> p" "16 \<le> k" "8 \<le> m" "8 \<le> n"
    and u: "ubytes s' = st64 (p - 8) v (ubytes s)"
  shows "same_block s s' (k, b, n)"
proof -
  obtain p' k' where e: "p = p' + 16" "k = k' + 16" using a(2,3) by (metis le_add_diff_inverse2)
  have "p' + 16 + m \<le> k' \<or> k' + 16 + n \<le> p'" using a(1) e by simp
  then show ?thesis using a(4,5) by (auto simp: same_block_def e u ld_st_other st_outside)
qed

lemma bucket_size_ge: "8 \<le> bucket_size b"
  by (simp add: bucket_size_def)

lemma placed_ge: "placed s (k, b, n) \<Longrightarrow> 8 \<le> n \<and> 16 \<le> k"
  using bucket_size_ge by auto

lemma linked_cong:
  "\<lbrakk>\<forall>x \<in> set xs. ld64 (ubytes s') (x - 8) = ld64 (ubytes s) (x - 8)\<rbrakk> \<Longrightarrow> linked s' k xs = linked s k xs"
  by (induction xs arbitrary: k) auto

lemma linked_same:
  assumes "\<forall>y \<in> free_blocks F. same_block s s' y" "b < 4"
  shows "linked s' k (F b) = linked s k (F b)"
  using assms by (intro linked_cong) (fastforce simp: free_blocks_def same_block_def)

lemma headed_same: "same_block s s' y \<Longrightarrow> headed s' y = headed s y"
  by (cases y) (simp add: same_block_def)

lemma headed_set_header:
  "\<lbrakk>16 \<le> k; b \<le> 4; sz \<le> n\<rbrakk> \<Longrightarrow> headed (set_header k sz b s) (k, b, n) \<and>
     ld32 (ubytes (set_header k sz b s)) (k - 12) = of_nat sz"
  using order_trans[OF mod_less_eq_dividend[of sz "2 ^ 32"], of n]
  by (auto simp: set_header_def ld_st_other unat_of_nat)

lemma apart_sym: "apart x y \<longleftrightarrow> apart y x"
  by (cases x; cases y) auto

text \<open>A new block at the end of the break.\<close>

lemma umalloc_fresh:
  assumes ok: "uheap_ok s F L" and n: "b < 4 \<and> n = bucket_size b \<or> b = 4 \<and> 4096 < n" and sz: "sz \<le> n"
    and room: "brk_end s + n + 16 < 2 ^ 64"
    and s': "s' = set_header (brk_end s + 16) sz b (s\<lparr>brk_end := brk_end s + n + 16\<rparr>)"
  shows "uheap_ok s' F (insert (brk_end s + 16, b, n) L) \<and> (\<forall>y \<in> L. apart (brk_end s + 16, b, n) y \<and> same_block s s' y) \<and>
    (brk_end s + 16, b, n) \<notin> L \<and> ld32 (ubytes s') (brk_end s + 16 - 12) = of_nat sz"
proof -
  let ?x = "(brk_end s + 16, b, n)"
  have n8: "8 \<le> n" using n bucket_size_ge by auto
  have P: "placed s y" if "y \<in> free_blocks F \<union> L" for y using ok that by (auto simp: uheap_ok_def)
  have A: "apart ?x y" if "y \<in> free_blocks F \<union> L" for y using P[OF that] by (cases y) auto
  have S: "same_block s s' y" if "y \<in> free_blocks F \<union> L" for y
  proof (cases y)
    case (fields k c m)
    show ?thesis unfolding fields
      by (rule same_block_header[of "brk_end s + 16" b n])
         (use A[OF that] placed_ge[OF P[OF that, unfolded fields]] n8 fields in \<open>simp_all add: s' set_header_def\<close>)
  qed
  have f: "brk_end s' = brk_end s + n + 16" "bucket s' = bucket s" by (simp_all add: s' set_header_def)
  have N: "?x \<notin> free_blocks F \<union> L" using P n8 by fastforce
  have h: "headed s' ?x \<and> ld32 (ubytes s') (brk_end s + 16 - 12) = of_nat sz"
    unfolding s' by (rule headed_set_header) (use n sz in auto)
  have PP: "placed s' y" if "y \<in> free_blocks F \<union> insert ?x L" for y
    using that P n f by (cases y) (fastforce)
  have AA: "apart y z" if "y \<in> free_blocks F \<union> insert ?x L" "z \<in> free_blocks F \<union> insert ?x L" "y \<noteq> z" for y z
    using that A ok apart_sym unfolding uheap_ok_def by (metis Un_insert_right insertE)
  have LL: "\<forall>b < 4. distinct (F b) \<and> linked s' (bucket s' b) (F b)"
    using ok linked_same[of F s s'] S f by (auto simp: uheap_ok_def)
  have HH: "\<forall>y \<in> L. headed s' y" using ok headed_same S unfolding uheap_ok_def by blast
  show ?thesis
    unfolding uheap_ok_def using PP AA LL HH h N room f A S ok by (auto simp: uheap_ok_def)
qed

lemma free_blocks_pop:
  assumes "F b = p # xs" "b < 4" "distinct (F b)"
  shows "free_blocks (F(b := xs)) = free_blocks F - {(p, b, bucket_size b)}" "(p, b, bucket_size b) \<in> free_blocks F"
  using assms by (auto simp: free_blocks_def set_eq_iff split: if_splits)

text \<open>A block taken from a free list.\<close>

lemma umalloc_reuse:
  assumes ok: "uheap_ok s F L" and b: "b < 4" "F b = p # xs" and sz: "sz \<le> bucket_size b"
    and s': "s' = set_header p sz b (s\<lparr>bucket := (bucket s)(b := unat (ld64 (ubytes s) (p - 8)))\<rparr>)"
  shows "uheap_ok s' (F(b := xs)) (insert (p, b, bucket_size b) L) \<and>
    (\<forall>y \<in> L. apart (p, b, bucket_size b) y \<and> same_block s s' y) \<and>
    (p, b, bucket_size b) \<notin> L \<and> ld32 (ubytes s') (p - 12) = of_nat sz"
proof -
  let ?n = "bucket_size b" let ?x = "(p, b, bucket_size b)" let ?F = "F(b := xs)"
  have dl: "\<forall>b < 4. distinct (F b) \<and> linked s (bucket s b) (F b)" using ok by (auto simp: uheap_ok_def)
  have fb: "free_blocks ?F = free_blocks F - {?x}" "?x \<in> free_blocks F" using free_blocks_pop b dl by auto
  have P: "placed s y" if "y \<in> free_blocks F \<union> L" for y using ok that by (auto simp: uheap_ok_def)
  have N: "?x \<notin> L" using ok fb by (auto simp: uheap_ok_def)
  have A: "apart ?x y" if "y \<in> free_blocks ?F \<union> L" for y using ok fb that N unfolding uheap_ok_def by (metis DiffD1 DiffD2 UnE UnI1 UnI2 singletonI)
  have S: "same_block s s' y" if "y \<in> free_blocks ?F \<union> L" for y
  proof (cases y)
    case (fields k c m)
    have "y \<in> free_blocks F \<union> L" using that fb by auto
    then show ?thesis unfolding fields
      by (intro same_block_header[of p b ?n])
         (use A[OF that] placed_ge[OF P[of "(k, c, m)"]] placed_ge[OF P[of ?x]] fb(2) fields in \<open>simp_all add: s' set_header_def\<close>)
  qed
  have f: "brk_end s' = brk_end s" "bucket s' = (bucket s)(b := unat (ld64 (ubytes s) (p - 8)))"
    by (simp_all add: s' set_header_def)
  have h: "headed s' ?x \<and> ld32 (ubytes s') (p - 12) = of_nat sz"
    unfolding s' by (rule headed_set_header) (use sz placed_ge[OF P[of ?x]] fb(2) b in auto)
  have PP: "placed s' y" if "y \<in> free_blocks ?F \<union> insert ?x L" for y
    using that P fb f by (cases y) fastforce
  have AA: "apart y z" if "y \<in> free_blocks ?F \<union> insert ?x L" "z \<in> free_blocks ?F \<union> insert ?x L" "y \<noteq> z" for y z
    using that fb ok unfolding uheap_ok_def by blast
  have LL: "distinct (?F c) \<and> linked s' (bucket s' c) (?F c)" if "c < 4" for c
  proof -
    have "linked s (bucket s' c) (?F c)" using dl that b f by (cases "c = b") auto
    moreover have "linked s' (bucket s' c) (?F c) = linked s (bucket s' c) (?F c)"
      by (rule linked_same) (use S that in blast)+
    ultimately show ?thesis using dl that b by (cases "c = b") auto
  qed
  have HH: "\<forall>y \<in> L. headed s' y" using ok headed_same S unfolding uheap_ok_def by blast
  have DD: "free_blocks ?F \<inter> insert ?x L = {}" using ok fb by (auto simp: uheap_ok_def)
  show ?thesis
    unfolding uheap_ok_def using PP AA LL HH DD h N f A S ok by (auto simp: uheap_ok_def simp del: fun_upd_apply)
qed

lemma bucket_of_fits: "sz \<le> 4096 \<Longrightarrow> sz \<le> bucket_size (bucket_of sz)" "bucket_of sz < 4" "bucket_size b \<le> 4096"
  by (simp_all add: bucket_of_def bucket_size_def)

lemma uheap_placed: "uheap_ok s F L \<Longrightarrow> x \<in> free_blocks F \<union> L \<Longrightarrow> placed s x"
  unfolding uheap_ok_def by blast

lemma uheap_apart: "uheap_ok s F L \<Longrightarrow> x \<in> L \<Longrightarrow> y \<in> free_blocks F \<union> L \<Longrightarrow> x \<noteq> y \<Longrightarrow> apart x y"
  unfolding uheap_ok_def by simp

lemma bucket_null: "\<lbrakk>uheap_ok s F L; b < 4\<rbrakk> \<Longrightarrow> bucket s b = 0 \<longleftrightarrow> F b = []"
proof -
  assume ok: "uheap_ok s F L" and b: "b < 4"
  then have l: "linked s (bucket s b) (F b)" by (simp add: uheap_ok_def)
  have "x \<noteq> 0" if "x \<in> set (F b)" for x
  proof -
    have "(x, b, bucket_size b) \<in> free_blocks F" using that b by (auto simp: free_blocks_def)
    then show ?thesis using uheap_placed[OF ok, of "(x, b, bucket_size b)"] by simp
  qed
  then show ?thesis using l by (cases "F b") auto
qed

lemma umalloc_cases:
  assumes ok: "uheap_ok s F L" and room: "brk_end s + max sz 4096 + 16 < 2 ^ 64"
  obtains (fresh) b n where "b < 4 \<and> n = bucket_size b \<or> b = 4 \<and> 4096 < n" "sz \<le> n" "n \<le> max sz 4096"
      "umalloc sz s = (brk_end s + 16, set_header (brk_end s + 16) sz b (s\<lparr>brk_end := brk_end s + n + 16\<rparr>))"
      "\<forall>p xs. F (bucket_of sz) \<noteq> p # xs \<or> 4096 < sz"
    | (reuse) p xs where "sz \<le> 4096" "F (bucket_of sz) = p # xs"
      "umalloc sz s = (p, set_header p sz (bucket_of sz)
         (s\<lparr>bucket := (bucket s)(bucket_of sz := unat (ld64 (ubytes s) (p - 8)))\<rparr>))"
proof (cases "4096 < sz")
  case True
  show ?thesis using True room by (intro fresh[of 4 sz]) (simp_all add: umalloc_def sbrk_def Let_def add.assoc)
next
  case small: False
  let ?b = "bucket_of sz"
  show ?thesis
  proof (cases "F ?b")
    case Nil
    have "bucket s ?b = 0" using bucket_null[OF ok] bucket_of_fits Nil by blast
    moreover have "(brk_end s + (bucket_size ?b + 16)) mod 2 ^ 64 = brk_end s + 16 + bucket_size ?b"
      using room bucket_of_fits(3)[of ?b] by simp
    ultimately show ?thesis using small Nil bucket_of_fits(1,2)[of sz] bucket_of_fits(3)
      by (intro fresh[of ?b "bucket_size ?b"]) (simp_all add: umalloc_def sbrk_def Let_def add_ac)
  next
    case (Cons p xs)
    have "bucket s ?b \<noteq> 0" using bucket_null[OF ok] bucket_of_fits Cons by (metis list.distinct(1))
    moreover have "bucket s ?b = p" using ok bucket_of_fits(2)[of sz] Cons by (auto simp: uheap_ok_def)
    ultimately show ?thesis using small Cons by (intro reuse[of p xs]) (simp_all add: umalloc_def Let_def)
  qed
qed

definition data_kept :: "umem \<Rightarrow> umem \<Rightarrow> ublock \<Rightarrow> bool" where
  "data_kept s s' x = (case x of (k, b, n) \<Rightarrow> \<forall>i < n. ubytes s' (k + i) = ubytes s (k + i))"

lemma umalloc_ok:
  assumes ok: "uheap_ok s F L" and room: "brk_end s + max sz 4096 + 16 < 2 ^ 64" and m: "umalloc sz s = (p, s')"
  shows "\<exists>b n F'. sz \<le> n \<and> (p, b, n) \<notin> L \<and> uheap_ok s' F' (insert (p, b, n) L) \<and>
    (\<forall>y \<in> L. apart (p, b, n) y \<and> same_block s s' y) \<and> ld32 (ubytes s') (p - 12) = of_nat sz"
  using ok room
proof (cases rule: umalloc_cases[where sz = sz])
  case (fresh b n)
  have "brk_end s + n + 16 < 2 ^ 64" using fresh(3) room by simp
  from umalloc_fresh[OF ok fresh(1,2) this refl] fresh(2,4) m show ?thesis by (intro exI[of _ b] exI[of _ n] exI[of _ F]) auto
next
  case (reuse q xs)
  from umalloc_reuse[OF ok bucket_of_fits(2) reuse(2) bucket_of_fits(1)[OF reuse(1)] refl] reuse(1,3) m bucket_of_fits(1)[OF reuse(1)]
  show ?thesis by (intro exI[of _ "bucket_of sz"] exI[of _ "bucket_size (bucket_of sz)"]) fastforce
qed

text \<open>C17. \<open>malloc\<close> of the C library: with room under the break, a call returns a block that holds the
  requested size, meets no block in use (headers included), and is recorded with its size; the heap
  stays well formed with the new block in use, and no byte of a block in use changes.
\<close>
theorem umalloc_sound:
  assumes "uheap_ok s F L" "brk_end s + max sz 4096 + 16 < 2 ^ 64" "umalloc sz s = (p, s')"
  shows "\<exists>b n F'. sz \<le> n \<and> (p, b, n) \<notin> L \<and> uheap_ok s' F' (insert (p, b, n) L) \<and>
    (\<forall>y \<in> L. apart (p, b, n) y \<and> data_kept s s' y) \<and> ld32 (ubytes s') (p - 12) = of_nat sz"
proof -
  have "same_block s s' y \<Longrightarrow> data_kept s s' y" for y by (cases y) (simp add: same_block_def data_kept_def)
  then show ?thesis using umalloc_ok[OF assms] by meson
qed

definition start_umem :: umem where
  "start_umem = init_umalloc \<lparr>ubytes = (\<lambda>_. 0), brk_end = 0x2000, bucket = (\<lambda>_. 1)\<rparr>"

lemma start_umem_ok: "uheap_ok start_umem (\<lambda>_. []) {}"
  by (simp add: uheap_ok_def start_umem_def init_umalloc_def free_blocks_def)

lemma umalloc_sound_witness:
  "\<exists>p s' b n F'. umalloc 100 start_umem = (p, s') \<and> 100 \<le> n \<and> uheap_ok s' F' {(p, b, n)} \<and> ld32 (ubytes s') (p - 12) = 100"
proof -
  obtain p s' where m: "umalloc 100 start_umem = (p, s')" by (metis surj_pair)
  from umalloc_sound[OF start_umem_ok _ m] m show ?thesis by (fastforce simp: start_umem_def init_umalloc_def)
qed

lemma ufree_ok:
  assumes ok: "uheap_ok s F L" and x: "(p, b, n) \<in> L" "b < 4"
  shows "uheap_ok (ufree p s) (F(b := p # F b)) (L - {(p, b, n)}) \<and> bucket (ufree p s) b = p \<and>
    (\<forall>y \<in> L - {(p, b, n)}. same_block s (ufree p s) y)"
proof -
  let ?x = "(p, b, n)" let ?F = "F(b := p # F b)" let ?s = "ufree p s"
  have P: "placed s y" if "y \<in> free_blocks F \<union> L" for y using ok that by (auto simp: uheap_ok_def)
  have n: "n = bucket_size b" using P[of ?x] x by simp
  have px: "16 \<le> p" "8 \<le> n" using placed_ge[OF P[of ?x]] x by auto
  have dl: "\<forall>b < 4. distinct (F b) \<and> linked s (bucket s b) (F b)" using ok by (auto simp: uheap_ok_def)
  have "unat (of_nat b :: u32) = b" using x(2) by (subst unat_of_nat_small(3)) simp_all
  then have "unat (ld32 (ubytes s) (p - 16)) = b" using ok x(1) by (fastforce simp: uheap_ok_def)
  then have s: "?s = s\<lparr>ubytes := st64 (p - 8) (of_nat (bucket s b)) (ubytes s), bucket := (bucket s)(b := p)\<rparr>"
    using x(2) by (simp add: ufree_def)
  have N: "?x \<notin> free_blocks F" using ok x(1) by (auto simp: uheap_ok_def)
  have pn: "p \<notin> set (F b)" using N n x(2) by (auto simp: free_blocks_def)
  have fb: "free_blocks ?F = insert ?x (free_blocks F)"
    using x(2) by (auto simp: free_blocks_def n split: if_splits)
  have U: "free_blocks ?F \<union> (L - {?x}) = free_blocks F \<union> L" using fb x(1) by auto
  have S: "same_block s ?s y" if "y \<in> free_blocks F \<union> L" "y \<noteq> ?x" for y
  proof (cases y)
    case (fields k c m)
    have "apart ?x y" using that(2) by (intro uheap_apart[OF ok x(1) that(1)]) simp
    then show ?thesis unfolding fields
      by (intro same_block_link[of p b n])
         (use that placed_ge[OF P[of "(k, c, m)"]] px fields in \<open>simp_all add: s\<close>)
  qed
  have small: "bucket s b < 2 ^ 64"
  proof (cases "F b")
    case Nil
    then show ?thesis using dl x(2) by auto
  next
    case (Cons q qs)
    then have "(q, b, bucket_size b) \<in> free_blocks F" using x(2) by (auto simp: free_blocks_def)
    then have "q \<le> brk_end s" using P by fastforce
    moreover have "bucket s b = q" using dl x(2) Cons by auto
    moreover have "brk_end s < 2 ^ 64" using ok by (simp add: uheap_ok_def)
    ultimately show ?thesis by simp
  qed
  have LL: "distinct (?F c) \<and> linked ?s (bucket ?s c) (?F c)" if "c < 4" for c
  proof -
    have "linked ?s (bucket s c) (F c) = linked s (bucket s c) (F c)"
      by (rule linked_same) (use S N that in blast)+
    then have l: "linked ?s (bucket s c) (F c)" using dl that by simp
    show ?thesis
    proof (cases "c = b")
      case True
      have "unat (ld64 (ubytes ?s) (p - 8)) = bucket s b" using small by (simp add: s unat_of_nat)
      then show ?thesis using l True dl x(2) pn by (simp add: s)
    next
      case False
      then show ?thesis using l dl that by (simp add: s)
    qed
  qed
  have HH: "\<forall>y \<in> L - {?x}. headed ?s y" using ok S headed_same unfolding uheap_ok_def by blast
  have be: "brk_end ?s = brk_end s" by (simp add: s)
  have PP: "\<forall>y \<in> free_blocks F \<union> L. placed ?s y" using P be by fastforce
  have "uheap_ok ?s ?F (L - {?x})"
    unfolding uheap_ok_def U using PP LL HH ok be fb N by (auto simp: uheap_ok_def)
  then show ?thesis using S by (simp add: s)
qed

text \<open>\<open>free\<close> of the C library: releasing a block in use keeps the heap well formed with that block
  at the front of its bucket and the bytes of the other blocks as they were, and the next \<open>malloc\<close> of
  a size of that bucket returns the same address again, without moving the break.
\<close>
theorem ufree_sound:
  assumes "uheap_ok s F L" "(p, b, n) \<in> L" "b < 4"
  shows "uheap_ok (ufree p s) (F(b := p # F b)) (L - {(p, b, n)}) \<and> (\<forall>y \<in> L - {(p, b, n)}. data_kept s (ufree p s) y) \<and>
    (\<forall>sz. sz \<le> 4096 \<longrightarrow> bucket_of sz = b \<longrightarrow> (\<exists>s'. umalloc sz (ufree p s) = (p, s') \<and> brk_end s' = brk_end s))"
proof -
  note f = ufree_ok[OF assms]
  have "same_block s s' y \<Longrightarrow> data_kept s s' y" for s' y by (cases y) (simp add: same_block_def data_kept_def)
  moreover have p: "p \<noteq> 0" using uheap_placed[OF assms(1), of "(p, b, n)"] assms(2) by auto
  moreover have "brk_end (ufree p s) = brk_end s" by (simp add: ufree_def Let_def)
  then have "umalloc sz (ufree p s) = (p, s') \<Longrightarrow> sz \<le> 4096 \<Longrightarrow> bucket_of sz = b \<Longrightarrow> brk_end s' = brk_end s" for sz s'
    using f p by (auto simp: umalloc_def Let_def set_header_def)
  moreover have "\<exists>s'. umalloc sz (ufree p s) = (p, s')" if "sz \<le> 4096" "bucket_of sz = b" for sz
    using that f p by (simp add: umalloc_def Let_def)
  ultimately show ?thesis using f by blast
qed

lemma umalloc_loc:
  assumes "uheap_ok s F L" "brk_end s + max sz 4096 + 16 < 2 ^ 64" "F (bucket_of sz) = []"
  shows "fst (umalloc sz s) = brk_end s + 16"
  using assms(1,2) by (cases rule: umalloc_cases[where sz = sz]) (use assms(3) in auto)

definition one_block :: umem where
  "one_block = set_header (brk_end start_umem + 16) 2 0 (start_umem\<lparr>brk_end := brk_end start_umem + 8 + 16\<rparr>)"

lemma one_block_ok:
  "uheap_ok one_block (\<lambda>_. []) {(0x2010, 0, 8)}" "ld32 (ubytes one_block) 0x2004 = 2" "brk_end one_block = 0x2018"
proof -
  have f: "brk_end start_umem + 16 = 0x2010" "brk_end start_umem + 16 - 12 = 0x2004" "brk_end start_umem = 0x2000"
    by (simp_all add: start_umem_def init_umalloc_def)
  from umalloc_fresh[OF start_umem_ok _ _ _ one_block_def, unfolded f]
  show "uheap_ok one_block (\<lambda>_. []) {(0x2010, 0, 8)}" "ld32 (ubytes one_block) 0x2004 = 2"
    by (simp_all add: bucket_size_def)
  show "brk_end one_block = 0x2018" by (simp add: one_block_def set_header_def f)
qed

lemma ufree_sound_witness:
  "uheap_ok (ufree 0x2010 one_block) ((\<lambda>_. [])(0 := [0x2010])) {} \<and>
   (\<exists>s'. umalloc 5 (ufree 0x2010 one_block) = (0x2010, s') \<and> brk_end s' = 0x2018)"
proof -
  have "bucket_of 5 = 0" by (simp add: bucket_of_def)
  then show ?thesis using ufree_sound[OF one_block_ok(1) insertI1] one_block_ok(3) by simp
qed

subsection \<open>Using and resizing a block\<close>

lemma user_write:
  assumes ok: "uheap_ok s F L" and x: "(p, b, n) \<in> L" and n: "length bs \<le> n"
    and s': "s' = s\<lparr>ubytes := stb p bs (ubytes s)\<rparr>"
  shows "uheap_ok s' F L \<and> (\<forall>y \<in> L - {(p, b, n)}. same_block s s' y) \<and>
    ld32 (ubytes s') (p - 12) = ld32 (ubytes s) (p - 12)"
proof -
  let ?x = "(p, b, n)"
  note P = uheap_placed[OF ok]
  have px: "16 \<le> p" using P[of ?x] x by auto
  have hx: "ld32 (ubytes s') (p - 16) = ld32 (ubytes s) (p - 16)" "ld32 (ubytes s') (p - 12) = ld32 (ubytes s) (p - 12)"
    using px by (simp_all add: s' ld32_def ldb_stb_other)
  have S: "same_block s s' y" if "y \<in> free_blocks F \<union> L" "y \<noteq> ?x" for y
  proof (cases y)
    case (fields k c m)
    have a: "apart ?x y" using that(2) by (intro uheap_apart[OF ok x that(1)]) simp
    have m: "8 \<le> m \<and> 16 \<le> k" using placed_ge[of s k c m] P[OF that(1)] fields by simp
    then obtain k' where k': "k = k' + 16" by (metis le_add_diff_inverse2)
    have "p + n \<le> k' \<or> k' + 16 + m \<le> p - 16" using a by (auto simp: fields k')
    then have "p + length bs \<le> k' \<or> k' + 16 + m \<le> p" using n by linarith
    then show ?thesis using m by (auto simp: fields k' same_block_def s' ld32_def ld64_def ldb_stb_other stb_outside)
  qed
  have N: "?x \<notin> free_blocks F" using ok x by (auto simp: uheap_ok_def)
  have f: "brk_end s' = brk_end s" "bucket s' = bucket s" by (simp_all add: s')
  have PP: "\<forall>y \<in> free_blocks F \<union> L. placed s' y" using P f by fastforce
  have LL: "\<forall>b < 4. distinct (F b) \<and> linked s' (bucket s' b) (F b)"
  proof (intro allI impI)
    fix c assume c: "c < (4::nat)"
    have "linked s' (bucket s c) (F c) = linked s (bucket s c) (F c)" by (rule linked_same) (use S N c in blast)+
    then show "distinct (F c) \<and> linked s' (bucket s' c) (F c)" using ok c f by (simp add: uheap_ok_def)
  qed
  have HH: "headed s' y" if "y \<in> L" for y
  proof (cases "y = ?x")
    case True
    have "headed s ?x" using ok x unfolding uheap_ok_def by blast
    then show ?thesis using hx True by simp
  next
    case False
    have "headed s y" using ok that unfolding uheap_ok_def by blast
    moreover have "same_block s s' y" using S that False by blast
    ultimately show ?thesis by (simp only: headed_same)
  qed
  have "uheap_ok s' F L" using ok PP LL HH f unfolding uheap_ok_def by simp
  then show ?thesis using S hx by blast
qed

text \<open>\<open>realloc\<close> to a larger size keeps the contents: the new block holds the bytes that were asked
  for when the old one was allocated, the old block is back in its bucket, the heap is well formed
  and the bytes of every other block are unchanged.
\<close>
theorem urealloc_grow:
  assumes ok: "uheap_ok s F L" and x: "(a, b, n) \<in> L" and b: "b < 4"
    and room: "brk_end s + max sz 4096 + 16 < 2 ^ 64" and old: "old = unat (ld32 (ubytes s) (a - 12))" "old \<le> sz"
    and r: "urealloc a sz s = (p, s')"
  shows "\<exists>c m F'. sz \<le> m \<and> uheap_ok s' F' (insert (p, c, m) (L - {(a, b, n)})) \<and> a \<in> set (F' b) \<and>
    (\<forall>i < old. ubytes s' (p + i) = ubytes s (a + i)) \<and> (\<forall>y \<in> L - {(a, b, n)}. data_kept s s' y)"
proof -
  obtain s1 where m1: "umalloc sz s = (p, s1)" using r by (auto simp: urealloc_def Let_def split: prod.splits)
  from umalloc_ok[OF ok room m1] obtain c m F1 where
    M: "sz \<le> m" "(p, c, m) \<notin> L" "uheap_ok s1 F1 (insert (p, c, m) L)"
      "\<forall>y \<in> L. apart (p, c, m) y \<and> same_block s s1 y" by metis
  have sa: "same_block s s1 (a, b, n)" using M(4) x by blast
  then have o1: "unat (ld32 (ubytes s1) (a - 12)) = old" using old by (simp add: same_block_def)
  let ?bs = "ldb (ubytes s1) a old"
  define s2 where "s2 = s1\<lparr>ubytes := stb p ?bs (ubytes s1)\<rparr>"
  have s'2: "s' = ufree a s2" using r m1 o1 by (simp add: urealloc_def umemcpy_def s2_def)
  have L: "length ?bs \<le> m" using old(2) M(1) by simp
  note W = user_write[OF M(3) insertI1 L s2_def]
  have xa: "(a, b, n) \<in> insert (p, c, m) L" using x by simp
  note Fr = ufree_ok[OF conjunct1[OF W] xa b]
  have ne: "(p, c, m) \<noteq> (a, b, n)" using x M(2) by auto
  have L': "insert (p, c, m) L - {(a, b, n)} = insert (p, c, m) (L - {(a, b, n)})" using ne by auto
  have "headed s (a, b, n)" using ok x unfolding uheap_ok_def by blast
  then have on: "old \<le> n" using old by simp
  have s's2: "same_block s2 s' (p, c, m)" using Fr ne s'2 by simp
  have d: "ubytes s' (p + i) = ubytes s (a + i)" if "i < old" for i
  proof -
    have "ubytes s' (p + i) = ubytes s2 (p + i)" using s's2 that old(2) M(1) by (simp add: same_block_def)
    also have "\<dots> = ubytes s1 (a + i)" using that by (simp add: s2_def stb_ldb_inside)
    also have "\<dots> = ubytes s (a + i)" using sa that on by (simp add: same_block_def)
    finally show ?thesis .
  qed
  have k: "data_kept s s' y" if "y \<in> L - {(a, b, n)}" for y
  proof -
    have "same_block s s1 y" using M(4) that by blast
    moreover have "same_block s1 s2 y" using W that M(2) by blast
    moreover have "same_block s2 s' y" using Fr s'2 that by blast
    ultimately show ?thesis by (cases y) (simp add: same_block_def data_kept_def)
  qed
  show ?thesis
  proof (intro exI conjI)
    show "uheap_ok s' (F1(b := a # F1 b)) (insert (p, c, m) (L - {(a, b, n)}))" using Fr s'2 L' by simp
  qed (use M(1) d k in auto)
qed

lemma urealloc_grow_witness:
  "\<exists>p s' c m F'. urealloc 0x2010 3 one_block = (p, s') \<and> 3 \<le> m \<and> uheap_ok s' F' {(p, c, m)} \<and> 0x2010 \<in> set (F' 0) \<and>
     (\<forall>i < 2. ubytes s' (p + i) = ubytes one_block (0x2010 + i))"
proof -
  obtain p s' where r: "urealloc 0x2010 3 one_block = (p, s')" by (metis surj_pair)
  have "\<exists>c m F'. 3 \<le> m \<and> uheap_ok s' F' (insert (p, c, m) ({(0x2010, 0, 8)} - {(0x2010, 0, 8)})) \<and> 0x2010 \<in> set (F' 0) \<and>
      (\<forall>i < 2. ubytes s' (p + i) = ubytes one_block (0x2010 + i)) \<and> (\<forall>y \<in> {(0x2010, 0, 8)} - {(0x2010, 0, 8)}. data_kept one_block s' y)"
    by (rule urealloc_grow[OF one_block_ok(1) _ _ _ _ _ r]) (simp_all add: one_block_ok)
  then show ?thesis using r by auto
qed

subsection \<open>echo\<close>

text \<open>
  \<open>echo\<close> measures its arguments, allocates one byte more than their lengths plus a space each, and
  fills the buffer. \<open>echo_fill s m ws\<close> is the second loop from offset \<open>m\<close> on, followed by the line
  feed and the terminator.
\<close>

definition echo_size :: "u8 list list \<Rightarrow> nat" where
  "echo_size ws = sum_list (map (\<lambda>w. length w + 1) ws)"

fun echo_fill :: "nat \<Rightarrow> nat \<Rightarrow> u8 list list \<Rightarrow> (nat \<Rightarrow> u8) \<Rightarrow> nat \<Rightarrow> u8" where
  "echo_fill s m [] mm = stb (s + m + 1) [0] (stb (s + m) [0x0a] mm)"
| "echo_fill s m (w # ws) mm = echo_fill s (m + length w + 1) ws (stb (s + m + length w) [SPACE] (stb (s + m) w mm))"

definition echo :: "u8 list list \<Rightarrow> umem \<Rightarrow> nat \<times> umem" where
  "echo ws st =
     (let (s, st) = umalloc (echo_size ws + 1) st
      in (s, st\<lparr>ubytes := echo_fill s 0 ws (ubytes st)\<rparr>))"

lemma echo_fill_stb:
  "echo_fill s m ws mm = stb (s + m) (concat (map (\<lambda>w. w @ [SPACE]) ws) @ [0x0a, 0]) mm"
proof (induction ws arbitrary: m mm)
  case Nil
  show ?case using stb_append[of "s + m" "[0x0a]" "[0]" mm] by simp
next
  case (Cons w ws)
  have "stb (s + m + length w) [SPACE] (stb (s + m) w mm) = stb (s + m) (w @ [SPACE]) mm" by (rule stb_append)
  then show ?case
    using Cons.IH[of "m + length w + 1"] stb_append[of "s + m" "w @ [SPACE]" "concat (map (\<lambda>w. w @ [SPACE]) ws) @ [0x0a, 0]" mm]
    by (simp add: add.assoc)
qed

lemma length_echo: "length (concat (map (\<lambda>w. w @ [SPACE]) ws)) = echo_size ws"
  by (induction ws) (simp_all add: echo_size_def)

text \<open>\<open>echo\<close> writes its arguments, each followed by a space, a line feed and the terminator into its
  buffer, whatever they are; that is \<open>echo_size + 2\<close> bytes, one more than it allocated: the
  terminator lands one byte behind the size it asked for.
\<close>
theorem echo_text:
  "\<exists>s st0. umalloc (echo_size ws + 1) st = (s, st0) \<and> fst (echo ws st) = s \<and>
     ldb (ubytes (snd (echo ws st))) s (echo_size ws + 2) = concat (map (\<lambda>w. w @ [SPACE]) ws) @ [0x0a, 0] \<and>
     ubytes (snd (echo ws st)) (s + (echo_size ws + 1)) = 0 \<and>
     (\<forall>a. a \<notin> {s..<s + (echo_size ws + 2)} \<longrightarrow> ubytes (snd (echo ws st)) a = ubytes st0 a)"
proof -
  obtain s st0 where m: "umalloc (echo_size ws + 1) st = (s, st0)" by (metis surj_pair)
  let ?t = "concat (map (\<lambda>w. w @ [SPACE]) ws) @ [0x0a, 0]"
  have l: "length ?t = echo_size ws + 2" using length_echo by simp
  have e: "echo ws st = (s, st0\<lparr>ubytes := stb s ?t (ubytes st0)\<rparr>)"
    using m echo_fill_stb[of s 0 ws] by (simp add: echo_def)
  have z: "stb s ?t (ubytes st0) (s + (echo_size ws + 1)) = ?t ! (echo_size ws + 1)" by (rule stb_ldb_inside) (simp only: l)
  have n: "?t ! (echo_size ws + 1) = 0" using length_echo[of ws] by (simp add: nth_append)
  show ?thesis
    using m e z n l by (intro exI[of _ s] exI[of _ st0]) (auto simp: ldb_stb_same stb_outside)
qed

text \<open>A hypothesis of the statement is the quantifier's: a byte before the buffer keeps its value.\<close>
lemma echo_text_witness:
  "\<exists>s st0. umalloc 3 start_umem = (s, st0) \<and> ldb (ubytes (snd (echo [[0x41]] start_umem))) s 4 = [0x41, SPACE, 0x0a, 0] \<and>
     ubytes (snd (echo [[0x41]] start_umem)) (s + 4) = ubytes st0 (s + 4)"
  using echo_text[of "[[0x41]]" start_umem] by (fastforce simp: echo_size_def eval_nat_numeral)

subsection \<open>The command line of sh\<close>

text \<open>
  \<open>sh\<close> ends the line at the line feed, then looks for the first space from the start of the buffer
  and ends the command there; the argument is what follows the space. Both searches know no end: a
  search that leaves the buffer is \<open>None\<close>.
\<close>

fun index_of :: "u8 \<Rightarrow> u8 list \<Rightarrow> nat option" where
  "index_of c [] = None"
| "index_of c (x # xs) = (if x = c then Some 0 else map_option Suc (index_of c xs))"

definition cstr :: "u8 list \<Rightarrow> u8 list" where
  "cstr b = takeWhile (\<lambda>c. c \<noteq> 0) b"

definition sh_parse :: "u8 list \<Rightarrow> (u8 list \<times> u8 list) option" where
  "sh_parse buf =
     (case index_of 0x0a buf of None \<Rightarrow> None
      | Some i \<Rightarrow>
          let buf = buf[i := 0] in
          (case index_of SPACE buf of None \<Rightarrow> None
           | Some i \<Rightarrow>
               let buf = buf[i := 0] in Some (cstr buf, cstr (drop (i + 1) buf))))"

lemma index_of_append: "c \<notin> set xs \<Longrightarrow> index_of c (xs @ c # ys) = Some (length xs)"
  by (induction xs) auto

lemma cstr_append: "0 \<notin> set xs \<Longrightarrow> cstr (xs @ 0 # ys) = xs"
  unfolding cstr_def by (induction xs) auto

text \<open>The shell separates the command from its argument at the first space, whatever an earlier line
  left in the buffer; but a line without a space is not a command without an argument: the search
  goes on behind the end of the line, and only the rest of an earlier line decides what is found.
\<close>
theorem sh_parse_line:
  assumes "set cmd \<inter> {0, SPACE, 0x0a} = {}" "set arg \<inter> {0, 0x0a} = {}"
  shows "sh_parse (cmd @ SPACE # arg @ 0x0a # rest) = Some (cmd, arg) \<and>
    (SPACE \<notin> set rest \<longrightarrow> sh_parse (cmd @ 0x0a # rest) = None) \<and>
    (\<forall>old arg'. SPACE \<notin> set old \<longrightarrow> rest = old @ SPACE # arg' \<longrightarrow> sh_parse (cmd @ 0x0a # rest) = Some (cmd, cstr arg'))"
proof -
  have n: "SPACE \<noteq> 0x0a" "SPACE \<noteq> 0" by (simp_all add: SPACE_def)
  have c: "0 \<notin> set cmd" "SPACE \<notin> set cmd" "0x0a \<notin> set cmd" and a: "0 \<notin> set arg" "0x0a \<notin> set arg" using assms by auto
  have "index_of 0x0a ((cmd @ SPACE # arg) @ 0x0a # rest) = Some (length (cmd @ SPACE # arg))"
    by (rule index_of_append) (use n c a in auto)
  moreover have "((cmd @ SPACE # arg) @ 0x0a # rest)[length (cmd @ SPACE # arg) := 0] = (cmd @ SPACE # arg) @ 0 # rest"
    by (simp only: list_update_length)
  moreover have "index_of SPACE (cmd @ SPACE # arg @ 0 # rest) = Some (length cmd)" by (rule index_of_append) (rule c)
  ultimately have 1: "sh_parse (cmd @ SPACE # arg @ 0x0a # rest) = Some (cmd, arg)"
    by (simp add: sh_parse_def cstr_append c a)
  have b: "index_of 0x0a (cmd @ 0x0a # rest) = Some (length cmd)" by (rule index_of_append) (rule c)
  have none: "index_of x xs = None \<longleftrightarrow> x \<notin> set xs" for x xs by (induction xs) auto
  have 2: "sh_parse (cmd @ 0x0a # rest) = None" if "SPACE \<notin> set rest"
  proof -
    have "index_of SPACE (cmd @ 0 # rest) = None" using that n c by (simp add: none)
    then show ?thesis by (simp add: sh_parse_def b)
  qed
  have 3: "sh_parse (cmd @ 0x0a # rest) = Some (cmd, cstr arg')" if "SPACE \<notin> set old" "rest = old @ SPACE # arg'" for old arg'
  proof -
    have "index_of SPACE ((cmd @ 0 # old) @ SPACE # arg') = Some (length (cmd @ 0 # old))"
      by (rule index_of_append) (use that c n in auto)
    moreover have "((cmd @ 0 # old) @ SPACE # arg')[length (cmd @ 0 # old) := 0] = (cmd @ 0 # old) @ 0 # arg'"
      by (simp only: list_update_length)
    ultimately show ?thesis using b that by (simp add: sh_parse_def cstr_append c)
  qed
  show ?thesis using 1 2 3 by blast
qed

text \<open>The line \<open>ls -l\<close> in a buffer, and \<open>ls\<close> over the remains of \<open>foo x\<close>.\<close>
lemma sh_parse_line_witness:
  "sh_parse [0x6c, 0x73, SPACE, 0x2d, 0x6c, 0x0a, 0] = Some ([0x6c, 0x73], [0x2d, 0x6c]) \<and>
   sh_parse [0x6c, 0x73, 0x0a, SPACE, 0x78, 0] = Some ([0x6c, 0x73], [0x78])"
  using sh_parse_line[of "[0x6c, 0x73]" "[0x2d, 0x6c]" "[0]"] sh_parse_line[of "[0x6c, 0x73]" "[]" "[SPACE, 0x78, 0]"]
  by (force simp: SPACE_def cstr_def)

end
