(* ===== verification/CString.thy ===== *)
theory CString
  imports Bytes
begin

section \<open>C strings (string.c)\<close>

text \<open>
  A pointer to a string is the list of the bytes from it to the end of the object it points into.
  A function that runs over the end of that list without meeting a terminator has left the object:
  its result is then \<open>None\<close>. Characters are signed, as the compiler has them.
\<close>

fun strcmp :: "u8 list \<Rightarrow> u8 list \<Rightarrow> int option" where
  "strcmp (a # as) (b # bs) =
     (if a \<noteq> 0 \<and> b \<noteq> 0
      then if sint a - sint b \<noteq> 0 then Some (sint a - sint b) else strcmp as bs
      else Some (sint a - sint b))"
| "strcmp as bs = None"

fun strlen :: "u8 list \<Rightarrow> nat option" where
  "strlen [] = None"
| "strlen (a # as) = (if a = 0 then Some 0 else map_option Suc (strlen as))"

text \<open>\<open>strcpy\<close> stops before the terminator: the byte behind the copy keeps its old value.\<close>

fun strcpy :: "u8 list \<Rightarrow> u8 list \<Rightarrow> u8 list option" where
  "strcpy to [] = None"
| "strcpy to (f # from) =
     (if f = 0 then Some to
      else case to of [] \<Rightarrow> None | _ # to' \<Rightarrow> map_option (Cons f) (strcpy to' from))"

definition cstring :: "u8 list \<Rightarrow> bool" where
  "cstring w \<longleftrightarrow> 0 \<notin> set w"

lemma cstring_simps [simp]: "cstring []" "cstring (a # w) \<longleftrightarrow> a \<noteq> 0 \<and> cstring w"
  by (auto simp: cstring_def)

lemma strlen_cstring: "cstring w \<Longrightarrow> strlen (w @ 0 # r) = Some (length w)"
  by (induction w) auto

lemma strcmp_cstring: "cstring v \<Longrightarrow> cstring w \<Longrightarrow> \<exists>d. strcmp (v @ 0 # r) (w @ 0 # q) = Some d \<and> (d = 0 \<longleftrightarrow> v = w)"
proof (induction v arbitrary: w)
  case Nil
  then show ?case by (cases w) (auto simp: signed_word_eqI)
next
  case (Cons a v)
  show ?case
  proof (cases w)
    case Nil
    with Cons.prems show ?thesis by (auto simp: signed_word_eqI)
  next
    case (Cons b w')
    with Cons.prems Cons.IH[of w'] show ?thesis by (auto simp: signed_word_eqI)
  qed
qed

lemma strcpy_cstring:
  "cstring w \<Longrightarrow> length w \<le> length to \<Longrightarrow> strcpy to (w @ 0 # r) = Some (w @ drop (length w) to)"
proof (induction w arbitrary: to)
  case (Cons a w)
  then show ?case by (cases to) auto
qed simp

text \<open>The string functions on well-formed strings: \<open>strlen\<close> is the length, \<open>strcmp\<close> is zero exactly
  for equal strings, and \<open>strcpy\<close> copies the characters but not the terminator, so that the copy is
  a string of that length only if the destination already had a zero there.
\<close>
theorem string_functions:
  assumes "cstring v" "cstring w"
  shows "strlen (v @ 0 # r) = Some (length v) \<and>
    (\<exists>d. strcmp (v @ 0 # r) (w @ 0 # q) = Some d \<and> (d = 0 \<longleftrightarrow> v = w)) \<and>
    (\<forall>c to. strcpy (replicate (length v) 0 @ c # to) (v @ 0 # r) = Some (v @ c # to))"
  using assms by (simp add: strlen_cstring strcmp_cstring strcpy_cstring)

lemma string_functions_witness:
  "strlen [0x61, 0x62, 0] = Some 2 \<and> (\<exists>d. strcmp [0x61, 0x62, 0] [0x61, 0x63, 0] = Some d \<and> d \<noteq> 0) \<and>
   strcpy [0, 0, 7] [0x61, 0x62, 0] = Some [0x61, 0x62, 7]"
proof -
  have c: "cstring [0x61, 0x62]" "cstring [0x61, 0x63]" by simp_all
  from string_functions[OF c, of "[]" "[]"] show ?thesis by (force simp: eval_nat_numeral)
qed

end
