(* ===== verification/Qfs.thy ===== *)
theory Qfs
  imports Chs Proc CString
begin

section \<open>The file system on the floppy disk (qfs.c, chs_qfs_if.c)\<close>

text \<open>
  The medium maps the cylinder, head and sector number of a transfer to 512 bytes; the driver of
  \<open>Chs\<close> sends exactly those numbers. A sector is addressed with \<open>lba_2_chs\<close>, and \<open>floppy_read\<close> and
  \<open>floppy_write\<close> are reduced to the checks of their arguments and the transfer. On top of them are the
  sector functions \<open>read\<close> and \<open>write\<close>, the byte functions \<open>readPLUS\<close> and \<open>writePLUS\<close>, the inode
  table at the start of the file system with its cache, file contents, file creation and path lookup.

  A buffer is a list of bytes; a buffer that is written to the disk also has its address, because
  \<open>floppy_write\<close> insists on page alignment. The semaphore \<open>disk0\<close> has one unit: a task that takes it
  while holding it waits for ever, which is the result \<open>None\<close>.
\<close>

record inode =
  chunkaddr1 :: u64
  chunklen :: u64
  iperms :: u16
  iowner :: u8
  igroup :: u8
  timestamp :: u64
  iname :: "u8 list"

definition encode_inode :: "inode \<Rightarrow> u8 list" where
  "encode_inode n = le_bytes 8 (chunkaddr1 n) @ le_bytes 8 (chunklen n) @ le_bytes 2 (iperms n) @
     [iowner n, igroup n] @ le_bytes 8 (timestamp n) @ iname n"

definition decode_inode :: "u8 list \<Rightarrow> inode" where
  "decode_inode b =
     \<lparr>chunkaddr1 = le_word (take 8 b), chunklen = le_word (take 8 (drop 8 b)),
      iperms = le_word (take 2 (drop 16 b)), iowner = b ! 18, igroup = b ! 19,
      timestamp = le_word (take 8 (drop 20 b)), iname = take 32 (drop 28 b)\<rparr>"

record vnode =
  va :: inode
  vid :: u64
  vdisk :: u64
  vexists :: bool

type_synonym chs = "u8 \<times> u8 \<times> u8"

record qfs =
  medium :: "chs \<Rightarrow> u8 list"
  disk0_held :: bool
  kINb :: "nat \<Rightarrow> vnode"
  kINb_sz :: nat                \<comment> \<open>pages of the cache\<close>

subsection \<open>Sectors\<close>

definition LBA_FS_BASE :: u32 where "LBA_FS_BASE = 108"

definition sector_read :: "u32 \<Rightarrow> qfs \<Rightarrow> fault + u8 list" where
  "sector_read lba s = bindE (lba_2_chs lba) (\<lambda>c. Inr (medium s c))"

definition sector_write :: "u32 \<Rightarrow> u16 \<Rightarrow> addr \<times> u8 list \<Rightarrow> qfs \<Rightarrow> fault + qfs" where
  "sector_write lba len data s =
     bindE (guard (fst data AND 0xFFF = 0) (ERROR ERR_FWDL (fst data))) (\<lambda>_.
     bindE (guard (len = 512) (ERROR ERR_FRLX (ucast len))) (\<lambda>_.
     bindE (lba_2_chs lba) (\<lambda>c. Inr (s\<lparr>medium := (medium s)(c := take 512 (snd data))\<rparr>))))"

text \<open>The loops of \<open>read\<close> and \<open>write\<close>.\<close>

fun read_loop :: "u32 \<Rightarrow> nat \<Rightarrow> qfs \<Rightarrow> fault + u8 list" where
  "read_loop lba 0 s = Inr []"
| "read_loop lba (Suc n) s =
     bindE (sector_read lba s) (\<lambda>d. bindE (read_loop (lba + 1) n s) (\<lambda>r. Inr (d @ r)))"

fun write_loop :: "u32 \<Rightarrow> u16 \<Rightarrow> nat \<Rightarrow> addr \<times> u8 list \<Rightarrow> qfs \<Rightarrow> fault + qfs" where
  "write_loop lba len 0 data s = Inr s"
| "write_loop lba len (Suc n) data s =
     bindE (sector_write lba len data s) (\<lambda>s.
       write_loop (lba + 1) len n (fst data + 512, drop 512 (snd data)) s)"

text \<open>\<open>overlay bs m\<close> is the buffer \<open>m\<close> with its first bytes replaced by \<open>bs\<close>.\<close>

definition overlay :: "'b list \<Rightarrow> 'b list \<Rightarrow> 'b list" where
  "overlay bs m = bs @ drop (length bs) m"

definition read_disk :: "u32 \<Rightarrow> u64 \<Rightarrow> u16 \<Rightarrow> u8 list \<Rightarrow> qfs \<Rightarrow> fault + u8 list" where
  "read_disk lba disk len m s =
     bindE (guard (disk = 0) (ERROR ERR_READ_DISKINV disk)) (\<lambda>_.
     bindE (guard (len AND 511 = 0) (ERROR ERR_READ_SIZE (ucast len))) (\<lambda>_.
     bindE (read_loop (LBA_FS_BASE + lba) (unat len div 512) s) (\<lambda>bs. Inr (overlay bs m))))"

definition write_disk :: "u32 \<Rightarrow> u64 \<Rightarrow> u16 \<Rightarrow> addr \<times> u8 list \<Rightarrow> qfs \<Rightarrow> fault + qfs" where
  "write_disk lba disk len data s =
     bindE (guard (disk = 0) (ERROR ERR_WRITE_DISKINV disk)) (\<lambda>_.
     bindE (guard (len AND 511 = 0) (ERROR ERR_WRITE_SIZE (ucast len))) (\<lambda>_.
       write_loop (LBA_FS_BASE + lba) len (unat len div 512) data s))"

subsection \<open>Byte ranges\<close>

definition acquire_disk0 :: "qfs \<Rightarrow> qfs run" where
  "acquire_disk0 s = (if disk0_held s then None else ret (s\<lparr>disk0_held := True\<rparr>))"

definition release_disk0 :: "qfs \<Rightarrow> qfs" where
  "release_disk0 s = s\<lparr>disk0_held := False\<rparr>"

text \<open>
  \<open>b2\<close> is the scratch buffer with its address: pages from \<open>KPALLOCS\<close>, whose old contents are not
  cleared. The length handed to \<open>read\<close> and \<open>write\<close> is cut to 16 bits.
\<close>

definition lba_of :: "u64 \<Rightarrow> u32" where
  "lba_of offset = ucast (drop_bit 9 offset)"

definition span_len :: "u64 \<Rightarrow> u64 \<Rightarrow> u16" where
  "span_len offset sz = ucast (push_bit 9 (1 + (lba_of (offset + sz) - lba_of offset)))"

definition readPLUS :: "u64 \<Rightarrow> u64 \<Rightarrow> u64 \<Rightarrow> addr \<times> u8 list \<Rightarrow> qfs \<Rightarrow> (u8 list \<times> qfs) run" where
  "readPLUS offset sz drive b2 s =
     bindR (acquire_disk0 s) (\<lambda>s.
     bindR (lift (read_disk (lba_of offset) drive (span_len offset sz) (snd b2) s)) (\<lambda>b.
       ret (take (unat sz) (drop (unat (offset AND 0x1ff)) b), release_disk0 s)))"

definition writePLUS :: "u64 \<Rightarrow> u64 \<Rightarrow> u64 \<Rightarrow> u8 list \<Rightarrow> addr \<times> u8 list \<Rightarrow> qfs \<Rightarrow> qfs run" where
  "writePLUS offset sz drive data b2 s =
     bindR (acquire_disk0 s) (\<lambda>s.
     bindR (lift (read_disk (lba_of offset) drive (span_len offset sz) (snd b2) s)) (\<lambda>b.
     let o1 = unat (offset AND 0x1ff);
         b = take o1 b @ take (unat sz) data @ drop (o1 + unat sz) b in
     bindR (lift (write_disk (lba_of offset) drive (span_len offset sz) (fst b2, b) s)) (\<lambda>s.
     bindR (lift (read_disk (lba_of offset) drive (span_len offset sz) b s)) (\<lambda>_.
       ret (release_disk0 s)))))"

subsection \<open>Inodes and their cache\<close>

text \<open>
  The cache is an array of \<open>vnode\<close>s of 88 bytes in \<open>kINb_sz\<close> pages; it doubles until the index fits.
\<close>

definition zero_inode :: inode where
  "zero_inode = \<lparr>chunkaddr1 = 0, chunklen = 0, iperms = 0, iowner = 0, igroup = 0, timestamp = 0, iname = replicate 32 0\<rparr>"

definition zero_vnode :: vnode where
  "zero_vnode = \<lparr>va = zero_inode, vid = 0, vdisk = 0, vexists = False\<rparr>"

definition cache_cap :: "qfs \<Rightarrow> nat" where
  "cache_cap s = kINb_sz s * 4096 div 88"

definition kINb_gb :: "nat \<Rightarrow> qfs \<Rightarrow> inode option" where
  "kINb_gb ino s =
     (if cache_cap s \<le> ino then None
      else if vexists (kINb s ino) then Some (va (kINb s ino)) else None)"

function kINb_grow :: "nat \<Rightarrow> qfs \<Rightarrow> qfs" where
  "kINb_grow ino s =
     (if cache_cap s \<le> ino
      then kINb_grow ino (s\<lparr>kINb := (\<lambda>i. if i < cache_cap s then kINb s i else zero_vnode), kINb_sz := 2 * kINb_sz s + 1\<rparr>)
      else s)"
  by pat_completeness auto
termination
proof (relation "measure (\<lambda>(ino, s). 88 * (ino + 1) - kINb_sz s * 4096)", goal_cases)
  case (2 ino s)
  have "kINb_sz s * 4096 < 88 * (cache_cap s + 1)" unfolding cache_cap_def by (simp add: dividend_less_times_div)
  then show ?case using 2 by simp
qed simp

declare kINb_grow.simps [simp del]

definition kINb_ad :: "inode \<Rightarrow> nat \<Rightarrow> qfs \<Rightarrow> inode \<times> qfs" where
  "kINb_ad a ino s =
     (let s = kINb_grow ino s
      in (a, if vexists (kINb s ino) then s
             else s\<lparr>kINb := (kINb s)(ino := \<lparr>va = a, vid = of_nat ino, vdisk = 0, vexists = True\<rparr>)\<rparr>))"

definition kINb_invalidate :: "nat \<Rightarrow> qfs \<Rightarrow> qfs" where
  "kINb_invalidate ino s = (if cache_cap s \<le> ino then s else s\<lparr>kINb := (kINb s)(ino := zero_vnode)\<rparr>)"

definition INODE_SIZE :: nat where "INODE_SIZE = 60"

definition GrabInode :: "addr \<times> u8 list \<Rightarrow> u64 \<Rightarrow> qfs \<Rightarrow> (inode \<times> qfs) run" where
  "GrabInode b2 ino s =
     (case kINb_gb (unat ino) s of
        Some n \<Rightarrow> ret (n, s)
      | None \<Rightarrow>
          bindR (readPLUS (ino * 60) 60 0 b2 s) (\<lambda>(b, s).
            ret (kINb_ad (decode_inode b) (unat ino) s)))"

definition InodeRead :: "inode \<Rightarrow> u64 \<Rightarrow> u8 list \<Rightarrow> u64 \<Rightarrow> qfs \<Rightarrow> (u8 list \<times> qfs) run" where
  "InodeRead n pos buffer len s =
     bindR (check (pos + len \<le> push_bit 9 (chunklen n)) (ERROR ERR_FILE_PASTBOUND pos)) (\<lambda>_.
     bindR (acquire_disk0 s) (\<lambda>s.
     bindR (lift (read_disk (ucast (chunkaddr1 n + drop_bit 9 pos)) 0 (ucast len) buffer s)) (\<lambda>b.
       ret (b, release_disk0 s))))"

subsection \<open>Creating files\<close>

text \<open>\<open>getI\<close> looks for the first free inode, \<open>getIS\<close> for the first free sector.\<close>

partial_function (option) getI_from :: "addr \<times> u8 list \<Rightarrow> u64 \<Rightarrow> u64 \<Rightarrow> qfs \<Rightarrow> (u64 \<times> qfs) run" where
  "getI_from b2 disk i s =
     bindR (readPLUS (i * 60) 60 disk b2 s) (\<lambda>(b, s).
       if chunklen (decode_inode b) = 0 then ret (i, s) else getI_from b2 disk (i + 1) s)"

definition getI :: "addr \<times> u8 list \<Rightarrow> u64 \<Rightarrow> qfs \<Rightarrow> (u64 \<times> qfs) run" where
  "getI b2 disk s = getI_from b2 disk 0 s"

text \<open>
  The inner loop of \<open>getIS\<close> over the eight inodes at the front of a sector: the free sector found, or
  the highest end of a chunk so far (an \<open>unsigned int\<close>).
\<close>

fun scan_inodes :: "u8 list \<Rightarrow> nat \<Rightarrow> u32 \<Rightarrow> u32 \<times> bool" where
  "scan_inodes b 0 lbamax = (lbamax, False)"
| "scan_inodes b (Suc n) lbamax =
     (let a = decode_inode (take INODE_SIZE b) in
      if chunklen a = 0 then (lbamax, True)
      else scan_inodes (drop INODE_SIZE b) n (ucast (max (ucast lbamax) (chunkaddr1 a + chunklen a))))"

partial_function (option) getIS_from :: "u64 \<Rightarrow> u64 \<Rightarrow> u32 \<Rightarrow> u32 \<Rightarrow> u8 list \<Rightarrow> qfs \<Rightarrow> (u64 \<times> qfs) run" where
  "getIS_from disk sz i lbamax b s =
     bindR (lift (read_disk i disk 0x400 b s)) (\<lambda>b.
       case scan_inodes b 8 lbamax of (lbamax, found) \<Rightarrow>
         if found then ret (ucast lbamax - sz, release_disk0 s)
         else getIS_from disk sz (i + 1) lbamax b s)"

definition getIS :: "u8 list \<Rightarrow> u64 \<Rightarrow> u64 \<Rightarrow> qfs \<Rightarrow> (u64 \<times> qfs) run" where
  "getIS b disk sz s = bindR (acquire_disk0 s) (\<lambda>s. getIS_from disk sz 0 0 b s)"

definition writeIN :: "addr \<times> u8 list \<Rightarrow> inode \<Rightarrow> u64 \<Rightarrow> u64 \<Rightarrow> qfs \<Rightarrow> qfs run" where
  "writeIN b2 a disk no s = writePLUS (no * 60) 60 disk (encode_inode a) b2 s"

text \<open>A directory is an array of 64-bit inode numbers ending in 0.\<close>

fun first_zero :: "u8 list \<Rightarrow> nat \<Rightarrow> nat \<Rightarrow> nat option" where
  "first_zero b k 0 = None"
| "first_zero b k (Suc n) =
     (if (le_word (take 8 b) :: u64) = 0 then Some k else first_zero (drop 8 b) (Suc k) n)"

definition addtoD :: "addr \<times> u8 list \<Rightarrow> vnode \<Rightarrow> vnode \<Rightarrow> qfs \<Rightarrow> qfs run" where
  "addtoD b2 dir toadd s =
     (let lba = ucast (chunkaddr1 (va dir)); len = ucast (push_bit 9 (chunklen (va dir))) in
      bindR (lift (read_disk lba (vdisk dir) len (snd b2) s)) (\<lambda>b.
      case first_zero b 0 (length b div 8) of
        None \<Rightarrow> None
      | Some k \<Rightarrow>
          let b = take (8 * k) b @ le_bytes 8 (vid toadd) @ drop (8 * k + 8) b in
          bindR (lift (write_disk lba (vdisk dir) len (fst b2, b) s)) (\<lambda>s.
            ret (kINb_invalidate (unat (vid dir)) s))))"

fun add_links :: "addr \<times> u8 list \<Rightarrow> vnode list \<Rightarrow> vnode \<Rightarrow> qfs \<Rightarrow> qfs run" where
  "add_links b2 [] cons s = ret s"
| "add_links b2 (l # ls) cons s = bindR (addtoD b2 l cons s) (add_links b2 ls cons)"

definition sectors_of :: "u16 \<Rightarrow> u64" where
  "sectors_of len = ucast (drop_bit 9 len) + (if len AND 0x1ff \<noteq> 0 then 1 else 0)"

text \<open>The name is copied over a cleared field of 32 bytes; a longer one is written past it.\<close>

definition mkFile :: "addr \<times> u8 list \<Rightarrow> addr \<times> u8 list \<Rightarrow> u16 \<Rightarrow> u64 \<Rightarrow> u8 list \<Rightarrow> u16 \<Rightarrow> vnode list \<Rightarrow>
    qfs \<Rightarrow> (vnode \<times> qfs) run" where
  "mkFile b2 data len disk name prm links s =
     bindR (getIS (snd b2) disk (sectors_of len) s) (\<lambda>(at, s).
     case strcpy (replicate 32 0) name of
       None \<Rightarrow> None
     | Some nm \<Rightarrow>
         let a = \<lparr>chunkaddr1 = at, chunklen = sectors_of len, iperms = prm, iowner = 0, igroup = 0,
                  timestamp = 0, iname = nm\<rparr> in
         bindR (getI b2 disk s) (\<lambda>(ino, s).
         let cons = \<lparr>va = a, vid = ino, vdisk = disk, vexists = True\<rparr> in
         bindR (writeIN b2 a disk ino s) (\<lambda>s.
         bindR (lift (write_disk (ucast at) disk len data s)) (\<lambda>s.
         bindR (add_links b2 links cons s) (\<lambda>s. ret (cons, s))))))"

subsection \<open>Streams of a file\<close>

definition FileReaderStream :: "inode \<Rightarrow> u64 \<Rightarrow> u8 list \<Rightarrow> u64 \<Rightarrow> qfs \<Rightarrow> (u64 \<times> u8 list \<times> qfs) run" where
  "FileReaderStream k pos buffer len s =
     bindR (InodeRead k pos buffer len s) (\<lambda>(b, s). ret (pos + len, b, s))"

definition FileWriterStream :: "addr \<times> u8 list \<Rightarrow> inode \<Rightarrow> u64 \<Rightarrow> u8 list \<Rightarrow> u64 \<Rightarrow> qfs \<Rightarrow> (u64 \<times> qfs) run" where
  "FileWriterStream b2 k pos buffer len s =
     (if pos + len < push_bit 9 (chunklen k)
      then bindR (writePLUS (push_bit 9 (chunkaddr1 k) + pos) len 0 buffer b2 s) (\<lambda>s. ret (pos + len, s))
      else stop (ERROR ERR_FWS_UNIMP 0))"

text \<open>\<open>FileStream\<close> returns the new position; the buffer is only changed by a read.\<close>

definition FileStream :: "addr \<times> u8 list \<Rightarrow> inode \<Rightarrow> u64 \<Rightarrow> u8 list \<Rightarrow> u64 \<Rightarrow> u8 \<Rightarrow> qfs \<Rightarrow> (u64 \<times> u8 list \<times> qfs) run" where
  "FileStream b2 k pos buffer len rw s =
     (if rw = 0 then FileReaderStream k pos buffer len s
      else if rw = 1 then bindR (FileWriterStream b2 k pos buffer len s) (\<lambda>(p, s). ret (p, buffer, s))
      else if rw = 2 then ret (0, buffer, s)
      else if rw = 3 then ret (push_bit 9 (chunklen k), buffer, s)
      else stop (ERROR ERR_FILESTREAM_RW (ucast rw)))"

subsection \<open>Path lookup\<close>

text \<open>
  The first loop counts the groups of slashes and stops with \<open>ERR_FILE_DIRSTREAM\<close> when the path ends
  in one. Characters come without the terminator.
\<close>

definition SLASH :: u8 where "SLASH = 0x2f"

function slash_groups :: "u8 list \<Rightarrow> fault + nat" where
  "slash_groups [] = Inr 0"
| "slash_groups (c # cs) =
     (if c = SLASH
      then (let r = dropWhile (\<lambda>c. c = SLASH) cs in
            if r = [] then Inl (ERROR ERR_FILE_DIRSTREAM 0)
            else bindE (slash_groups r) (\<lambda>n. Inr (n + 1)))
      else slash_groups cs)"
  by pat_completeness auto
termination
  by (relation "measure length") (auto simp: length_dropWhile_le le_imp_less_Suc)

text \<open>The directory names: \<open>None\<close> is the \<open>return NULL\<close> of a missing slash.\<close>

fun take_dirs :: "nat \<Rightarrow> u8 list \<Rightarrow> u8 list list option" where
  "take_dirs 0 cs = Some []"
| "take_dirs (Suc j) cs =
     (case dropWhile (\<lambda>c. c \<noteq> SLASH) cs of
        [] \<Rightarrow> None
      | _ # r \<Rightarrow> map_option (Cons (takeWhile (\<lambda>c. c \<noteq> SLASH) cs)) (take_dirs j r))"

text \<open>
  The file name is what follows the last slash; without a slash the search runs past the start of
  the string.
\<close>

definition last_part :: "u8 list \<Rightarrow> u8 list option" where
  "last_part cs = (if SLASH \<in> set cs then Some (rev (takeWhile (\<lambda>c. c \<noteq> SLASH) (rev cs))) else None)"

text \<open>The quads of a directory up to the first zero, and the search for a name among them.\<close>

fun dir_ids :: "u8 list \<Rightarrow> nat \<Rightarrow> u64 list" where
  "dir_ids b 0 = []"
| "dir_ids b (Suc n) = (let i = le_word (take 8 b) in if i = 0 then [] else i # dir_ids (drop 8 b) n)"

fun search_dir :: "addr \<times> u8 list \<Rightarrow> u64 list \<Rightarrow> u8 list \<Rightarrow> qfs \<Rightarrow> (inode option \<times> qfs) run" where
  "search_dir b2 [] name s = ret (None, s)"
| "search_dir b2 (i # is) name s =
     bindR (GrabInode b2 i s) (\<lambda>(n, s).
     case strcmp (iname n) (name @ [0]) of
       None \<Rightarrow> None
     | Some p \<Rightarrow> if p = 0 then ret (Some n, s) else search_dir b2 is name s)"

definition lookup_in :: "addr \<times> u8 list \<Rightarrow> inode \<Rightarrow> u8 list \<Rightarrow> qfs \<Rightarrow> (inode option \<times> qfs) run" where
  "lookup_in b2 dir name s =
     bindR (InodeRead dir 0 (replicate 4096 0) 0x200 s) (\<lambda>(m, s). search_dir b2 (dir_ids m 512) name s)"

fun walk :: "addr \<times> u8 list \<Rightarrow> inode \<Rightarrow> u8 list list \<Rightarrow> qfs \<Rightarrow> (inode option \<times> qfs) run" where
  "walk b2 dir [] s = ret (Some dir, s)"
| "walk b2 dir (d # ds) s =
     bindR (lookup_in b2 dir d s) (\<lambda>(r, s).
     case r of None \<Rightarrow> ret (None, s) | Some n \<Rightarrow> walk b2 n ds s)"

definition getFileFromFilename :: "addr \<times> u8 list \<Rightarrow> inode \<Rightarrow> u8 list \<Rightarrow> qfs \<Rightarrow> (inode option \<times> qfs) run" where
  "getFileFromFilename b2 basedir filename s =
     bindR (lift (slash_groups filename)) (\<lambda>n.
     case take_dirs (n - 1) (drop 1 filename) of
       None \<Rightarrow> ret (None, s)
     | Some dirs \<Rightarrow>
         (case last_part filename of
            None \<Rightarrow> None
          | Some name \<Rightarrow>
              bindR (walk b2 basedir dirs s) (\<lambda>(r, s).
              case r of None \<Rightarrow> ret (None, s) | Some dir \<Rightarrow> lookup_in b2 dir name s)))"

subsection \<open>The disk as one array of bytes\<close>

text \<open>
  \<open>img s\<close> are the bytes of the file system, which starts at sector 108. The limit is the number of
  sectors whose cylinder fits in the byte of the command (a 1.44 MB disk has fewer).
\<close>

definition sector :: "qfs \<Rightarrow> nat \<Rightarrow> u8 list" where
  "sector s n = medium s (geom (108 + n))"

definition img :: "qfs \<Rightarrow> nat \<Rightarrow> u8" where
  "img s k = sector s (k div 512) ! (k mod 512)"

definition SECTORS :: nat where "SECTORS = 9216 - 108"

definition disk_ok :: "qfs \<Rightarrow> bool" where
  "disk_ok s \<longleftrightarrow> (\<forall>c. length (medium s c) = 512) \<and> \<not> disk0_held s"

lemma length_sector: "disk_ok s \<Longrightarrow> length (sector s n) = 512"
  unfolding disk_ok_def sector_def by blast

lemma sector_img: "disk_ok s \<Longrightarrow> sector s n = ldb (img s) (512 * n) 512"
  by (rule nth_equalityI) (simp_all add: length_sector img_def)

lemma sector_read_eq:
  "108 + unat l < 2 ^ 32 \<Longrightarrow> sector_read (LBA_FS_BASE + l) s = Inr (sector s (unat l))"
  by (simp add: sector_read_def lba_2_chs_geom sector_def LBA_FS_BASE_def unat_word_ariths)

lemma img_held [simp]: "img (s\<lparr>disk0_held := h\<rparr>) = img s" "sector (s\<lparr>disk0_held := h\<rparr>) = sector s"
  by (simp_all add: img_def sector_def fun_eq_iff)

lemma read_loop_held [simp]: "read_loop l n (s\<lparr>disk0_held := h\<rparr>) = read_loop l n s"
  by (induction n arbitrary: l) (simp_all add: sector_read_def)

lemma read_disk_held [simp]: "read_disk l d n m (s\<lparr>disk0_held := h\<rparr>) = read_disk l d n m s"
  by (simp add: read_disk_def)

lemma read_loop_img:
  "disk_ok s \<Longrightarrow> 108 + unat l + n < 2 ^ 32 \<Longrightarrow>
    read_loop (LBA_FS_BASE + l) n s = Inr (ldb (img s) (512 * unat l) (512 * n))"
proof (induction n arbitrary: l)
  case 0
  then show ?case by (simp add: ldb_def)
next
  case (Suc n)
  have l: "unat (l + 1) = unat l + 1" using Suc.prems by (simp add: unat_word_ariths)
  have "read_loop (LBA_FS_BASE + (l + 1)) n s = Inr (ldb (img s) (512 * unat (l + 1)) (512 * n))"
    using Suc.IH[of "l + 1"] Suc.prems l by simp
  then have "read_loop (LBA_FS_BASE + l + 1) n s = Inr (ldb (img s) (512 * unat l + 512) (512 * n))"
    unfolding l by (simp only: add.assoc distrib_left mult_1_right)
  moreover have "sector_read (LBA_FS_BASE + l) s = Inr (ldb (img s) (512 * unat l) 512)"
    using sector_read_eq[of l s] Suc.prems by (simp add: sector_img)
  moreover have "ldb (img s) (512 * unat l) (512 * Suc n) = ldb (img s) (512 * unat l) 512 @ ldb (img s) (512 * unat l + 512) (512 * n)"
    using ldb_append[of "img s" "512 * unat l" 512 "512 * n"] by simp
  ultimately show ?case by (simp only: read_loop.simps bindE_simps)
qed

lemma unat_lba_of: "unat x < 2 ^ 41 \<Longrightarrow> unat (lba_of x) = unat x div 512"
proof -
  assume x: "unat x < 2 ^ 41"
  have "unat (drop_bit 9 x) = unat x div 512" by (simp only: unsigned_drop_bit_eq drop_bit_eq_div) (simp add: unat_div_distrib)
  then show ?thesis using x by (simp add: lba_of_def unsigned_ucast_eq take_bit_eq_mod)
qed

text \<open>The number of sectors a range touches, as the code counts them.\<close>

definition span :: "nat \<Rightarrow> nat \<Rightarrow> nat" where
  "span off n = (off mod 512 + n) div 512 + 1"

lemma span_eq: "(off + n) div 512 - off div 512 + 1 = span off n"
proof -
  have "off + n = (off mod 512 + n) + off div 512 * 512" by simp
  then have "(off + n) div 512 = off div 512 + (off mod 512 + n) div 512" by (metis div_mult_self1 zero_neq_numeral)
  then show ?thesis by (simp add: span_def)
qed

lemma unat_span_len:
  assumes "unat off + unat n < 2 ^ 41" "span (unat off) (unat n) < 128"
  shows "unat (span_len off n) = 512 * span (unat off) (unat n)"
proof -
  let ?x = "span (unat off) (unat n)"
  have s: "unat (off + n) = unat off + unat n" using assms by (simp add: unat_word_ariths)
  have l: "unat (lba_of (off + n)) = (unat off + unat n) div 512" "unat (lba_of off) = unat off div 512"
    using unat_lba_of[of "off + n"] unat_lba_of[of off] assms s by simp_all
  have le: "lba_of off \<le> lba_of (off + n)" using l by (simp add: word_le_nat_alt div_le_mono)
  define d where "d = lba_of (off + n) - lba_of off"
  have "unat d = ?x - 1"
    using span_eq[of "unat off" "unat n"] l by (simp add: d_def unat_sub[OF le])
  moreover have "0 < ?x" by (simp add: span_def)
  ultimately have d: "unat (1 + d) = ?x" using assms(2) by (simp add: unat_word_ariths)
  have "unat (push_bit 9 (1 + d)) = (unat (1 + d) * 512) mod 2 ^ 32"
    by (simp only: push_bit_eq_mult unat_word_ariths) simp
  then have "unat (push_bit 9 (1 + d)) = 512 * ?x" unfolding d using assms(2) by simp
  then show ?thesis using assms(2) by (simp only: span_len_def d_def[symmetric]) (simp add: unsigned_ucast_eq take_bit_eq_mod)
qed

lemma and_511: "unat (x AND 0x1ff :: u64) = unat x mod 512"
  by (simp add: and_mask_literals)

lemma span_covers: "off mod 512 + n \<le> 512 * span off n" "512 * (off div 512) + off mod 512 = off"
proof -
  have "off mod 512 + n < 512 * ((off mod 512 + n) div 512 + 1)" by (simp add: dividend_less_times_div)
  then show "off mod 512 + n \<le> 512 * span off n" by (simp add: span_def)
qed simp

lemma read_disk_span:
  assumes "disk_ok s" "unat off + unat n < 2 ^ 40" "span (unat off) (unat n) < 128"
  shows "read_disk (lba_of off) 0 (span_len off n) m s =
    Inr (overlay (ldb (img s) (512 * (unat off div 512)) (512 * span (unat off) (unat n))) m)"
proof -
  let ?x = "span (unat off) (unat n)"
  have sl: "unat (span_len off n) = 512 * ?x" by (rule unat_span_len) (use assms in auto)
  have "unat (span_len off n AND 511) = 0" using sl by (simp add: and_mask_literals)
  then have z: "span_len off n AND 511 = 0" by (simp add: unat_eq_zero)
  have lb: "unat (lba_of off) = unat off div 512" using unat_lba_of[of off] assms by simp
  have "read_loop (LBA_FS_BASE + lba_of off) ?x s = Inr (ldb (img s) (512 * (unat off div 512)) (512 * ?x))"
    using read_loop_img[OF assms(1), of "lba_of off" ?x] assms lb by simp
  then show ?thesis using z sl by (simp add: read_disk_def)
qed

lemma readPLUS_img:
  assumes "disk_ok s" "unat off + unat n < 2 ^ 40" "span (unat off) (unat n) < 128"
  shows "readPLUS off n 0 b2 s = ret (ldb (img s) (unat off) (unat n), s)"
proof -
  let ?x = "span (unat off) (unat n)" and ?a = "512 * (unat off div 512)"
  have h: "acquire_disk0 s = ret (s\<lparr>disk0_held := True\<rparr>)" using assms(1) by (simp add: acquire_disk0_def disk_ok_def)
  have "take (unat n) (drop (unat off mod 512) (overlay (ldb (img s) ?a (512 * ?x)) (snd b2))) =
      take (unat n) (drop (unat off mod 512) (ldb (img s) ?a (512 * ?x)))"
    using span_covers(1)[of "unat off" "unat n"] by (simp add: overlay_def)
  also have "\<dots> = ldb (img s) (?a + unat off mod 512) (unat n)"
    by (rule ldb_sub) (rule span_covers)
  finally have "take (unat n) (drop (unat off mod 512) (overlay (ldb (img s) ?a (512 * ?x)) (snd b2))) = ldb (img s) (unat off) (unat n)"
    by (simp add: span_covers(2))
  moreover have "s\<lparr>disk0_held := False\<rparr> = s" using assms(1) by (simp add: disk_ok_def)
  ultimately show ?thesis
    by (simp add: readPLUS_def h read_disk_span[OF assms] and_511 release_disk0_def)
qed

subsection \<open>Writing bytes\<close>

definition cache_same :: "qfs \<Rightarrow> qfs \<Rightarrow> bool" where
  "cache_same s s' \<longleftrightarrow> kINb s' = kINb s \<and> kINb_sz s' = kINb_sz s"

lemma sector_put:
  assumes "disk_ok s" "n < SECTORS" "length d = 512" "s' = s\<lparr>medium := (medium s)(geom (108 + n) := d)\<rparr>"
  shows "disk_ok s' \<and> cache_same s s' \<and> (\<forall>k < 512 * SECTORS. img s' k = (if k div 512 = n then d ! (k mod 512) else img s k))"
proof -
  have "sector s' m = (if m = n then d else sector s m)" if "m < SECTORS" for m
    using that assms(2,4) geom_inj[of "108 + m" "108 + n"] by (auto simp: sector_def SECTORS_def)
  moreover have "k div 512 < SECTORS" if "k < 512 * SECTORS" for k using that by (simp add: less_mult_imp_div_less mult.commute)
  moreover have "disk_ok s'" using assms by (auto simp: disk_ok_def)
  ultimately show ?thesis using assms(4) by (auto simp: img_def cache_same_def)
qed

text \<open>A splice into one sector, seen as a store into the image.\<close>

lemma splice_nth:
  assumes "length d = n" "r + n \<le> 512" "length b = 512" "j < 512"
  shows "(take r b @ d @ drop (r + n) b) ! j = (if r \<le> j \<and> j < r + n then d ! (j - r) else b ! j)"
  using assms by (auto simp: nth_append)

lemma writePLUS_img:
  assumes ok: "disk_ok s" and al: "fst b2 AND 0xFFF = 0" and n: "length d = unat n"
    and inside: "unat off mod 512 + unat n < 512" and lim: "unat off div 512 < SECTORS"
  shows "\<exists>s'. writePLUS off n 0 d b2 s = ret s' \<and> disk_ok s' \<and> cache_same s s' \<and>
    (\<forall>k < 512 * SECTORS. img s' k = stb (unat off) d (img s) k)"
proof -
  let ?q = "unat off div 512" and ?r = "unat off mod 512" and ?n = "unat n"
  have oq: "unat off = 512 * ?q + ?r" by simp
  have "?q + 1 \<le> 9108" using lim by (simp add: SECTORS_def)
  then have "unat off + ?n < 512 * 9108" using inside oq by linarith
  then have small: "unat off + ?n < 2 ^ 40" by simp
  have sp: "span (unat off) ?n = 1" using inside by (simp add: span_def)
  then have sp': "span (unat off) ?n < 128" by simp
  have lb: "unat (lba_of off) = ?q" using unat_lba_of[of off] small by simp
  have sl: "unat (span_len off n) = 512" using unat_span_len[of off n] small sp by simp
  then have sl': "span_len off n = 512" by (simp add: word_unat_eq_iff)
  let ?s1 = "s\<lparr>disk0_held := True\<rparr>"
  have h: "acquire_disk0 s = ret ?s1" using ok by (simp add: acquire_disk0_def disk_ok_def)
  let ?sec = "sector s ?q"
  have r: "read_disk (lba_of off) 0 512 m ?s1 = Inr (overlay ?sec m)" for m
    using read_disk_span[OF ok small sp', of m] sl' sp by (simp add: sector_img[OF ok])
  have lsec: "length ?sec = 512" using length_sector[OF ok] .
  let ?b = "overlay ?sec (snd b2)"
  let ?b' = "take ?r ?b @ take ?n d @ drop (?r + ?n) ?b"
  let ?d = "take ?r ?sec @ d @ drop (?r + ?n) ?sec"
  have d512: "take 512 ?b' = ?d" using lsec inside n by (simp add: overlay_def)
  have gl: "unat (LBA_FS_BASE + lba_of off) = 108 + ?q"
    using lb lim by (simp add: LBA_FS_BASE_def SECTORS_def unat_word_ariths)
  let ?s2 = "?s1\<lparr>medium := (medium s)(geom (108 + ?q) := ?d)\<rparr>"
  have w: "write_disk (lba_of off) 0 512 (fst b2, ?b') ?s1 = Inr ?s2"
    using al d512 by (simp add: write_disk_def sector_write_def lba_2_chs_geom gl)
  let ?s3 = "s\<lparr>medium := (medium s)(geom (108 + ?q) := ?d)\<rparr>"
  have ld: "length ?d = 512" using lsec inside n by simp
  note P = sector_put[OF ok lim ld refl]
  have "?s2 = ?s3\<lparr>disk0_held := True\<rparr>" by simp
  then have "read_disk (lba_of off) 0 512 ?b' ?s2 = read_disk (lba_of off) 0 512 ?b' ?s3" by (simp only: read_disk_held)
  moreover obtain b where "read_disk (lba_of off) 0 512 ?b' ?s3 = Inr b"
    using read_disk_span[OF conjunct1[OF P] small sp'] sl' by auto
  ultimately have r2: "read_disk (lba_of off) 0 512 ?b' ?s2 = Inr b" by (simp only:)
  have rel: "release_disk0 ?s2 = ?s3" using ok by (simp add: release_disk0_def disk_ok_def)
  have "writePLUS off n 0 d b2 s = ret ?s3"
    using r[of "snd b2"] w r2 rel by (simp add: writePLUS_def h sl' and_511 Let_def)
  moreover have "img ?s3 k = stb (unat off) d (img s) k" if k: "k < 512 * SECTORS" for k
  proof (cases "k div 512 = ?q")
    case True
    then have kk: "k = 512 * ?q + k mod 512" by (metis mult_div_mod_eq)
    have "img ?s3 k = ?d ! (k mod 512)" using P k True by simp
    also have "\<dots> = (if ?r \<le> k mod 512 \<and> k mod 512 < ?r + ?n then d ! (k mod 512 - ?r) else ?sec ! (k mod 512))"
      by (rule splice_nth) (use n inside lsec in auto)
    also have "?sec ! (k mod 512) = img s k" using True by (simp add: img_def)
    finally show ?thesis using kk oq n unfolding stb_def by (smt (verit, ccfv_threshold) add_diff_cancel_left add_le_cancel_left add.assoc nat_add_left_cancel_less)
  next
    case False
    have "k < unat off \<or> unat off + ?n \<le> k"
    proof (rule ccontr)
      assume "\<not> ?thesis"
      then have "512 * ?q \<le> k" "k < 512 * ?q + 512" using oq inside by linarith+
      then have "k div 512 = ?q" by (simp add: div_nat_eqI)
      then show False using False by simp
    qed
    then show ?thesis using P k False n by (simp add: stb_outside)
  qed
  ultimately show ?thesis using P by blast
qed

lemma writePLUS_spans:
  assumes ok: "disk_ok s" and al: "fst b2 AND 0xFFF = 0" and small: "unat off + unat n < 2 ^ 40"
    and across: "512 \<le> unat off mod 512 + unat n" and sp: "span (unat off) (unat n) < 128"
  shows "writePLUS off n 0 d b2 s = stop (ERROR ERR_FRLX (of_nat (512 * span (unat off) (unat n))))"
proof -
  let ?x = "span (unat off) (unat n)"
  have sl: "unat (span_len off n) = 512 * ?x" by (rule unat_span_len) (use small sp in auto)
  have x1: "1 < ?x" using across by (simp add: span_def)
  have "unat (span_len off n AND 511) = 0" using sl by (simp add: and_mask_literals)
  then have z: "span_len off n AND 511 = 0" by (simp add: unat_eq_zero)
  have ne: "span_len off n \<noteq> 512" using sl x1 by auto
  have ln: "unat (span_len off n) div 512 = Suc (?x - 1)" using sl x1 by simp
  have u: "(ucast (span_len off n) :: u64) = of_nat (512 * ?x)"
    using sl by (metis of_nat_unat)
  have "write_disk (lba_of off) 0 (span_len off n) (fst b2, b) (s\<lparr>disk0_held := True\<rparr>) = Inl (ERROR ERR_FRLX (of_nat (512 * ?x)))" for b
    unfolding write_disk_def ln using z ne al u by (simp add: sector_write_def)
  moreover have "acquire_disk0 s = ret (s\<lparr>disk0_held := True\<rparr>)" using ok by (simp add: acquire_disk0_def disk_ok_def)
  ultimately show ?thesis by (simp add: writePLUS_def read_disk_span[OF ok small sp] Let_def)
qed

text \<open>\<open>readPLUS\<close> returns exactly the bytes of the range, for any range of at most 127 sectors: it does
  not change the disk and leaves the semaphore free.\<close>

theorem readPLUS_reads:
  assumes "disk_ok s" "unat off + unat n < 2 ^ 40" "span (unat off) (unat n) < 128"
  shows "readPLUS off n 0 b2 s = ret (ldb (img s) (unat off) (unat n), s)"
  by (rule readPLUS_img[OF assms])

definition blank :: qfs where
  "blank = \<lparr>medium = (\<lambda>_. replicate 512 0), disk0_held = False, kINb = (\<lambda>_. zero_vnode), kINb_sz = 0\<rparr>"

lemma blank_ok: "disk_ok blank" "img blank = (\<lambda>_. 0)"
  by (simp_all add: disk_ok_def blank_def img_def sector_def fun_eq_iff)

lemma readPLUS_reads_witness: "readPLUS 1000 100 0 (0, []) blank = ret (replicate 100 0, blank)"
proof -
  have "ldb (\<lambda>_. 0) a n = replicate n 0" for a n by (rule nth_equalityI) simp_all
  then show ?thesis using readPLUS_reads[OF blank_ok(1), of 1000 100 "(0, [])"] by (simp add: span_def blank_ok)
qed

text \<open>\<open>writePLUS\<close> stores the bytes of the range and changes nothing else as long as the range ends
  before the end of its first sector; a range that reaches the end of its sector stops the system with
  \<open>ERR_FRLX\<close>, because \<open>write\<close> passes the whole length on to \<open>floppy_write\<close>.\<close>

theorem writePLUS_writes:
  assumes "disk_ok s" "fst b2 AND 0xFFF = 0" "length d = unat n" "unat off div 512 < SECTORS" "unat n < 0x8000"
  shows "if unat off mod 512 + unat n < 512
     then (\<exists>s'. writePLUS off n 0 d b2 s = ret s' \<and> disk_ok s' \<and> cache_same s s' \<and>
             (\<forall>k < 512 * SECTORS. img s' k = stb (unat off) d (img s) k))
     else writePLUS off n 0 d b2 s = stop (ERROR ERR_FRLX (of_nat (512 * span (unat off) (unat n))))"
proof (cases "unat off mod 512 + unat n < 512")
  case True
  then show ?thesis using writePLUS_img[OF assms(1-3) True assms(4)] by simp
next
  case False
  have "unat off mod 512 < 512" by simp
  then have "(unat off mod 512 + unat n) div 512 < 127" using assms(5) by (intro less_mult_imp_div_less) simp
  then have sp: "span (unat off) (unat n) < 128" by (simp add: span_def)
  have "unat off = 512 * (unat off div 512) + unat off mod 512" by simp
  moreover have "unat off div 512 + 1 \<le> 9108" using assms(4) by (simp add: SECTORS_def)
  ultimately have "unat off < 512 * 9108" by linarith
  then have "unat off + unat n < 2 ^ 40" using assms(5) by simp
  from writePLUS_spans[OF assms(1,2) this _ sp] False show ?thesis by simp
qed

lemma writePLUS_writes_witness:
  "(\<exists>s'. writePLUS 1000 2 0 [1, 2] (0x8000000000, []) blank = ret s' \<and> disk_ok s' \<and> img s' 1001 = 2 \<and> img s' 1002 = 0) \<and>
   writePLUS 1023 1 0 [1] (0x8000000000, []) blank = stop (ERROR ERR_FRLX 1024)"
proof -
  have "\<exists>s'. writePLUS 1000 2 0 [1, 2] (0x8000000000, []) blank = ret s' \<and> disk_ok s' \<and> cache_same blank s' \<and>
      (\<forall>k < 512 * SECTORS. img s' k = stb 1000 [1, 2] (img blank) k)"
    using writePLUS_writes[OF blank_ok(1), of "(0x8000000000, [])" "[1, 2]" 2 1000] by (simp add: SECTORS_def)
  then obtain s' where "writePLUS 1000 2 0 [1, 2] (0x8000000000, []) blank = ret s'" "disk_ok s'"
    "\<forall>k < 512 * SECTORS. img s' k = stb 1000 [1, 2] (img blank) k" by blast
  moreover from this(3) have "img s' 1001 = 2" "img s' 1002 = 0" by (simp_all add: SECTORS_def stb_def blank_ok)
  moreover have "writePLUS 1023 1 0 [1] (0x8000000000, []) blank = stop (ERROR ERR_FRLX 1024)"
    using writePLUS_writes[OF blank_ok(1), of "(0x8000000000, [])" "[1]" 1 1023] by (simp add: SECTORS_def span_def)
  ultimately show ?thesis by blast
qed

subsection \<open>Tables of records\<close>

text \<open>
  A byte-addressed disk with a limit: reads up to a sector's length anywhere, writes where they fit.
  Its client keeps records of a fixed size.
\<close>

locale byte_disk =
  fixes get :: "nat \<Rightarrow> nat \<Rightarrow> 's \<Rightarrow> (u8 list \<times> 's) run"
    and put :: "nat \<Rightarrow> u8 list \<Rightarrow> 's \<Rightarrow> 's run"
    and content :: "'s \<Rightarrow> nat \<Rightarrow> u8"
    and good :: "'s \<Rightarrow> bool"
    and fits :: "nat \<Rightarrow> nat \<Rightarrow> bool"
    and limit :: nat
  assumes get: "good s \<Longrightarrow> a + n \<le> limit \<Longrightarrow> n \<le> 512 \<Longrightarrow> get a n s = ret (ldb (content s) a n, s)"
    and put: "good s \<Longrightarrow> a + length d \<le> limit \<Longrightarrow> fits a (length d) \<Longrightarrow>
      \<exists>s'. put a d s = ret s' \<and> good s' \<and> (\<forall>k < limit. content s' k = stb a d (content s) k)"
begin

lemma records_apart: "i \<noteq> j \<Longrightarrow> r * j + r \<le> r * i \<or> r * i + r \<le> r * (j :: nat)"
proof -
  assume "i \<noteq> j"
  then consider "j + 1 \<le> i" | "i + 1 \<le> j" by linarith
  then show ?thesis
  proof cases
    case 1
    then have "r * (j + 1) \<le> r * i" by (intro mult_le_mono) simp_all
    then show ?thesis by simp
  next
    case 2
    then have "r * (i + 1) \<le> r * j" by (intro mult_le_mono) simp_all
    then show ?thesis by simp
  qed
qed

lemma put_record:
  assumes g: "good s" and d: "length d = r" and r: "r \<le> 512" and f: "fits (r * i) r" and i: "r * i + r \<le> limit"
  shows "\<exists>s'. put (r * i) d s = ret s' \<and> good s' \<and>
    (\<forall>j. r * j + r \<le> limit \<longrightarrow>
       get (r * j) r s' = ret (if j = i then d else ldb (content s) (r * j) r, s'))"
proof -
  obtain s' where s': "put (r * i) d s = ret s'" "good s'" "\<forall>k < limit. content s' k = stb (r * i) d (content s) k"
    using put[OF g, of "r * i" d] d f i by auto
  have "get (r * j) r s' = ret (if j = i then d else ldb (content s) (r * j) r, s')" if j: "r * j + r \<le> limit" for j
  proof -
    have "get (r * j) r s' = ret (ldb (content s') (r * j) r, s')" using get[OF s'(2) j r] .
    also have "ldb (content s') (r * j) r = ldb (stb (r * i) d (content s)) (r * j) r"
      by (rule ldb_cong) (use s'(3) j in auto)
    also have "\<dots> = (if j = i then d else ldb (content s) (r * j) r)"
      using records_apart[of i j r] d by (simp add: ldb_stb_same ldb_stb_other)
    finally show ?thesis .
  qed
  then show ?thesis using s' by blast
qed

end

lemma limit_small: "a + n \<le> 512 * SECTORS \<Longrightarrow> a < 2 ^ 40 \<and> a + n < 2 ^ 40 \<and> n < 2 ^ 40"
  by (simp add: SECTORS_def)

interpretation floppy: byte_disk
  "\<lambda>a n. readPLUS (of_nat a) (of_nat n) 0 (page_of p, m)"
  "\<lambda>a d. writePLUS (of_nat a) (of_nat (length d)) 0 d (page_of p, m)"
  img disk_ok "\<lambda>a n. a mod 512 + n < 512 \<and> 0 < n" "512 * SECTORS" for p m
proof (unfold_locales, goal_cases)
  case (1 s a n)
  have u: "unat (of_nat a :: u64) = a" "unat (of_nat n :: u64) = n"
    using limit_small[OF 1(2)] by (simp_all add: unat_of_nat_small)
  have "(a mod 512 + n) div 512 < 127" using 1(3) by (intro less_mult_imp_div_less) (simp add: less_trans[OF mod_less_divisor])
  then have "span (unat (of_nat a :: u64)) (unat (of_nat n :: u64)) < 128" by (simp add: u span_def)
  from readPLUS_img[OF 1(1) _ this] limit_small[OF 1(2)] show ?case by (simp add: u)
next
  case (2 s a d)
  have u: "unat (of_nat a :: u64) = a" "unat (of_nat (length d) :: u64) = length d"
    using limit_small[OF 2(2)] by (simp_all add: unat_of_nat_small)
  have "a div 512 < SECTORS" using 2(2,3) by (intro less_mult_imp_div_less) (cases d, simp_all add: mult.commute)
  moreover have "fst (page_of p, m) AND 0xFFF = 0" using page_of_aligned[of p] by (simp add: page_aligned_def)
  ultimately show ?case
    using writePLUS_img[OF 2(1), of "(page_of p, m)" d "of_nat (length d)" "of_nat a"] 2(3) by (auto simp: u)
qed

subsection \<open>The inode table\<close>

definition disk_inode :: "qfs \<Rightarrow> nat \<Rightarrow> inode" where
  "disk_inode s i = decode_inode (ldb (img s) (60 * i) 60)"

definition inode_wf :: "inode \<Rightarrow> bool" where
  "inode_wf n \<longleftrightarrow> length (iname n) = 32"

lemma length_encode_inode: "inode_wf n \<Longrightarrow> length (encode_inode n) = 60"
  by (simp add: encode_inode_def inode_wf_def)

lemma encode_pieces:
  assumes "inode_wf n"
  shows "take 8 (encode_inode n) = le_bytes 8 (chunkaddr1 n)"
    "take 8 (drop 8 (encode_inode n)) = le_bytes 8 (chunklen n)"
    "take 2 (drop 16 (encode_inode n)) = le_bytes 2 (iperms n)"
    "encode_inode n ! 18 = iowner n" "encode_inode n ! 19 = igroup n"
    "take 8 (drop 20 (encode_inode n)) = le_bytes 8 (timestamp n)"
    "take 32 (drop 28 (encode_inode n)) = iname n"
  using assms by (simp_all add: encode_inode_def inode_wf_def nth_append)

text \<open>The packed layout of an inode loses nothing: 60 bytes, from which every field is read back.\<close>

theorem inode_roundtrip:
  assumes "inode_wf n"
  shows "length (encode_inode n) = 60 \<and> decode_inode (encode_inode n) = n"
  unfolding decode_inode_def encode_pieces[OF assms]
  using length_encode_inode[OF assms] by (simp add: le_word_bytes)

lemma inode_roundtrip_witness: "decode_inode (encode_inode zero_inode) = zero_inode"
  using inode_roundtrip[of zero_inode] by (simp add: inode_wf_def zero_inode_def)

lemma decode_encode: "inode_wf n \<Longrightarrow> decode_inode (encode_inode n) = n"
  unfolding decode_inode_def encode_pieces by (simp add: le_word_bytes)

text \<open>C39. The table of inodes is a map from numbers to inodes: \<open>writeIN\<close> of an inode that ends before the
  end of its sector replaces that inode and no other, and any other \<open>writeIN\<close> (the ninth inode is the
  first) stops the system.\<close>

theorem writeIN_refines:
  assumes ok: "disk_ok s" and a: "inode_wf a" and i: "60 * i + 60 \<le> 512 * SECTORS"
  shows "if (60 * i) mod 512 + 60 < 512
    then (\<exists>s'. writeIN (page_of p, m) a 0 (of_nat i) s = ret s' \<and> disk_ok s' \<and>
            (\<forall>j. 60 * j + 60 \<le> 512 * SECTORS \<longrightarrow> disk_inode s' j = (if j = i then a else disk_inode s j)))
    else writeIN (page_of p, m) a 0 (of_nat i) s = stop (ERROR ERR_FRLX 1024)"
proof -
  have n: "length (encode_inode a) = 60" by (rule length_encode_inode[OF a])
  have w: "writeIN (page_of p, m) a 0 (of_nat i) s =
      writePLUS (of_nat (60 * i)) (of_nat (length (encode_inode a))) 0 (encode_inode a) (page_of p, m) s"
    by (simp add: writeIN_def n mult.commute)
  show ?thesis
  proof (cases "(60 * i) mod 512 + 60 < 512")
    case True
    from floppy.put_record[OF ok n _ _ i] True obtain s' where
      s': "writePLUS (of_nat (60 * i)) (of_nat (length (encode_inode a))) 0 (encode_inode a) (page_of p, m) s = ret s'" "disk_ok s'"
      and g: "\<forall>j. 60 * j + 60 \<le> 512 * SECTORS \<longrightarrow> readPLUS (of_nat (60 * j)) (of_nat 60) 0 (page_of p, m) s' =
        ret (if j = i then encode_inode a else ldb (img s) (60 * j) 60, s')" by force
    have "disk_inode s' j = (if j = i then a else disk_inode s j)" if j: "60 * j + 60 \<le> 512 * SECTORS" for j
    proof -
      have "ldb (img s') (60 * j) 60 = (if j = i then encode_inode a else ldb (img s) (60 * j) 60)"
        using g j floppy.get[OF s'(2) j, of p m] by simp
      then show ?thesis by (simp add: disk_inode_def decode_encode[OF a])
    qed
    then show ?thesis using True s' w by auto
  next
    case False
    have "(60 * i) mod 512 < 512" by simp
    then have "((60 * i) mod 512 + 60) div 512 = 1" using False by (intro div_nat_eqI) simp_all
    then have sp: "span (60 * i) 60 = 2" by (simp add: span_def)
    have u: "unat (of_nat (60 * i) :: u64) = 60 * i" "unat (of_nat (length (encode_inode a)) :: u64) = 60"
      using limit_small[OF i] n by (simp_all add: unat_of_nat_small del: of_nat_mult)
    have al: "fst (page_of p, m) AND 0xFFF = 0" using page_of_aligned[of p] by (simp add: page_aligned_def)
    have "writePLUS (of_nat (60 * i)) (of_nat (length (encode_inode a))) 0 (encode_inode a) (page_of p, m) s = stop (ERROR ERR_FRLX 1024)"
      using writePLUS_spans[OF ok al, of "of_nat (60 * i)" "of_nat (length (encode_inode a))" "encode_inode a"] False limit_small[OF i]
      unfolding u sp by simp
    then show ?thesis using False w by simp
  qed
qed

lemma writeIN_refines_witness:
  "(\<exists>s'. writeIN (0x8000000000, []) zero_inode 0 3 blank = ret s' \<and> disk_inode s' 3 = zero_inode) \<and>
   writeIN (0x8000000000, []) zero_inode 0 8 blank = stop (ERROR ERR_FRLX 1024)"
proof -
  have wf: "inode_wf zero_inode" by (simp add: inode_wf_def zero_inode_def)
  have p: "page_of 0x8000000000 = 0x8000000000" by (simp add: page_of_def)
  show ?thesis
    using writeIN_refines[OF blank_ok(1) wf, of 3 "0x8000000000" "[]"] writeIN_refines[OF blank_ok(1) wf, of 8 "0x8000000000" "[]"]
    unfolding p by (auto simp: SECTORS_def)
qed

subsection \<open>The inode cache\<close>

definition cache_ok :: "qfs \<Rightarrow> bool" where
  "cache_ok s \<longleftrightarrow> (\<forall>i < cache_cap s. vexists (kINb s i) \<longrightarrow> va (kINb s i) = disk_inode s i)"

definition same_disk :: "qfs \<Rightarrow> qfs \<Rightarrow> bool" where
  "same_disk s s' \<longleftrightarrow> medium s' = medium s \<and> disk0_held s' = disk0_held s"

lemma same_disk_refl [simp]: "same_disk s s"
  by (simp add: same_disk_def)

lemma same_disk_trans: "same_disk s s' \<Longrightarrow> same_disk s' s'' \<Longrightarrow> same_disk s s''"
  by (simp add: same_disk_def)

lemma same_disk_inode: "same_disk s s' \<Longrightarrow> img s' = img s \<and> disk_inode s' = disk_inode s \<and> disk_ok s' = disk_ok s"
proof -
  assume d: "same_disk s s'"
  have "img s' = img s" by (rule ext) (use d in \<open>simp only: same_disk_def img_def sector_def\<close>)
  then show ?thesis using d by (auto simp: disk_inode_def disk_ok_def same_disk_def)
qed

lemma kINb_grow_ok:
  "cache_ok s \<Longrightarrow> cache_ok (kINb_grow i s) \<and> same_disk s (kINb_grow i s) \<and> i < cache_cap (kINb_grow i s)"
proof (induction i s rule: kINb_grow.induct)
  case (1 i s)
  show ?case
  proof (cases "cache_cap s \<le> i")
    case True
    let ?s = "s\<lparr>kINb := (\<lambda>i. if i < cache_cap s then kINb s i else zero_vnode), kINb_sz := 2 * kINb_sz s + 1\<rparr>"
    have sd: "same_disk s ?s" by (simp add: same_disk_def)
    have "cache_ok ?s" using "1.prems" same_disk_inode[OF sd] by (simp add: cache_ok_def zero_vnode_def)
    then have "cache_ok (kINb_grow i ?s) \<and> same_disk ?s (kINb_grow i ?s) \<and> i < cache_cap (kINb_grow i ?s)"
      by (rule "1.IH"[OF True])
    moreover have "kINb_grow i s = kINb_grow i ?s" using True by (subst kINb_grow.simps) (simp only: if_True)
    ultimately show ?thesis using same_disk_trans[OF sd] by simp
  next
    case False
    then have "kINb_grow i s = s" by (subst kINb_grow.simps) simp
    then show ?thesis using "1.prems" False by simp
  qed
qed

lemma kINb_ad_ok:
  assumes "cache_ok s" "a = disk_inode s i"
  shows "fst (kINb_ad a i s) = a \<and> cache_ok (snd (kINb_ad a i s)) \<and> same_disk s (snd (kINb_ad a i s))"
proof -
  note G = kINb_grow_ok[OF assms(1), of i]
  have "disk_inode (kINb_grow i s) = disk_inode s" using same_disk_inode G by blast
  moreover have "disk_inode ((kINb_grow i s)\<lparr>kINb := f\<rparr>) = disk_inode (kINb_grow i s)" for f
    using same_disk_inode[of "kINb_grow i s" "(kINb_grow i s)\<lparr>kINb := f\<rparr>"] by (simp add: same_disk_def)
  ultimately show ?thesis
    using G assms(2) unfolding kINb_ad_def Let_def
    by (simp add: cache_ok_def same_disk_def cache_cap_def)
qed

lemma GrabInode_ok:
  assumes ok: "disk_ok s" and c: "cache_ok s" and i: "60 * unat i + 60 \<le> 512 * SECTORS"
  shows "\<exists>s'. GrabInode b2 i s = ret (disk_inode s (unat i), s') \<and> cache_ok s' \<and> same_disk s s'"
proof (cases "kINb_gb (unat i) s")
  case None
  have u: "unat (i * 60) = 60 * unat i" using limit_small[OF i] by (simp add: unat_word_ariths mult.commute)
  have "span (60 * unat i) 60 \<le> 2"
  proof -
    have "(60 * unat i mod 512 + 60) div 512 < 2" by (intro less_mult_imp_div_less) (simp add: add_strict_mono)
    then show ?thesis by (simp add: span_def)
  qed
  then have "readPLUS (i * 60) 60 0 b2 s = ret (ldb (img s) (60 * unat i) 60, s)"
    using readPLUS_img[OF ok, of "i * 60" 60 b2] limit_small[OF i] by (simp add: u)
  then show ?thesis
    using None kINb_ad_ok[OF c refl, of "unat i"]
    by (intro exI[of _ "snd (kINb_ad (disk_inode s (unat i)) (unat i) s)"]) (simp add: GrabInode_def disk_inode_def prod_eq_iff)
next
  case (Some n)
  then have "n = disk_inode s (unat i)" using c by (auto simp: kINb_gb_def cache_ok_def split: if_splits)
  then show ?thesis using Some c by (auto simp: GrabInode_def)
qed

text \<open>C21. The cache is coherent: \<open>GrabInode\<close> returns the inode the disk holds whether it is cached or not,
  and the entry it may add (after growing the array) keeps every cached inode equal to the one on the
  disk.\<close>

theorem GrabInode_coherent:
  assumes "disk_ok s" "cache_ok s" "60 * unat i + 60 \<le> 512 * SECTORS"
  shows "\<exists>s'. GrabInode b2 i s = ret (disk_inode s (unat i), s') \<and> disk_ok s' \<and> cache_ok s' \<and>
    (\<forall>j. disk_inode s' j = disk_inode s j)"
  using GrabInode_ok[OF assms, of b2] same_disk_inode assms(1) by metis

lemma GrabInode_coherent_witness: "\<exists>s'. GrabInode (0, []) 100 blank = ret (disk_inode blank 100, s') \<and> cache_ok s'"
  using GrabInode_coherent[OF blank_ok(1), of 100 "(0, [])"] by (auto simp: SECTORS_def cache_ok_def cache_cap_def blank_def)

subsection \<open>Reading a file\<close>

lemma read_disk_img:
  assumes ok: "disk_ok s" and l: "unat l < SECTORS" and n: "unat len mod 512 = 0"
  shows "read_disk l 0 len m s = Inr (overlay (ldb (img s) (512 * unat l) (unat len)) m)"
proof -
  have z: "len AND 511 = 0" using n by (simp add: unat_eq_zero[symmetric] and_mask_literals)
  have "unat len < 2 ^ 16" using unat_bounds(2)[of len] by simp
  then have "108 + unat l + unat len div 512 < 2 ^ 32" using l by (simp add: SECTORS_def)
  from read_loop_img[OF ok this] show ?thesis using z n by (simp add: read_disk_def mult.commute[of 512 "unat len div 512"] dvd_div_mult_self mod_0_imp_dvd)
qed

text \<open>
  \<open>content s n pos len\<close> are the bytes of a file as its inode places them; \<open>in_bounds\<close> says that the file
  lies on the disk.
\<close>

definition content :: "qfs \<Rightarrow> inode \<Rightarrow> nat \<Rightarrow> nat \<Rightarrow> u8 list" where
  "content s n pos len = ldb (img s) (512 * unat (chunkaddr1 n) + pos) len"

definition in_bounds :: "inode \<Rightarrow> bool" where
  "in_bounds n \<longleftrightarrow> unat (chunkaddr1 n) + unat (chunklen n) \<le> SECTORS"

lemma in_bounds_small:
  "in_bounds n \<Longrightarrow> unat (chunklen n) < 2 ^ 40 \<and> unat (chunkaddr1 n) < 2 ^ 40 \<and> unat (push_bit 9 (chunklen n)) = 512 * unat (chunklen n)"
proof -
  assume b: "in_bounds n"
  then have s: "unat (chunklen n) < 2 ^ 40" "unat (chunkaddr1 n) < 2 ^ 40" by (simp_all add: in_bounds_def SECTORS_def)
  have "unat (push_bit 9 (chunklen n)) = (unat (chunklen n) * 512) mod 2 ^ 64"
    by (simp only: push_bit_eq_mult unat_word_ariths) simp
  then show ?thesis using s by simp
qed

lemma InodeRead_ok:
  assumes ok: "disk_ok s" and n: "in_bounds n" and len: "unat len < 0x10000" "unat len mod 512 = 0" "0 < unat len"
    and pos: "unat pos + unat len \<le> 512 * unat (chunklen n)"
  shows "InodeRead n pos m len s = ret (overlay (content s n (512 * (unat pos div 512)) (unat len)) m, s)"
proof -
  note sm = in_bounds_small[OF n]
  have u: "unat (pos + len) = unat pos + unat len" using sm pos by (simp add: unat_word_ariths)
  have c: "pos + len \<le> push_bit 9 (chunklen n)" using sm pos u by (simp add: word_le_nat_alt)
  have q: "unat (drop_bit 9 pos) = unat pos div 512" by (simp only: unsigned_drop_bit_eq drop_bit_eq_div) (simp add: unat_div_distrib)
  have ql: "unat pos div 512 < unat (chunklen n)" using pos len(3) by (intro less_mult_imp_div_less) simp
  have a: "unat (chunkaddr1 n + drop_bit 9 pos) = unat (chunkaddr1 n) + unat pos div 512"
    using sm q ql by (simp add: unat_word_ariths)
  have lim: "unat (chunkaddr1 n) + unat pos div 512 < SECTORS" using n ql by (simp add: in_bounds_def)
  have l: "unat (ucast (chunkaddr1 n + drop_bit 9 pos) :: u32) = unat (chunkaddr1 n) + unat pos div 512"
    using a lim by (simp add: unsigned_ucast_eq take_bit_eq_mod SECTORS_def)
  have ll: "unat (ucast len :: u16) = unat len" using len(1) by (simp add: unsigned_ucast_eq take_bit_eq_mod)
  have "read_disk (ucast (chunkaddr1 n + drop_bit 9 pos)) 0 (ucast len) m s =
      Inr (overlay (content s n (512 * (unat pos div 512)) (unat len)) m)"
    using read_disk_img[OF ok, of "ucast (chunkaddr1 n + drop_bit 9 pos)" "ucast len" m] lim len(2)
    unfolding l ll by (simp add: content_def add_mult_distrib2)
  moreover have "s\<lparr>disk0_held := False\<rparr> = s" using ok by (simp add: disk_ok_def)
  ultimately show ?thesis using c ok by (simp add: InodeRead_def acquire_disk0_def release_disk0_def disk_ok_def)
qed

text \<open>\<open>InodeRead\<close> returns the contents of the file from the start of the sector the position lies in:
  for a position that is a multiple of 512 these are the bytes asked for, and for any other position
  they are bytes in front of it. A range beyond the end stops with \<open>ERR_FILE_PASTBOUND\<close>.\<close>

theorem InodeRead_reads:
  assumes "disk_ok s" "in_bounds n" "unat len < 0x10000" "unat len mod 512 = 0" "0 < unat len" "length m = unat len"
    "unat pos + unat len < 2 ^ 64"
  shows "(if unat pos + unat len \<le> 512 * unat (chunklen n)
      then InodeRead n pos m len s = ret (content s n (512 * (unat pos div 512)) (unat len), s)
      else InodeRead n pos m len s = stop (ERROR ERR_FILE_PASTBOUND pos)) \<and>
    (unat pos mod 512 = 0 \<longrightarrow> 512 * (unat pos div 512) = unat pos)"
proof -
  have u: "unat (pos + len) = unat pos + unat len" using assms(7) by (simp add: unat_word_ariths)
  have "InodeRead n pos m len s = stop (ERROR ERR_FILE_PASTBOUND pos)" if "\<not> unat pos + unat len \<le> 512 * unat (chunklen n)"
    using that in_bounds_small[OF assms(2)] u by (simp add: InodeRead_def word_le_nat_alt)
  moreover have "overlay (content s n a (unat len)) m = content s n a (unat len)" for a
    using assms(6) by (simp add: overlay_def content_def)
  ultimately show ?thesis using InodeRead_ok[OF assms(1-5)] by auto
qed

definition demo_file :: inode where
  "demo_file = zero_inode\<lparr>chunkaddr1 := 20, chunklen := 2\<rparr>"

lemma InodeRead_reads_witness:
  "InodeRead demo_file 100 (replicate 512 7) 512 blank = ret (content blank demo_file 0 512, blank) \<and>
   InodeRead demo_file 1024 (replicate 512 7) 512 blank = stop (ERROR ERR_FILE_PASTBOUND 1024)"
proof -
  have b: "in_bounds demo_file" by (simp add: in_bounds_def demo_file_def SECTORS_def)
  show ?thesis
    using InodeRead_reads[OF blank_ok(1) b, of 512 "replicate 512 7" 100] InodeRead_reads[OF blank_ok(1) b, of 512 "replicate 512 7" 1024]
    by (simp add: demo_file_def)
qed

subsection \<open>Path lookup refines the directory tree\<close>

text \<open>
  The directory tree as the disk holds it: the entries of a directory are inode numbers, the name of
  an entry is in its inode. \<open>resolve\<close> follows a list of names from a directory.
\<close>

definition entries_of :: "qfs \<Rightarrow> inode \<Rightarrow> u64 list" where
  "entries_of s n = dir_ids (content s n 0 512) 64"

definition entry_name :: "inode \<Rightarrow> u8 list" where
  "entry_name n = takeWhile (\<lambda>c. c \<noteq> 0) (iname n)"

fun find_entry :: "qfs \<Rightarrow> u64 list \<Rightarrow> u8 list \<Rightarrow> inode option" where
  "find_entry s [] w = None"
| "find_entry s (i # is) w =
     (let n = disk_inode s (unat i) in if entry_name n = w then Some n else find_entry s is w)"

fun resolve :: "qfs \<Rightarrow> inode \<Rightarrow> u8 list list \<Rightarrow> inode option" where
  "resolve s n [] = Some n"
| "resolve s n (c # cs) = (case find_entry s (entries_of s n) c of None \<Rightarrow> None | Some m \<Rightarrow> resolve s m cs)"

definition dir_wf :: "qfs \<Rightarrow> inode \<Rightarrow> bool" where
  "dir_wf s n \<longleftrightarrow> in_bounds n \<and> chunklen n \<noteq> 0 \<and>
     (\<forall>i \<in> set (entries_of s n). 60 * unat i + 60 \<le> 512 * SECTORS \<and> 0 \<in> set (iname (disk_inode s (unat i))))"

fun path_wf :: "qfs \<Rightarrow> inode \<Rightarrow> u8 list list \<Rightarrow> bool" where
  "path_wf s n [] \<longleftrightarrow> True"
| "path_wf s n (c # cs) \<longleftrightarrow> dir_wf s n \<and>
     (case find_entry s (entries_of s n) c of None \<Rightarrow> True | Some m \<Rightarrow> path_wf s m cs)"

lemma same_disk_tree:
  assumes "same_disk s s'"
  shows "find_entry s' = find_entry s" "entries_of s' = entries_of s" "resolve s' = resolve s" "path_wf s' = path_wf s"
    "dir_wf s' = dir_wf s"
proof -
  have i: "img s' = img s" "disk_inode s' = disk_inode s" using same_disk_inode[OF assms] by simp_all
  have f: "find_entry s' is w = find_entry s is w" for "is" w by (induction "is") (simp_all add: i Let_def)
  then show F: "find_entry s' = find_entry s" by (intro ext)
  show E: "entries_of s' = entries_of s" by (intro ext) (simp add: entries_of_def content_def i)
  show D: "dir_wf s' = dir_wf s" by (intro ext) (simp add: dir_wf_def E i)
  have "resolve s' n cs = resolve s n cs" for n cs by (induction cs arbitrary: n) (simp_all add: F E split: option.split)
  then show "resolve s' = resolve s" by (intro ext)
  have "path_wf s' n cs = path_wf s n cs" for n cs by (induction cs arbitrary: n) (simp_all add: F E D split: option.split)
  then show "path_wf s' = path_wf s" by (intro ext)
qed

lemma dir_ids_zeros:
  "length b = 8 * j \<Longrightarrow> j < n \<Longrightarrow> 8 \<le> k \<Longrightarrow> dir_ids (b @ replicate k 0) n = dir_ids b j"
proof (induction j arbitrary: b n)
  case 0
  then obtain n' where "n = Suc n'" by (cases n) auto
  moreover have "take 8 (replicate k (0::u8)) = [0,0,0,0,0,0,0,0]" using 0 by (simp add: take_replicate min_def eval_nat_numeral)
  ultimately show ?case using 0 by (simp add: Let_def)
next
  case (Suc j)
  then obtain n' where n: "n = Suc n'" by (cases n) auto
  have "dir_ids (drop 8 b @ replicate k 0) n' = dir_ids (drop 8 b) j"
    using Suc.prems n by (intro Suc.IH) simp_all
  then show ?case using Suc.prems n by (simp add: Let_def)
qed

lemma strcmp_name:
  assumes "0 \<in> set (iname n)" "cstring w"
  shows "\<exists>d. strcmp (iname n) (w @ [0]) = Some d \<and> (d = 0 \<longleftrightarrow> entry_name n = w)"
proof -
  obtain r where r: "iname n = entry_name n @ 0 # r"
  proof -
    have "dropWhile (\<lambda>c. c \<noteq> 0) (iname n) \<noteq> []" using assms(1) by (simp add: dropWhile_eq_Nil_conv)
    then obtain c r where d: "dropWhile (\<lambda>c. c \<noteq> 0) (iname n) = c # r" by (cases "dropWhile (\<lambda>c. c \<noteq> 0) (iname n)") auto
    moreover from this have "c = 0" using hd_dropWhile[of "\<lambda>c. c \<noteq> 0" "iname n"] by simp
    ultimately have "iname n = entry_name n @ 0 # r" using takeWhile_dropWhile_id[of "\<lambda>c. c \<noteq> 0" "iname n"] by (simp add: entry_name_def)
    then show thesis by (rule that)
  qed
  have "cstring (entry_name n)" by (auto simp: cstring_def entry_name_def dest: set_takeWhileD)
  from strcmp_cstring[OF this assms(2), of r "[]"] r show ?thesis by simp
qed

lemma search_dir_ok:
  assumes "disk_ok s" "cache_ok s" "cstring w"
    "\<forall>i \<in> set is. 60 * unat i + 60 \<le> 512 * SECTORS \<and> 0 \<in> set (iname (disk_inode s (unat i)))"
  shows "\<exists>s'. search_dir b2 is w s = ret (find_entry s is w, s') \<and> cache_ok s' \<and> same_disk s s'"
  using assms
proof (induction "is" arbitrary: s)
  case (Cons i "is")
  obtain s1 where s1: "GrabInode b2 i s = ret (disk_inode s (unat i), s1)" "cache_ok s1" "same_disk s s1"
    using GrabInode_ok[OF Cons.prems(1,2), of i b2] Cons.prems(4) by auto
  note d = same_disk_inode[OF s1(3)] same_disk_tree[OF s1(3)]
  obtain e where e: "strcmp (iname (disk_inode s (unat i))) (w @ [0]) = Some e" "e = 0 \<longleftrightarrow> entry_name (disk_inode s (unat i)) = w"
    using strcmp_name[of "disk_inode s (unat i)" w] Cons.prems by auto
  obtain s2 where "search_dir b2 is w s1 = ret (find_entry s is w, s2)" "cache_ok s2" "same_disk s1 s2"
    using Cons.IH[of s1] Cons.prems s1 d by auto
  then show ?case using s1 e same_disk_trans[OF s1(3)] by (auto simp: Let_def)
qed auto

lemma lookup_in_ok:
  assumes ok: "disk_ok s" "cache_ok s" and n: "dir_wf s n" and w: "cstring w"
  shows "\<exists>s'. lookup_in b2 n w s = ret (find_entry s (entries_of s n) w, s') \<and> cache_ok s' \<and> same_disk s s'"
proof -
  have b: "in_bounds n" using n by (simp add: dir_wf_def)
  have "1 \<le> unat (chunklen n)" using n by (simp add: dir_wf_def unat_gt_0 Suc_le_eq)
  then have r: "InodeRead n 0 (replicate 4096 0) 0x200 s = ret (content s n 0 512 @ replicate 3584 0, s)"
    using InodeRead_ok[OF ok(1) b, of "0x200" 0 "replicate 4096 0"] by (simp add: overlay_def content_def)
  have "dir_ids (content s n 0 512 @ replicate 3584 0) 512 = entries_of s n"
    unfolding entries_of_def by (rule dir_ids_zeros) (simp_all add: content_def)
  moreover have "\<exists>s'. search_dir b2 (entries_of s n) w s = ret (find_entry s (entries_of s n) w, s') \<and> cache_ok s' \<and> same_disk s s'"
    by (rule search_dir_ok[OF ok w]) (use n in \<open>simp add: dir_wf_def\<close>)
  ultimately show ?thesis by (simp add: lookup_in_def r)
qed

lemma walk_ok:
  assumes "disk_ok s" "cache_ok s" "path_wf s n cs" "\<forall>c \<in> set cs. cstring c"
  shows "\<exists>s'. walk b2 n cs s = ret (resolve s n cs, s') \<and> cache_ok s' \<and> same_disk s s'"
  using assms
proof (induction cs arbitrary: n s)
  case (Cons c cs)
  obtain s1 where s1: "lookup_in b2 n c s = ret (find_entry s (entries_of s n) c, s1)" "cache_ok s1" "same_disk s s1"
    using lookup_in_ok[OF Cons.prems(1,2), of n c b2] Cons.prems(3,4) by auto
  note d = same_disk_inode[OF s1(3)] same_disk_tree[OF s1(3)]
  show ?case
  proof (cases "find_entry s (entries_of s n) c")
    case None
    then show ?thesis using s1 by auto
  next
    case (Some m)
    obtain s2 where "walk b2 m cs s1 = ret (resolve s m cs, s2)" "cache_ok s2" "same_disk s1 s2"
      using Cons.IH[of s1 m] Cons.prems Some s1 d by auto
    then show ?thesis using s1 Some same_disk_trans[OF s1(3)] by auto
  qed
qed auto

subsection \<open>Splitting a path\<close>

definition component :: "u8 list \<Rightarrow> bool" where
  "component c \<longleftrightarrow> c \<noteq> [] \<and> SLASH \<notin> set c \<and> cstring c"

definition path_of :: "u8 list list \<Rightarrow> u8 list" where
  "path_of cs = concat (map (\<lambda>c. SLASH # c) cs)"

lemma slash_groups_component: "SLASH \<notin> set c \<Longrightarrow> slash_groups (c @ r) = slash_groups r"
  by (induction c) auto

lemma component_dropWhile:
  "component c \<Longrightarrow> dropWhile (\<lambda>c. c = SLASH) (c @ r) = c @ r"
  by (cases c) (auto simp: component_def)

lemma slash_groups_path: "\<forall>c \<in> set cs. component c \<Longrightarrow> slash_groups (path_of cs) = Inr (length cs)"
proof (induction cs)
  case (Cons c cs)
  have c: "component c" using Cons.prems by simp
  then have "slash_groups (c @ path_of cs) = Inr (length cs)"
    using Cons slash_groups_component[of c] by (auto simp: component_def)
  then show ?case using c component_dropWhile[OF c, of "path_of cs"] by (auto simp: path_of_def component_def)
qed (simp add: path_of_def)

lemma slash_split:
  "SLASH \<notin> set c \<Longrightarrow> takeWhile (\<lambda>c. c \<noteq> SLASH) (c @ SLASH # r) = c \<and> dropWhile (\<lambda>c. c \<noteq> SLASH) (c @ SLASH # r) = SLASH # r"
  by (induction c) auto

lemma take_dirs_path:
  "\<forall>c \<in> set (cs @ [w]). component c \<Longrightarrow> take_dirs (length cs) (drop 1 (path_of (cs @ [w]))) = Some cs"
proof (induction cs)
  case (Cons c cs)
  have c: "SLASH \<notin> set c" using Cons.prems by (simp add: component_def)
  obtain r where r: "path_of (cs @ [w]) = SLASH # r" by (cases cs) (auto simp: path_of_def)
  have "dropWhile (\<lambda>c. c \<noteq> SLASH) (c @ SLASH # r) = SLASH # r" "takeWhile (\<lambda>c. c \<noteq> SLASH) (c @ SLASH # r) = c"
    using slash_split[OF c] by simp_all
  moreover have "take_dirs (length cs) r = Some cs" using Cons r by simp
  moreover have "drop 1 (path_of ((c # cs) @ [w])) = c @ SLASH # r" using r by (simp add: path_of_def)
  ultimately show ?case by simp
qed (simp add: path_of_def)

lemma last_part_path: "component w \<Longrightarrow> last_part (path_of (cs @ [w])) = Some w"
proof -
  assume w: "component w"
  have p: "path_of (cs @ [w]) = path_of cs @ SLASH # w" by (simp add: path_of_def)
  have "takeWhile (\<lambda>c. c \<noteq> SLASH) (rev w @ SLASH # rev (path_of cs)) = rev w"
    using w by (subst takeWhile_append2) (auto simp: component_def)
  then show ?thesis by (simp add: last_part_def p)
qed

lemma resolve_append: "resolve s n (cs @ ds) = (case resolve s n cs of None \<Rightarrow> None | Some m \<Rightarrow> resolve s m ds)"
  by (induction cs arbitrary: n) (auto split: option.split)

lemma path_wf_append: "path_wf s n (cs @ ds) \<Longrightarrow> path_wf s n cs \<and> (\<forall>m. resolve s n cs = Some m \<longrightarrow> path_wf s m ds)"
  by (induction cs arbitrary: n) (auto split: option.splits)

lemma getFile_path:
  assumes ok: "disk_ok s" "cache_ok s" and cs: "cs \<noteq> []" "\<forall>c \<in> set cs. component c" and wf: "path_wf s root cs"
  shows "\<exists>s'. getFileFromFilename b2 root (path_of cs) s = ret (resolve s root cs, s') \<and> cache_ok s' \<and> same_disk s s'"
proof -
  obtain ds w where ds: "cs = ds @ [w]" using cs(1) by (cases cs rule: rev_cases) auto
  have str: "\<forall>c \<in> set ds. cstring c" "cstring w" using cs(2) ds by (auto simp: component_def)
  note pw = path_wf_append[OF wf[unfolded ds]]
  obtain s1 where s1: "walk b2 root ds s = ret (resolve s root ds, s1)" "cache_ok s1" "same_disk s s1"
    using walk_ok[OF ok _ str(1)] pw by blast
  note d = same_disk_inode[OF s1(3)] same_disk_tree[OF s1(3)]
  have "slash_groups (path_of cs) = Inr (length cs)" by (rule slash_groups_path[OF cs(2)])
  moreover have "take_dirs (length cs - 1) (drop 1 (path_of cs)) = Some ds" using take_dirs_path[of ds w] cs(2) ds by simp
  moreover have "last_part (path_of cs) = Some w" using last_part_path[of w ds] cs(2) ds by simp
  ultimately have g: "getFileFromFilename b2 root (path_of cs) s =
      (case resolve s root ds of None \<Rightarrow> ret (None, s1) | Some dir \<Rightarrow> lookup_in b2 dir w s1)"
    by (simp add: getFileFromFilename_def s1)
  show ?thesis
  proof (cases "resolve s root ds")
    case None
    then show ?thesis using g s1 by (auto simp: ds resolve_append)
  next
    case (Some dir)
    then have "dir_wf s1 dir" using pw d by simp
    then obtain s2 where "lookup_in b2 dir w s1 = ret (find_entry s1 (entries_of s1 dir) w, s2)" "cache_ok s2" "same_disk s1 s2"
      using lookup_in_ok[of s1 dir w b2] ok d str s1 by auto
    then show ?thesis using g s1 Some d same_disk_trans[OF s1(3)] by (auto simp: ds resolve_append split: option.split)
  qed
qed



subsection \<open>Free inodes, free sectors and directory entries\<close>

lemma getI_from_ok:
  assumes ok: "disk_ok s" and j: "60 * j + 60 \<le> 512 * SECTORS" "chunklen (disk_inode s j) = 0" and ij: "i \<le> j"
    and used: "\<forall>k. i \<le> k \<and> k < j \<longrightarrow> chunklen (disk_inode s k) \<noteq> 0"
  shows "getI_from (page_of p, m) 0 (of_nat i) s = ret (of_nat j, s)"
  using ij used
proof (induction "j - i" arbitrary: i)
  case (0 i)
  then have "i = j" by simp
  have "readPLUS (of_nat (60 * i)) (of_nat 60) 0 (page_of p, m) s = ret (ldb (img s) (60 * i) 60, s)"
    using floppy.get[OF ok, of "60 * i" 60 p m] j \<open>i = j\<close> by simp
  then show ?case using j \<open>i = j\<close> by (subst getI_from.simps) (simp add: disk_inode_def mult.commute)
next
  case (Suc d i)
  have i: "60 * i + 60 \<le> 512 * SECTORS" using Suc.hyps(2) j by linarith
  have "readPLUS (of_nat (60 * i)) (of_nat 60) 0 (page_of p, m) s = ret (ldb (img s) (60 * i) 60, s)"
    using floppy.get[OF ok, of "60 * i" 60 p m] i by simp
  moreover have "chunklen (disk_inode s i) \<noteq> 0" using Suc by simp
  moreover have "getI_from (page_of p, m) 0 (of_nat (Suc i)) s = ret (of_nat j, s)"
    by (rule Suc.hyps(1)) (use Suc in auto)
  ultimately show ?case by (subst getI_from.simps) (simp add: disk_inode_def mult.commute add.commute)
qed

text \<open>\<open>getI\<close> returns the number of the first inode whose length is 0, if there is one on the disk: the
  search then ends, with the disk unchanged and the semaphore free.\<close>

theorem getI_first_free:
  assumes "disk_ok s" "60 * j + 60 \<le> 512 * SECTORS" "chunklen (disk_inode s j) = 0"
    "\<forall>k < j. chunklen (disk_inode s k) \<noteq> 0"
  shows "getI (page_of p, m) 0 s = ret (of_nat j, s)"
  using getI_from_ok[OF assms(1-3), of 0 p m] assms(4) by (simp add: getI_def)

definition one_file :: qfs where
  "one_file = blank\<lparr>medium := (medium blank)(geom 108 := encode_inode demo_file @ replicate 452 0)\<rparr>"

lemma demo_file_wf: "inode_wf demo_file"
  by (simp add: inode_wf_def demo_file_def zero_inode_def)

lemma one_file_ok: "disk_ok one_file" "disk_inode one_file 0 = demo_file" "disk_inode one_file 1 = zero_inode"
proof -
  have l: "length (encode_inode demo_file) = 60" by (rule length_encode_inode[OF demo_file_wf])
  have ld: "length (encode_inode demo_file @ replicate 452 0) = 512" using l by simp
  have e: "one_file = blank\<lparr>medium := (medium blank)(geom (108 + 0) := encode_inode demo_file @ replicate 452 0)\<rparr>"
    by (simp add: one_file_def)
  note P = sector_put[OF blank_ok(1) _ ld e]
  show "disk_ok one_file" using P by (simp add: SECTORS_def)
  have i: "img one_file k = (encode_inode demo_file @ replicate 452 0) ! k" if "k < 512" for k
    using P that by (simp add: SECTORS_def)
  have "ldb (img one_file) 0 60 = encode_inode demo_file"
    by (rule nth_equalityI) (use i l in \<open>simp_all add: nth_append\<close>)
  then show "disk_inode one_file 0 = demo_file" by (simp add: disk_inode_def decode_encode[OF demo_file_wf])
  have "ldb (img one_file) 60 60 = replicate 60 0"
    by (rule nth_equalityI) (use i l in \<open>simp_all add: nth_append\<close>)
  also have "\<dots> = encode_inode zero_inode"
    by (simp add: encode_inode_def zero_inode_def le_bytes_def eval_nat_numeral)
  finally show "disk_inode one_file 1 = zero_inode" by (simp add: disk_inode_def decode_encode inode_wf_def zero_inode_def)
qed

lemma getI_first_free_witness: "getI (page_of 0, []) 0 one_file = ret (1, one_file)"
  using getI_first_free[OF one_file_ok(1), of 1 0 "[]"] one_file_ok
  by (simp add: SECTORS_def demo_file_def zero_inode_def)

definition file_end :: "inode \<Rightarrow> nat" where
  "file_end n = unat (chunkaddr1 n) + unat (chunklen n)"

lemma scan_inodes_ok:
  assumes b: "\<forall>k. 60 * k + 60 \<le> 512 \<longrightarrow> take 60 (drop (60 * k) b) = ldb (img s) (60 * k) 60"
    and j: "j < 8" "chunklen (disk_inode s j) = 0"
  shows "i \<le> j \<Longrightarrow> j < i + n \<Longrightarrow> unat mx \<le> SECTORS \<Longrightarrow>
    \<forall>k. i \<le> k \<and> k < j \<longrightarrow> chunklen (disk_inode s k) \<noteq> 0 \<and> in_bounds (disk_inode s k) \<Longrightarrow>
    scan_inodes (drop (60 * i) b) n mx = (of_nat (fold max (map (\<lambda>k. file_end (disk_inode s k)) [i..<j]) (unat mx)), True)"
proof (induction "j - i" arbitrary: i n mx)
  case (0 i)
  then obtain n' where n: "n = Suc n'" by (cases n) auto
  have "decode_inode (take 60 (drop (60 * i) b)) = disk_inode s i" using b 0 j by (simp add: disk_inode_def)
  then show ?case using 0 j n by (simp add: INODE_SIZE_def)
next
  case (Suc d i)
  then obtain n' where n: "n = Suc n'" by (cases n) auto
  let ?a = "disk_inode s i"
  have a: "decode_inode (take 60 (drop (60 * i) b)) = ?a" using b Suc j by (simp add: disk_inode_def)
  have u: "chunklen ?a \<noteq> 0" "in_bounds ?a" using Suc by simp_all
  have e: "unat (chunkaddr1 ?a + chunklen ?a) = file_end ?a" "file_end ?a \<le> SECTORS"
    using u(2) by (simp_all add: in_bounds_def SECTORS_def file_end_def unat_word_ariths)
  have mx: "unat (max (ucast mx) (chunkaddr1 ?a + chunklen ?a) :: u64) = max (unat mx) (file_end ?a)"
    using e by (simp add: max_def word_le_nat_alt unat_ucast_up)
  then have mx': "unat (ucast (max (ucast mx) (chunkaddr1 ?a + chunklen ?a) :: u64) :: u32) = max (unat mx) (file_end ?a)"
    using e Suc.prems(3) by (simp add: unsigned_ucast_eq take_bit_eq_mod SECTORS_def)
  have "scan_inodes (drop (60 * Suc i) b) n' (ucast (max (ucast mx) (chunkaddr1 ?a + chunklen ?a))) =
      (of_nat (fold max (map (\<lambda>k. file_end (disk_inode s k)) [Suc i..<j]) (max (unat mx) (file_end ?a))), True)"
    using Suc.hyps(1)[of "Suc i" n' "ucast (max (ucast mx) (chunkaddr1 ?a + chunklen ?a))"] Suc.hyps(2) Suc.prems n e(2)
    unfolding mx' by auto
  moreover have "[i..<j] = i # [Suc i..<j]" using Suc.hyps(2) by (simp add: upt_conv_Cons)
  ultimately show ?case using a u n by (simp add: INODE_SIZE_def Let_def max.commute add.commute)
qed

lemma fold_max_ge: "(m :: nat) \<le> fold max xs m"
  by (induction xs arbitrary: m) (auto intro: order_trans[OF max.cobounded2])

lemma fold_max_elem: "x \<in> set xs \<Longrightarrow> x \<le> fold max xs (m :: nat)"
  by (induction xs arbitrary: m) (auto intro: order_trans[OF max.cobounded1 fold_max_ge])

lemma fold_max_in: "fold max xs (m :: nat) \<in> insert m (set xs)"
proof (induction xs arbitrary: m)
  case (Cons a xs)
  show ?case using Cons.IH[of "max a m"] by (auto simp: max_def split: if_splits)
qed simp

text \<open>\<open>getIS\<close> does not find free sectors: as long as fewer than eight inodes are in use, the place it
  returns for a new file of one or more sectors is inside the file that ends last.\<close>

theorem getIS_overlaps:
  assumes ok: "disk_ok s" and j: "0 < j" "j < 8" "chunklen (disk_inode s j) = 0"
    and used: "\<forall>k < j. chunklen (disk_inode s k) \<noteq> 0 \<and> in_bounds (disk_inode s k)" and sz: "0 < unat sz"
    and fitting: "\<forall>k < j. unat sz \<le> file_end (disk_inode s k)"
  shows "\<exists>at. getIS b 0 sz s = ret (at, s) \<and>
    (\<exists>k < j. unat (chunkaddr1 (disk_inode s k)) < unat at + unat sz \<and> unat at < file_end (disk_inode s k))"
proof -
  let ?E = "fold max (map (\<lambda>k. file_end (disk_inode s k)) [0..<j]) 0"
  have small: "file_end (disk_inode s k) \<le> SECTORS" if "k < j" for k using used that by (auto simp: in_bounds_def file_end_def)
  have "?E \<in> insert 0 (set (map (\<lambda>k. file_end (disk_inode s k)) [0..<j]))" by (rule fold_max_in)
  moreover have "file_end (disk_inode s 0) \<le> ?E" by (rule fold_max_elem) (use j in auto)
  moreover have "0 < file_end (disk_inode s 0)" using fitting sz j by fastforce
  ultimately obtain k where k: "k < j" "?E = file_end (disk_inode s k)" by auto
  have E: "?E \<le> SECTORS" using small k by simp
  have r: "read_disk 0 0 0x400 b s = Inr (overlay (ldb (img s) 0 1024) b)"
    using read_disk_img[OF ok, of 0 "0x400" b] by (simp add: SECTORS_def)
  let ?b = "overlay (ldb (img s) 0 1024) b"
  have "take 60 (drop (60 * k) ?b) = ldb (img s) (60 * k) 60" if "60 * k + 60 \<le> 512" for k
    using that ldb_sub[of "60 * k" 60 1024 "img s" 0] by (simp add: overlay_def)
  then have sc: "scan_inodes ?b 8 0 = (of_nat ?E, True)"
    using scan_inodes_ok[of ?b s j 0 8 0] j used by simp
  have "getIS b 0 sz s = ret (ucast (of_nat ?E :: u32) - sz, s)"
    using ok r sc by (simp add: getIS_def acquire_disk0_def disk_ok_def release_disk0_def getIS_from.simps)
  moreover have le: "unat sz \<le> ?E" using fitting k by simp
  moreover have "unat (ucast (of_nat ?E :: u32) - sz) = ?E - unat sz"
  proof -
    have "unat (ucast (of_nat ?E :: u32) :: u64) = ?E" using E by (simp add: unat_ucast_up unat_of_nat SECTORS_def)
    then show ?thesis using le by (simp add: unat_sub word_le_nat_alt)
  qed
  moreover have "0 < unat (chunklen (disk_inode s k))" using used k by (simp add: unat_gt_0)
  ultimately show ?thesis using k sz by (intro exI[of _ "ucast (of_nat ?E :: u32) - sz"] conjI exI[of _ k]) (auto simp: file_end_def)
qed

lemma getIS_overlaps_witness: "\<exists>at. getIS [] 0 1 one_file = ret (at, one_file) \<and> 20 < unat at + 1 \<and> unat at < 22"
proof -
  have "\<exists>at. getIS [] 0 1 one_file = ret (at, one_file) \<and> (\<exists>k < 1. unat (chunkaddr1 (disk_inode one_file k)) < unat at + unat (1 :: u64) \<and>
      unat at < file_end (disk_inode one_file k))"
    by (rule getIS_overlaps[OF one_file_ok(1)])
       (simp_all add: one_file_ok one_file_ok(3)[unfolded One_nat_def] demo_file_def zero_inode_def in_bounds_def SECTORS_def file_end_def)
  then show ?thesis by (auto simp: one_file_ok demo_file_def zero_inode_def file_end_def)
qed

subsection \<open>Adding a file to a directory\<close>

lemma first_zero_ok:
  assumes "length b = 8 * n"
  shows "first_zero b k n = (if length (dir_ids b n) < n then Some (k + length (dir_ids b n)) else None)"
  using assms by (induction b k n rule: first_zero.induct) (auto simp: Let_def)

lemma dir_ids_append:
  "length b = 8 * j \<Longrightarrow> dir_ids (b @ r) (j + n) = (if length (dir_ids b j) < j then dir_ids b j else dir_ids b j @ dir_ids r n)"
proof (induction j arbitrary: b)
  case (Suc j)
  then show ?case using Suc.IH[of "drop 8 b"] by (auto simp: Let_def)
qed simp

lemma dir_ids_length: "length (dir_ids b n) \<le> n"
  by (induction b n rule: dir_ids.induct) (auto simp: Let_def)

lemma dir_ids_take: "k \<le> length (dir_ids b n) \<Longrightarrow> k \<le> n \<Longrightarrow> dir_ids (take (8 * k) b) k = take k (dir_ids b n)"
proof (induction b n arbitrary: k rule: dir_ids.induct)
  case (2 b n)
  show ?case
  proof (cases k)
    case (Suc k')
    have nz: "(le_word (take 8 b) :: u64) \<noteq> 0" using 2 Suc by (auto simp: Let_def split: if_splits)
    then have "dir_ids (take (8 * k') (drop 8 b)) k' = take k' (dir_ids (drop 8 b) n)" using 2 Suc by (intro "2.IH") (auto simp: Let_def)
    then show ?thesis using Suc nz by (simp add: Let_def drop_take)
  qed simp
qed simp

lemma dir_ids_stop: "dir_ids r n = [] \<Longrightarrow> n = 0 \<or> (le_word (take 8 r) :: u64) = 0"
  by (cases n) (auto simp: Let_def split: if_splits)

text \<open>Replacing the terminating zero of a directory by a number appends the number.\<close>

lemma dir_ids_insert:
  assumes b: "length b = 8 * n" and k: "k = length (dir_ids b n)" "k + 1 < n" and z: "(le_word (take 8 (drop (8 * k + 8) b)) :: u64) = 0"
    and v: "v \<noteq> 0"
  shows "dir_ids (take (8 * k) b @ le_bytes 8 v @ drop (8 * k + 8) b) n = dir_ids b n @ [v]"
proof -
  have t: "dir_ids (take (8 * k) b) k = dir_ids b n" using dir_ids_take[of k b n] k by simp
  define n' where "n' = n - k - 2"
  have n': "n = k + Suc (Suc n')" using k(2) by (simp add: n'_def)
  have lt: "length (take (8 * k) b) = 8 * k" using b k(2) by simp
  have lk: "\<not> length (dir_ids (take (8 * k) b) k) < k" unfolding t using k(1) by simp
  have "dir_ids (take (8 * k) b @ (le_bytes 8 v @ drop (8 * k + 8) b)) (k + Suc (Suc n')) =
      dir_ids (take (8 * k) b) k @ dir_ids (le_bytes 8 v @ drop (8 * k + 8) b) (Suc (Suc n'))"
    unfolding dir_ids_append[OF lt] using lk by (simp only: if_False)
  also have "dir_ids (le_bytes 8 v @ drop (8 * k + 8) b) (Suc (Suc n')) = [v]"
    using v z by (simp add: le_word_bytes Let_def)
  finally show ?thesis unfolding t n'[symmetric] .
qed

lemma write_disk_sector:
  assumes ok: "disk_ok s" and al: "p AND 0xFFF = 0" and l: "unat l < SECTORS" and d: "512 \<le> length d"
  shows "\<exists>s'. write_disk l 0 512 (p, d) s = Inr s' \<and> disk_ok s' \<and> cache_same s s' \<and>
    (\<forall>k < 512 * SECTORS. img s' k = stb (512 * unat l) (take 512 d) (img s) k)"
proof -
  let ?s = "s\<lparr>medium := (medium s)(geom (108 + unat l) := take 512 d)\<rparr>"
  have ld: "length (take 512 d) = 512" using d by simp
  note P = sector_put[OF ok l ld refl]
  have "unat (LBA_FS_BASE + l) = 108 + unat l" using l by (simp add: LBA_FS_BASE_def SECTORS_def unat_word_ariths)
  then have "write_disk l 0 512 (p, d) s = Inr ?s"
    using al by (simp add: write_disk_def sector_write_def lba_2_chs_geom)
  moreover have "img ?s k = stb (512 * unat l) (take 512 d) (img s) k" if k: "k < 512 * SECTORS" for k
  proof (cases "k div 512 = unat l")
    case True
    then have "k = 512 * unat l + k mod 512" by (metis mult_div_mod_eq)
    then obtain r where r: "k = 512 * unat l + r" "r < 512" by (metis mod_less_divisor zero_less_numeral)
    then show ?thesis using P k True d stb_ldb_inside[of r "take 512 d" "512 * unat l" "img s"] by simp
  next
    case False
    have "k < 512 * unat l \<or> 512 * unat l + 512 \<le> k"
    proof (rule ccontr)
      assume "\<not> ?thesis"
      then have "k div 512 = unat l" by (intro div_nat_eqI) simp_all
      then show False using False by simp
    qed
    then show ?thesis using P k False d stb_outside[of k "512 * unat l" "take 512 d" "img s"] by auto
  qed
  ultimately show ?thesis using P by blast
qed

text \<open>\<open>addtoD\<close> on a directory of one sector that has room for another entry and its terminator appends
  the inode number to the entries of the directory, changes no byte outside its sector and drops the
  directory from the cache.\<close>

theorem addtoD_appends:
  assumes ok: "disk_ok s" and d: "chunklen (va dir) = 1" "in_bounds (va dir)" "vdisk dir = 0"
    and room: "length (entries_of s (va dir)) < 63"
    and zero: "(le_word (take 8 (drop (8 * length (entries_of s (va dir)) + 8) (content s (va dir) 0 512))) :: u64) = 0"
    and v: "vid f \<noteq> 0" and m: "length m = 4096"
  shows "\<exists>s'. addtoD (page_of p, m) dir f s = ret s' \<and> disk_ok s' \<and>
    entries_of s' (va dir) = entries_of s (va dir) @ [vid f] \<and> kINb_gb (unat (vid dir)) s' = None \<and>
    (\<forall>k < 512 * SECTORS. k div 512 \<noteq> unat (chunkaddr1 (va dir)) \<longrightarrow> img s' k = img s k)"
proof -
  let ?n = "va dir" and ?l = "unat (chunkaddr1 (va dir))" and ?e = "length (entries_of s (va dir))"
  let ?c = "content s ?n 0 512"
  have l: "?l < SECTORS" using d by (simp add: in_bounds_def)
  have ul: "unat (ucast (chunkaddr1 ?n) :: u32) = ?l" using l by (simp add: unsigned_ucast_eq take_bit_eq_mod SECTORS_def)
  have len: "(ucast (push_bit 9 (1 :: u64)) :: u16) = 512" by (simp add: push_bit_eq_mult)
  have r: "read_disk (ucast (chunkaddr1 ?n)) 0 512 m s = Inr (?c @ drop 512 m)"
    using read_disk_img[OF ok, of "ucast (chunkaddr1 ?n)" 512 m] l unfolding ul by (simp add: overlay_def content_def)
  let ?b = "?c @ drop 512 m"
  have lc: "length ?c = 8 * 64" by (simp add: content_def)
  have "length (dir_ids ?c 64) < 64" using room by (simp add: entries_of_def)
  then have ids: "dir_ids ?b 512 = entries_of s ?n" using dir_ids_append[OF lc, of "drop 512 m" 448] by (simp add: entries_of_def)
  have fz: "first_zero ?b 0 (length ?b div 8) = Some ?e"
    using first_zero_ok[of ?b 512 0] ids room m lc by simp
  let ?b' = "take (8 * ?e) ?b @ le_bytes 8 (vid f) @ drop (8 * ?e + 8) ?b"
  let ?c' = "take (8 * ?e) ?c @ le_bytes 8 (vid f) @ drop (8 * ?e + 8) ?c"
  have c': "take 512 ?b' = ?c'" "512 \<le> length ?b'" using room lc m by simp_all
  have al: "page_of p AND 0xFFF = 0" using page_of_aligned[of p] by (simp add: page_aligned_def)
  obtain s1 where s1: "write_disk (ucast (chunkaddr1 ?n)) 0 512 (page_of p, ?b') s = Inr s1" "disk_ok s1"
    "\<forall>k < 512 * SECTORS. img s1 k = stb (512 * ?l) ?c' (img s) k"
    using write_disk_sector[OF ok al _ c'(2), of "ucast (chunkaddr1 ?n)"] l unfolding ul c'(1) by blast
  let ?s2 = "kINb_invalidate (unat (vid dir)) s1"
  have sd: "same_disk s1 ?s2" by (simp add: kINb_invalidate_def same_disk_def)
  have "512 * ?l + 512 \<le> 512 * SECTORS" using l by simp
  moreover have "content s1 ?n 0 512 = ldb (img s1) (512 * ?l) 512" by (simp add: content_def)
  moreover have "ldb (img s1) (512 * ?l) 512 = ldb (stb (512 * ?l) ?c' (img s)) (512 * ?l) 512"
    by (rule ldb_cong) (use s1(3) calculation(1) in simp)
  ultimately have "content s1 ?n 0 512 = ldb (stb (512 * ?l) ?c' (img s)) (512 * ?l) 512" by (simp only:)
  also have "\<dots> = ?c'" by (rule ldb_stb_same) (use room lc in simp)
  finally have cc: "content s1 ?n 0 512 = ?c'" .
  have "dir_ids ?c' 64 = dir_ids ?c 64 @ [vid f]"
    by (rule dir_ids_insert) (use room zero v lc in \<open>simp_all add: entries_of_def\<close>)
  then have "entries_of s1 ?n = entries_of s ?n @ [vid f]" by (simp add: entries_of_def cc)
  moreover have "addtoD (page_of p, m) dir f s = ret ?s2"
    using r fz s1(1) d by (simp add: addtoD_def len Let_def)
  moreover have "kINb_gb (unat (vid dir)) ?s2 = None"
    by (simp add: kINb_invalidate_def kINb_gb_def zero_vnode_def cache_cap_def)
  moreover have "img ?s2 k = img s k" if "k < 512 * SECTORS" "k div 512 \<noteq> ?l" for k
  proof -
    have "k < 512 * ?l \<or> 512 * ?l + 512 \<le> k"
    proof (rule ccontr)
      assume "\<not> ?thesis"
      then have "k div 512 = ?l" by (intro div_nat_eqI) simp_all
      then show False using that by simp
    qed
    then have "stb (512 * ?l) ?c' (img s) k = img s k" using room lc by (intro stb_outside) auto
    then show ?thesis using s1(3) that same_disk_inode[OF sd] by simp
  qed
  ultimately show ?thesis using same_disk_inode[OF sd] same_disk_tree[OF sd] s1(2) by (intro exI[of _ ?s2]) simp
qed

definition demo_dir :: vnode where
  "demo_dir = \<lparr>va = demo_file\<lparr>chunklen := 1\<rparr>, vid = 7, vdisk = 0, vexists = True\<rparr>"

lemma demo_dir_fields: "chunklen (va demo_dir) = 1" "in_bounds (va demo_dir)" "vdisk demo_dir = 0" "vid demo_dir = 7"
  by (simp_all add: demo_dir_def demo_file_def in_bounds_def SECTORS_def)

lemma addtoD_appends_witness:
  "\<exists>s'. addtoD (page_of 0, replicate 4096 0) demo_dir \<lparr>va = zero_inode, vid = 5, vdisk = 0, vexists = True\<rparr> blank = ret s' \<and>
     entries_of s' (va demo_dir) = [5]"
proof -
  have c: "content blank (va demo_dir) 0 512 = replicate 512 0" by (rule nth_equalityI) (simp_all add: content_def blank_ok)
  have t8: "take 8 (replicate 512 (0::u8)) = [0,0,0,0,0,0,0,0]" by (simp add: take_replicate eval_nat_numeral)
  have "dir_ids b 64 = (let i = le_word (take 8 b) in if i = 0 then [] else i # dir_ids (drop 8 b) 63)" for b
    using dir_ids.simps(2)[of b 63] by (simp del: dir_ids.simps)
  then have e: "entries_of blank (va demo_dir) = []" unfolding entries_of_def c using t8 by (simp add: Let_def del: dir_ids.simps take_replicate)
  have z: "(le_word (take 8 (drop 8 (replicate 512 (0::u8)))) :: u64) = 0" by (simp add: eval_nat_numeral)
  have "\<exists>s'. addtoD (page_of 0, replicate 4096 0) demo_dir \<lparr>va = zero_inode, vid = 5, vdisk = 0, vexists = True\<rparr> blank = ret s' \<and> disk_ok s' \<and>
    entries_of s' (va demo_dir) = entries_of blank (va demo_dir) @ [vid \<lparr>va = zero_inode, vid = 5, vdisk = 0, vexists = True\<rparr>] \<and>
    kINb_gb (unat (vid demo_dir)) s' = None \<and>
    (\<forall>k < 512 * SECTORS. k div 512 \<noteq> unat (chunkaddr1 (va demo_dir)) \<longrightarrow> img s' k = img blank k)"
    by (rule addtoD_appends[OF blank_ok(1) demo_dir_fields(1-3)]) (use z in \<open>simp_all add: e c del: take_replicate drop_replicate\<close>)
  then show ?thesis by (auto simp: e)
qed

end
