(* ===== verification/Streams.thy ===== *)
theory Streams
  imports Proc Terminal
begin

section \<open>Standard streams (filesystem.c)\<close>

text \<open>
  A \<open>stdIO\<close> is one end of a stream: what is written to it goes into its own chain of buffers
  (\<open>bufferOut\<close> to \<open>bufferOutEnd\<close>), or to the screen when it is paired with the terminal; what is read
  from it comes out of the chain of the end it is paired with. A buffer holds at most 255 bytes.
  The objects live at the addresses \<open>malloc\<close> gave them.

  The two loops run one iteration at a time inside the semaphore of the chain, and the tasks of
  writer and reader interleave between the iterations: \<open>stdout_chunk\<close> and \<open>stdin_chunk\<close> are the
  bodies, and \<open>chan_step\<close> is their interleaving. \<open>STDOUTStream\<close> and \<open>STDINStream\<close> run the loops with
  nobody in between; the reader that finds the chain empty waits for a poke, which is the outcome
  \<open>Waiting\<close>.
\<close>

record stdFIFOBUF =
  fdata :: "u8 list"
  datac :: u8
  fnext :: addr

record stdIO =
  pairIn :: addr
  pairOut :: addr
  bufferOut :: addr
  bufferOutEnd :: addr
  iotype :: u64
  bufferSema :: addr
  waiter :: addr

record streams = sched +
  ios :: "addr \<Rightarrow> stdIO"
  fifos :: "addr \<Rightarrow> stdFIFOBUF"
  scr :: screen
  TermSP :: addr
  stdinSetup :: bool

definition upd_io :: "addr \<Rightarrow> (stdIO \<Rightarrow> stdIO) \<Rightarrow> 'a streams_scheme \<Rightarrow> 'a streams_scheme" where
  "upd_io p f s = s\<lparr>ios := (ios s)(p := f (ios s p))\<rparr>"

definition upd_fifo :: "addr \<Rightarrow> (stdFIFOBUF \<Rightarrow> stdFIFOBUF) \<Rightarrow> 'a streams_scheme \<Rightarrow> 'a streams_scheme" where
  "upd_fifo p f s = s\<lparr>fifos := (fifos s)(p := f (fifos s p))\<rparr>"

text \<open>Writing bytes into a buffer from an offset on, and moving its contents to the front.\<close>

definition put_at :: "nat \<Rightarrow> 'b list \<Rightarrow> 'b list \<Rightarrow> 'b list" where
  "put_at k xs b = take k b @ xs @ drop (k + length xs) b"

definition shift_out :: "nat \<Rightarrow> 'b list \<Rightarrow> 'b list" where
  "shift_out n b = take (255 - n) (drop n b) @ drop (255 - n) b"

subsection \<open>One iteration of the loops\<close>

type_synonym 's mallocs = "'s \<Rightarrow> (addr \<times> 's) run"
type_synonym 's frees = "addr \<Rightarrow> 's \<Rightarrow> 's run"

definition stdout_chunk :: "'a streams_scheme mallocs \<Rightarrow> addr \<Rightarrow> u8 list \<Rightarrow> 'a streams_scheme \<Rightarrow>
    (u8 list \<times> 'a streams_scheme) run" where
  "stdout_chunk mal a buf s =
     (let e = bufferOutEnd (ios s a); d = datac (fifos s e) in
      if d \<noteq> 255
      then let n = min (unat (255 - d)) (length buf)
           in ret (drop n buf, upd_fifo e (\<lambda>b. b\<lparr>fdata := put_at (unat d) (take n buf) (fdata b), datac := d + of_nat n\<rparr>) s)
      else let n = min 255 (length buf)
           in bindR (mal s) (\<lambda>(p, s).
              let s = upd_fifo e (\<lambda>b. b\<lparr>fnext := p\<rparr>) s;
                  s = upd_fifo p (\<lambda>b. b\<lparr>datac := of_nat n, fdata := put_at 0 (take n buf) (fdata b)\<rparr>) s
              in ret (drop n buf, upd_io a (\<lambda>io. io\<lparr>bufferOutEnd := p\<rparr>) s)))"

definition stdin_chunk :: "'a streams_scheme frees \<Rightarrow> addr \<Rightarrow> nat \<Rightarrow> 'a streams_scheme \<Rightarrow>
    (u8 list \<times> bool \<times> 'a streams_scheme) run" where
  "stdin_chunk fre a len s =
     (let w = pairIn (ios s a); io = ios s w; b = bufferOut io;
          n = min (unat (datac (fifos s b))) len in
      if n = 0
      then if b \<noteq> bufferOutEnd io
           then bindR (fre b (upd_io w (\<lambda>io. io\<lparr>bufferOut := fnext (fifos s b)\<rparr>) s)) (\<lambda>s. ret ([], False, s))
           else ret ([], True, s)
      else ret (take n (fdata (fifos s b)), False,
                upd_fifo b (\<lambda>b. b\<lparr>fdata := shift_out n (fdata b), datac := datac b - of_nat n\<rparr>) s))"

subsection \<open>The loops\<close>

partial_function (option) stdout_loop :: "'a streams_scheme mallocs \<Rightarrow> addr \<Rightarrow> u8 list \<Rightarrow> 'a streams_scheme \<Rightarrow>
    'a streams_scheme run" where
  "stdout_loop mal a buf s =
     (if buf = [] then ret s
      else bindR (stdout_chunk mal a buf s) (\<lambda>(buf, s). stdout_loop mal a buf s))"

datatype read_end = Complete | Closed | Waiting

partial_function (option) stdin_loop :: "'a streams_scheme frees \<Rightarrow> addr \<Rightarrow> nat \<Rightarrow> u8 list \<Rightarrow> 'a streams_scheme \<Rightarrow>
    (u8 list \<times> read_end \<times> 'a streams_scheme) run" where
  "stdin_loop fre a len got s =
     (if len = 0 then ret (got, Complete, s)
      else if pairIn (ios s a) = 0 then ret (got, Closed, s)
      else bindR (stdin_chunk fre a len s) (\<lambda>(bs, relent, s).
             if relent then ret (got, Waiting, s)
             else stdin_loop fre a (len - length bs) (got @ bs) s))"

definition STDOUTStream :: "'a streams_scheme mallocs \<Rightarrow> addr \<Rightarrow> u8 list \<Rightarrow> 'a streams_scheme \<Rightarrow> 'a streams_scheme run" where
  "STDOUTStream mal a buf s =
     (let p = pairOut (ios s a) in
      if p \<noteq> 0 \<and> iotype (ios s p) = 1 then ret (s\<lparr>scr := write_to_screen buf (scr s)\<rparr>)
      else stdout_loop mal a buf s)"

text \<open>A read from an end that is paired with nothing fills the buffer with zeros.\<close>

definition STDINStream :: "'a streams_scheme frees \<Rightarrow> addr \<Rightarrow> nat \<Rightarrow> 'a streams_scheme \<Rightarrow>
    (u8 list \<times> read_end \<times> 'a streams_scheme) run" where
  "STDINStream fre a len s =
     (if pairIn (ios s a) = 0 then ret (replicate len 0, Complete, s)
      else stdin_loop fre a len [] s)"

subsection \<open>The chain as a queue\<close>

text \<open>
  \<open>fifo_chain s p e ps\<close>: the buffers \<open>ps\<close> lead from \<open>p\<close> to \<open>e\<close>. The bytes in the chain are the filled
  parts of its buffers.
\<close>

fun fifo_chain :: "'a streams_scheme \<Rightarrow> addr \<Rightarrow> addr \<Rightarrow> addr list \<Rightarrow> bool" where
  "fifo_chain s p e [] \<longleftrightarrow> False"
| "fifo_chain s p e [q] \<longleftrightarrow> p = q \<and> e = q"
| "fifo_chain s p e (q # r # ps) \<longleftrightarrow> p = q \<and> q \<noteq> e \<and> fifo_chain s (fnext (fifos s q)) e (r # ps)"

definition filled :: "stdFIFOBUF \<Rightarrow> u8 list" where
  "filled b = take (unat (datac b)) (fdata b)"

definition bytes_of :: "'a streams_scheme \<Rightarrow> addr list \<Rightarrow> u8 list" where
  "bytes_of s ps = concat (map (\<lambda>p. filled (fifos s p)) ps)"

definition buf_ok :: "stdFIFOBUF \<Rightarrow> bool" where
  "buf_ok b \<longleftrightarrow> length (fdata b) = 256"

lemma filled_put_at:
  assumes "buf_ok b" "n \<le> unat (255 - datac b)" "length xs = n"
  shows "filled (b\<lparr>fdata := put_at (unat (datac b)) xs (fdata b), datac := datac b + of_nat n\<rparr>) = filled b @ xs \<and>
    buf_ok (b\<lparr>fdata := put_at (unat (datac b)) xs (fdata b), datac := datac b + of_nat n\<rparr>)"
proof -
  have d: "unat (255 - datac b) = 255 - unat (datac b)" "unat (datac b) \<le> 255"
    using unat_bounds(1)[of "datac b"] by (simp_all add: unat_sub word_le_nat_alt)
  then have "unat (datac b + of_nat n) = unat (datac b) + n"
    using assms(2) by (simp add: unat_word_ariths unat_of_nat_small)
  then show ?thesis using assms d by (simp add: filled_def buf_ok_def put_at_def)
qed

lemma filled_new:
  assumes "buf_ok b" "length xs = n" "n \<le> 255"
  shows "filled (b\<lparr>datac := of_nat n, fdata := put_at 0 xs (fdata b)\<rparr>) = xs \<and>
    buf_ok (b\<lparr>datac := of_nat n, fdata := put_at 0 xs (fdata b)\<rparr>)"
  using assms by (simp add: filled_def buf_ok_def put_at_def unat_of_nat_small)

lemma filled_shift:
  assumes "buf_ok b" "n \<le> unat (datac b)"
  shows "filled b = take n (fdata b) @ filled (b\<lparr>fdata := shift_out n (fdata b), datac := datac b - of_nat n\<rparr>) \<and>
    buf_ok (b\<lparr>fdata := shift_out n (fdata b), datac := datac b - of_nat n\<rparr>)"
proof -
  have d: "unat (datac b) \<le> 255" using unat_bounds(1)[of "datac b"] by simp
  then have "unat (of_nat n :: u8) = n" using assms(2) by (intro unat_of_nat_small) simp
  then have u: "unat (datac b - of_nat n) = unat (datac b) - n" using assms(2) by (simp add: unat_sub word_le_nat_alt)
  have "take (unat (datac b)) (fdata b) = take n (fdata b) @ take (unat (datac b) - n) (drop n (fdata b))"
    by (metis assms(2) le_add_diff_inverse take_add)
  moreover have "take (unat (datac b) - n) (shift_out n (fdata b)) = take (unat (datac b) - n) (drop n (fdata b))"
    using assms d by (auto simp: shift_out_def buf_ok_def min_def)
  ultimately show ?thesis using u assms d by (simp add: filled_def buf_ok_def shift_out_def)
qed

lemma fifo_chain_ends: "fifo_chain s p e ps \<Longrightarrow> ps \<noteq> [] \<and> hd ps = p \<and> last ps = e"
  by (induction s p e ps rule: fifo_chain.induct) auto

lemma fifo_chain_cong:
  "(\<And>q. q \<in> set ps \<Longrightarrow> q \<noteq> e \<Longrightarrow> fnext (fifos s' q) = fnext (fifos s q)) \<Longrightarrow> fifo_chain s' p e ps = fifo_chain s p e ps"
  by (induction s p e ps rule: fifo_chain.induct) auto

lemma fifo_chain_extend:
  assumes "fifo_chain s p e ps" "q \<notin> set ps" "distinct ps"
    and "\<And>x. x \<in> set ps \<Longrightarrow> fnext (fifos s' x) = (if x = e then q else fnext (fifos s x))"
  shows "fifo_chain s' p q (ps @ [q])"
  using assms
proof (induction s p e ps rule: fifo_chain.induct)
  case (3 s p e x y ps)
  then have "fifo_chain s' (fnext (fifos s' x)) q ((y # ps) @ [q])" by auto
  then show ?case using 3 by auto
qed auto

lemma bytes_of_cong: "(\<And>p. p \<in> set ps \<Longrightarrow> filled (fifos s' p) = filled (fifos s p)) \<Longrightarrow> bytes_of s' ps = bytes_of s ps"
  unfolding bytes_of_def by (rule arg_cong[where f = concat], rule map_cong) simp_all

lemma bytes_of_simps [simp]: "bytes_of s [] = []" "bytes_of s (p # ps) = filled (fifos s p) @ bytes_of s ps"
  "bytes_of s (ps @ qs) = bytes_of s ps @ bytes_of s qs"
  by (simp_all add: bytes_of_def)

lemma io_upd_fields [simp]:
  "ios (upd_io p f s) = (ios s)(p := f (ios s p))" "fifos (upd_io p f s) = fifos s"
  "ios (upd_fifo p g s) = ios s" "fifos (upd_fifo p g s) = (fifos s)(p := g (fifos s p))"
  by (simp_all add: upd_io_def upd_fifo_def)

subsection \<open>A queue of bytes between two tasks\<close>

text \<open>
  The interface a reader and a writer rely on. \<open>rep s q k\<close>: the state holds the bytes \<open>q\<close> in \<open>k\<close>
  buffers. A write may stop with a fault; if it returns it has taken a first part of the bytes. A read
  always returns.
\<close>

locale channel =
  fixes put :: "u8 list \<Rightarrow> 's \<Rightarrow> (u8 list \<times> 's) run"
    and get :: "nat \<Rightarrow> 's \<Rightarrow> (u8 list \<times> bool \<times> 's) run"
    and rep :: "'s \<Rightarrow> u8 list \<Rightarrow> nat \<Rightarrow> bool"
  assumes put: "rep s q k \<Longrightarrow> xs \<noteq> [] \<Longrightarrow> put xs s = ret (ys, s') \<Longrightarrow>
      \<exists>zs k'. zs \<noteq> [] \<and> xs = zs @ ys \<and> rep s' (q @ zs) k'"
    and get: "rep s q k \<Longrightarrow> 0 < n \<Longrightarrow>
      \<exists>ys w s' q' k'. get n s = ret (ys, w, s') \<and> q = ys @ q' \<and> length ys \<le> n \<and> rep s' q' k' \<and>
        (w \<longrightarrow> q = [] \<and> ys = []) \<and> (\<not> w \<longrightarrow> ys \<noteq> [] \<or> k' < k)"

text \<open>A configuration: what is still to be written, what was read, how much is still wanted, the state.\<close>

type_synonym 's config = "u8 list \<times> u8 list \<times> nat \<times> 's"

inductive chan_step :: "(u8 list \<Rightarrow> 's \<Rightarrow> (u8 list \<times> 's) run) \<Rightarrow> (nat \<Rightarrow> 's \<Rightarrow> (u8 list \<times> bool \<times> 's) run) \<Rightarrow>
    's config \<Rightarrow> 's config \<Rightarrow> bool" for put get where
  write_step: "xs \<noteq> [] \<Longrightarrow> put xs s = ret (ys, s') \<Longrightarrow> chan_step put get (xs, got, want, s) (ys, got, want, s')"
| read_step: "0 < want \<Longrightarrow> get want s = ret (ys, w, s') \<Longrightarrow>
    chan_step put get (xs, got, want, s) (xs, got @ ys, want - length ys, s')"

inductive_cases chan_stepE: "chan_step put get c c'"

context channel begin

lemma step_keeps:
  assumes "chan_step put get (xs, got, want, s) (xs', got', want', s')" "rep s q k"
  shows "\<exists>q' k'. rep s' q' k' \<and> got' @ q' @ xs' = got @ q @ xs \<and> length got' + want' = length got + want"
  using assms(1)
proof (cases rule: chan_step.cases)
  case write_step
  from put[OF assms(2) write_step(3,4)] show ?thesis using write_step by auto
next
  case (read_step ys w)
  from get[OF assms(2) read_step(4)] show ?thesis using read_step by fastforce
qed

lemma steps_keep:
  assumes "(chan_step put get)\<^sup>*\<^sup>* (xs, got, want, s) (xs', got', want', s')" "rep s q k"
  shows "\<exists>q' k'. rep s' q' k' \<and> got' @ q' @ xs' = got @ q @ xs \<and> length got' + want' = length got + want"
  using assms
proof (induction "(xs', got', want', s')" arbitrary: xs' got' want' s' rule: rtranclp_induct)
  case base
  then show ?case by auto
next
  case (step c)
  obtain xs1 got1 want1 s1 where c: "c = (xs1, got1, want1, s1)" by (cases c) auto
  from step(3)[OF c step(4)] obtain q1 k1 where "rep s1 q1 k1" "got1 @ q1 @ xs1 = got @ q @ xs" "length got1 + want1 = length got + want"
    by blast
  with step_keeps[of xs1 got1 want1 s1 xs' got' want' s' q1 k1] step(2) c show ?case by auto
qed

text \<open>What has been read is a first part of the message, and a finished reader has all it asked for.\<close>

lemma in_order:
  assumes "(chan_step put get)\<^sup>*\<^sup>* (xs, [], n, s) (xs', got, want, s')" "rep s [] k"
  shows "(\<exists>rest. xs = got @ rest) \<and> (want = 0 \<longrightarrow> got = take n xs)"
proof -
  obtain q where "got @ q @ xs' = xs" "length got + want = n" using steps_keep[OF assms] by auto
  then show ?thesis by auto
qed

end

subsection \<open>The chain implements the queue\<close>

locale stream_heap =
  fixes mal :: "'a streams_scheme mallocs"
    and fre :: "'a streams_scheme frees"
    and owns :: "'a streams_scheme \<Rightarrow> addr set \<Rightarrow> bool"
  assumes mal_returns: "owns s A \<Longrightarrow> mal s \<noteq> None"
    and mal: "owns s A \<Longrightarrow> mal s = ret (p, s') \<Longrightarrow>
      p \<notin> A \<and> p \<noteq> 0 \<and> owns s' (insert p A) \<and> ios s' = ios s \<and> fifos s' = fifos s"
    and fre: "owns s A \<Longrightarrow> p \<in> A \<Longrightarrow> \<exists>s'. fre p s = ret s' \<and> owns s' (A - {p}) \<and> ios s' = ios s \<and> fifos s' = fifos s"
    and upd_owns: "owns (upd_io p f s) A = owns s A" "owns (upd_fifo p g s) A = owns s A"

definition pipe :: "('a streams_scheme \<Rightarrow> addr set \<Rightarrow> bool) \<Rightarrow> addr \<Rightarrow> addr \<Rightarrow> 'a streams_scheme \<Rightarrow> u8 list \<Rightarrow> nat \<Rightarrow> bool" where
  "pipe owns a r s q k \<longleftrightarrow> (\<exists>A ps. owns s A \<and> set ps \<subseteq> A \<and> distinct ps \<and> k = length ps \<and> (\<forall>p. buf_ok (fifos s p)) \<and>
     a \<noteq> 0 \<and> pairIn (ios s r) = a \<and> fifo_chain s (bufferOut (ios s a)) (bufferOutEnd (ios s a)) ps \<and> q = bytes_of s ps)"

context stream_heap begin

lemma put_ok:
  assumes P: "pipe owns a r s q k" and xs: "xs \<noteq> []" and r: "stdout_chunk mal a xs s = ret (ys, s')"
  shows "\<exists>zs k'. zs \<noteq> [] \<and> xs = zs @ ys \<and> pipe owns a r s' (q @ zs) k'"
proof -
  obtain A ps where A: "owns s A" "set ps \<subseteq> A" "distinct ps" "k = length ps" "\<forall>p. buf_ok (fifos s p)" "a \<noteq> 0" "pairIn (ios s r) = a"
    and ch: "fifo_chain s (bufferOut (ios s a)) (bufferOutEnd (ios s a)) ps" and q: "q = bytes_of s ps"
    using P by (auto simp: pipe_def)
  let ?e = "bufferOutEnd (ios s a)" let ?d = "datac (fifos s ?e)"
  obtain qs where qs: "ps = qs @ [?e]" using fifo_chain_ends[OF ch] by (metis append_butlast_last_id)
  have eq: "?e \<notin> set qs" using A(3) qs by auto
  show ?thesis
  proof (cases "?d = 255")
    case False
    let ?n = "min (unat (255 - ?d)) (length xs)"
    let ?g = "\<lambda>b. b\<lparr>fdata := put_at (unat ?d) (take ?n xs) (fdata b), datac := ?d + of_nat ?n\<rparr>"
    have s': "s' = upd_fifo ?e ?g s" "ys = drop ?n xs" using r False by (auto simp: stdout_chunk_def Let_def)
    have f: "filled (?g (fifos s ?e)) = filled (fifos s ?e) @ take ?n xs \<and> buf_ok (?g (fifos s ?e))"
      using filled_put_at[of "fifos s ?e" ?n "take ?n xs"] A(5) by simp
    have "255 - ?d \<noteq> 0" using False by (metis eq_iff_diff_eq_0)
    then have "0 < unat (255 - ?d)" unfolding unat_gt_0 .
    then have n: "?n \<noteq> 0" using xs by simp
    have "fifo_chain s' (bufferOut (ios s' a)) (bufferOutEnd (ios s' a)) ps"
      using ch fifo_chain_cong[of ps ?e s' s "bufferOut (ios s a)"] by (simp add: s')
    moreover have "bytes_of s' ps = q @ take ?n xs"
    proof -
      have b: "bytes_of s' qs = bytes_of s qs" by (rule bytes_of_cong) (use eq in \<open>auto simp: s'\<close>)
      have "fifos s' ?e = ?g (fifos s ?e)" by (simp add: s')
      then show ?thesis unfolding q qs bytes_of_simps b using f by simp
    qed
    moreover have "\<forall>p. buf_ok (fifos s' p)" using A(5) f by (simp add: s')
    moreover have "owns s' A" using A(1) upd_owns by (simp add: s')
    ultimately have "pipe owns a r s' (q @ take ?n xs) k"
      unfolding pipe_def using A s' by (intro exI[of _ A] exI[of _ ps]) simp
    moreover have "xs = take ?n xs @ ys" using s' by simp
    moreover have "take ?n xs \<noteq> []" using n xs by simp
    ultimately show ?thesis by blast
  next
    case True
    let ?n = "min 255 (length xs)"
    obtain p s1 where m: "mal s = ret (p, s1)"
      and s': "s' = upd_io a (\<lambda>io. io\<lparr>bufferOutEnd := p\<rparr>)
        (upd_fifo p (\<lambda>b. b\<lparr>datac := of_nat ?n, fdata := put_at 0 (take ?n xs) (fdata b)\<rparr>) (upd_fifo ?e (\<lambda>b. b\<lparr>fnext := p\<rparr>) s1))"
      and ys: "ys = drop ?n xs"
      using r True by (auto simp: stdout_chunk_def Let_def bindR_ret_iff)
    note M = mal[OF A(1) m]
    have pp: "p \<notin> set ps" "p \<noteq> ?e" using M A(2) qs by auto
    have F: "fifos s' = (fifos s)(?e := (fifos s ?e)\<lparr>fnext := p\<rparr>,
        p := (fifos s p)\<lparr>datac := of_nat ?n, fdata := put_at 0 (take ?n xs) (fdata (fifos s p))\<rparr>)"
      using M pp by (simp add: s')
    have I: "ios s' = (ios s)(a := (ios s a)\<lparr>bufferOutEnd := p\<rparr>)" using M by (simp add: s')
    have nf: "filled (fifos s' p) = take ?n xs \<and> buf_ok (fifos s' p)"
      using filled_new[of "fifos s p" "take ?n xs" ?n] A(5) by (simp add: F)
    have same: "filled (fifos s' x) = filled (fifos s x)" if "x \<in> set ps" for x
      using that pp by (auto simp: F filled_def)
    have "fifo_chain s' (bufferOut (ios s a)) p (ps @ [p])"
      by (rule fifo_chain_extend[OF ch pp(1) A(3)]) (use pp in \<open>auto simp: F\<close>)
    then have "fifo_chain s' (bufferOut (ios s' a)) (bufferOutEnd (ios s' a)) (ps @ [p])" by (simp add: I)
    moreover have "bytes_of s' (ps @ [p]) = q @ take ?n xs" using nf bytes_of_cong[OF same] q by simp
    moreover have "\<forall>x. buf_ok (fifos s' x)" using A(5) nf by (simp add: F buf_ok_def)
    moreover have "owns s' (insert p A)" using M upd_owns by (simp add: s')
    moreover have "pairIn (ios s' r) = a" using A by (auto simp: I)
    ultimately have "pipe owns a r s' (q @ take ?n xs) (Suc k)"
      unfolding pipe_def using A pp by (intro exI[of _ "insert p A"] exI[of _ "ps @ [p]"]) auto
    moreover have "xs = take ?n xs @ ys" using ys by simp
    moreover have "take ?n xs \<noteq> []" using xs by simp
    ultimately show ?thesis by blast
  qed
qed

lemma get_ok:
  assumes P: "pipe owns a r s q k" and n: "0 < n"
  shows "\<exists>ys w s' q' k'. stdin_chunk fre r n s = ret (ys, w, s') \<and> q = ys @ q' \<and> length ys \<le> n \<and> pipe owns a r s' q' k' \<and>
        (w \<longrightarrow> q = [] \<and> ys = []) \<and> (\<not> w \<longrightarrow> ys \<noteq> [] \<or> k' < k)"
proof -
  obtain A ps where A: "owns s A" "set ps \<subseteq> A" "distinct ps" "k = length ps" "\<forall>p. buf_ok (fifos s p)" "a \<noteq> 0" "pairIn (ios s r) = a"
    and ch: "fifo_chain s (bufferOut (ios s a)) (bufferOutEnd (ios s a)) ps" and q: "q = bytes_of s ps"
    using P by (auto simp: pipe_def)
  let ?b = "bufferOut (ios s a)" let ?m = "min (unat (datac (fifos s ?b))) n"
  obtain qs where qs: "ps = ?b # qs" using fifo_chain_ends[OF ch] by (cases ps) auto
  show ?thesis
  proof (cases "?m = 0")
    case False
    let ?g = "\<lambda>b. b\<lparr>fdata := shift_out ?m (fdata b), datac := datac b - of_nat ?m\<rparr>"
    let ?s = "upd_fifo ?b ?g s"
    have r: "stdin_chunk fre r n s = ret (take ?m (fdata (fifos s ?b)), False, ?s)"
      by (simp only: stdin_chunk_def Let_def A(7) False if_False)
    have f: "filled (fifos s ?b) = take ?m (fdata (fifos s ?b)) @ filled (?g (fifos s ?b)) \<and> buf_ok (?g (fifos s ?b))"
      by (rule filled_shift) (use A in auto)
    have l: "length (take ?m (fdata (fifos s ?b))) = ?m"
      using A(5) unat_bounds(1)[of "datac (fifos s ?b)"] by (simp add: buf_ok_def)
    have "fifo_chain ?s (bufferOut (ios ?s a)) (bufferOutEnd (ios ?s a)) ps"
      using ch fifo_chain_cong[of ps "bufferOutEnd (ios s a)" ?s s ?b] by simp
    moreover have "q = take ?m (fdata (fifos s ?b)) @ bytes_of ?s ps"
    proof -
      have b: "bytes_of ?s qs = bytes_of s qs" by (rule bytes_of_cong) (use A(3) qs in auto)
      have "filled (fifos ?s ?b) = filled (?g (fifos s ?b))" by simp
      then show ?thesis unfolding q qs bytes_of_simps b using f by simp
    qed
    moreover have "pipe owns a r ?s (bytes_of ?s ps) k"
      unfolding pipe_def using A f calculation(1) upd_owns by (intro exI[of _ A] exI[of _ ps]) simp
    ultimately show ?thesis using r l False by (intro exI conjI) auto
  next
    case True
    then have e: "filled (fifos s ?b) = []" using n by (simp add: filled_def min_def split: if_splits)
    show ?thesis
    proof (cases "?b = bufferOutEnd (ios s a)")
      case single: True
      have "qs = []" using ch single A(3) unfolding qs by (cases qs) auto
      then have "q = []" using q qs e by simp
      moreover have "stdin_chunk fre r n s = ret ([], True, s)" using True single A by (simp add: stdin_chunk_def Let_def)
      ultimately show ?thesis using P by auto
    next
      case more: False
      let ?s0 = "upd_io a (\<lambda>io. io\<lparr>bufferOut := fnext (fifos s ?b)\<rparr>) s"
      have ba: "?b \<in> A" using A qs by auto
      obtain s1 where s1: "fre ?b ?s0 = ret s1" "owns s1 (A - {?b})" "ios s1 = ios ?s0" "fifos s1 = fifos ?s0"
        using fre[of ?s0 A ?b] A(1) ba upd_owns by auto
      obtain c cs where cs: "qs = c # cs" using ch more unfolding qs by (cases qs) auto
      have "fifo_chain s (fnext (fifos s ?b)) (bufferOutEnd (ios s a)) qs" using ch unfolding qs cs by simp
      then have "fifo_chain s1 (bufferOut (ios s1 a)) (bufferOutEnd (ios s1 a)) qs"
        using fifo_chain_cong[of qs "bufferOutEnd (ios s a)" s1 s "fnext (fifos s ?b)"] s1 by simp
      moreover have "bytes_of s1 qs = q" using bytes_of_cong[of qs s1 s] s1 e unfolding q qs by simp
      ultimately have "pipe owns a r s1 q (length qs)"
        unfolding pipe_def using A s1 qs by (intro exI[of _ "A - {?b}"] exI[of _ qs]) auto
      moreover have "stdin_chunk fre r n s = ret ([], False, s1)" using True more A s1 by (simp add: stdin_chunk_def Let_def)
      ultimately show ?thesis using A(4) qs by (intro exI[of _ "[]"] exI[of _ False] exI[of _ s1] exI[of _ q] exI[of _ "length qs"]) simp
    qed
  qed
qed

lemma pipe_owns: "pipe owns a r s q k \<Longrightarrow> \<exists>A. owns s A"
  by (auto simp: pipe_def)

lemma pipe_open: "pipe owns a r s q k \<Longrightarrow> pairIn (ios s r) = a \<and> a \<noteq> 0"
  by (auto simp: pipe_def)

lemma chunk_returns:
  assumes "pipe owns a r s q k"
  shows "stdout_chunk mal a xs s \<noteq> None"
proof -
  obtain A where "owns s A" using pipe_owns[OF assms] by blast
  then have "mal s \<noteq> None" by (rule mal_returns)
  then show ?thesis by (auto simp: stdout_chunk_def Let_def bindR_def ret_def split: option.splits sum.splits prod.splits)
qed

text \<open>A write ends; unless the heap is exhausted it has appended every byte.\<close>

lemma write_ok:
  assumes "pipe owns a r s q k"
  shows "\<exists>res. stdout_loop mal a xs s = Some res \<and> (\<forall>s'. res = Inr s' \<longrightarrow> (\<exists>k'. pipe owns a r s' (q @ xs) k'))"
  using assms
proof (induction "length xs" arbitrary: xs s q k rule: less_induct)
  case less
  show ?case
  proof (cases "xs = []")
    case True
    then show ?thesis using less.prems by (auto simp: stdout_loop.simps ret_def)
  next
    case False
    obtain c where c: "stdout_chunk mal a xs s = Some c" using chunk_returns[OF less.prems] by blast
    show ?thesis
    proof (cases c)
      case (Inl e)
      then show ?thesis using False c by (simp add: stdout_loop.simps[of _ _ xs] bindR_def)
    next
      case (Inr ys)
      obtain ys s1 where y: "stdout_chunk mal a xs s = ret (ys, s1)" using c Inr by (cases ys) (auto simp: ret_def)
      from put_ok[OF less.prems False this] obtain zs k' where z: "zs \<noteq> []" "xs = zs @ ys" "pipe owns a r s1 (q @ zs) k'" by blast
      have "stdout_loop mal a xs s = stdout_loop mal a ys s1" using False y by (simp add: stdout_loop.simps[of _ _ xs])
      then show ?thesis using less.hyps[OF _ z(3), of ys] z by simp
    qed
  qed
qed

text \<open>A read of at most what the chain holds is complete; a longer one takes it all and waits.\<close>

lemma read_ok:
  assumes "pipe owns a r s q k"
  shows "\<exists>s' k'. stdin_loop fre r n got s = ret (got @ take n q, if n \<le> length q then Complete else Waiting, s') \<and>
    pipe owns a r s' (drop n q) k'"
  using assms
proof (induction "(n, k)" arbitrary: n k got s q rule: wf_induct[OF wf_lex_prod[OF wf_less wf_less]])
  case 1
  note IH = 1(1) and P = 1(2)
  have o: "pairIn (ios s r) \<noteq> 0" using pipe_open[OF P] by simp
  show ?case
  proof (cases "n = 0")
    case True
    then show ?thesis using P by (auto simp: stdin_loop.simps)
  next
    case n: False
    from get_ok[OF P, of n] n obtain ys w s1 q1 k1 where g: "stdin_chunk fre r n s = ret (ys, w, s1)" "q = ys @ q1" "length ys \<le> n"
      "pipe owns a r s1 q1 k1" "w \<longrightarrow> q = [] \<and> ys = []" "\<not> w \<longrightarrow> ys \<noteq> [] \<or> k1 < k" by blast
    have l: "stdin_loop fre r n got s = (if w then ret (got, Waiting, s1) else stdin_loop fre r (n - length ys) (got @ ys) s1)"
      using n o g(1) by (simp add: stdin_loop.simps[of _ _ n])
    show ?thesis
    proof (cases w)
      case True
      then show ?thesis using l g n by auto
    next
      case False
      then have "n - length ys < n \<or> n - length ys = n \<and> k1 < k" using g(6) n by auto
      then have "((n - length ys, k1), (n, k)) \<in> {(x, y). x < y} <*lex*> {(x, y). x < y}" by auto
      with IH g(4) obtain s' k' where
        "stdin_loop fre r (n - length ys) (got @ ys) s1 =
          ret ((got @ ys) @ take (n - length ys) q1, if n - length ys \<le> length q1 then Complete else Waiting, s')"
        "pipe owns a r s' (drop (n - length ys) q1) k'" by blast
      then show ?thesis using l False g(2,3) by (intro exI[of _ s'] exI[of _ k']) auto
    qed
  qed
qed

end

sublocale stream_heap \<subseteq> fifo: channel "stdout_chunk mal a" "stdin_chunk fre r" "pipe owns a r" for a r
  by unfold_locales (rule put_ok, assumption+, rule get_ok, assumption+)

subsection \<open>The kernel heap keeps the buffers\<close>

text \<open>
  The buffers and ends are blocks of the kernel heap: \<open>heap_owns s A\<close> says that the heap is well formed
  and the addresses \<open>A\<close> are blocks in use. \<open>malloc\<close> and \<open>free\<close> work on the memory below; what they leave
  alone is everything above it.
\<close>

lemma more_simps [simp]:
  "kheap.more (stq a v s) = kheap.more s" "kheap.more (memfill_page p s) = kheap.more s"
  by (simp_all add: stq_def memfill_page_def)

lemma more_KPALLOC: "KPALLOC no_more_pages s = Inr (p, s') \<Longrightarrow> kheap.more s' = kheap.more s"
proof -
  have r: "refill no_more_pages i n s = Inr s' \<Longrightarrow> kheap.more s' = kheap.more s" for i n and s s' :: "'a kheap_scheme"
    by (induction n arbitrary: i s) (auto simp: no_more_pages_def split: if_splits)
  show "KPALLOC no_more_pages s = Inr (p, s') \<Longrightarrow> kheap.more s' = kheap.more s"
    by (auto simp: KPALLOC_def Let_def bindE_Inr_iff dest!: r split: prod.splits if_splits)
qed

lemma more_malloc:
  assumes "malloc (KPALLOC no_more_pages) sz s = Some (Inr (p, s'))"
  shows "kheap.more s' = kheap.more s"
proof -
  have t: "take_found e j n s = Inr (p, s') \<Longrightarrow> kheap.more s' = kheap.more s" for e j n and s s' :: "'a kheap_scheme"
    by (auto simp: take_found_def put_header_def Let_def bindE_Inr_iff)
  have e: "new_entry (KPALLOC no_more_pages) NA mcp s = Inr (q, s') \<Longrightarrow> kheap.more s' = kheap.more s" for NA mcp q and s s' :: "'a kheap_scheme"
    by (auto simp: new_entry_def Let_def bindE_Inr_iff dest!: more_KPALLOC split: if_splits)
  have n: "take_new (KPALLOC no_more_pages) NA n s = Inr (p, s') \<Longrightarrow> kheap.more s' = kheap.more s" for NA n and s s' :: "'a kheap_scheme"
    by (auto simp: take_new_def put_header_def Let_def bindE_Inr_iff dest!: more_KPALLOC)
  show ?thesis using assms
    by (auto simp: malloc_def bindE_Inr_iff dest!: t e n split: sum.splits option.splits prod.splits search.splits)
qed

lemma more_free: "free p s = Inr s' \<Longrightarrow> kheap.more s' = kheap.more s"
  by (auto simp: free_def Let_def bindE_Inr_iff)

lemma more_streams:
  assumes "kheap.more s' = kheap.more s"
  shows "ios s' = ios s \<and> fifos s' = fifos (s :: 'a streams_scheme)"
  using assms by (cases s; cases s') simp

text \<open>The heap's invariant depends on the memory and the heap's own variable only.\<close>

lemma heap_ok_same:
  assumes "mem s' = mem s" "ml1 s' = ml1 s"
  shows "heap_ok s' U ts L = heap_ok s U ts L" "user_ptr s' = user_ptr s" "pool_held s' U = pool_held s U"
proof -
  have l: "ldq s' = ldq s" by (intro ext) (simp add: ldq_def assms)
  have d: "data_page s' = data_page s" by (intro ext) (simp add: data_page_def l)
  have "chain s' p ts = chain s p ts" for p by (induction ts arbitrary: p) (simp_all add: l)
  then have t: "tables_ok s' U ts = tables_ok s U ts" by (simp add: tables_ok_def assms d)
  have "block_ok s' ts b = block_ok s ts b" for b by (cases b) (simp add: l d)
  then show "heap_ok s' U ts L = heap_ok s U ts L" by (simp add: heap_ok_def t)
  show "user_ptr s' = user_ptr s" by (intro ext) (simp add: user_ptr_def d)
  show "pool_held s' U = pool_held s U" by (simp add: pool_held_def l)
qed

lemma user_ptr_inj:
  assumes K: "heap_ok s U ts L" and b: "b \<in> L" "c \<in> L" and e: "user_ptr s b = user_ptr s c"
  shows "b = c"
proof -
  obtain e1 l1 n1 e2 l2 n2 where bc: "b = (e1, l1, n1)" "c = (e2, l2, n2)" by (cases b; cases c) auto
  have T: "tables_ok s U ts" using K by (simp add: heap_ok_def)
  have B: "block_ok s ts b" "block_ok s ts c" using K b by (simp_all add: heap_ok_def)
  then have n: "e1 \<in> entries ts" "data_page s e1 \<noteq> 0" "2 \<le> n1" "l1 + n1 \<le> 64"
      "e2 \<in> entries ts" "data_page s e2 \<noteq> 0" "2 \<le> n2" "l2 + n2 \<le> 64"
    by (simp_all add: bc)
  have p: "page_aligned (data_page s e1)" "page_aligned (data_page s e2)"
    using tables_okD(6)[OF T] n by blast+
  have "data_page s e1 = data_page s e2 \<and> 64 * l1 + 64 = 64 * l2 + 64"
    using e page_offset_eq[OF p, of "64 * l1 + 64" "64 * l2 + 64"] n unfolding bc user_ptr_def prod.case by simp
  then have "e1 = e2" "l1 = l2" using tables_okD(9)[OF T n(5) n(1) n(6)] by auto
  then have "overlap b c" using n by (simp add: bc)
  then show ?thesis using K b by (auto simp: heap_ok_def)
qed

lemma user_ptr_nonzero:
  assumes K: "heap_ok s U ts L" and b: "b \<in> L"
  shows "user_ptr s b \<noteq> 0"
proof -
  obtain e l n where bc: "b = (e, l, n)" by (cases b) auto
  have T: "tables_ok s U ts" and B: "block_ok s ts b" using K b by (simp_all add: heap_ok_def)
  then have n: "e \<in> entries ts" "data_page s e \<noteq> 0" "2 \<le> n" "l + n \<le> 64" by (simp_all add: bc)
  have "page_of (user_ptr s b) = data_page s e"
    using page_offset[OF tables_okD(6)[OF T n(1,2)], of "64 * l + 64"] n by (simp add: bc user_ptr_def)
  then show ?thesis using n(2) by (auto simp: page_of_def)
qed

definition heap_owns :: "'a streams_scheme \<Rightarrow> addr set \<Rightarrow> bool" where
  "heap_owns s A \<longleftrightarrow> (\<exists>U ts L. pool_held s U \<and> heap_ok s U ts L \<and> A \<subseteq> user_ptr s ` L)"

text \<open>What a block in use keeps includes its address.\<close>

lemma keeps_user_ptr:
  assumes "keeps s s' L" "b \<in> L"
  shows "user_ptr s' b = user_ptr s b"
  using assms by (cases b) (auto simp: keeps_def user_ptr_def)

text \<open>Any request of at most 1920 bytes gives a new block, and a block can be given back.\<close>

lemma heap_owns_malloc:
  fixes s :: "'a streams_scheme"
  assumes o: "heap_owns s A" and sz: "sz \<le> 1920" and r: "malloc (KPALLOC no_more_pages) sz s = Some (Inr (p, s'))"
  shows "p \<notin> A \<and> p \<noteq> 0 \<and> heap_owns s' (insert p A) \<and> kheap.more s' = kheap.more s"
proof -
  obtain U ts L where h: "pool_held s U" "heap_ok s U ts L" "A \<subseteq> user_ptr s ` L" using o by (auto simp: heap_owns_def)
  obtain V us b where V: "pool_held s' V" "heap_ok s' V us (insert b L)" "p = user_ptr s' b"
      "\<forall>c\<in>L. \<not> overlap b c" "keeps s s' L" and b2: "2 \<le> snd (snd b)"
  proof -
    obtain V us e lo n where m: "pool_held s' V" "heap_ok s' V us (insert (e, lo, n) L)" "p = user_ptr s' (e, lo, n)"
      "\<forall>c\<in>L. \<not> overlap (e, lo, n) c" "keeps s s' L"
      using boot.pool_malloc_ok[OF h(1,2) sz r] by auto
    moreover have "2 \<le> n" using m(2) by (auto simp: heap_ok_def)
    ultimately show ?thesis using that[of V us "(e, lo, n)"] by simp
  qed
  have im: "user_ptr s' ` L = user_ptr s ` L" using keeps_user_ptr[OF V(5)] by (rule image_cong[OF refl])
  have bL: "b \<notin> L" using V(4) b2 by (cases b) auto
  have "p \<notin> user_ptr s' ` L"
  proof
    assume "p \<in> user_ptr s' ` L"
    then obtain c where c: "c \<in> L" "user_ptr s' b = user_ptr s' c" using V(3) by auto
    then show False using user_ptr_inj[OF V(2) insertI1 insertI2[OF c(1)] c(2)] bL by simp
  qed
  then have "p \<notin> A" using h(3) im by blast
  moreover have "heap_owns s' (insert p A)"
    unfolding heap_owns_def using V(1,2,3) h(3) im by (intro exI[of _ V] exI[of _ us] exI[of _ "insert b L"]) auto
  moreover have "p \<noteq> 0" using user_ptr_nonzero[OF V(2) insertI1] V(3) by simp
  ultimately show ?thesis using more_malloc[OF r] by blast
qed

lemma heap_owns_malloc_returns: "heap_owns s A \<Longrightarrow> malloc kpalloc sz s \<noteq> None"
  using malloc_returns[of s _ _ _ kpalloc sz] by (auto simp: heap_owns_def)

lemma heap_owns_free:
  fixes s :: "'a streams_scheme"
  assumes o: "heap_owns s A" and p: "p \<in> A"
  shows "\<exists>s'. free p s = Inr s' \<and> heap_owns s' (A - {p}) \<and> kheap.more s' = kheap.more s"
proof -
  obtain U ts L where h: "pool_held s U" "heap_ok s U ts L" "A \<subseteq> user_ptr s ` L" using o by (auto simp: heap_owns_def)
  obtain b where b: "b \<in> L" "p = user_ptr s b" using h(3) p by blast
  obtain e lo n where bb: "b = (e, lo, n)" by (cases b) auto
  obtain s' where f: "free p s = Inr s'" "pool_held s' U" "heap_ok s' U ts (L - {b})" "keeps s s' (L - {b})"
    using boot.pool_free_ok[OF h(1,2), of e lo n] b bb by blast
  have "user_ptr s' ` (L - {b}) = user_ptr s ` (L - {b})" using keeps_user_ptr[OF f(4)] by (rule image_cong[OF refl])
  moreover have "A - {p} \<subseteq> user_ptr s ` (L - {b})" using h(3) b by blast
  ultimately have "heap_owns s' (A - {p})"
    unfolding heap_owns_def using f(2,3) by (intro exI[of _ U] exI[of _ ts] exI[of _ "L - {b}"]) simp
  then show ?thesis using f(1) more_free[OF f(1)] by blast
qed

lemma heap_owns_cong: "mem s' = mem s \<Longrightarrow> ml1 s' = ml1 s \<Longrightarrow> heap_owns s' A = heap_owns s A"
  unfolding heap_owns_def by (simp add: heap_ok_same[of s' s])

lemma heap_owns_subset: "heap_owns s A \<Longrightarrow> B \<subseteq> A \<Longrightarrow> heap_owns s B"
  unfolding heap_owns_def by (meson subset_trans)

abbreviation buffer_malloc :: "'a streams_scheme mallocs" where
  "buffer_malloc \<equiv> malloc (KPALLOC no_more_pages) 265"

abbreviation heap_free :: "'a streams_scheme frees" where
  "heap_free p s \<equiv> lift (free p s)"

interpretation kernel: stream_heap buffer_malloc heap_free heap_owns
proof unfold_locales
  fix s s' :: "'a streams_scheme" and A p
  assume o: "heap_owns s A"
  show "buffer_malloc s \<noteq> None" by (rule heap_owns_malloc_returns[OF o])
  show "p \<notin> A \<and> p \<noteq> 0 \<and> heap_owns s' (insert p A) \<and> ios s' = ios s \<and> fifos s' = fifos s"
    if "buffer_malloc s = ret (p, s')"
    using heap_owns_malloc[OF o, of 265 p s'] more_streams[of s' s] that by (simp add: ret_def)
  show "\<exists>s'. heap_free p s = ret s' \<and> heap_owns s' (A - {p}) \<and> ios s' = ios s \<and> fifos s' = fifos s" if "p \<in> A"
    using heap_owns_free[OF o that] more_streams[of _ s] by (metis lift_simps(1))
next
  fix p f g and s :: "'a streams_scheme" and A
  show "heap_owns (upd_io p f s) A = heap_owns s A" "heap_owns (upd_fifo p g s) A = heap_owns s A"
    by (rule heap_owns_cong; simp add: upd_io_def upd_fifo_def)+
qed

subsection \<open>Properties of the streams\<close>

text \<open>
  A state for the witnesses: the heap with one block in use, which is the only buffer of the end at
  address 1; the end at address 2 reads from it.
\<close>

definition demo_streams :: streams where
  "demo_streams = sched.extend
     ((demo_sched (\<lambda>_. new_tcb) 0 0 0)\<lparr>mem := mem (snd first_block), ml1 := ml1 (snd first_block)\<rparr>)
     (streams.fields
       (\<lambda>p. \<lparr>pairIn = if p = 2 then 1 else 0, pairOut = 0, bufferOut = fst first_block, bufferOutEnd = fst first_block,
             iotype = 0, bufferSema = 0, waiter = 0\<rparr>)
       (\<lambda>_. \<lparr>fdata = replicate 256 0, datac = 0, fnext = 0\<rparr>)
       \<lparr>terminal_x = 0, terminal_y = 0, vid = (\<lambda>_. 0), keyboard_is_raw = False\<rparr> 0 True)"

lemma demo_streams_simps:
  "mem demo_streams = mem (snd first_block)" "ml1 demo_streams = ml1 (snd first_block)"
  "ios demo_streams p = \<lparr>pairIn = if p = 2 then 1 else 0, pairOut = 0, bufferOut = fst first_block, bufferOutEnd = fst first_block,
     iotype = 0, bufferSema = 0, waiter = 0\<rparr>"
  "fifos demo_streams p = \<lparr>fdata = replicate 256 0, datac = 0, fnext = 0\<rparr>"
  by (simp_all add: demo_streams_def demo_sched_def sched.defs streams.defs)

lemma demo_pipe: "pipe heap_owns 1 2 demo_streams [] 1"
proof -
  obtain V us e lo n where b: "pool_held (snd first_block) V" "heap_ok (snd first_block) V us {(e, lo, n)}"
    "fst first_block = user_ptr (snd first_block) (e, lo, n)" using first_block_heap by blast
  have "heap_owns demo_streams {fst first_block}"
    unfolding heap_owns_def using b heap_ok_same[OF demo_streams_simps(1,2)]
    by (intro exI[of _ V] exI[of _ us] exI[of _ "{(e, lo, n)}"]) simp
  then show ?thesis
    unfolding pipe_def
    by (intro exI[of _ "{fst first_block}"] exI[of _ "[fst first_block]"])
      (simp add: demo_streams_simps buf_ok_def filled_def)
qed

text \<open>C5. The reader of a pipe sees the writer's bytes in order and unchanged, however the iterations of the
  two loops interleave and however long the message is (buffers are allocated and freed on the way): what
  has been read is always a first part of what was written, and a read that has finished has exactly the
  first bytes.\<close>

theorem pipe_in_order:
  assumes "pipe heap_owns a r s [] k"
    and "(chan_step (stdout_chunk buffer_malloc a) (stdin_chunk heap_free r))\<^sup>*\<^sup>* (xs, [], n, s) (xs', got, want, s')"
  shows "(\<exists>rest. xs = got @ rest) \<and> (want = 0 \<longrightarrow> got = take n xs)"
  by (rule kernel.fifo.in_order[OF assms(2,1)])

theorem pipe_in_order_witness:
  "\<exists>xs' got s'. (chan_step (stdout_chunk buffer_malloc 1) (stdin_chunk heap_free 2))\<^sup>*\<^sup>* ([65, 66, 67], [], 2, demo_streams) (xs', got, 0, s') \<and>
    got = [65, 66]"
proof -
  let ?R = "chan_step (stdout_chunk buffer_malloc 1) (stdin_chunk heap_free 2)"
  obtain s1 where w: "stdout_chunk buffer_malloc 1 [65, 66, 67] demo_streams = ret ([], s1)"
    by (simp add: stdout_chunk_def demo_streams_simps)
  obtain zs k where z: "[65, 66, 67] = zs" "pipe heap_owns 1 2 s1 zs k"
    using kernel.put_ok[OF demo_pipe _ w] by auto
  have a: "?R ([65, 66, 67], [], 2, demo_streams) ([], [], 2, s1)" by (rule write_step[where put = "stdout_chunk buffer_malloc 1" and xs = "[65, 66, 67]", OF _ w]) simp
  obtain s2 where r: "stdin_chunk heap_free 2 2 s1 = ret ([65, 66], False, s2)"
    using w by (auto simp: stdout_chunk_def stdin_chunk_def demo_streams_simps Let_def put_at_def)
  have b: "?R ([], [], 2, s1) ([], [65, 66], 0, s2)"
    using read_step[where get = "stdin_chunk heap_free 2" and put = "stdout_chunk buffer_malloc 1" and want = 2 and got = "[]" and xs = "[]", OF _ r]
    by simp
  have st: "?R\<^sup>*\<^sup>* ([65, 66, 67], [], 2, demo_streams) ([], [65, 66], 0, s2)" using a b by simp
  with pipe_in_order[OF demo_pipe st] show ?thesis by auto
qed

text \<open>A write to a standard stream that is not the terminal always ends. Unless the kernel heap is
  exhausted every byte is then queued behind what was there, and a later read of at most that many
  bytes completes with the oldest bytes, leaving the others queued.\<close>

theorem StdIO_write_read:
  assumes "pipe heap_owns a r s q k" and "iotype (ios s (pairOut (ios s a))) \<noteq> 1"
  shows "\<exists>res. STDOUTStream buffer_malloc a xs s = Some res \<and>
    (\<forall>s1 n. res = Inr s1 \<and> n \<le> length q + length xs \<longrightarrow>
       (\<exists>s2 k2. STDINStream heap_free r n s1 = ret (take n (q @ xs), Complete, s2) \<and> pipe heap_owns a r s2 (drop n (q @ xs)) k2))"
proof -
  obtain res where res: "stdout_loop buffer_malloc a xs s = Some res"
    "\<forall>s1. res = Inr s1 \<longrightarrow> (\<exists>k1. pipe heap_owns a r s1 (q @ xs) k1)" using kernel.write_ok[OF assms(1)] by blast
  have "\<exists>s2 k2. STDINStream heap_free r n s1 = ret (take n (q @ xs), Complete, s2) \<and> pipe heap_owns a r s2 (drop n (q @ xs)) k2"
    if t: "res = Inr s1" "n \<le> length q + length xs" for s1 n
  proof -
    obtain k1 where p: "pipe heap_owns a r s1 (q @ xs) k1" using res(2) t by blast
    show ?thesis using kernel.read_ok[OF p, of n "[]"] kernel.pipe_open[OF p] t by (simp add: STDINStream_def)
  qed
  then show ?thesis using res assms(2) by (auto simp: STDOUTStream_def Let_def)
qed

theorem StdIO_write_read_witness:
  "\<exists>s1 s2. STDOUTStream buffer_malloc 1 [65, 66, 67] demo_streams = ret s1 \<and>
    STDINStream heap_free 2 2 s1 = ret ([65, 66], Complete, s2)"
proof -
  have t: "iotype (ios demo_streams (pairOut (ios demo_streams 1))) \<noteq> 1" by (simp add: demo_streams_simps)
  obtain s1 where w: "stdout_chunk buffer_malloc 1 [65, 66, 67] demo_streams = ret ([], s1)"
    by (simp add: stdout_chunk_def demo_streams_simps)
  then have w': "STDOUTStream buffer_malloc 1 [65, 66, 67] demo_streams = Some (Inr s1)"
    by (simp add: STDOUTStream_def stdout_loop.simps demo_streams_simps)
  moreover obtain res where "STDOUTStream buffer_malloc 1 [65, 66, 67] demo_streams = Some res"
    "\<forall>s1 n. res = Inr s1 \<and> n \<le> length ([] :: u8 list) + length [65 :: u8, 66, 67] \<longrightarrow>
       (\<exists>s2 k2. STDINStream heap_free 2 n s1 = ret (take n ([] @ [65, 66, 67]), Complete, s2) \<and> pipe heap_owns 1 2 s2 (drop n ([] @ [65, 66, 67])) k2)"
    using StdIO_write_read[OF demo_pipe t, of "[65, 66, 67]"] by blast
  ultimately obtain s2 where "STDINStream heap_free 2 2 s1 = ret (take 2 ([] @ [65, 66, 67]), Complete, s2)"
    by (elim allE[of _ s1]) (elim allE[of _ 2], auto)
  with w' show ?thesis by (auto simp: ret_def)
qed

text \<open>A read of more bytes than the pipe holds takes all of them and then waits for the writer; it never
  returns early and never takes a byte twice. A read from an end that is paired with nothing returns zeros.\<close>

theorem StdIO_read_waits:
  assumes "pipe heap_owns a r s q k" and "length q < n"
  shows "\<exists>s' k'. STDINStream heap_free r n s = ret (q, Waiting, s') \<and> pipe heap_owns a r s' [] k'"
  using kernel.read_ok[OF assms(1), of n "[]"] kernel.pipe_open[OF assms(1)] assms(2) by (simp add: STDINStream_def)

theorem StdIO_read_waits_witness:
  "\<exists>s'. STDINStream heap_free 2 1 demo_streams = ret ([], Waiting, s')"
  using StdIO_read_waits[OF demo_pipe, of 1] by auto

subsection \<open>What the loops leave alone\<close>

text \<open>
  A part \<open>F\<close> of the state that the heap and the updates of ends and buffers do not touch is not touched
  by a write or a read.
\<close>

lemma stdout_chunk_frame:
  assumes m: "\<And>s p s'. mal s = ret (p, s') \<Longrightarrow> F s' = F s"
    and u: "\<And>p q s. F (upd_io p (\<lambda>io. io\<lparr>bufferOutEnd := q\<rparr>) s) = F s" "\<And>p g s. F (upd_fifo p g s) = F s"
    and r: "stdout_chunk mal a xs s = ret (ys, s')"
  shows "F s' = F s"
  using r m by (auto simp: stdout_chunk_def Let_def bindR_ret_iff u split: if_splits)

lemma stdout_loop_frame:
  fixes mal :: "'a streams_scheme mallocs"
  assumes m: "\<And>s p s'. mal s = ret (p, s') \<Longrightarrow> F s' = F s"
    and u: "\<And>p q s. F (upd_io p (\<lambda>io. io\<lparr>bufferOutEnd := q\<rparr>) s) = F s" "\<And>p g s. F (upd_fifo p g s) = F s"
    and r: "stdout_loop mal a xs s = ret s'"
  shows "F s' = F s"
proof -
  let ?P = "\<lambda>mal' (a :: addr) (xs :: u8 list) s (y :: fault + 'a streams_scheme). mal' = mal \<longrightarrow> (\<forall>s'. y = Inr s' \<longrightarrow> F s' = F s)"
  have "?P mal a xs s (Inr s')"
  proof (rule stdout_loop.raw_induct[of ?P mal a xs s "Inr s'"])
    show "stdout_loop mal a xs s = Some (Inr s')" using r by (simp add: ret_def)
  next
    fix loop mal' a xs s y
    assume IH: "\<And>mal' a xs s y. loop mal' a xs s = Some y \<Longrightarrow> ?P mal' a xs s y"
      and b: "(if xs = [] then ret s else bindR (stdout_chunk mal' a xs s) (\<lambda>(xs, s). loop mal' a xs s)) = Some y"
    show "?P mal' a xs s y"
    proof (intro impI allI)
      fix s'
      assume e: "mal' = mal" "y = Inr s'"
      show "F s' = F s"
      proof (cases "xs = []")
        case True
        then show ?thesis using b e by (simp add: ret_def)
      next
        case False
        have "bindR (stdout_chunk mal a xs s) (\<lambda>(xs, s). loop mal a xs s) = ret s'" using b e False by (simp add: ret_def)
        then obtain ys s1 where c: "stdout_chunk mal a xs s = ret (ys, s1)" "loop mal a ys s1 = ret s'"
          by (auto simp: bindR_ret_iff)
        have "F s' = F s1" using IH[of mal a ys s1 "Inr s'"] c(2) by (simp add: ret_def)
        then show ?thesis using stdout_chunk_frame[OF m u c(1)] by simp
      qed
    qed
  qed
  then show ?thesis by simp
qed

lemma stdin_chunk_frame:
  assumes m: "\<And>p s s'. fre p s = ret s' \<Longrightarrow> F s' = F s"
    and u: "\<And>p q s. F (upd_io p (\<lambda>io. io\<lparr>bufferOut := q\<rparr>) s) = F s" "\<And>p g s. F (upd_fifo p g s) = F s"
    and r: "stdin_chunk fre a n s = ret (ys, w, s')"
  shows "F s' = F s"
  using r m by (auto simp: stdin_chunk_def Let_def bindR_ret_iff u split: if_splits)

lemma stdin_loop_frame:
  fixes fre :: "'a streams_scheme frees"
  assumes m: "\<And>p s s'. fre p s = ret s' \<Longrightarrow> F s' = F s"
    and u: "\<And>p q s. F (upd_io p (\<lambda>io. io\<lparr>bufferOut := q\<rparr>) s) = F s" "\<And>p g s. F (upd_fifo p g s) = F s"
    and r: "stdin_loop fre a n got s = ret (bs, e, s')"
  shows "F s' = F s"
proof -
  let ?P = "\<lambda>fre' (a :: addr) (n :: nat) (got :: u8 list) s (y :: fault + u8 list \<times> read_end \<times> 'a streams_scheme).
    fre' = fre \<longrightarrow> (\<forall>bs e s'. y = Inr (bs, e, s') \<longrightarrow> F s' = F s)"
  have "?P fre a n got s (Inr (bs, e, s'))"
  proof (rule stdin_loop.raw_induct[of ?P fre a n got s "Inr (bs, e, s')"])
    show "stdin_loop fre a n got s = Some (Inr (bs, e, s'))" using r by (simp add: ret_def)
  next
    fix loop fre' a n got s y
    assume IH: "\<And>fre' a n got s y. loop fre' a n got s = Some y \<Longrightarrow> ?P fre' a n got s y"
      and b: "(if n = 0 then ret (got, Complete, s) else if pairIn (ios s a) = 0 then ret (got, Closed, s)
        else bindR (stdin_chunk fre' a n s) (\<lambda>(bs, relent, s).
               if relent then ret (got, Waiting, s) else loop fre' a (n - length bs) (got @ bs) s)) = Some y"
    show "?P fre' a n got s y"
    proof (intro impI allI)
      fix bs e s'
      assume f: "fre' = fre" "y = Inr (bs, e, s')"
      show "F s' = F s"
      proof (cases "n = 0 \<or> pairIn (ios s a) = 0")
        case True
        then show ?thesis using b f by (auto simp: ret_def split: if_splits)
      next
        case False
        have "bindR (stdin_chunk fre a n s) (\<lambda>(bs, relent, s).
            if relent then ret (got, Waiting, s) else loop fre a (n - length bs) (got @ bs) s) = ret (bs, e, s')"
          using b[unfolded f] False by (simp add: ret_def)
        then obtain ys w s1 where c: "stdin_chunk fre a n s = ret (ys, w, s1)"
            "(if w then ret (got, Waiting, s1) else loop fre a (n - length ys) (got @ ys) s1) = ret (bs, e, s')"
          by (auto simp: bindR_ret_iff)
        have "F s' = F s1"
          using c(2) IH[of fre a "n - length ys" "got @ ys" s1 "Inr (bs, e, s')"] by (cases w) (simp_all add: ret_def)
        then show ?thesis using stdin_chunk_frame[OF m u c(1)] by simp
      qed
    qed
  qed
  then show ?thesis by simp
qed

lemma pipe_cong:
  assumes "mem s' = mem s" "ml1 s' = ml1 s" "ios s' = ios s" "fifos s' = fifos s"
  shows "pipe heap_owns a r s' q k = pipe heap_owns a r s q k"
proof -
  have "fifo_chain s' p e ps = fifo_chain s p e ps" for p e ps by (rule fifo_chain_cong) (simp add: assms)
  moreover have "bytes_of s' ps = bytes_of s ps" for ps by (rule bytes_of_cong) (simp add: assms)
  ultimately show ?thesis by (simp add: pipe_def assms heap_owns_cong[of s' s])
qed

lemma room_alloc:
  fixes s :: "'a streams_scheme"
  assumes "heap_owns s A" "room s k" "chunks sz = Inr n" "2 \<le> n" "k + n \<le> 31" "sz \<le> 1920"
  shows "\<exists>p s'. malloc (KPALLOC no_more_pages) sz s = Some (Inr (p, s')) \<and> room s' (k + n) \<and> p \<notin> A \<and> p \<noteq> 0 \<and>
    heap_owns s' (insert p A) \<and> kheap.more s' = kheap.more s"
  using room_malloc[OF assms(2-5), of "KPALLOC no_more_pages"] heap_owns_malloc[OF assms(1,6)] by blast

lemma demo_room: "heap_owns demo_streams {fst first_block}" "room demo_streams 3"
proof -
  obtain A ps where A: "heap_owns demo_streams A" "set ps \<subseteq> A" "fifo_chain demo_streams (fst first_block) (fst first_block) ps"
    using demo_pipe by (auto simp: pipe_def demo_streams_simps)
  have "fst first_block \<in> set ps" using fifo_chain_ends[OF A(3)] by (cases ps) auto
  then show "heap_owns demo_streams {fst first_block}" using A heap_owns_subset[OF A(1)] by auto
  show "room demo_streams 3" using room_first_block room_cong[OF demo_streams_simps(1,2)] by simp
qed

end
