(* ===== verification/Filesystem.thy ===== *)
theory Filesystem
  imports Streams Qfs
begin

section \<open>File descriptors, devices and permissions (filesystem.c, driver.c, perm.c)\<close>

text \<open>
  Every task has a page of 128 \<open>stream\<close>s, its descriptors. A descriptor in use names the function
  that serves it, \<open>StdIOStream\<close> (the pipes and the terminal of \<open>Streams\<close>) or \<open>FileStream\<close> (a file of
  \<open>Qfs\<close>), its argument and the position. \<open>READ\<close> and \<open>WRITE\<close> are given the buffer as the list of its
  bytes. A read that has to wait has not returned: its outcome is \<open>Waiting\<close> and the position is not
  yet written.

  The kernel's page allocator is the argument \<open>kpalloc\<close>; \<open>b2\<close> is the scratch page \<open>KPALLOC\<close> would return
  inside \<open>qfs.c\<close>.
\<close>

record perm_desc =
  t_root :: "inode option"
  PM :: u64

text \<open>A driver: the task, the descriptor (page and index) of its standard stream, its name.\<close>

record DEVICE =
  dev_pid :: u64
  streamID :: "addr \<times> nat"
  DEV_NAME :: "u8 list"

record prog_mem =
  brk_start :: u64
  brk_end :: u64

record fsys = streams +
  fq :: qfs
  fargs :: "addr \<Rightarrow> inode"
  perm_descs :: "addr \<Rightarrow> perm_desc"
  kernelFdLastClosed :: u64
  DEVICE_LIST :: "int \<Rightarrow> DEVICE"
  LAST_DEVICE :: int
  brks :: "addr \<Rightarrow> prog_mem"
  umem :: "addr \<Rightarrow> u8"

type_synonym 'a page_alloc = "'a fsys_scheme \<Rightarrow> fault + addr \<times> 'a fsys_scheme"

definition zero_stream :: stream where
  "zero_stream = \<lparr>fn = NULL_FN, arguments = 0, position = 0, sflags = 0\<rparr>"

definition fd_page :: "'a fsys_scheme \<Rightarrow> addr" where
  "fd_page s = file_descriptors (tcb (current_task_TCB s) s)"

definition kernelFd :: "u64 \<Rightarrow> 'a fsys_scheme \<Rightarrow> stream" where
  "kernelFd fd s = fds s (fd_page s) (unat fd)"

definition fd_len :: "'a fsys_scheme \<Rightarrow> u64" where
  "fd_len s = kernelFdLen (tcb (current_task_TCB s) s)"

definition upd_fd :: "addr \<Rightarrow> nat \<Rightarrow> (stream \<Rightarrow> stream) \<Rightarrow> 'a fsys_scheme \<Rightarrow> 'a fsys_scheme" where
  "upd_fd p i f s = s\<lparr>fds := (fds s)(p := (fds s p)(i := f (fds s p i)))\<rparr>"

definition set_kernelFd :: "u64 \<Rightarrow> (stream \<Rightarrow> stream) \<Rightarrow> 'a fsys_scheme \<Rightarrow> 'a fsys_scheme" where
  "set_kernelFd fd f s = upd_fd (fd_page s) (unat fd) f s"

subsection \<open>The functions behind a descriptor\<close>

definition StdIOStream_fn :: "'a page_alloc \<Rightarrow> addr \<Rightarrow> u8 list \<Rightarrow> u64 \<Rightarrow> u8 \<Rightarrow> 'a fsys_scheme \<Rightarrow>
    (u64 \<times> u8 list \<times> read_end \<times> 'a fsys_scheme) run" where
  "StdIOStream_fn kpalloc a buffer len rw s =
     (if rw = 0 then bindR (STDINStream (\<lambda>p s. lift (free p s)) a (unat len) s) (\<lambda>(got, e, s). ret (0, overlay got buffer, e, s))
      else if rw = 1 then bindR (STDOUTStream (malloc kpalloc 265) a (take (unat len) buffer) s) (\<lambda>s. ret (0, buffer, Complete, s))
      else if rw = 2 then bindR (lift (free a s)) (\<lambda>s. ret (0, buffer, Complete, s))
      else if rw = 3 then ret (if pairIn (ios s a) \<noteq> 0 then 1 else 0, buffer, Complete, s)
      else stop (ERROR ERR_FILESTREAM_RW (ucast rw)))"

definition stream_fn :: "'a page_alloc \<Rightarrow> addr \<times> u8 list \<Rightarrow> stream \<Rightarrow> u8 list \<Rightarrow> u64 \<Rightarrow> u8 \<Rightarrow> 'a fsys_scheme \<Rightarrow>
    (u64 \<times> u8 list \<times> read_end \<times> 'a fsys_scheme) run" where
  "stream_fn kpalloc b2 st buffer len rw s =
     (case fn st of
        NULL_FN \<Rightarrow> stop (Prelude.PF 0)
      | StdIOStream \<Rightarrow> StdIOStream_fn kpalloc (arguments st) buffer len rw s
      | stream_function.FileStream \<Rightarrow>
          bindR (if rw = 2 then lift (free (arguments st) s) else ret s) (\<lambda>s.
          bindR (Qfs.FileStream b2 (fargs s (arguments st)) (position st) buffer len rw (fq s)) (\<lambda>(p, b, q).
            ret (p, b, Complete, s\<lparr>fq := q\<rparr>))))"

subsection \<open>Operations on descriptors\<close>

text \<open>A page holds \<open>0x1000 / sizeof(stream)\<close> descriptors.\<close>

definition FDS :: u64 where "FDS = 128"

definition fd_used :: "u64 \<Rightarrow> u64 \<Rightarrow> 'a fsys_scheme \<Rightarrow> stream run" where
  "fd_used fd len s =
     bindR (check (fd \<le> len) (ERROR ERR_FD_TOOHIGH fd)) (\<lambda>_.
     bindR (check (fn (kernelFd fd s) \<noteq> NULL_FN) (ERROR ERR_FD_DNE fd)) (\<lambda>_.
       ret (kernelFd fd s)))"

definition checkStream :: "u64 \<Rightarrow> 'a fsys_scheme \<Rightarrow> bool run" where
  "checkStream fd s =
     bindR (fd_used fd FDS s) (\<lambda>st.
       if fn st = StdIOStream
       then let w = pairIn (ios s (arguments st))
            in bindR (check (w \<noteq> 0) (Prelude.PF 16)) (\<lambda>_. ret (0 < datac (fifos s (bufferOut (ios s w)))))
       else ret True)"

definition READ :: "'a page_alloc \<Rightarrow> addr \<times> u8 list \<Rightarrow> u64 \<Rightarrow> u8 list \<Rightarrow> u64 \<Rightarrow> 'a fsys_scheme \<Rightarrow>
    (u8 list \<times> read_end \<times> 'a fsys_scheme) run" where
  "READ kpalloc b2 fd buffer len s =
     bindR (fd_used fd FDS s) (\<lambda>st.
     bindR (stream_fn kpalloc b2 st buffer len 0 s) (\<lambda>(p, b, e, s).
       ret (b, e, if e = Waiting then s else set_kernelFd fd (\<lambda>t. t\<lparr>position := p\<rparr>) s)))"

definition WRITE :: "'a page_alloc \<Rightarrow> addr \<times> u8 list \<Rightarrow> u64 \<Rightarrow> u8 list \<Rightarrow> u64 \<Rightarrow> 'a fsys_scheme \<Rightarrow> 'a fsys_scheme run" where
  "WRITE kpalloc b2 fd buffer len s =
     bindR (fd_used fd FDS s) (\<lambda>st.
     bindR (stream_fn kpalloc b2 st buffer len 1 s) (\<lambda>(p, b, e, s).
       ret (set_kernelFd fd (\<lambda>t. t\<lparr>position := p\<rparr>) s)))"

definition SEEK :: "'a page_alloc \<Rightarrow> addr \<times> u8 list \<Rightarrow> u64 \<Rightarrow> u64 \<Rightarrow> u64 \<Rightarrow> 'a fsys_scheme \<Rightarrow> 'a fsys_scheme run" where
  "SEEK kpalloc b2 fd pos WHENCE s =
     bindR (fd_used fd (fd_len s) s) (\<lambda>st.
       if WHENCE = 0 then ret (set_kernelFd fd (\<lambda>t. t\<lparr>position := pos\<rparr>) s)
       else if WHENCE = 1 then ret (set_kernelFd fd (\<lambda>t. t\<lparr>position := position t + pos\<rparr>) s)
       else bindR (stream_fn kpalloc b2 st [] 0 3 s) (\<lambda>(p, b, e, s). ret (set_kernelFd fd (\<lambda>t. t\<lparr>position := p\<rparr>) s)))"

definition TELL :: "u64 \<Rightarrow> 'a fsys_scheme \<Rightarrow> u64 run" where
  "TELL fd s = bindR (fd_used fd (fd_len s) s) (\<lambda>st. ret (position st))"

definition CLOSE :: "'a page_alloc \<Rightarrow> addr \<times> u8 list \<Rightarrow> u64 \<Rightarrow> 'a fsys_scheme \<Rightarrow> 'a fsys_scheme run" where
  "CLOSE kpalloc b2 fd s =
     bindR (fd_used fd (fd_len s) s) (\<lambda>st.
     bindR (stream_fn kpalloc b2 st [] 0 2 s) (\<lambda>(p, b, e, s).
       ret ((set_kernelFd fd (\<lambda>t. t\<lparr>fn := NULL_FN\<rparr>) s)\<lparr>kernelFdLastClosed := fd\<rparr>)))"

subsection \<open>Standard streams of a task\<close>

definition BIND_HANDLES :: "u64 \<Rightarrow> u64 \<Rightarrow> 'a fsys_scheme \<Rightarrow> 'a fsys_scheme run" where
  "BIND_HANDLES FD0 FD1 s =
     bindR (check (fn (kernelFd FD0 s) = StdIOStream \<and> fn (kernelFd FD1 s) = StdIOStream) (ERROR ERR_MISP_BINDH 0)) (\<lambda>_.
       let IO1 = arguments (kernelFd FD0 s); IO2 = arguments (kernelFd FD1 s);
           s = upd_io IO2 (\<lambda>io. io\<lparr>pairIn := IO1\<rparr>) s
       in ret (upd_io IO1 (\<lambda>io. io\<lparr>pairOut := IO2\<rparr>) s))"

definition BIND_T_STDIO :: "addr \<Rightarrow> u64 \<Rightarrow> addr \<Rightarrow> u64 \<Rightarrow> 'a fsys_scheme \<Rightarrow> 'a fsys_scheme run" where
  "BIND_T_STDIO A FD0 B FD1 s =
     (let ST1 = fds s (file_descriptors (tcb A s)) (unat FD0);
          ST2 = fds s (file_descriptors (tcb B s)) (unat FD1)
      in bindR (check (\<not> (fn ST1 \<noteq> StdIOStream \<or> fn ST2 = StdIOStream)) (ERROR ERR_MISP_BINDT 0)) (\<lambda>_.
           let s = upd_io (arguments ST2) (\<lambda>io. io\<lparr>pairIn := arguments ST1\<rparr>) s
           in ret (upd_io (arguments ST1) (\<lambda>io. io\<lparr>pairOut := arguments ST2\<rparr>) s)))"

definition BINDR :: "addr \<Rightarrow> u64 \<Rightarrow> 'a fsys_scheme \<Rightarrow> 'a fsys_scheme" where
  "BINDR b fd s = giveSTDIOback b (current_task_TCB s) (unat fd) s"

definition PS2_DRIVER_BIND_STDIO :: "'a fsys_scheme \<Rightarrow> 'a fsys_scheme" where
  "PS2_DRIVER_BIND_STDIO s =
     set_kernelFd 0 (\<lambda>t. t\<lparr>arguments := TermSP s, fn := StdIOStream, position := 0, sflags := 0\<rparr>) s"

text \<open>A new end: its block, an empty buffer, a semaphore and a place for the waiting task.\<close>

definition new_stdIO :: "'a page_alloc \<Rightarrow> addr \<Rightarrow> addr \<Rightarrow> 'a fsys_scheme \<Rightarrow> (addr \<times> 'a fsys_scheme) run" where
  "new_stdIO kpalloc a b s =
     bindR (malloc kpalloc 56 s) (\<lambda>(m, s).
     let s = upd_io m (\<lambda>io. io\<lparr>pairIn := a, pairOut := b\<rparr>) s
     in bindR (malloc kpalloc 265 s) (\<lambda>(p, s).
     let s = upd_io m (\<lambda>io. io\<lparr>bufferOut := p, bufferOutEnd := p\<rparr>) s;
         s = upd_fifo p (\<lambda>f. f\<lparr>datac := 0, fnext := 0\<rparr>) s
     in bindR (create_semaphore kpalloc 1 s) (\<lambda>(q, s).
     let s = upd_io m (\<lambda>io. io\<lparr>bufferSema := q, iotype := 0\<rparr>) s
     in bindR (malloc kpalloc 8 s) (\<lambda>(w, s).
     let s = upd_io m (\<lambda>io. io\<lparr>waiter := w\<rparr>) s
     in ret (m, s\<lparr>pokes := (pokes s)(w := 0)\<rparr>)))))"

definition inSO :: "'a page_alloc \<Rightarrow> addr \<Rightarrow> nat \<Rightarrow> addr \<Rightarrow> addr \<Rightarrow> 'a fsys_scheme \<Rightarrow> 'a fsys_scheme run" where
  "inSO kpalloc page i a b s =
     bindR (new_stdIO kpalloc a b s) (\<lambda>(m, s).
       ret (upd_fd page i (\<lambda>_. \<lparr>fn = StdIOStream, arguments = m, position = 0, sflags = 0\<rparr>) s))"

text \<open>The terminal's end: the screen is its output, the keyboard driver writes into its buffer.\<close>

definition OpenStdIn :: "'a page_alloc \<Rightarrow> 'a fsys_scheme \<Rightarrow> 'a fsys_scheme run" where
  "OpenStdIn kpalloc s =
     (if stdinSetup s then ret s
      else bindR (malloc kpalloc 56 (s\<lparr>stdinSetup := True\<rparr>)) (\<lambda>(m, s).
        let s = s\<lparr>TermSP := m\<rparr>;
            s = upd_io m (\<lambda>_. \<lparr>pairIn = 0, pairOut = 0, bufferOut = 0, bufferOutEnd = 0, iotype = 0, bufferSema = 0, waiter = 0\<rparr>) s
        in bindR (malloc kpalloc 265 s) (\<lambda>(p, s).
        let s = upd_io m (\<lambda>io. io\<lparr>bufferOut := p, bufferOutEnd := p\<rparr>) s;
            s = upd_fifo p (\<lambda>_. \<lparr>fdata = replicate 256 0, datac = 0, fnext = 0\<rparr>) s
        in bindR (create_semaphore kpalloc 1 s) (\<lambda>(q, s).
        let s = upd_io m (\<lambda>io. io\<lparr>bufferSema := q\<rparr>) s
        in bindR (malloc kpalloc 8 s) (\<lambda>(w, s).
        let s = upd_io m (\<lambda>io. io\<lparr>waiter := w, iotype := 1\<rparr>) s
        in ret (s\<lparr>pokes := (pokes s)(w := 0)\<rparr>))))))"

subsection \<open>Permissions (perm.c)\<close>

definition my_perms :: "'a fsys_scheme \<Rightarrow> perm_desc" where
  "my_perms s = perm_descs s (perms (tcb (current_task_TCB s) s))"

definition checkEPL :: "u64 \<Rightarrow> 'a fsys_scheme \<Rightarrow> bool" where
  "checkEPL req s \<longleftrightarrow> req AND PM (my_perms s) = req"

definition cPD :: "'a page_alloc \<Rightarrow> u64 \<Rightarrow> inode option \<Rightarrow> 'a fsys_scheme \<Rightarrow> (addr \<times> 'a fsys_scheme) run" where
  "cPD kpalloc bp rt s =
     bindR (malloc kpalloc 16 s) (\<lambda>(m, s).
       ret (m, s\<lparr>perm_descs := (perm_descs s)(m := \<lparr>t_root = rt, PM = bp\<rparr>)\<rparr>))"

text \<open>A lookup from a root that may be NULL, on the disk of the state.\<close>

definition lookup_root :: "addr \<times> u8 list \<Rightarrow> inode option \<Rightarrow> u8 list \<Rightarrow> 'a fsys_scheme \<Rightarrow> (inode option \<times> 'a fsys_scheme) run" where
  "lookup_root b2 rt name s =
     (case rt of
        None \<Rightarrow> stop (Prelude.PF 0)
      | Some r \<Rightarrow> bindR (getFileFromFilename b2 r name (fq s)) (\<lambda>(n, q). ret (n, s\<lparr>fq := q\<rparr>)))"

definition VERIFY_USER :: "addr \<Rightarrow> addr run" where
  "VERIFY_USER rdx = (if CBASE < rdx then stop (ERROR ERR_VERIFY_USER_FAIL rdx) else ret rdx)"

text \<open>The descriptor a user program passes to \<open>exec\<close>: the address and text of its root's path, and the permissions.\<close>

definition VERIFY_PERMS_EXEC :: "'a page_alloc \<Rightarrow> addr \<times> u8 list \<Rightarrow> addr \<times> u8 list \<times> u64 \<Rightarrow> 'a fsys_scheme \<Rightarrow>
    (addr \<times> 'a fsys_scheme) run" where
  "VERIFY_PERMS_EXEC kpalloc b2 target s =
     (case target of (p, chrootfname, pm) \<Rightarrow>
        bindR (malloc kpalloc 16 s) (\<lambda>(t_km, s).
        bindR (malloc kpalloc 16 s) (\<lambda>(to, s).
        bindR (VERIFY_USER p) (\<lambda>_.
        bindR (malloc kpalloc 32 s) (\<lambda>(nm, s).
        bindR (check (checkEPL pm s) (ERROR ERR_TODO_PROC_ERR 1)) (\<lambda>_.
        bindR (lookup_root b2 (t_root (my_perms s)) chrootfname s) (\<lambda>(n, s).
          ret (to, s\<lparr>perm_descs := (perm_descs s)(to := \<lparr>t_root = n, PM = pm\<rparr>)\<rparr>))))))))"

subsection \<open>Drivers (driver.c)\<close>

text \<open>The quad \<open>k2\<close> and the stream stored in it.\<close>

fun find_device :: "(int \<Rightarrow> DEVICE) \<Rightarrow> u8 list \<Rightarrow> int \<Rightarrow> nat \<Rightarrow> DEVICE option run" where
  "find_device l name i 0 = ret None"
| "find_device l name i (Suc n) =
     (case strcmp name (DEV_NAME (l i)) of
        None \<Rightarrow> None
      | Some d \<Rightarrow> if d = 0 then ret (Some (l i)) else find_device l name (i + 1) n)"

definition dOpen :: "'a page_alloc \<Rightarrow> addr \<times> u8 list \<Rightarrow> 'a fsys_scheme \<Rightarrow> (addr \<times> stream \<times> 'a fsys_scheme) run" where
  "dOpen kpalloc name s =
     bindR (find_device (DEVICE_LIST s) (snd name) 0 (nat (LAST_DEVICE s))) (\<lambda>d.
     case d of
       None \<Rightarrow> stop (ERROR ERR_DEV_NF (fst name))
     | Some d \<Rightarrow>
         bindR (malloc kpalloc 32 s) (\<lambda>(k2, s).
         let st = fds s (fst (streamID d)) (snd (streamID d))
         in bindR (new_stdIO kpalloc (arguments st) (arguments st) s) (\<lambda>(m, s).
              ret (k2, \<lparr>fn = fn (fds s (fst (streamID d)) (snd (streamID d))), arguments = m, position = 0, sflags = 0\<rparr>, s))))"

definition d0xD :: "'a page_alloc \<Rightarrow> u8 list \<Rightarrow> 'a fsys_scheme \<Rightarrow> 'a fsys_scheme run" where
  "d0xD kpalloc name s =
     (let K = LAST_DEVICE s; pg = fd_page s;
          s = s\<lparr>DEVICE_LIST := (DEVICE_LIST s)(K := (DEVICE_LIST s K)\<lparr>streamID := (pg, 0)\<rparr>)\<rparr>
      in bindR (if fn (fds s pg 0) = NULL_FN then inSO kpalloc pg 0 0 0 s else ret s) (\<lambda>s.
         let s = s\<lparr>DEVICE_LIST := (DEVICE_LIST s)(K := (DEVICE_LIST s K)\<lparr>dev_pid := pid (tcb (current_task_TCB s) s)\<rparr>)\<rparr>
         in case strlen name of
              None \<Rightarrow> None
            | Some n \<Rightarrow> bindR (malloc kpalloc (of_nat n + 1) s) (\<lambda>(p, s).
                let s = s\<lparr>DEVICE_LIST := (DEVICE_LIST s)(K := (DEVICE_LIST s K)\<lparr>DEV_NAME := take (n + 1) name\<rparr>),
                          LAST_DEVICE := K + 1\<rparr>
                in unblock_task (parent (tcb (current_task_TCB s) s)) s)))"

definition d0xE :: "u64 \<Rightarrow> u8 list \<Rightarrow> 'a fsys_scheme \<Rightarrow> 'a fsys_scheme run" where
  "d0xE errc err_str s = stop FAULT"

subsection \<open>Opening\<close>

text \<open>The name after the last slash, unless that slash is the first character.\<close>

fun slash_index :: "u8 list \<Rightarrow> nat \<Rightarrow> nat" where
  "slash_index name 0 = 0"
| "slash_index name (Suc i) = (if (name @ [0]) ! Suc i \<noteq> SLASH then slash_index name i else Suc i)"

definition stream_name :: "u8 list \<Rightarrow> u8 list" where
  "stream_name name = (let i = slash_index name (length name) in drop (if i \<noteq> 0 then i + 1 else i) name)"

text \<open>
  \<open>getStreamDescriptor\<close> copies that name without its terminator into a new block: what the block
  held behind the copy, \<open>junk\<close>, follows it.
\<close>

datatype file_content = In inode | Sd addr "u8 list"

definition getStreamDescriptor :: "'a page_alloc \<Rightarrow> u8 list \<Rightarrow> u8 list \<Rightarrow> 'a fsys_scheme \<Rightarrow> (file_content \<times> 'a fsys_scheme) run" where
  "getStreamDescriptor kpalloc junk name s =
     (let w = stream_name name in
      bindR (malloc kpalloc 16 s) (\<lambda>(b, s).
      bindR (malloc kpalloc (of_nat (length w) + 1) s) (\<lambda>(p, s).
        ret (Sd p (w @ junk), s))))"

definition openFilename :: "'a page_alloc \<Rightarrow> addr \<times> u8 list \<Rightarrow> u8 list \<Rightarrow> u8 list \<Rightarrow> 'a fsys_scheme \<Rightarrow>
    (file_content \<times> 'a fsys_scheme) run" where
  "openFilename kpalloc b2 junk name s =
     bindR (malloc kpalloc 16 s) (\<lambda>(k, s).
     bindR (lookup_root b2 (t_root (my_perms s)) name s) (\<lambda>(n, s).
       case n of
         Some n \<Rightarrow> ret (In n, s)
       | None \<Rightarrow> getStreamDescriptor kpalloc junk name s))"

definition TTY :: "u8 list" where "TTY = [0x74, 0x74, 0x79, 0]"

definition openDEV :: "'a page_alloc \<Rightarrow> addr \<times> u8 list \<Rightarrow> 'a fsys_scheme \<Rightarrow> (addr \<times> stream \<times> 'a fsys_scheme) run" where
  "openDEV kpalloc name s =
     (case strcmp (snd name) TTY of
        None \<Rightarrow> None
      | Some d \<Rightarrow>
          if d = 0
          then bindR (malloc kpalloc 32 s) (\<lambda>(k2, s).
               bindR (new_stdIO kpalloc (TermSP s) (TermSP s) s) (\<lambda>(m, s).
                 ret (k2, \<lparr>fn = StdIOStream, arguments = m, position = 0, sflags = 0\<rparr>, s)))
          else dOpen kpalloc name s)"

text \<open>The search for a free descriptor goes on from the one closed last, then from the start.\<close>

fun slot_scan :: "(nat \<Rightarrow> stream) \<Rightarrow> nat \<Rightarrow> nat \<Rightarrow> nat" where
  "slot_scan t k 0 = k"
| "slot_scan t k (Suc n) = (if fn (t k) \<noteq> NULL_FN then slot_scan t (Suc k) n else k)"

definition find_slot :: "(nat \<Rightarrow> stream) \<Rightarrow> nat \<Rightarrow> nat \<Rightarrow> nat run" where
  "find_slot t k len =
     (let i = slot_scan t k (len - k) in
      if i \<noteq> len then ret i
      else let j = slot_scan t 0 len in
           if j \<noteq> len then ret j else stop (ERROR ERR_FD_TOOHIGH (of_nat j)))"

definition install_fd :: "addr \<Rightarrow> stream \<Rightarrow> 'a fsys_scheme \<Rightarrow> (u64 \<times> 'a fsys_scheme) run" where
  "install_fd m st s =
     bindR (find_slot (fds s (fd_page s)) (unat (kernelFdLastClosed s)) (unat (fd_len s))) (\<lambda>i.
     let s = s\<lparr>kernelFdLastClosed := of_nat i\<rparr>;
         s = upd_fd (fd_page s) i (\<lambda>_. st) s
     in bindR (lift (free m s)) (\<lambda>s. ret (of_nat i, s)))"

definition OPEN :: "'a page_alloc \<Rightarrow> addr \<times> u8 list \<Rightarrow> u8 list \<Rightarrow> u8 list \<Rightarrow> u64 \<Rightarrow> 'a fsys_scheme \<Rightarrow> (u64 \<times> 'a fsys_scheme) run" where
  "OPEN kpalloc b2 junk filename flags s =
     bindR (openFilename kpalloc b2 junk filename s) (\<lambda>(f, s).
     bindR (case f of
         Sd p w \<Rightarrow> openDEV kpalloc (p, w) s
       | In n \<Rightarrow>
           bindR (malloc kpalloc 32 s) (\<lambda>(m, s).
           bindR (malloc kpalloc 8 s) (\<lambda>(a, s).
             ret (m, \<lparr>fn = stream_function.FileStream, arguments = a, position = 0, sflags = flags\<rparr>,
                  s\<lparr>fargs := (fargs s)(a := n)\<rparr>))))
       (\<lambda>(m, st, s). install_fd m st s))"

definition InitKernelFd :: "'a page_alloc \<Rightarrow> addr \<times> u8 list \<Rightarrow> 'a fsys_scheme \<Rightarrow> 'a fsys_scheme run" where
  "InitKernelFd kpalloc b2 s =
     bindR (check (current_task_TCB s \<noteq> 0) (ERROR ERR_CTTCBN 0)) (\<lambda>_.
     bindR (lift (kpalloc s)) (\<lambda>(M, s).
     let s = s\<lparr>fds := (fds s)(M := (\<lambda>_. zero_stream))\<rparr>;
         c = current_task_TCB s;
         s = upd c (\<lambda>t. t\<lparr>file_descriptors := M\<rparr>) s;
         s = s\<lparr>kernelFdLastClosed := 0\<rparr>
     in bindR (lift (DIV64_32 0x1000 32)) (\<lambda>n.
     let s = upd c (\<lambda>t. t\<lparr>kernelFdLen := ucast n\<rparr>) s
     in bindR (case t_root (my_perms s) of
          Some _ \<Rightarrow> ret s
        | None \<Rightarrow>
            bindR (GrabInode b2 0 (fq s)) (\<lambda>(n, q).
            bindR (cPD kpalloc 0xFF (Some n) (s\<lparr>fq := q\<rparr>)) (\<lambda>(p, s).
              ret (upd c (\<lambda>t. t\<lparr>perms := p\<rparr>) s))))
       (OpenStdIn kpalloc))))"

subsection \<open>Fields and frames\<close>

lemma fs_upd_fields [simp]:
  "fds (upd_fd p i f s) q j = (if q = p \<and> j = i then f (fds s p i) else fds s q j)"
  "ios (upd_fd p i f s) = ios s" "fifos (upd_fd p i f s) = fifos s" "mem (upd_fd p i f s) = mem s" "ml1 (upd_fd p i f s) = ml1 s"
  "tcbs (upd_fd p i f s) = tcbs s" "current_task_TCB (upd_fd p i f s) = current_task_TCB s" "fargs (upd_fd p i f s) = fargs s"
  "fq (upd_fd p i f s) = fq s" "fd_page (upd_fd p i f s) = fd_page s" "fd_len (upd_fd p i f s) = fd_len s"
  by (simp_all add: upd_fd_def fd_page_def fd_len_def tcb_def)

lemma kernelFd_set [simp]:
  "kernelFd g (set_kernelFd fd f s) = (if g = fd then f (kernelFd fd s) else kernelFd g s)"
  by (simp add: kernelFd_def set_kernelFd_def word_unat_eq_iff)

lemma set_kernelFd_fields [simp]:
  "ios (set_kernelFd fd f s) = ios s" "fifos (set_kernelFd fd f s) = fifos s" "mem (set_kernelFd fd f s) = mem s"
  "ml1 (set_kernelFd fd f s) = ml1 s" "fq (set_kernelFd fd f s) = fq s" "fargs (set_kernelFd fd f s) = fargs s"
  "fd_len (set_kernelFd fd f s) = fd_len s" "fd_page (set_kernelFd fd f s) = fd_page s"
  by (simp_all add: set_kernelFd_def)

lemma kernelFd_upd [simp]:
  "kernelFd g (upd_io p f s) = kernelFd g s" "kernelFd g (upd_fifo p h s) = kernelFd g s"
  "kernelFd g (s\<lparr>fq := q\<rparr>) = kernelFd g s" "fd_len (s\<lparr>fq := q\<rparr>) = fd_len s"
  by (simp_all add: kernelFd_def fd_page_def fd_len_def tcb_def upd_io_def upd_fifo_def)

lemma fsys_field_updates [simp]:
  "fd_page (s\<lparr>kernelFdLastClosed := c\<rparr>) = fd_page s" "fd_page (s\<lparr>fq := q\<rparr>) = fd_page s" "fd_page (s\<lparr>fargs := a\<rparr>) = fd_page s"
  "fd_len (s\<lparr>kernelFdLastClosed := c\<rparr>) = fd_len s" "fd_len (s\<lparr>fargs := a\<rparr>) = fd_len s"
  "kernelFd g (s\<lparr>kernelFdLastClosed := c\<rparr>) = kernelFd g s" "kernelFd g (s\<lparr>fargs := a\<rparr>) = kernelFd g s"
  by (simp_all add: kernelFd_def fd_page_def fd_len_def tcb_def)

lemma fd_used_ok: "fd \<le> n \<Longrightarrow> fn (kernelFd fd s) \<noteq> NULL_FN \<Longrightarrow> fd_used fd n s = ret (kernelFd fd s)"
  by (simp add: fd_used_def)

text \<open>The descriptors and the tables of the tasks are above the heap: an allocation leaves them alone.\<close>

definition above :: "'a fsys_scheme \<Rightarrow> (addr \<Rightarrow> nat \<Rightarrow> stream) \<times> (addr \<Rightarrow> thread_control_block) \<times> addr" where
  "above s = (fds s, tcbs s, current_task_TCB s)"

lemma above_kernelFd: "above s' = above s \<Longrightarrow> kernelFd fd s' = kernelFd fd s"
  by (simp add: above_def kernelFd_def fd_page_def tcb_def)

lemma above_more:
  assumes "kheap.more s' = kheap.more s"
  shows "above s' = above s"
  using assms by (cases s; cases s') (simp add: above_def)

lemma STDOUT_above:
  assumes "STDOUTStream buffer_malloc a xs s = ret s'"
  shows "above s' = above s"
proof (cases "pairOut (ios s a) \<noteq> 0 \<and> iotype (ios s (pairOut (ios s a))) = 1")
  case True
  then show ?thesis using assms by (auto simp: STDOUTStream_def Let_def above_def)
next
  case False
  have "stdout_loop buffer_malloc a xs s = ret s'" using assms False by (simp only: STDOUTStream_def Let_def if_False)
  then show ?thesis
  proof (rule stdout_loop_frame[where F = above, rotated -1])
    show "above s' = above s" if "buffer_malloc s = ret (p, s')" for s s' :: "'a fsys_scheme" and p
      using above_more[OF more_malloc] that by (simp add: ret_def)
  qed (simp_all add: above_def upd_io_def upd_fifo_def)
qed

subsection \<open>Pipes between descriptors\<close>

text \<open>A descriptor whose end has its own, empty buffer, as \<open>inSO\<close> makes it.\<close>

definition fresh_end :: "u64 \<Rightarrow> 'a fsys_scheme \<Rightarrow> bool" where
  "fresh_end fd s \<longleftrightarrow> fn (kernelFd fd s) = StdIOStream \<and> arguments (kernelFd fd s) \<noteq> 0 \<and> (\<forall>p. buf_ok (fifos s p)) \<and>
     (let io = ios s (arguments (kernelFd fd s)) in
      bufferOutEnd io = bufferOut io \<and> datac (fifos s (bufferOut io)) = 0 \<and> heap_owns s {bufferOut io})"

lemma stdout_small:
  assumes "datac (fifos s (bufferOutEnd (ios s a))) = 0" "length xs \<le> 255"
  shows "\<exists>s'. stdout_loop mal a xs s = ret s'"
  using assms by (cases "xs = []") (simp_all add: stdout_loop.simps[of _ _ xs] stdout_loop.simps[of _ _ "[]"] stdout_chunk_def Let_def min_def)

lemma BIND_HANDLES_pipe:
  assumes a: "fresh_end FD0 s" and b: "fn (kernelFd FD1 s) = StdIOStream"
  shows "\<exists>s1. BIND_HANDLES FD0 FD1 s = ret s1 \<and> (\<forall>g. kernelFd g s1 = kernelFd g s) \<and>
    pipe heap_owns (arguments (kernelFd FD0 s)) (arguments (kernelFd FD1 s)) s1 [] 1 \<and>
    pairOut (ios s1 (arguments (kernelFd FD0 s))) = arguments (kernelFd FD1 s) \<and> (\<forall>p. iotype (ios s1 p) = iotype (ios s p)) \<and>
    datac (fifos s1 (bufferOutEnd (ios s1 (arguments (kernelFd FD0 s))))) = 0"
proof -
  define p r where "p = arguments (kernelFd FD0 s)" and "r = arguments (kernelFd FD1 s)"
  define s1 where "s1 = upd_io p (\<lambda>io. io\<lparr>pairOut := r\<rparr>) (upd_io r (\<lambda>io. io\<lparr>pairIn := p\<rparr>) s)"
  have f: "fifos s1 = fifos s" "bufferOut (ios s1 q) = bufferOut (ios s q)" "bufferOutEnd (ios s1 q) = bufferOutEnd (ios s q)"
    "iotype (ios s1 q) = iotype (ios s q)" "pairIn (ios s1 r) = p" "pairOut (ios s1 p) = r" for q
    by (simp_all add: s1_def)
  have "heap_owns s1 A = heap_owns s A" for A by (rule heap_owns_cong) (simp_all add: s1_def upd_io_def)
  then have "pipe heap_owns p r s1 [] 1"
    unfolding pipe_def using a f by (intro exI[of _ "{bufferOut (ios s p)}"] exI[of _ "[bufferOut (ios s p)]"])
      (simp add: fresh_end_def p_def Let_def filled_def)
  moreover have "BIND_HANDLES FD0 FD1 s = ret s1" using a b by (simp add: BIND_HANDLES_def fresh_end_def Let_def s1_def p_def r_def)
  moreover have "kernelFd g s1 = kernelFd g s" for g by (simp add: s1_def)
  moreover have "datac (fifos s1 (bufferOutEnd (ios s1 p))) = 0" using a f by (simp add: fresh_end_def p_def Let_def)
  ultimately show ?thesis using f unfolding p_def r_def by blast
qed

text \<open>Two standard streams bound with \<open>BIND_HANDLES\<close> are a pipe: a write to the first always ends (a short
  one with success, a long one unless the kernel heap is exhausted), and a read of at most as many bytes
  from the second then completes and returns the first bytes written, behind which the buffer keeps its
  contents.\<close>

theorem bound_handles_pipe:
  assumes "FD0 \<le> FDS" and "FD1 \<le> FDS" and "fresh_end FD0 s" and "fn (kernelFd FD1 s) = StdIOStream"
    and "iotype (ios s (arguments (kernelFd FD1 s))) \<noteq> 1" and "length xs = unat len" and "n \<le> len"
  shows "\<exists>s1 res. BIND_HANDLES FD0 FD1 s = ret s1 \<and> WRITE (KPALLOC no_more_pages) b2 FD0 xs len s1 = Some res \<and>
    (length xs \<le> 255 \<longrightarrow> isOk res) \<and>
    (\<forall>s2. res = Inr s2 \<longrightarrow>
      (\<exists>s3. READ (KPALLOC no_more_pages) b2 FD1 buffer n s2 = ret (take (unat n) xs @ drop (unat n) buffer, Complete, s3)))"
proof -
  obtain s1 where s1: "BIND_HANDLES FD0 FD1 s = ret s1" "\<And>g. kernelFd g s1 = kernelFd g s"
    "pipe heap_owns (arguments (kernelFd FD0 s)) (arguments (kernelFd FD1 s)) s1 [] 1"
    "pairOut (ios s1 (arguments (kernelFd FD0 s))) = arguments (kernelFd FD1 s)" "\<And>p. iotype (ios s1 p) = iotype (ios s p)"
    "datac (fifos s1 (bufferOutEnd (ios s1 (arguments (kernelFd FD0 s))))) = 0"
    using BIND_HANDLES_pipe[OF assms(3,4)] by blast
  define p r where "p = arguments (kernelFd FD0 s)" and "r = arguments (kernelFd FD1 s)"
  note pp = s1(3)[folded p_def r_def]
  obtain w where w: "stdout_loop buffer_malloc p xs s1 = Some w"
    "\<And>s2. w = Inr s2 \<Longrightarrow> \<exists>k. pipe heap_owns p r s2 xs k" using kernel.write_ok[OF pp, of xs] by auto
  have so: "STDOUTStream buffer_malloc p xs s1 = Some w"
    using w(1) s1(4,5) assms(5) by (simp add: STDOUTStream_def Let_def p_def)
  have fn: "fn (kernelFd FD0 s1) = StdIOStream" "fn (kernelFd FD1 s1) = StdIOStream"
    using s1(2) assms(3,4) by (simp_all add: fresh_end_def)
  have wr: "WRITE (KPALLOC no_more_pages) b2 FD0 xs len s1 =
      bindR (Some w) (\<lambda>s. ret (set_kernelFd FD0 (\<lambda>t. t\<lparr>position := 0\<rparr>) s))"
  proof -
    have "take (unat len) xs = xs" using assms(6) by simp
    then have "stream_fn (KPALLOC no_more_pages) b2 (kernelFd FD0 s1) xs len 1 s1 =
        bindR (Some w) (\<lambda>s. ret (0, xs, Complete, s))"
      using fn so s1(2) by (simp add: stream_fn_def StdIOStream_fn_def p_def)
    then show ?thesis using fn assms(1) by (cases w) (simp_all add: WRITE_def fd_used_ok bindR_def ret_def)
  qed
  have "\<exists>s3. READ (KPALLOC no_more_pages) b2 FD1 buffer n s2 = ret (take (unat n) xs @ drop (unat n) buffer, Complete, s3)"
    if res: "bindR (Some w) (\<lambda>s. ret (set_kernelFd FD0 (\<lambda>t. t\<lparr>position := 0\<rparr>) s)) = Some (Inr s2)" for s2
  proof -
    obtain t where t: "w = Inr t" "s2 = set_kernelFd FD0 (\<lambda>t. t\<lparr>position := 0\<rparr>) t"
      using res by (cases w) (auto simp: bindR_def ret_def)
    obtain k where k: "pipe heap_owns p r t xs k" using w(2) t(1) by blast
    have k2: "pipe heap_owns p r s2 xs k" using pipe_cong[of s2 t p r xs k] k by (simp add: t(2))
    have ab: "kernelFd g t = kernelFd g s1" for g
      using above_kernelFd[OF STDOUT_above, of p xs s1 t g] so t(1) by (simp add: ret_def)
    have "fn (kernelFd FD1 s2) = StdIOStream" "arguments (kernelFd FD1 s2) = r"
      using fn s1(2) by (auto simp: t(2) ab r_def)
    moreover obtain s3 where "STDINStream heap_free r (unat n) s2 = ret (take (unat n) xs, Complete, s3)"
      using kernel.read_ok[OF k2, of "unat n" "[]"] kernel.pipe_open[OF k2] assms(6,7)
      by (auto simp: STDINStream_def word_le_nat_alt)
    moreover have "length (take (unat n) xs) = unat n" using assms(6,7) by (simp add: word_le_nat_alt)
    ultimately show ?thesis using assms(2)
      by (simp add: READ_def fd_used_ok stream_fn_def StdIOStream_fn_def overlay_def)
  qed
  moreover have "isOk w" if l: "length xs \<le> 255"
  proof -
    have "datac (fifos s1 (bufferOutEnd (ios s1 p))) = 0" using s1(6) by (simp add: p_def)
    from stdout_small[OF this l] obtain t where "stdout_loop buffer_malloc p xs s1 = ret t" by blast
    then show ?thesis using w(1) by (simp add: ret_def)
  qed
  ultimately show ?thesis using s1(1) wr by (intro exI[of _ s1]) (cases w; auto simp: bindR_def ret_def)
qed

text \<open>
  A state for the witnesses: descriptor 0 is an end with an empty buffer, 1 an end to bind to it, 2 a file
  of two sectors; the other descriptors are free.
\<close>

definition demo_fd :: "nat \<Rightarrow> stream" where
  "demo_fd i =
     (if i = 0 then \<lparr>fn = StdIOStream, arguments = 1, position = 0, sflags = 0\<rparr>
      else if i = 1 then \<lparr>fn = StdIOStream, arguments = 2, position = 0, sflags = 0\<rparr>
      else if i = 2 then \<lparr>fn = stream_function.FileStream, arguments = 3, position = 7, sflags = 0\<rparr>
      else zero_stream)"

definition demo_fsys :: fsys where
  "demo_fsys = streams.extend
     (demo_streams\<lparr>fds := (\<lambda>_. demo_fd), tcbs := (\<lambda>_. new_tcb\<lparr>kernelFdLen := 128\<rparr>)\<rparr>)
     (fsys.fields blank (\<lambda>_. demo_file) (\<lambda>_. \<lparr>t_root = Some zero_inode, PM = 5\<rparr>) 0
        (\<lambda>_. \<lparr>dev_pid = 0, streamID = (0, 0), DEV_NAME = []\<rparr>) 0 (\<lambda>_. \<lparr>brk_start = 0, brk_end = 0\<rparr>) (\<lambda>_. 0))"

lemma demo_fsys_simps:
  "mem demo_fsys = mem demo_streams" "ml1 demo_fsys = ml1 demo_streams" "ios demo_fsys = ios demo_streams"
  "fifos demo_fsys = fifos demo_streams" "kernelFd fd demo_fsys = demo_fd (unat fd)" "fq demo_fsys = blank"
  "fd_len demo_fsys = 128" "fargs demo_fsys p = demo_file"
  "my_perms demo_fsys = \<lparr>t_root = Some zero_inode, PM = 5\<rparr>" "kernelFdLastClosed demo_fsys = 0"
  by (simp_all add: demo_fsys_def demo_streams_def demo_sched_def sched.defs streams.defs fsys.defs kernelFd_def
      fd_page_def fd_len_def tcb_def new_tcb_def my_perms_def)

lemma demo_fresh_end: "fresh_end 0 demo_fsys"
proof -
  have "heap_owns demo_streams {fst first_block}"
    using demo_pipe by (auto simp: pipe_def demo_streams_simps fifo_chain.simps intro: heap_owns_subset elim!: fifo_chain.elims)
  then have "heap_owns demo_fsys {fst first_block}" using heap_owns_cong[of demo_fsys demo_streams] by (simp add: demo_fsys_simps)
  then show ?thesis by (simp add: fresh_end_def demo_fsys_simps demo_fd_def demo_streams_simps buf_ok_def Let_def)
qed

theorem bound_handles_pipe_witness:
  "\<exists>s1 s2 s3. BIND_HANDLES 0 1 demo_fsys = ret s1 \<and> WRITE (KPALLOC no_more_pages) (0, []) 0 [1, 2, 3] 3 s1 = ret s2 \<and>
    READ (KPALLOC no_more_pages) (0, []) 1 [9, 9, 9] 2 s2 = ret ([1, 2, 9], Complete, s3)"
proof -
  obtain s1 res where r: "BIND_HANDLES 0 1 demo_fsys = ret s1" "WRITE (KPALLOC no_more_pages) (0, []) 0 [1, 2, 3] 3 s1 = Some res" "isOk res"
    "\<And>s2. res = Inr s2 \<Longrightarrow> \<exists>s3. READ (KPALLOC no_more_pages) (0, []) 1 [9, 9, 9] 2 s2 = ret ([1, 2, 9], Complete, s3)"
    using bound_handles_pipe[where ?FD0.0 = 0 and ?FD1.0 = 1 and s = demo_fsys and xs = "[1, 2, 3]" and len = 3 and n = 2 and buffer = "[9, 9, 9]" and ?b2.0 = "(0, [])"]
    by (auto simp: demo_fresh_end FDS_def demo_fsys_simps demo_fd_def demo_streams_simps)
  then show ?thesis by (cases res) (auto simp: ret_def)
qed

subsection \<open>Files behind descriptors\<close>

text \<open>C18. The calls a program loader makes read a whole file: \<open>SEEK\<close> to the end and \<open>TELL\<close> give its size, and after
  \<open>SEEK\<close> to the start one \<open>READ\<close> of that size returns all of its bytes and leaves the position at the
  end. This needs a file of less than 64 KiB, because the disk layer has 16-bit lengths.\<close>

theorem read_whole_file:
  assumes "fd < FDS" and "fd_len s = FDS" and "fn (kernelFd fd s) = stream_function.FileStream"
    and n: "n = fargs s (arguments (kernelFd fd s))" and disk: "disk_ok (fq s)" "in_bounds n" "0 < unat (chunklen n)" "unat (chunklen n) < 128"
    and len: "sz = 512 * unat (chunklen n)" and buf: "length buffer = sz"
  shows "\<exists>s1 s2 s3. SEEK kpalloc b2 fd 0 2 s = ret s1 \<and> TELL fd s1 = ret (of_nat sz) \<and> SEEK kpalloc b2 fd 0 0 s1 = ret s2 \<and>
    READ kpalloc b2 fd buffer (of_nat sz) s2 = ret (content (fq s) n 0 sz, Complete, s3) \<and> TELL fd s3 = ret (of_nat sz)"
proof -
  have sz2: "push_bit 9 (chunklen n) = of_nat sz" "unat (of_nat sz :: u64) = sz"
  proof -
    show "push_bit 9 (chunklen n) = of_nat sz" 
      using len by (simp add: push_bit_eq_mult)
    show "unat (of_nat sz :: u64) = sz" by (rule unat_of_nat_small) (use len disk(4) in linarith)
  qed
  have le: "fd \<le> FDS" using assms(1) by simp
  define s1 where "s1 = set_kernelFd fd (\<lambda>t. t\<lparr>position := of_nat sz\<rparr>) s"
  define s2 where "s2 = set_kernelFd fd (\<lambda>t. t\<lparr>position := 0\<rparr>) s1"
  define s3 where "s3 = set_kernelFd fd (\<lambda>t. t\<lparr>position := of_nat sz\<rparr>) s2"
  have q: "fq s1 = fq s" "fq s2 = fq s" by (simp_all add: s1_def s2_def)
  have ir: "InodeRead n 0 buffer (of_nat sz) (fq s) = ret (content (fq s) n 0 sz, fq s)"
    using InodeRead_ok[OF disk(1,2), of "of_nat sz" 0 buffer] sz2(2) len disk(3,4) buf by (simp add: overlay_def content_def)
  have 1: "SEEK kpalloc b2 fd 0 2 s = ret s1"
    using assms(2,3) le n sz2(1) by (simp add: SEEK_def fd_used_ok stream_fn_def Qfs.FileStream_def s1_def)
  have 2: "TELL fd s1 = ret (of_nat sz)" "SEEK kpalloc b2 fd 0 0 s1 = ret s2"
    using assms(2,3) le by (simp_all add: TELL_def SEEK_def fd_used_ok s1_def s2_def)
  have k: "fn (kernelFd fd s2) = stream_function.FileStream" "position (kernelFd fd s2) = 0"
      "arguments (kernelFd fd s2) = arguments (kernelFd fd s)" "fargs s2 = fargs s"
    using assms(3) by (simp_all add: s2_def s1_def)
  have "stream_fn kpalloc b2 (kernelFd fd s2) buffer (of_nat sz) 0 s2 =
      ret (of_nat sz, content (fq s) n 0 sz, Complete, s2)"
    using k n ir q(2) by (simp add: stream_fn_def Qfs.FileStream_def FileReaderStream_def)
  then have 3: "READ kpalloc b2 fd buffer (of_nat sz) s2 = ret (content (fq s) n 0 sz, Complete, s3)"
    using k le by (simp add: READ_def fd_used_ok s3_def)
  have 4: "TELL fd s3 = ret (of_nat sz)"
    using assms(2,3) le by (simp add: TELL_def fd_used_ok s3_def s2_def s1_def)
  show ?thesis using 1 2 3 4 by blast
qed

theorem read_whole_file_witness:
  "\<exists>s1 s2 s3. SEEK (KPALLOC no_more_pages) (0, []) 2 0 2 demo_fsys = ret s1 \<and> TELL 2 s1 = ret 1024 \<and>
    SEEK (KPALLOC no_more_pages) (0, []) 2 0 0 s1 = ret s2 \<and>
    READ (KPALLOC no_more_pages) (0, []) 2 (replicate 1024 7) 1024 s2 = ret (content blank demo_file 0 1024, Complete, s3)"
  using read_whole_file[where fd = 2 and s = demo_fsys and n = demo_file and sz = 1024 and buffer = "replicate 1024 7" and kpalloc = "KPALLOC no_more_pages" and ?b2.0 = "(0, [])"]
  by (auto simp: FDS_def demo_fsys_simps demo_fd_def demo_file_def zero_inode_def in_bounds_def SECTORS_def disk_ok_def blank_def)

subsection \<open>Opening and closing\<close>

lemma slot_scan_ok:
  "k \<le> slot_scan t k n \<and> slot_scan t k n \<le> k + n \<and> (slot_scan t k n < k + n \<longrightarrow> fn (t (slot_scan t k n)) = NULL_FN) \<and>
    (\<forall>i. k \<le> i \<and> i < slot_scan t k n \<longrightarrow> fn (t i) \<noteq> NULL_FN)"
proof (induction t k n rule: slot_scan.induct)
  case (2 t k n)
  show ?case
  proof (cases "fn (t k) = NULL_FN")
    case False
    then have ih: "Suc k \<le> slot_scan t (Suc k) n" "slot_scan t (Suc k) n \<le> Suc k + n"
      "slot_scan t (Suc k) n < Suc k + n \<Longrightarrow> fn (t (slot_scan t (Suc k) n)) = NULL_FN"
      "\<And>i. Suc k \<le> i \<Longrightarrow> i < slot_scan t (Suc k) n \<Longrightarrow> fn (t i) \<noteq> NULL_FN" using 2 by auto
    have "fn (t i) \<noteq> NULL_FN" if "k \<le> i" "i < slot_scan t (Suc k) n" for i
      using ih(4)[of i] that False by (cases "i = k") auto
    then show ?thesis using False ih by auto
  qed auto
qed auto

text \<open>The search finds a free descriptor exactly when there is one.\<close>

lemma find_slot_ok:
  assumes "k \<le> len"
  shows "(\<exists>i. find_slot t k len = ret i \<and> i < len \<and> fn (t i) = NULL_FN) \<or>
    find_slot t k len = stop (ERROR ERR_FD_TOOHIGH (of_nat len)) \<and> (\<forall>i<len. fn (t i) \<noteq> NULL_FN)"
  using slot_scan_ok[of k t "len - k"] slot_scan_ok[of 0 t len] assms
  by (cases "slot_scan t k (len - k) = len"; cases "slot_scan t 0 len = len") (auto simp: find_slot_def Let_def)

lemma more_fields:
  assumes "kheap.more s' = kheap.more s"
  shows "above s' = above s" "my_perms s' = my_perms s" "fq s' = fq s" "kernelFdLastClosed s' = kernelFdLastClosed s"
    "fargs s' = fargs s" "ios s' = ios s" "fifos s' = fifos s" "TermSP s' = TermSP s" "scr s' = scr s"
    "fd_len s' = fd_len s" "fd_page s' = fd_page s" "kernelFd fd s' = kernelFd fd s" "fds s' = fds s"
    "sems s' = sems s" "pokes s' = pokes s" "DEVICE_LIST s' = DEVICE_LIST s" "LAST_DEVICE s' = LAST_DEVICE s"
    "perm_descs s' = perm_descs s" "tcbs s' = tcbs s" "current_task_TCB s' = current_task_TCB s"
  using assms by (cases s; cases s'; simp add: above_def my_perms_def fd_len_def fd_page_def kernelFd_def tcb_def)+

text \<open>Installing a stream takes a free descriptor and leaves every other one as it was.\<close>

lemma install_fd_ok:
  assumes len: "fd_len s = FDS" "kernelFdLastClosed s \<le> FDS" and r: "install_fd m st s = ret (fd, s')"
  shows "fd < FDS \<and> fn (kernelFd fd s) = NULL_FN \<and> kernelFd fd s' = st \<and> (\<forall>g. g \<noteq> fd \<longrightarrow> kernelFd g s' = kernelFd g s) \<and>
    fargs s' = fargs s"
proof -
  have k: "unat (kernelFdLastClosed s) \<le> 128" using len(2) by (simp add: FDS_def word_le_nat_alt)
  obtain i where i: "find_slot (fds s (fd_page s)) (unat (kernelFdLastClosed s)) 128 = ret i" "i < 128"
      "fn (fds s (fd_page s) i) = NULL_FN"
    using find_slot_ok[OF k, of "fds s (fd_page s)"] r len(1) by (auto simp: install_fd_def FDS_def)
  define s1 where "s1 = upd_fd (fd_page s) i (\<lambda>_. st) (s\<lparr>kernelFdLastClosed := of_nat i\<rparr>)"
  have "bindR (lift (free m s1)) (\<lambda>s. ret (of_nat i, s)) = ret (fd, s')"
    using r i(1) len(1) by (simp add: install_fd_def FDS_def s1_def Let_def)
  then have "free m s1 = Inr s' \<and> fd = of_nat i" by (cases "free m s1"; auto)
  then have s': "free m s1 = Inr s'" "fd = of_nat i" by simp_all
  have u: "unat fd = i" using i(2) by (simp add: s'(2) unat_of_nat_small)
  have p: "fd_page s1 = fd_page s" "fds s1 (fd_page s) j = (if j = i then st else fds s (fd_page s) j)" "fargs s1 = fargs s" for j
    by (simp_all add: s1_def)
  note mf = more_fields[OF more_free[OF s'(1)]]
  have "kernelFd g s' = (if g = fd then st else kernelFd g s)" for g
    unfolding kernelFd_def mf(11,13) p using u by (auto simp: word_unat_eq_iff)
  then show ?thesis using i(2,3) mf(5) p(3) u by (auto simp: FDS_def word_less_nat_alt kernelFd_def)
qed


text \<open>A disk with one directory (inode 0) that has one file \<open>a\<close> (inode 1).\<close>

definition file_a :: inode where
  "file_a = zero_inode\<lparr>chunkaddr1 := 30, chunklen := 1, iname := 0x61 # replicate 31 0\<rparr>"

definition disk_dir :: qfs where
  "disk_dir = blank\<lparr>medium := (medium blank)(geom 128 := 1 # replicate 511 0)\<rparr>"

definition disk_a :: qfs where
  "disk_a = disk_dir\<lparr>medium := (medium disk_dir)(geom 108 := encode_inode demo_file @ encode_inode file_a @ replicate 392 0)\<rparr>"

lemma disk_a_img:
  "disk_ok disk_a" "cache_ok disk_a"
  "k < 512 * SECTORS \<Longrightarrow> img disk_a k = (if k div 512 = 0 then (encode_inode demo_file @ encode_inode file_a @ replicate 392 0) ! (k mod 512)
     else if k div 512 = 20 then (1 # replicate 511 0) ! (k mod 512) else 0)"
proof -
  have w: "inode_wf demo_file" "inode_wf file_a" by (simp_all add: inode_wf_def demo_file_def zero_inode_def file_a_def)
  have l: "length (encode_inode demo_file @ encode_inode file_a @ replicate 392 0) = 512" using w by (simp add: length_encode_inode)
  have e: "disk_dir = blank\<lparr>medium := (medium blank)(geom (108 + 20) := 1 # replicate 511 0)\<rparr>" by (simp add: disk_dir_def)
  have e': "disk_a = disk_dir\<lparr>medium := (medium disk_dir)(geom (108 + 0) := encode_inode demo_file @ encode_inode file_a @ replicate 392 0)\<rparr>"
    by (simp add: disk_a_def)
  have P: "disk_ok disk_dir" "\<forall>k < 512 * SECTORS. img disk_dir k = (if k div 512 = 20 then (1 # replicate 511 0) ! (k mod 512) else img blank k)"
    using sector_put[OF blank_ok(1) _ _ e] by (simp_all add: SECTORS_def)
  have Q: "disk_ok disk_a" "\<forall>k < 512 * SECTORS. img disk_a k =
      (if k div 512 = 0 then (encode_inode demo_file @ encode_inode file_a @ replicate 392 0) ! (k mod 512) else img disk_dir k)"
    using sector_put[OF P(1) _ l e'] by (simp_all add: SECTORS_def)
  show "disk_ok disk_a" by (rule Q(1))
  show "cache_ok disk_a" by (simp add: cache_ok_def cache_cap_def disk_a_def disk_dir_def blank_def)
  show "k < 512 * SECTORS \<Longrightarrow> img disk_a k = (if k div 512 = 0 then (encode_inode demo_file @ encode_inode file_a @ replicate 392 0) ! (k mod 512)
     else if k div 512 = 20 then (1 # replicate 511 0) ! (k mod 512) else 0)"
    using P(2) Q(2) by (simp add: blank_ok)
qed

lemma disk_a_inodes: "disk_inode disk_a 1 = file_a" "entries_of disk_a demo_file = [1]"
proof -
  have w: "inode_wf demo_file" "inode_wf file_a" by (simp_all add: inode_wf_def demo_file_def zero_inode_def file_a_def)
  have "ldb (img disk_a) 60 60 = encode_inode file_a"
    by (rule nth_equalityI) (use disk_a_img(3) w in \<open>simp_all add: nth_append length_encode_inode SECTORS_def\<close>)
  then show "disk_inode disk_a 1 = file_a" by (simp add: disk_inode_def decode_encode[OF w(2)])
  have c: "content disk_a demo_file 0 512 = 1 # replicate 511 0"
  proof (rule nth_equalityI)
    fix i assume "i < length (content disk_a demo_file 0 512)"
    then have i: "i < 512" by (simp add: content_def)
    then have "(10240 + i) div 512 = 20" by (intro div_nat_eqI) simp_all
    moreover have "(20 * 512 + i) mod 512 = i" unfolding mod_mult_self3 using i by simp
    moreover note i
    ultimately show "content disk_a demo_file 0 512 ! i = (1 # replicate 511 0) ! i"
      using disk_a_img(3)[of "10240 + i"] by (simp add: content_def demo_file_def SECTORS_def)
  qed (simp add: content_def)
  have d: "dir_ids b (Suc n) = (let i = le_word (take 8 b) in if i = 0 then [] else i # dir_ids (drop 8 b) n)" for b n by simp
  have "(le_word (take 8 (1 # replicate 511 (0::u8))) :: u64) = 1" "(le_word (take 8 (drop 8 (1 # replicate 511 (0::u8)))) :: u64) = 0"
    by (simp_all add: eval_nat_numeral)
  then have "dir_ids (1 # replicate 511 0) (Suc (Suc 62)) = [1]"
    unfolding d by (simp add: Let_def del: dir_ids.simps take_replicate drop_replicate take_Suc_Cons)
  then show "entries_of disk_a demo_file = [1]" by (simp add: entries_of_def c del: dir_ids.simps)
qed

text \<open>With room in the heap and a free descriptor, opening an existing file returns a descriptor of the file.\<close>

lemma OPEN_opens:
  assumes rt: "t_root (my_perms s) = Some rt" and q: "getFileFromFilename b2 rt name (fq s) = ret (Some n, q)"
    and heap: "heap_owns s {}" "room s k" "k + 6 \<le> 31" and slot: "find_slot (fds s (fd_page s)) (unat (kernelFdLastClosed s)) (unat (fd_len s)) = ret i"
  shows "\<exists>a s'. OPEN (KPALLOC no_more_pages) b2 junk name flags s = ret (of_nat i, s') \<and>
    fd_page s' = fd_page s \<and> fd_len s' = fd_len s \<and> fq s' = q \<and> fargs s' a = n \<and> heap_owns s' {a} \<and>
    fds s' (fd_page s) = (fds s (fd_page s))(i := \<lparr>fn = stream_function.FileStream, arguments = a, position = 0, sflags = flags\<rparr>)"
proof -
  obtain p1 s1 where s1: "malloc (KPALLOC no_more_pages) 16 s = Some (Inr (p1, s1))" "room s1 (k + 2)" "heap_owns s1 {p1}" "kheap.more s1 = kheap.more s"
    using room_alloc[OF heap(1,2), of 16 2] heap(3) by (auto simp: chunks_of_small)
  define t1 where "t1 = s1\<lparr>fq := q\<rparr>"
  have t1: "room t1 (k + 2)" "heap_owns t1 {p1}"
    using s1 room_cong[of t1 s1] heap_owns_cong[of t1 s1] by (simp_all add: t1_def)
  obtain m s2 where s2: "malloc (KPALLOC no_more_pages) 32 t1 = Some (Inr (m, s2))" "room s2 (k + 2 + 2)" "heap_owns s2 {m, p1}" "kheap.more s2 = kheap.more t1"
    using room_alloc[OF t1(2,1), of 32 2] heap(3) by (auto simp: chunks_of_small)
  obtain a s3 where s3: "malloc (KPALLOC no_more_pages) 8 s2 = Some (Inr (a, s3))" "heap_owns s3 {a, m, p1}" "kheap.more s3 = kheap.more s2" "a \<noteq> m"
    using room_alloc[OF s2(3,2), of 8 2] heap(3) by (auto simp: chunks_of_small)
  note mf = more_fields[OF s1(4)] more_fields[OF s2(4)] more_fields[OF s3(3)]
  define st where "st = \<lparr>fn = stream_function.FileStream, arguments = a, position = 0, sflags = flags\<rparr>"
  define t3 where "t3 = s3\<lparr>fargs := (fargs s3)(a := n)\<rparr>"
  define t4 where "t4 = upd_fd (fd_page t3) i (\<lambda>_. st) (t3\<lparr>kernelFdLastClosed := of_nat i\<rparr>)"
  have t3: "fds t3 = fds s" "fd_page t3 = fd_page s" "kernelFdLastClosed t3 = kernelFdLastClosed s" "fd_len t3 = fd_len s" "fq t3 = q"
    using mf by (simp_all add: t3_def t1_def)
  then have f: "find_slot (fds t3 (fd_page t3)) (unat (kernelFdLastClosed t3)) (unat (fd_len t3)) = ret i" using slot by simp
  have "heap_owns t4 {a, m, p1}" using s3(2) heap_owns_cong[of t4 s3] by (simp add: t4_def t3_def)
  then obtain s' where s': "free m t4 = Inr s'" "heap_owns s' ({a, m, p1} - {m})" using heap_owns_free[of t4 "{a, m, p1}" m] by auto
  have own: "heap_owns s' {a}" by (rule heap_owns_subset[OF s'(2)]) (use s3(4) in simp)
  note mg = more_fields[OF more_free[OF s'(1)]]
  have "fds s' (fd_page s) = (fds s (fd_page s))(i := st)" by (rule ext) (simp add: mg t4_def t3)
  moreover have "fd_page s' = fd_page s" "fd_len s' = fd_len s" "fq s' = q" "fargs s' a = n"
    using t3 by (simp_all add: mg t4_def) (simp add: t3_def)
  moreover have "install_fd m st t3 = ret (of_nat i, s')" using f s' by (simp add: install_fd_def Let_def t4_def)
  moreover have "openFilename (KPALLOC no_more_pages) b2 junk name s = ret (In n, t1)"
    using s1(1) rt q mf(2,3) by (simp add: openFilename_def lookup_root_def t1_def ret_def[of "(p1, s1)", symmetric])
  ultimately show ?thesis using own
    using s2(1) s3(1) by (intro exI[of _ a] exI[of _ s']) (simp add: OPEN_def ret_def[of "(m, s2)", symmetric] ret_def[of "(a, s3)", symmetric] st_def t3_def)
qed

definition demo_open :: fsys where
  "demo_open = demo_fsys\<lparr>fq := disk_a, perm_descs := (\<lambda>_. \<lparr>t_root = Some demo_file, PM = 5\<rparr>)\<rparr>"

lemma demo_open_simps:
  "fd_len demo_open = FDS" "kernelFdLastClosed demo_open = 0" "t_root (my_perms demo_open) = Some demo_file" "PM (my_perms demo_open) = 5"
  "fq demo_open = disk_a" "kernelFd fd demo_open = demo_fd (unat fd)" "fds demo_open (fd_page demo_open) = demo_fd"
  using demo_fsys_simps(7,10) demo_fsys_simps(5)[of fd]
  by (simp_all add: demo_open_def my_perms_def fd_len_def kernelFd_def fd_page_def tcb_def FDS_def)
    (simp add: demo_fsys_def demo_streams_def fsys.defs streams.defs)

lemma demo_open_heap: "heap_owns demo_open {fst first_block}" "room demo_open 3"
  using demo_room heap_owns_cong[of demo_open demo_streams] room_cong[of demo_open demo_streams]
  by (simp_all add: demo_open_def demo_fsys_simps)

lemma path_a: "path_wf disk_a demo_file [[0x61]]" "resolve disk_a demo_file [[0x61]] = Some file_a" "component [0x61]"
  by (simp_all add: dir_wf_def disk_a_inodes find_entry.simps entry_name_def component_def SLASH_def SECTORS_def Let_def)
    (simp_all add: disk_a_inodes(1)[unfolded One_nat_def] file_a_def demo_file_def in_bounds_def SECTORS_def)


lemma close_fn:
  assumes "stream_fn kpalloc b2 st buf 0 2 s = ret (p, b, e, s')"
  shows "fd_len s' = fd_len s \<and> fd_page s' = fd_page s \<and> fds s' = fds s"
proof -
  have f: "fd_len t = fd_len s \<and> fd_page t = fd_page s \<and> fds t = fds s" if "free a s = Inr t" for a t
    using more_fields(10,11,13)[OF more_free[OF that]] by blast
  show ?thesis using assms f
    by (auto simp: stream_fn_def StdIOStream_fn_def Qfs.FileStream_def bindR_ret_iff lift_def ret_def[of "_ :: 'a fsys_scheme"] split: stream_function.splits)
qed

text \<open>Closing a descriptor frees it, leaves the others as they were, and its number is the next one the search
  for a free descriptor finds.\<close>

theorem CLOSE_reuses:
  assumes "fd_len s = FDS" and "fd < FDS" and "CLOSE kpalloc b2 fd s = ret s1"
  shows "fn (kernelFd fd s1) = NULL_FN \<and> (\<forall>g. g \<noteq> fd \<longrightarrow> kernelFd g s1 = kernelFd g s) \<and>
    find_slot (fds s1 (fd_page s1)) (unat (kernelFdLastClosed s1)) (unat (fd_len s1)) = ret (unat fd)"
proof -
  obtain st p b e s0 where s0: "stream_fn kpalloc b2 st [] 0 2 s = ret (p, b, e, s0)"
    and s1: "s1 = (set_kernelFd fd (\<lambda>t. t\<lparr>fn := NULL_FN\<rparr>) s0)\<lparr>kernelFdLastClosed := fd\<rparr>"
    using assms(3) by (auto simp: CLOSE_def bindR_ret_iff)
  note c = close_fn[OF s0]
  have k: "kernelFd g s0 = kernelFd g s" for g using c by (simp add: kernelFd_def)
  have n: "fn (kernelFd fd s1) = NULL_FN" by (simp add: s1)
  obtain d where "unat FDS - unat fd = Suc d" using assms(2) by (metis word_less_nat_alt zero_less_diff gr0_implies_Suc)
  then have "find_slot (fds s1 (fd_page s1)) (unat fd) (unat FDS) = ret (unat fd)"
    using n assms(2) by (simp add: find_slot_def kernelFd_def Let_def word_less_nat_alt)
  then show ?thesis using n k c assms(1) by (simp add: s1)
qed

theorem CLOSE_reuses_witness:
  "\<exists>s1. CLOSE (KPALLOC no_more_pages) (0, []) 2 (demo_fsys\<lparr>fds := (\<lambda>_. demo_fd(2 := \<lparr>fn = stream_function.FileStream, arguments = fst first_block, position = 0, sflags = 0\<rparr>))\<rparr>) = ret s1 \<and>
    find_slot (fds s1 (fd_page s1)) (unat (kernelFdLastClosed s1)) (unat (fd_len s1)) = ret 2"
proof -
  let ?s = "demo_fsys\<lparr>fds := (\<lambda>_. demo_fd(2 := \<lparr>fn = stream_function.FileStream, arguments = fst first_block, position = 0, sflags = 0\<rparr>))\<rparr>"
  have len: "fd_len ?s = FDS" using demo_fsys_simps(7) by (simp add: fd_len_def tcb_def FDS_def)
  have k: "kernelFd 2 ?s = \<lparr>fn = stream_function.FileStream, arguments = fst first_block, position = 0, sflags = 0\<rparr>"
    by (simp add: kernelFd_def)
  have "heap_owns ?s {fst first_block}"
    using demo_room(1) heap_owns_cong[of ?s demo_streams] by (simp add: demo_fsys_simps)
  then obtain s' where "free (fst first_block) ?s = Inr s'" using heap_owns_free by blast
  then have "\<exists>s1. CLOSE (KPALLOC no_more_pages) (0, []) 2 ?s = ret s1"
    using len k by (simp add: CLOSE_def fd_used_ok FDS_def stream_fn_def Qfs.FileStream_def)
  then show ?thesis using CLOSE_reuses[OF len, of 2] by (auto simp: FDS_def)
qed

subsection \<open>New ends\<close>

text \<open>
  \<open>new_stdIO\<close> makes an end in fresh blocks with an empty buffer and its own semaphore, and leaves every
  other end and buffer as it was.
\<close>

lemma bindR_assoc: "bindR (bindR m f) g = bindR m (\<lambda>x. bindR (f x) g)"
  by (auto simp: bindR_def bind_eq_Some_conv split: sum.splits option.splits) (cases m; auto split: sum.splits)

lemma malloc_ret: "malloc kp sz s = ret x \<longleftrightarrow> malloc kp sz s = Some (Inr x)"
  by (simp add: ret_def)

lemma new_stdIO_ok:
  fixes s :: "'a fsys_scheme"
  assumes h: "heap_owns s A" and r: "new_stdIO (KPALLOC no_more_pages) a b s = ret (m, s')"
  shows "\<exists>p q w. ios s' = (ios s)(m := \<lparr>pairIn = a, pairOut = b, bufferOut = p, bufferOutEnd = p, iotype = 0, bufferSema = q, waiter = w\<rparr>) \<and>
    fifos s' = (fifos s)(p := (fifos s p)\<lparr>datac := 0, fnext := 0\<rparr>) \<and>
    heap_owns s' (insert m (insert p A)) \<and> m \<noteq> 0 \<and> m \<notin> A \<and> p \<notin> A \<and> pokes s' w = 0 \<and> max_count (sems s' q) = 1 \<and> current_count (sems s' q) = 0 \<and>
    above s' = above s \<and> scr s' = scr s \<and> fq s' = fq s \<and> DEVICE_LIST s' = DEVICE_LIST s \<and> LAST_DEVICE s' = LAST_DEVICE s"
proof -
  let ?M = "\<lambda>sz (s :: 'a fsys_scheme). malloc (KPALLOC no_more_pages) sz s"
  define u1 where "u1 m = (\<lambda>s :: 'a fsys_scheme. upd_io m (\<lambda>io. io\<lparr>pairIn := a, pairOut := b\<rparr>) s)" for m :: addr
  define u2 where "u2 m p = (\<lambda>s :: 'a fsys_scheme. upd_fifo p (\<lambda>f. f\<lparr>datac := 0, fnext := 0\<rparr>) (upd_io m (\<lambda>io. io\<lparr>bufferOut := p, bufferOutEnd := p\<rparr>) s))" for m p :: addr
  define u3 where "u3 m q = (\<lambda>s :: 'a fsys_scheme. upd_io m (\<lambda>io. io\<lparr>bufferSema := q, iotype := 0\<rparr>)
     (updsem q (\<lambda>_. \<lparr>max_count = 1, current_count = 0, first_waiting = 0, last_waiting = 0\<rparr>) s))" for m q :: addr
  define u4 where "u4 m w = (\<lambda>s :: 'a fsys_scheme. (upd_io m (\<lambda>io. io\<lparr>waiter := w\<rparr>) s)\<lparr>pokes := (pokes s)(w := 0)\<rparr>)" for m w :: addr
  have heapsame: "heap_owns (u1 m s) B = heap_owns s B" "heap_owns (u2 m p s) B = heap_owns s B" "heap_owns (u3 m p s) B = heap_owns s B"
      "heap_owns (u4 m p s) B = heap_owns s B" for m p B and s :: "'a fsys_scheme"
    by (rule heap_owns_cong; simp add: u1_def u2_def u3_def u4_def upd_io_def upd_fifo_def updsem_def)+
  have n: "new_stdIO (KPALLOC no_more_pages) a b s =
     bindR (?M 56 s) (\<lambda>(m, s). bindR (?M 265 (u1 m s)) (\<lambda>(p, s). bindR (?M 32 (u2 m p s)) (\<lambda>(q, s).
       bindR (?M 8 (u3 m q s)) (\<lambda>(w, s). ret (m, u4 m w s)))))"
    by (simp add: new_stdIO_def create_semaphore_def bindR_assoc case_prod_beta' u1_def u2_def u3_def u4_def Let_def upd_io_def)
  from r[unfolded n] obtain s1 p s2 q s3 w s4 where st: "?M 56 s = ret (m, s1)" "?M 265 (u1 m s1) = ret (p, s2)"
      "?M 32 (u2 m p s2) = ret (q, s3)" "?M 8 (u3 m q s3) = ret (w, s4)" "s' = u4 m w s4"
    by (auto simp: bindR_ret_iff split: prod.splits)
  note a1 = heap_owns_malloc[OF h _ st(1)[unfolded malloc_ret]]
  have h1: "heap_owns (u1 m s1) (insert m A)" using a1 heapsame by simp
  note a2 = heap_owns_malloc[OF h1 _ st(2)[unfolded malloc_ret]]
  have h2: "heap_owns (u2 m p s2) (insert p (insert m A))" using a2 heapsame by simp
  note a3 = heap_owns_malloc[OF h2 _ st(3)[unfolded malloc_ret]]
  have h3: "heap_owns (u3 m q s3) (insert q (insert p (insert m A)))" using a3 heapsame by simp
  note a4 = heap_owns_malloc[OF h3 _ st(4)[unfolded malloc_ret]]
  have own: "heap_owns s' (insert m (insert p A))"
    using heap_owns_subset[of s4 "insert w (insert q (insert p (insert m A)))" "insert m (insert p A)"] a4 heapsame(4) st(5) by auto
  have m1: "kheap.more s1 = kheap.more s" and m2: "kheap.more s2 = kheap.more (u1 m s1)" and m3: "kheap.more s3 = kheap.more (u2 m p s2)"
    and m4: "kheap.more s4 = kheap.more (u3 m q s3)" using a1 a2 a3 a4 by simp_all
  note f1 = more_fields[OF m1] and f2 = more_fields[OF m2] and f3 = more_fields[OF m3] and f4 = more_fields[OF m4]
  have io: "ios s' = (ios s)(m := \<lparr>pairIn = a, pairOut = b, bufferOut = p, bufferOutEnd = p, iotype = 0, bufferSema = q, waiter = w\<rparr>)"
    using f1(6) f2(6) f3(6) f4(6) by (cases "ios s m") (simp add: st(5) u1_def u2_def u3_def u4_def updsem_def)
  have fi: "fifos s' = (fifos s)(p := (fifos s p)\<lparr>datac := 0, fnext := 0\<rparr>)"
    using f1(7) f2(7) f3(7) f4(7) by (simp add: st(5) u1_def u2_def u3_def u4_def updsem_def)
  have se: "pokes s' w = 0" "max_count (sems s' q) = 1" "current_count (sems s' q) = 0"
    using f4(14) by (simp_all add: st(5) u3_def u4_def updsem_def upd_io_def)
  have ab: "above s' = above s" "scr s' = scr s" "fq s' = fq s" "DEVICE_LIST s' = DEVICE_LIST s" "LAST_DEVICE s' = LAST_DEVICE s"
    using f1(1,3,9,16,17) f2(1,3,9,16,17) f3(1,3,9,16,17) f4(1,3,9,16,17)
    by (simp_all add: st(5) u1_def u2_def u3_def u4_def updsem_def upd_io_def upd_fifo_def above_def)
  show ?thesis using io fi own se ab a1 a2 by (intro exI[of _ p] exI[of _ q] exI[of _ w]) auto
qed

text \<open>Opening \<open>tty\<close> gives a stream whose output is the screen: writing to it prints the bytes and does
  nothing else. The name must be terminated, which the copy \<open>getStreamDescriptor\<close> makes is only if the
  new block happens to hold a zero there.\<close>

theorem tty_output:
  assumes "heap_owns s {TermSP s}" and "TermSP s \<noteq> 0" and "iotype (ios s (TermSP s)) = 1"
    and "openDEV (KPALLOC no_more_pages) (p, TTY @ r) s = ret (k2, st, s1)" and "length xs = unat len"
  shows "stream_fn (KPALLOC no_more_pages) b2 st xs len 1 s1 = ret (0, xs, Complete, s1\<lparr>scr := write_to_screen xs (scr s)\<rparr>)"
proof -
  have "strcmp (TTY @ r) TTY = Some 0" by (simp add: TTY_def)
  then obtain m s0 where s0: "malloc (KPALLOC no_more_pages) 32 s = ret (k2, s0)"
      "new_stdIO (KPALLOC no_more_pages) (TermSP s0) (TermSP s0) s0 = ret (m, s1)"
      "st = \<lparr>fn = StdIOStream, arguments = m, position = 0, sflags = 0\<rparr>"
    using assms(4) by (auto simp: openDEV_def bindR_ret_iff split: prod.splits)
  have h: "heap_owns s0 {k2, TermSP s}" and mo: "kheap.more s0 = kheap.more s"
    using heap_owns_malloc[OF assms(1) _ s0(1)[unfolded malloc_ret]] by auto
  note f = more_fields[OF mo]
  obtain p q w where n: "ios s1 = (ios s0)(m := \<lparr>pairIn = TermSP s0, pairOut = TermSP s0, bufferOut = p, bufferOutEnd = p, iotype = 0, bufferSema = q, waiter = w\<rparr>)"
      "m \<notin> {k2, TermSP s}" "scr s1 = scr s0"
    using new_stdIO_ok[OF h s0(2)] by blast
  then show ?thesis
    using assms(2,3,5) f by (auto simp: stream_fn_def StdIOStream_fn_def STDOUTStream_def s0(3) Let_def)
qed

text \<open>What the name becomes on the way: the copy without its terminator, followed by what the block held.\<close>

lemma stream_name_simple: "SLASH \<notin> set w \<Longrightarrow> stream_name w = w"
proof -
  assume w: "SLASH \<notin> set w"
  have "slash_index w i = 0" if "i \<le> length w" for i
    using that
  proof (induction i)
    case (Suc i)
    have "(w @ [0]) ! Suc i \<noteq> SLASH"
    proof (cases "Suc i = length w")
      case False
      then have "w ! Suc i \<in> set w" using Suc.prems by simp
      then have "w ! Suc i \<noteq> SLASH" using w by metis
      then show ?thesis using False Suc.prems by (simp add: nth_append)
    qed (simp add: nth_append SLASH_def)
    then show ?case using Suc by simp
  qed simp
  then show ?thesis by (simp add: stream_name_def)
qed

subsection \<open>Drivers and permissions\<close>

lemma find_device_ok:
  assumes "\<forall>i. k \<le> i \<and> i < k + int n \<longrightarrow> (\<exists>d. strcmp name (DEV_NAME (l i)) = Some d \<and> d \<noteq> 0)"
    and "\<exists>d. strcmp name (DEV_NAME (l (k + int n))) = Some d \<and> d = 0"
  shows "find_device l name k (Suc n + m) = ret (Some (l (k + int n)))"
  using assms
proof (induction n arbitrary: k)
  case (Suc n)
  obtain d where d: "strcmp name (DEV_NAME (l k)) = Some d" "d \<noteq> 0" using Suc.prems(1)[rule_format, of k] by auto
  have "find_device l name (k + 1) (Suc n + m) = ret (Some (l (k + 1 + int n)))"
    by (rule Suc.IH) (use Suc.prems in \<open>auto simp: algebra_simps\<close>)
  then show ?case using d by (simp add: algebra_simps)
qed simp

lemma more_unblock:
  "unblock_task t s = ret s' \<Longrightarrow> sched.more s' = sched.more s"
  by (cases s) (auto simp: unblock_task_def bindR_ret_iff Let_def append_ready_def upd_def lock_scheduler_def unlock_scheduler_def irq_enable_def split: if_splits)

text \<open>A driver that registers under a name with \<open>d0xD\<close> is the one \<open>dOpen\<close> finds for that name, with the
  driver's task and its standard stream, provided no earlier driver has the name.\<close>

theorem driver_found:
  assumes "d0xD (KPALLOC no_more_pages) (w @ 0 # r) s = ret s'" and "cstring w" and "0 \<le> LAST_DEVICE s" and "heap_owns s {}"
    and "\<forall>i. 0 \<le> i \<and> i < LAST_DEVICE s \<longrightarrow> (\<exists>d. strcmp (w @ 0 # q) (DEV_NAME (DEVICE_LIST s i)) = Some d \<and> d \<noteq> 0)"
  shows "\<exists>d. find_device (DEVICE_LIST s') (w @ 0 # q) 0 (nat (LAST_DEVICE s')) = ret (Some d) \<and>
    streamID d = (fd_page s, 0) \<and> dev_pid d = pid (tcb (current_task_TCB s) s)"
proof -
  define K where "K = LAST_DEVICE s"
  define s0 where "s0 = s\<lparr>DEVICE_LIST := (DEVICE_LIST s)(K := (DEVICE_LIST s K)\<lparr>streamID := (fd_page s, 0)\<rparr>)\<rparr>"
  define reg where "reg t = t\<lparr>DEVICE_LIST := (DEVICE_LIST t)(K := (DEVICE_LIST t K)\<lparr>dev_pid := pid (tcb (current_task_TCB t) t)\<rparr>)\<rparr>" for t :: "'a fsys_scheme"
  define nam where "nam t = t\<lparr>DEVICE_LIST := (DEVICE_LIST t)(K := (DEVICE_LIST t K)\<lparr>DEV_NAME := w @ [0]\<rparr>), LAST_DEVICE := K + 1\<rparr>" for t :: "'a fsys_scheme"
  have "strlen (w @ 0 # r) = Some (length w)" by (rule strlen_cstring[OF assms(2)])
  moreover have "take (length w + 1) (w @ 0 # r) = w @ [0]" by simp
  ultimately have "bindR (if fn (fds s0 (fd_page s) 0) = NULL_FN then inSO (KPALLOC no_more_pages) (fd_page s) 0 0 0 s0 else ret s0) (\<lambda>t.
      bindR (malloc (KPALLOC no_more_pages) (of_nat (length w) + 1) (reg t)) (\<lambda>(p, t).
        unblock_task (parent (tcb (current_task_TCB (nam t)) (nam t))) (nam t))) = ret s'"
    using assms(1) unfolding d0xD_def s0_def K_def reg_def nam_def Let_def by (simp add: case_prod_beta' split del: if_split)
  then obtain s1 p s2 where s1: "(if fn (fds s0 (fd_page s) 0) = NULL_FN then inSO (KPALLOC no_more_pages) (fd_page s) 0 0 0 s0 else ret s0) = ret s1"
      and s2: "malloc (KPALLOC no_more_pages) (of_nat (length w) + 1) (reg s1) = ret (p, s2)"
      and s3: "unblock_task (parent (tcb (current_task_TCB (nam s2)) (nam s2))) (nam s2) = ret s'"
    by (auto simp: bindR_ret_iff split: prod.splits)
  have h: "heap_owns s0 {}" using assms(4) heap_owns_cong[of s0 s] by (simp add: s0_def)
  have f1: "DEVICE_LIST s1 = DEVICE_LIST s0 \<and> tcbs s1 = tcbs s \<and> current_task_TCB s1 = current_task_TCB s"
  proof (cases "fn (fds s0 (fd_page s) 0) = NULL_FN")
    case True
    then obtain m t where t: "new_stdIO (KPALLOC no_more_pages) 0 0 s0 = ret (m, t)"
        "s1 = upd_fd (fd_page s) 0 (\<lambda>_. \<lparr>fn = StdIOStream, arguments = m, position = 0, sflags = 0\<rparr>) t"
      using s1 by (auto simp: inSO_def bindR_ret_iff)
    have "above t = above s0" "DEVICE_LIST t = DEVICE_LIST s0" using new_stdIO_ok[OF h t(1)] by auto
    then show ?thesis by (simp add: t(2) above_def s0_def) (simp add: upd_fd_def)
  next
    case False
    then show ?thesis using s1 by (auto simp: s0_def)
  qed
  note f2 = more_fields[OF more_malloc[OF s2[unfolded malloc_ret]]]
  have "DEVICE_LIST s' = DEVICE_LIST (nam s2) \<and> LAST_DEVICE s' = LAST_DEVICE (nam s2)"
    using more_unblock[OF s3] by (cases s'; cases "nam s2") simp
  then have L: "LAST_DEVICE s' = K + 1"
    "DEVICE_LIST s' = (DEVICE_LIST s)(K := \<lparr>dev_pid = pid (tcb (current_task_TCB s) s), streamID = (fd_page s, 0), DEV_NAME = w @ [0]\<rparr>)"
    using f1 f2(16) by (cases "DEVICE_LIST s K"; simp add: nam_def reg_def s0_def tcb_def)+
  have "\<exists>d. strcmp (w @ 0 # q) (w @ [0]) = Some d \<and> d = 0" using strcmp_cstring[OF assms(2,2), of q "[]"] by auto
  then have "find_device (DEVICE_LIST s') (w @ 0 # q) 0 (Suc (nat K) + 0) = ret (Some (DEVICE_LIST s' (0 + int (nat K))))"
    by (intro find_device_ok) (use assms(3,5) L(2) in \<open>auto simp: K_def\<close>)
  moreover have "nat (LAST_DEVICE s') = Suc (nat K)" using L(1) assms(3) by (simp add: K_def nat_add_distrib)
  ultimately show ?thesis using L(2) assms(3) by (simp add: K_def)
qed


text \<open>States in which these calls return.\<close>

lemma new_stdIO_returns:
  fixes s :: "'a fsys_scheme"
  assumes h: "heap_owns s A" "room s k" "k + 12 \<le> 31"
  shows "\<exists>m s'. new_stdIO (KPALLOC no_more_pages) a b s = ret (m, s')"
proof -
  obtain m s1 where 1: "malloc (KPALLOC no_more_pages) 56 s = Some (Inr (m, s1))" "room s1 (k + 2)" "heap_owns s1 (insert m A)"
    using room_alloc[OF h(1,2), of 56 2] h(3) by (auto simp: chunks_of_small)
  define t1 where "t1 = upd_io m (\<lambda>io. io\<lparr>pairIn := a, pairOut := b\<rparr>) s1"
  have t1: "room t1 (k + 2)" "heap_owns t1 (insert m A)"
    using 1 room_cong[of t1 s1] heap_owns_cong[of t1 s1] by (simp_all add: t1_def upd_io_def)
  obtain p s2 where 2: "malloc (KPALLOC no_more_pages) 265 t1 = Some (Inr (p, s2))" "room s2 (k + 2 + 6)" "heap_owns s2 (insert p (insert m A))"
    using room_alloc[OF t1(2,1), of 265 6] h(3) by (auto simp: chunks_265)
  define t2 where "t2 = upd_fifo p (\<lambda>f. f\<lparr>datac := 0, fnext := 0\<rparr>) (upd_io m (\<lambda>io. io\<lparr>bufferOut := p, bufferOutEnd := p\<rparr>) s2)"
  have t2: "room t2 (k + 8)" "heap_owns t2 (insert p (insert m A))"
    using 2 room_cong[of t2 s2] heap_owns_cong[of t2 s2] by (simp_all add: t2_def upd_io_def upd_fifo_def add.commute)
  obtain q s3 where 3: "malloc (KPALLOC no_more_pages) 32 t2 = Some (Inr (q, s3))" "room s3 (k + 8 + 2)" "heap_owns s3 (insert q (insert p (insert m A)))"
    using room_alloc[OF t2(2,1), of 32 2] h(3) by (auto simp: chunks_of_small)
  define t3 where "t3 = upd_io m (\<lambda>io. io\<lparr>bufferSema := q, iotype := 0\<rparr>)
     (updsem q (\<lambda>_. \<lparr>max_count = 1, current_count = 0, first_waiting = 0, last_waiting = 0\<rparr>) s3)"
  have t3: "room t3 (k + 10)" "heap_owns t3 (insert q (insert p (insert m A)))"
    using 3 room_cong[of t3 s3] heap_owns_cong[of t3 s3] by (simp_all add: t3_def upd_io_def updsem_def add.commute)
  obtain w s4 where 4: "malloc (KPALLOC no_more_pages) 8 t3 = Some (Inr (w, s4))"
    using room_alloc[OF t3(2,1), of 8 2] h(3) by (auto simp: chunks_of_small)
  show ?thesis
    using 1(1) 2(1) 3(1) 4 by (simp add: new_stdIO_def create_semaphore_def t1_def t2_def t3_def Let_def ret_def[of "(_, _ :: 'a fsys_scheme)"] bindR_def)
qed

definition demo_tty :: fsys where
  "demo_tty = upd_io (fst first_block) (\<lambda>io. io\<lparr>iotype := 1\<rparr>) (demo_fsys\<lparr>TermSP := fst first_block\<rparr>)"

lemma demo_tty_heap: "heap_owns demo_tty {TermSP demo_tty}" "room demo_tty 3" "TermSP demo_tty \<noteq> 0"
proof -
  show h: "heap_owns demo_tty {TermSP demo_tty}"
    using demo_room(1) heap_owns_cong[of demo_tty demo_streams] by (simp add: demo_tty_def demo_fsys_simps upd_io_def)
  show "room demo_tty 3" using demo_room(2) room_cong[of demo_tty demo_streams] by (simp add: demo_tty_def demo_fsys_simps upd_io_def)
  obtain U ts L b where "heap_ok demo_tty U ts L" "b \<in> L" "TermSP demo_tty = user_ptr demo_tty b"
    using h by (auto simp: heap_owns_def)
  then show "TermSP demo_tty \<noteq> 0" using user_ptr_nonzero by metis
qed

theorem tty_output_witness:
  "\<exists>k2 st s1. openDEV (KPALLOC no_more_pages) (0, TTY) demo_tty = ret (k2, st, s1) \<and>
    stream_fn (KPALLOC no_more_pages) (0, []) st [0x68, 0x69] 2 1 s1 =
      ret (0, [0x68, 0x69], Complete, s1\<lparr>scr := write_to_screen [0x68, 0x69] (scr demo_tty)\<rparr>)"
proof -
  note h = demo_tty_heap
  obtain k2 s0 where 1: "malloc (KPALLOC no_more_pages) 32 demo_tty = Some (Inr (k2, s0))" "room s0 (3 + 2)" "heap_owns s0 {k2, TermSP demo_tty}"
    using room_alloc[OF h(1,2), of 32 2] by (auto simp: chunks_of_small)
  obtain m s1 where 2: "new_stdIO (KPALLOC no_more_pages) (TermSP s0) (TermSP s0) s0 = ret (m, s1)"
    using new_stdIO_returns[OF 1(3,2), of "TermSP s0" "TermSP s0"] by auto
  have "strcmp TTY TTY = Some 0" by (simp add: TTY_def)
  then obtain st where o: "openDEV (KPALLOC no_more_pages) (0, TTY @ []) demo_tty = ret (k2, st, s1)"
    using 1(1) 2 by (simp add: openDEV_def ret_def[of "(k2, s0)", symmetric])
  have t: "iotype (ios demo_tty (TermSP demo_tty)) = 1" by (simp add: demo_tty_def upd_io_def)
  from tty_output[OF h(1,3) t o, of "[0x68, 0x69]" 2] o show ?thesis by auto
qed

definition demo_driver :: fsys where
  "demo_driver = demo_fsys\<lparr>tcbs := (\<lambda>_. new_tcb\<lparr>kernelFdLen := 128, parent := 0x300, state := STATE_WAITING, pid := 4\<rparr>)\<rparr>"

theorem driver_found_witness:
  "\<exists>s' d. d0xD (KPALLOC no_more_pages) [0x63, 0] demo_driver = ret s' \<and>
    find_device (DEVICE_LIST s') [0x63, 0, 0] 0 (nat (LAST_DEVICE s')) = ret (Some d) \<and> dev_pid d = 4"
proof -
  have f: "mem demo_driver = mem demo_streams" "ml1 demo_driver = ml1 demo_streams" "LAST_DEVICE demo_driver = 0"
      "fds demo_driver p = demo_fd" "current_task_TCB demo_driver = 0" "tcbs demo_driver p = new_tcb\<lparr>kernelFdLen := 128, parent := 0x300, state := STATE_WAITING, pid := 4\<rparr>" for p
    by (simp_all add: demo_driver_def demo_fsys_simps)
      (simp_all add: demo_fsys_def demo_streams_def demo_sched_def fsys.defs streams.defs sched.defs)
  let ?s = "demo_driver\<lparr>DEVICE_LIST := (DEVICE_LIST demo_driver)(0 := (DEVICE_LIST demo_driver 0)\<lparr>streamID := (fd_page demo_driver, 0), dev_pid := 4\<rparr>)\<rparr>"
  have own: "heap_owns ?s {}" "room ?s 3" "heap_owns demo_driver {}"
    using heap_owns_subset[OF demo_room(1), of "{}"] demo_room(2) heap_owns_cong[of ?s demo_streams] room_cong[of ?s demo_streams]
      heap_owns_cong[of demo_driver demo_streams] f(1,2) by simp_all
  obtain p s1 where m: "malloc (KPALLOC no_more_pages) 2 ?s = Some (Inr (p, s1))" "kheap.more s1 = kheap.more ?s"
    using room_alloc[OF own(1,2), of 2 2] by (auto simp: chunks_of_small)
  define t where "t = s1\<lparr>DEVICE_LIST := (DEVICE_LIST s1)(0 := (DEVICE_LIST s1 0)\<lparr>DEV_NAME := [0x63, 0]\<rparr>), LAST_DEVICE := 1\<rparr>"
  have c: "tcbs t = tcbs demo_driver" "current_task_TCB t = 0"
    using more_fields(19,20)[OF m(2)] f(5) by (simp_all add: t_def)
  have "\<exists>s'. unblock_task 0x300 t = ret s'"
    using c f(6) by (auto simp: unblock_task_def Let_def lock_scheduler_def tcb_def)
  moreover have "d0xD (KPALLOC no_more_pages) [0x63, 0] demo_driver = unblock_task 0x300 t"
    using m(1) f c by (simp add: d0xD_def Let_def demo_fd_def t_def fd_page_def tcb_def bindR_def ret_def)
  ultimately obtain s' where r: "d0xD (KPALLOC no_more_pages) ([0x63] @ 0 # []) demo_driver = ret s'" by auto
  from driver_found[OF r _ _ own(3), where q = "[0]"] f(3,5,6) r show ?thesis by (auto simp: tcb_def)
qed


end
