(* ===== verification/Exec.thy ===== *)
theory Exec
  imports Filesystem Bytes
begin

section \<open>Programs and system calls (flat.c, pf.c, usermode.c, syscall.c)\<close>

text \<open>
  A task's program memory is the range from \<open>start\<close> to \<open>end\<close> of its \<open>prog_mem\<close>. User pages appear on
  demand: an access to a page that is not mapped runs \<open>PAGE_FAULT\<close>, which maps it if the address is in
  the range. \<open>upages\<close> are the pages mapped in the address space of the current task; \<open>umem\<close> gives the
  bytes, for a page not yet mapped the ones the physical page will have.
\<close>

record ExecArgsInternal =
  ea_File :: "u8 list"
  ea_arguments :: "u8 list"
  ea_sema :: addr
  ea_done :: bool

record user_fsys = fsys +
  upages :: "addr set"
  exec_args :: "addr \<Rightarrow> ExecArgsInternal"

type_synonym 'a user_alloc = "'a user_fsys_scheme \<Rightarrow> fault + addr \<times> 'a user_fsys_scheme"

record PFH =
  TEXT_START :: u64
  TEXT_END :: u64
  TEXT_VADD :: u64
  DATA_START :: u64
  DATA_END :: u64
  DATA_VADD :: u64
  BSS_SIZE :: u64
  BSS_VADD :: u64

definition quad_at :: "u8 list \<Rightarrow> nat \<Rightarrow> u64" where
  "quad_at b i = le_word (take 8 (drop (8 * i) b))"

definition header :: "u8 list \<Rightarrow> PFH" where
  "header b = \<lparr>TEXT_START = quad_at b 0, TEXT_END = quad_at b 1, TEXT_VADD = quad_at b 2, DATA_START = quad_at b 3,
     DATA_END = quad_at b 4, DATA_VADD = quad_at b 5, BSS_SIZE = quad_at b 6, BSS_VADD = quad_at b 7\<rparr>"

definition my_brk :: "'a user_fsys_scheme \<Rightarrow> addr" where
  "my_brk s = brk (tcb (current_task_TCB s) s)"

definition set_brk :: "prog_mem \<Rightarrow> 'a user_fsys_scheme \<Rightarrow> 'a user_fsys_scheme" where
  "set_brk m s = s\<lparr>brks := (brks s)(my_brk s := m)\<rparr>"

subsection \<open>Page faults (pf.c)\<close>

text \<open>The user half of \<open>UPALLOC(2, page, 1)\<close>: the page must end below \<open>CBASE\<close>.\<close>

definition UPALLOC_user :: "addr \<Rightarrow> 'a user_fsys_scheme \<Rightarrow> 'a user_fsys_scheme run" where
  "UPALLOC_user p s =
     bindR (check (\<not> (CBASE < p + 0x1000 \<or> p AND 0xfff \<noteq> 0)) (ERROR ERR_UPA_BIN p)) (\<lambda>_.
       ret (s\<lparr>upages := insert p (upages s)\<rparr>))"

definition PAGE_FAULT :: "addr \<Rightarrow> u64 \<Rightarrow> 'a user_fsys_scheme \<Rightarrow> 'a user_fsys_scheme run" where
  "PAGE_FAULT virt_ad errc s =
     bindR (check (errc AND 1 = 0) (ERROR ERR_PAGE_FAULT_PV errc)) (\<lambda>_.
     bindR (check (my_brk s \<noteq> 0) (ERROR ERR_PAGE_FAULT errc)) (\<lambda>_.
       let b = brks s (my_brk s) in
       if brk_start b \<le> virt_ad \<and> virt_ad \<le> brk_end b then UPALLOC_user (virt_ad AND NOT 0xFFF) s
       else stop (ERROR ERR_PAGE_FAULT errc)))"

text \<open>An access to a user address, and a copy of bytes to user memory (a write fault has error code 2).\<close>

definition touch :: "addr \<Rightarrow> u64 \<Rightarrow> 'a user_fsys_scheme \<Rightarrow> 'a user_fsys_scheme run" where
  "touch a errc s = (if page_of a \<in> upages s then ret s else PAGE_FAULT a errc s)"

fun user_copy :: "addr \<Rightarrow> u8 list \<Rightarrow> 'a user_fsys_scheme \<Rightarrow> 'a user_fsys_scheme run" where
  "user_copy d [] s = ret s"
| "user_copy d (b # bs) s = bindR (touch d 2 s) (\<lambda>s. user_copy (d + 1) bs (s\<lparr>umem := (umem s)(d := b)\<rparr>))"

subsection \<open>Loading a flat binary (flat.c)\<close>

definition grow_brk :: "u64 \<Rightarrow> u64 \<Rightarrow> 'a user_fsys_scheme \<Rightarrow> 'a user_fsys_scheme" where
  "grow_brk lo hi s =
     (let b = brks s (my_brk s) in set_brk \<lparr>brk_start = min lo (brk_start b), brk_end = max hi (brk_end b)\<rparr> s)"

definition alseg :: "u64 \<Rightarrow> u64 \<Rightarrow> u64 \<Rightarrow> u8 list \<Rightarrow> 'a user_fsys_scheme \<Rightarrow> 'a user_fsys_scheme run" where
  "alseg VADD END START fi s =
     user_copy VADD (take (unat (END - START)) (drop (unat START) fi)) (grow_brk VADD (VADD + END - START) s)"

text \<open>A segment exists if it is not empty, ends below \<open>CBASE\<close>, and ends before the end of the file.\<close>

definition seg_exists :: "u64 \<Rightarrow> u64 \<Rightarrow> u64 \<Rightarrow> u64 \<Rightarrow> bool" where
  "seg_exists VADD END START filesize \<longleftrightarrow>
     END - START \<noteq> 0 \<and> START < END \<and> VADD + END - START < CBASE \<and> END < filesize"

definition bss_exists :: "PFH \<Rightarrow> bool" where
  "bss_exists M \<longleftrightarrow> BSS_SIZE M \<noteq> 0 \<and> BSS_VADD M + BSS_SIZE M < CBASE"

text \<open>
  The segments, the range of the program's memory, and the argument string: in front of the program if
  there is room, else behind it. The result is the entry point and the address of the string cut to
  the \<open>int\<close> it is stored in. \<open>fa\<close> is the address of the file's copy, \<open>args\<close> the string without its
  terminator.
\<close>

definition new_brk :: "'a user_alloc \<Rightarrow> 'a user_fsys_scheme \<Rightarrow> 'a user_fsys_scheme run" where
  "new_brk kpalloc s =
     (if my_brk s = 0
      then bindR (malloc kpalloc 16 s) (\<lambda>(p, s).
             ret (set_brk \<lparr>brk_start = CBASE, brk_end = 0\<rparr> (upd (current_task_TCB s) (\<lambda>t. t\<lparr>brk := p\<rparr>) s)))
      else ret s)"

definition load_segments :: "addr \<Rightarrow> u8 list \<Rightarrow> u64 \<Rightarrow> 'a user_fsys_scheme \<Rightarrow> 'a user_fsys_scheme run" where
  "load_segments fa fi filesize s =
     (let M = header fi in
      bindR (check (seg_exists (TEXT_VADD M) (TEXT_END M) (TEXT_START M) filesize) (ERROR ERR_FLAT_INV fa)) (\<lambda>_.
      bindR (alseg (TEXT_VADD M) (TEXT_END M) (TEXT_START M) fi s) (\<lambda>s.
      bindR (if seg_exists (DATA_VADD M) (DATA_END M) (DATA_START M) filesize
             then alseg (DATA_VADD M) (DATA_END M) (DATA_START M) fi s else ret s) (\<lambda>s.
        ret (if bss_exists M then grow_brk (BSS_VADD M) (BSS_VADD M + BSS_SIZE M) s else s)))))"

definition put_args :: "u8 list \<Rightarrow> 'a user_fsys_scheme \<Rightarrow> (addr \<times> 'a user_fsys_scheme) run" where
  "put_args args s =
     (let k = of_nat (length args + 1); b = brks s (my_brk s) in
      if k < brk_start b
      then bindR (user_copy (brk_start b - k) (args @ [0]) (set_brk (b\<lparr>brk_start := brk_start b - k\<rparr>) s)) (\<lambda>s.
             ret (brk_start b - k, s))
      else bindR (user_copy (brk_end b) (args @ [0]) (set_brk (b\<lparr>brk_end := brk_end b + k\<rparr>) s)) (\<lambda>s.
             ret (brk_end b, s)))"

definition PF_load :: "'a user_alloc \<Rightarrow> addr \<Rightarrow> u8 list \<Rightarrow> u64 \<Rightarrow> u8 list \<Rightarrow> 'a user_fsys_scheme \<Rightarrow>
    (addr \<times> u32 \<times> 'a user_fsys_scheme) run" where
  "PF_load kpalloc fa fi filesize args s =
     bindR (new_brk kpalloc s) (\<lambda>s.
     bindR (load_segments fa fi filesize s) (\<lambda>s.
     bindR (put_args args s) (\<lambda>(argv, s). ret (TEXT_VADD (header fi), ucast argv, s))))"

subsection \<open>Copies to user memory\<close>

text \<open>
  What a copy changes: the bytes of its range, and the pages that are mapped. Everything else of the
  state is the same.
\<close>

definition same_but_umem :: "'a user_fsys_scheme \<Rightarrow> 'a user_fsys_scheme \<Rightarrow> bool" where
  "same_but_umem s s' \<longleftrightarrow> (\<exists>m P. s' = s\<lparr>umem := m, upages := P\<rparr> \<and> upages s \<subseteq> P)"

lemma same_but_umem_simps:
  assumes "same_but_umem s s'"
  shows "brks s' = brks s" "my_brk s' = my_brk s" "upages s \<subseteq> upages s'"
  using assms by (auto simp: same_but_umem_def my_brk_def tcb_def)

lemma same_but_umem_trans: "same_but_umem s t \<Longrightarrow> same_but_umem t u \<Longrightarrow> same_but_umem s u"
proof -
  assume "same_but_umem s t" "same_but_umem t u"
  then obtain m P n Q where "t = s\<lparr>umem := m, upages := P\<rparr>" "upages s \<subseteq> P" "u = t\<lparr>umem := n, upages := Q\<rparr>" "upages t \<subseteq> Q"
    by (auto simp: same_but_umem_def)
  then show ?thesis unfolding same_but_umem_def by (intro exI[of _ n] exI[of _ Q]) auto
qed

text \<open>An address in the range is reached: its page is mapped already or gets mapped.\<close>

definition in_brk :: "'a user_fsys_scheme \<Rightarrow> addr \<Rightarrow> bool" where
  "in_brk s a \<longleftrightarrow> my_brk s \<noteq> 0 \<and> brk_start (brks s (my_brk s)) \<le> a \<and> a \<le> brk_end (brks s (my_brk s)) \<and> a < CBASE"

lemma page_below_CBASE:
  assumes "a < CBASE"
  shows "page_of a \<le> 0x7FFFFFF000" "\<not> CBASE < page_of a + 0x1000"
proof -
  have "unat a < 2 ^ 39" using assms by (simp add: CBASE_def word_less_nat_alt)
  then have "take_bit 39 a = a" by (simp add: word_unat_eq_iff unsigned_take_bit_eq take_bit_eq_mod unat_mod_distrib)
  then have "page_of a = (a AND mask 39) AND NOT 0xfff" by (simp add: page_of_def take_bit_eq_mask)
  also have "\<dots> = a AND 0x7FFFFFF000" by (simp add: and.assoc mask_eq_exp_minus_1)
  finally show le: "page_of a \<le> 0x7FFFFFF000" by (metis word_and_le1)
  have "unat (page_of a + 0x1000) = unat (page_of a) + 0x1000" using le by (simp add: unat_word_ariths word_le_nat_alt)
  then show "\<not> CBASE < page_of a + 0x1000" using le by (simp add: word_less_nat_alt word_le_nat_alt CBASE_def)
qed

lemma touch_ok:
  assumes "in_brk s a \<or> page_of a \<in> upages s" "errc AND 1 = 0"
  shows "touch a errc s = ret (s\<lparr>upages := insert (page_of a) (upages s)\<rparr>)"
proof (cases "page_of a \<in> upages s")
  case True
  then show ?thesis by (simp add: touch_def insert_absorb)
next
  case False
  then have b: "in_brk s a" using assms(1) by simp
  then have "\<not> CBASE < page_of a + 0x1000" by (intro page_below_CBASE(2)) (simp add: in_brk_def)
  moreover have "page_of a AND 0xfff = 0" using page_of_aligned[of a] by (simp add: page_aligned_def)
  ultimately show ?thesis
    using b False assms(2) by (simp add: touch_def PAGE_FAULT_def in_brk_def UPALLOC_user_def Let_def page_of_def)
qed

text \<open>A copy whose addresses all lie in the range of the program.\<close>

lemma user_copy_ok:
  assumes "\<And>i. i < length bs \<Longrightarrow> in_brk s (d + of_nat i)" "length bs < 2 ^ 40"
  shows "\<exists>s'. user_copy d bs s = ret s' \<and> same_but_umem s s' \<and>
    (\<forall>i < length bs. umem s' (d + of_nat i) = bs ! i \<and> page_of (d + of_nat i) \<in> upages s') \<and>
    (\<forall>a. (\<forall>i < length bs. a \<noteq> d + of_nat i) \<longrightarrow> umem s' a = umem s a)"
  using assms
proof (induction bs arbitrary: d s)
  case Nil
  have "same_but_umem s s" unfolding same_but_umem_def by (intro exI[of _ "umem s"] exI[of _ "upages s"]) simp
  then show ?case by simp
next
  case (Cons b bs)
  define s1 where "s1 = s\<lparr>upages := insert (page_of d) (upages s), umem := (umem s)(d := b)\<rparr>"
  have t: "touch d 2 s = ret (s\<lparr>upages := insert (page_of d) (upages s)\<rparr>)"
    by (rule touch_ok) (use Cons.prems(1)[of 0] in simp_all)
  have sb: "same_but_umem s s1" unfolding same_but_umem_def s1_def
    by (intro exI[of _ "(umem s)(d := b)"] exI[of _ "insert (page_of d) (upages s)"]) auto
  have "in_brk s1 (d + 1 + of_nat i)" if "i < length bs" for i
    using Cons.prems(1)[of "Suc i"] that same_but_umem_simps[OF sb] by (simp add: in_brk_def add_ac)
  then obtain s' where s': "user_copy (d + 1) bs s1 = ret s'" "same_but_umem s1 s'"
    "\<forall>i < length bs. umem s' (d + 1 + of_nat i) = bs ! i \<and> page_of (d + 1 + of_nat i) \<in> upages s'"
    "\<forall>a. (\<forall>i < length bs. a \<noteq> d + 1 + of_nat i) \<longrightarrow> umem s' a = umem s1 a"
    using Cons.IH[of s1 "d + 1"] Cons.prems(2) by auto
  have ne: "d \<noteq> d + 1 + of_nat i" if "i < length bs" for i
  proof -
    have "unat (of_nat (Suc i) :: u64) = Suc i" by (rule unat_of_nat_small) (use that Cons.prems(2) in simp)
    then have "(of_nat (Suc i) :: u64) \<noteq> 0" by (metis nat.distinct(1) unat_0)
    then show ?thesis by (simp add: add.assoc)
  qed
  then have d: "umem s' d = b" using s'(4) by (auto simp: s1_def)
  have pd: "page_of d \<in> upages s'" using same_but_umem_simps(3)[OF s'(2)] by (auto simp: s1_def)
  have "umem s' (d + of_nat i) = (b # bs) ! i \<and> page_of (d + of_nat i) \<in> upages s'" if "i < length (b # bs)" for i
    using that d pd s'(3) by (cases i) (auto simp: add_ac)
  moreover have "umem s' a = umem s a" if a: "\<forall>i < length (b # bs). a \<noteq> d + of_nat i" for a
  proof -
    have "a \<noteq> d" using a[rule_format, of 0] by simp
    moreover have "a \<noteq> d + 1 + of_nat i" if "i < length bs" for i using a[rule_format, of "Suc i"] that by (simp add: add_ac)
    ultimately show ?thesis using s'(4) by (simp add: s1_def)
  qed
  moreover have "user_copy d (b # bs) s = ret s'" using t s'(1) by (simp add: s1_def)
  ultimately show ?case using same_but_umem_trans[OF sb s'(2)] by blast
qed

subsection \<open>What loading leaves in memory\<close>

text \<open>
  \<open>bytes_at s v bs\<close>: the bytes \<open>bs\<close> are in user memory from \<open>v\<close> on, inside the program's range. Ranges are
  compared as numbers; they lie below \<open>CBASE\<close>.
\<close>

definition bytes_at :: "'a user_fsys_scheme \<Rightarrow> addr \<Rightarrow> u8 list \<Rightarrow> bool" where
  "bytes_at s v bs \<longleftrightarrow> (\<forall>i < length bs. umem s (v + of_nat i) = bs ! i \<and> in_brk s (v + of_nat i))"

definition below_CBASE :: "addr \<Rightarrow> nat \<Rightarrow> bool" where
  "below_CBASE v n \<longleftrightarrow> unat v + n < unat CBASE"

definition disjoint_ranges :: "addr \<Rightarrow> nat \<Rightarrow> addr \<Rightarrow> nat \<Rightarrow> bool" where
  "disjoint_ranges v n w m \<longleftrightarrow> unat v + n \<le> unat w \<or> unat w + m \<le> unat v"

lemma CBASE_unat: "unat CBASE = 2 ^ 39"
  by (simp add: CBASE_def)

lemma range_unat: "below_CBASE v n \<Longrightarrow> i \<le> n \<Longrightarrow> unat (v + of_nat i) = unat v + i"
  by (simp add: below_CBASE_def CBASE_unat unat_word_ariths unat_of_nat)

lemma disjoint_neq:
  assumes "below_CBASE v n" "below_CBASE w m" "disjoint_ranges v n w m" "i < n" "j < m"
  shows "v + of_nat i \<noteq> w + of_nat j"
proof
  assume "v + of_nat i = w + of_nat j"
  then have "unat v + i = unat w + j" using range_unat[OF assms(1), of i] range_unat[OF assms(2), of j] assms(4,5) by simp
  then show False using assms(3-5) by (auto simp: disjoint_ranges_def)
qed

text \<open>A state in which the range of the program has grown, and memory changed only in one place.\<close>

definition grown :: "addr \<Rightarrow> nat \<Rightarrow> 'a user_fsys_scheme \<Rightarrow> 'a user_fsys_scheme \<Rightarrow> bool" where
  "grown w m s s' \<longleftrightarrow> my_brk s' = my_brk s \<and> brk_start (brks s' (my_brk s)) \<le> brk_start (brks s (my_brk s)) \<and>
     brk_end (brks s (my_brk s)) \<le> brk_end (brks s' (my_brk s)) \<and>
     (\<forall>a. (\<forall>j < m. a \<noteq> w + of_nat j) \<longrightarrow> umem s' a = umem s a)"

lemma bytes_at_grown:
  assumes "bytes_at s v bs" "grown w m s s'" "below_CBASE v (length bs)" "below_CBASE w m" "disjoint_ranges v (length bs) w m"
  shows "bytes_at s' v bs"
  unfolding bytes_at_def
proof (intro allI impI)
  fix i assume i: "i < length bs"
  have "umem s' (v + of_nat i) = umem s (v + of_nat i)"
    using assms(2) disjoint_neq[OF assms(3-5) i] by (auto simp: grown_def)
  moreover have "in_brk s' (v + of_nat i)"
  proof -
    have "in_brk s (v + of_nat i)" using assms(1) i by (simp add: bytes_at_def)
    then show ?thesis using assms(2) by (auto simp: in_brk_def grown_def)
  qed
  ultimately show "umem s' (v + of_nat i) = bs ! i \<and> in_brk s' (v + of_nat i)" using assms(1) i by (simp add: bytes_at_def)
qed

text \<open>Setting the range and copying into it.\<close>

lemma set_brk_fields [simp]:
  "my_brk (set_brk b s) = my_brk s" "brks (set_brk b s) (my_brk s) = b" "umem (set_brk b s) = umem s" "upages (set_brk b s) = upages s"
  by (simp_all add: set_brk_def my_brk_def tcb_def)

lemma copy_into_brk:
  assumes b: "my_brk s \<noteq> 0" "brk_start b \<le> v" "unat v + length bs \<le> unat (brk_end b) + 1" "below_CBASE v (length bs)"
    and g: "brk_start b \<le> brk_start (brks s (my_brk s))" "brk_end (brks s (my_brk s)) \<le> brk_end b"
  shows "\<exists>s'. user_copy v bs (set_brk b s) = ret s' \<and> bytes_at s' v bs \<and> grown v (length bs) s s' \<and> brks s' (my_brk s') = b \<and> my_brk s' = my_brk s"
proof -
  have i: "in_brk (set_brk b s) (v + of_nat i)" if "i < length bs" for i
    using b that range_unat[OF b(4), of i] by (simp add: in_brk_def word_le_nat_alt word_less_nat_alt below_CBASE_def)
  have "length bs < 2 ^ 40" using b(4) by (simp add: below_CBASE_def CBASE_unat)
  with user_copy_ok[of bs "set_brk b s" v] i obtain s' where s': "user_copy v bs (set_brk b s) = ret s'" "same_but_umem (set_brk b s) s'"
    "\<forall>i < length bs. umem s' (v + of_nat i) = bs ! i" "\<forall>a. (\<forall>i < length bs. a \<noteq> v + of_nat i) \<longrightarrow> umem s' a = umem s a" by auto
  have m: "my_brk s' = my_brk s" "brks s' = brks (set_brk b s)" using same_but_umem_simps[OF s'(2)] by simp_all
  have "bytes_at s' v bs" using s'(3) i m by (simp add: bytes_at_def in_brk_def)
  moreover have "grown v (length bs) s s'" using s'(4) m g by (simp add: grown_def)
  ultimately show ?thesis using s'(1) m by auto
qed

definition segment :: "u8 list \<Rightarrow> u64 \<Rightarrow> u64 \<Rightarrow> u8 list" where
  "segment fi START END = take (unat (END - START)) (drop (unat START) fi)"

lemma length_segment: "START \<le> END \<Longrightarrow> unat END \<le> length fi \<Longrightarrow> length (segment fi START END) = unat END - unat START"
  by (simp add: segment_def unat_sub word_le_nat_alt)

lemma alseg_ok:
  assumes st: "START < END" "unat END \<le> length fi" and v: "below_CBASE VADD (unat END - unat START)" and k: "my_brk s \<noteq> 0"
  shows "\<exists>s'. alseg VADD END START fi s = ret s' \<and> bytes_at s' VADD (segment fi START END) \<and> grown VADD (unat END - unat START) s s' \<and>
    my_brk s' = my_brk s \<and> brks s' (my_brk s) =
      \<lparr>brk_start = min VADD (brk_start (brks s (my_brk s))), brk_end = max (VADD + END - START) (brk_end (brks s (my_brk s)))\<rparr>"
proof -
  let ?b = "\<lparr>brk_start = min VADD (brk_start (brks s (my_brk s))), brk_end = max (VADD + END - START) (brk_end (brks s (my_brk s)))\<rparr>"
  have l: "length (segment fi START END) = unat END - unat START" using length_segment st by simp
  have "END - START = of_nat (unat END - unat START)"
    using st(1) by (simp add: word_unat_eq_iff unat_sub word_less_nat_alt unat_of_nat word_le_nat_alt)
  then have q: "VADD + END - START = VADD + of_nat (unat END - unat START)" by (metis add_diff_eq)
  have e: "unat (VADD + END - START) = unat VADD + (unat END - unat START)" unfolding q by (rule range_unat[OF v order_refl])
  have "\<exists>s'. user_copy VADD (segment fi START END) (set_brk ?b s) = ret s' \<and> bytes_at s' VADD (segment fi START END) \<and>
      grown VADD (length (segment fi START END)) s s' \<and> brks s' (my_brk s') = ?b \<and> my_brk s' = my_brk s"
    by (rule copy_into_brk) (use k v e l in \<open>auto simp: max_def min_def word_le_nat_alt\<close>)
  then show ?thesis by (auto simp: alseg_def grow_brk_def Let_def segment_def[symmetric] l)
qed

text \<open>
  A header the loader can follow: the text segment lies in the file and below \<open>CBASE\<close>, the data segment
  is empty or does so too, apart from the text, and the bss, if any, ends below \<open>CBASE\<close>; behind each there
  is room for \<open>k\<close> more bytes.
\<close>

definition seg_ok :: "u64 \<Rightarrow> u64 \<Rightarrow> u64 \<Rightarrow> u64 \<Rightarrow> nat \<Rightarrow> bool" where
  "seg_ok VADD END START filesize k \<longleftrightarrow> START < END \<and> END < filesize \<and> below_CBASE VADD (unat END - unat START + k)"

definition image_ok :: "PFH \<Rightarrow> u64 \<Rightarrow> nat \<Rightarrow> bool" where
  "image_ok M filesize k \<longleftrightarrow> seg_ok (TEXT_VADD M) (TEXT_END M) (TEXT_START M) filesize k \<and>
     (DATA_END M = DATA_START M \<or> seg_ok (DATA_VADD M) (DATA_END M) (DATA_START M) filesize k \<and>
        disjoint_ranges (TEXT_VADD M) (unat (TEXT_END M) - unat (TEXT_START M)) (DATA_VADD M) (unat (DATA_END M) - unat (DATA_START M))) \<and>
     (BSS_SIZE M = 0 \<or> below_CBASE (BSS_VADD M) (unat (BSS_SIZE M) + k))"

lemma seg_end:
  assumes "below_CBASE v (unat e - unat s)" "s \<le> e"
  shows "unat (v + e - s) = unat v + (unat e - unat s)"
proof -
  have "e - s = of_nat (unat e - unat s)"
    using assms(2) by (simp add: word_unat_eq_iff unat_sub unat_of_nat word_le_nat_alt)
  then have q: "v + e - s = v + of_nat (unat e - unat s)" by (metis add_diff_eq)
  show ?thesis unfolding q by (rule range_unat[OF assms(1) order_refl])
qed

lemma seg_ok_exists: "seg_ok v e s fz k \<Longrightarrow> seg_exists v e s fz"
  using seg_end[of v e s] by (auto simp: seg_ok_def seg_exists_def below_CBASE_def word_less_nat_alt word_le_nat_alt)

lemma seg_empty: "e = s \<Longrightarrow> \<not> seg_exists v e s fz"
  by (simp add: seg_exists_def)

text \<open>The range after loading covers every segment, and each segment holds the bytes of the file.\<close>

lemma load_segments_ok:
  assumes M: "M = header fi" "image_ok M fz n" "unat fz \<le> length fi" and k: "my_brk s \<noteq> 0"
    and b: "brk_start (brks s (my_brk s)) = CBASE" "brk_end (brks s (my_brk s)) = 0"
  shows "\<exists>s' lo hi. load_segments fa fi fz s = ret s' \<and> my_brk s' = my_brk s \<and> brks s' (my_brk s) = \<lparr>brk_start = lo, brk_end = hi\<rparr> \<and>
    bytes_at s' (TEXT_VADD M) (segment fi (TEXT_START M) (TEXT_END M)) \<and>
    (DATA_END M \<noteq> DATA_START M \<longrightarrow> bytes_at s' (DATA_VADD M) (segment fi (DATA_START M) (DATA_END M))) \<and>
    lo \<le> TEXT_VADD M \<and> unat (TEXT_VADD M) + (unat (TEXT_END M) - unat (TEXT_START M)) \<le> unat hi \<and>
    (DATA_END M \<noteq> DATA_START M \<longrightarrow> lo \<le> DATA_VADD M \<and> unat (DATA_VADD M) + (unat (DATA_END M) - unat (DATA_START M)) \<le> unat hi) \<and>
    (BSS_SIZE M \<noteq> 0 \<longrightarrow> lo \<le> BSS_VADD M \<and> unat (BSS_VADD M) + unat (BSS_SIZE M) \<le> unat hi) \<and> lo \<le> hi \<and> below_CBASE hi n"
proof -
  let ?tv = "TEXT_VADD M" and ?te = "TEXT_END M" and ?ts = "TEXT_START M"
  let ?dv = "DATA_VADD M" and ?de = "DATA_END M" and ?ds = "DATA_START M"
  have t: "seg_ok ?tv ?te ?ts fz n" using M(2) by (simp add: image_ok_def)
  then have t': "?ts < ?te" "unat ?te \<le> length fi" "below_CBASE ?tv (unat ?te - unat ?ts)"
    using M(3) by (auto simp: seg_ok_def word_less_nat_alt below_CBASE_def)
  obtain s1 where s1: "alseg ?tv ?te ?ts fi s = ret s1" "bytes_at s1 ?tv (segment fi ?ts ?te)" "my_brk s1 = my_brk s"
    "brks s1 (my_brk s) = \<lparr>brk_start = min ?tv CBASE, brk_end = max (?tv + ?te - ?ts) 0\<rparr>"
    using alseg_ok[OF t' k] b by auto
  have te: "unat (?tv + ?te - ?ts) = unat ?tv + (unat ?te - unat ?ts)" by (rule seg_end[OF t'(3)]) (use t' in simp)
  have tl: "?tv \<le> CBASE" "below_CBASE (?tv + ?te - ?ts) n" using t te by (simp_all add: seg_ok_def below_CBASE_def word_le_nat_alt)
  define b1 where "b1 = \<lparr>brk_start = ?tv, brk_end = ?tv + ?te - ?ts\<rparr>"
  have s1b: "brks s1 (my_brk s) = b1" using s1(4) tl(1) by (simp add: b1_def min_def)
  let ?D = "?de \<noteq> ?ds"
  have "\<exists>s2 lo hi. (if seg_exists ?dv ?de ?ds fz then alseg ?dv ?de ?ds fi s1 else ret s1) = ret s2 \<and> my_brk s2 = my_brk s \<and>
      brks s2 (my_brk s) = \<lparr>brk_start = lo, brk_end = hi\<rparr> \<and> bytes_at s2 ?tv (segment fi ?ts ?te) \<and>
      (?D \<longrightarrow> bytes_at s2 ?dv (segment fi ?ds ?de) \<and> lo \<le> ?dv \<and> unat ?dv + (unat ?de - unat ?ds) \<le> unat hi) \<and>
      lo \<le> ?tv \<and> unat ?tv + (unat ?te - unat ?ts) \<le> unat hi \<and> lo \<le> hi \<and> below_CBASE hi n"
  proof (cases ?D)
    case False
    then have "\<not> seg_exists ?dv ?de ?ds fz" by (simp add: seg_empty)
    then show ?thesis using False s1 s1b te tl(2) by (auto simp: b1_def word_le_nat_alt)
  next
    case True
    then have d: "seg_ok ?dv ?de ?ds fz n" "disjoint_ranges ?tv (unat ?te - unat ?ts) ?dv (unat ?de - unat ?ds)"
      using M(2) by (auto simp: image_ok_def)
    then have d': "?ds < ?de" "unat ?de \<le> length fi" "below_CBASE ?dv (unat ?de - unat ?ds)"
      using M(3) by (auto simp: seg_ok_def word_less_nat_alt below_CBASE_def)
    have de: "unat (?dv + ?de - ?ds) = unat ?dv + (unat ?de - unat ?ds)" by (rule seg_end[OF d'(3)]) (use d' in simp)
    have dl: "below_CBASE (?dv + ?de - ?ds) n" using d(1) de by (simp add: seg_ok_def below_CBASE_def)
    obtain s2 where s2: "alseg ?dv ?de ?ds fi s1 = ret s2" "bytes_at s2 ?dv (segment fi ?ds ?de)" "grown ?dv (unat ?de - unat ?ds) s1 s2"
      "my_brk s2 = my_brk s" "brks s2 (my_brk s) = \<lparr>brk_start = min ?dv (brk_start b1), brk_end = max (?dv + ?de - ?ds) (brk_end b1)\<rparr>"
      using alseg_ok[OF d', of s1] k s1(3) s1b by auto
    have lt: "length (segment fi ?ts ?te) = unat ?te - unat ?ts" by (rule length_segment) (use t' in simp_all)
    have "bytes_at s2 ?tv (segment fi ?ts ?te)"
      using bytes_at_grown[OF s1(2) s2(3)] t'(3) d'(3) d(2) by (simp add: lt)
    moreover have "seg_exists ?dv ?de ?ds fz" by (rule seg_ok_exists[OF d(1)])
    ultimately show ?thesis using s2(1,2,4,5) te de tl(2) dl
      by (intro exI[of _ s2] exI[of _ "min ?dv (brk_start b1)"] exI[of _ "max (?dv + ?de - ?ds) (brk_end b1)"])
        (auto simp: b1_def word_le_nat_alt min_def max_def)
  qed
  then obtain s2 lo hi where s2: "(if seg_exists ?dv ?de ?ds fz then alseg ?dv ?de ?ds fi s1 else ret s1) = ret s2" "my_brk s2 = my_brk s"
      "brks s2 (my_brk s) = \<lparr>brk_start = lo, brk_end = hi\<rparr>" "bytes_at s2 ?tv (segment fi ?ts ?te)"
      "?D \<longrightarrow> bytes_at s2 ?dv (segment fi ?ds ?de) \<and> lo \<le> ?dv \<and> unat ?dv + (unat ?de - unat ?ds) \<le> unat hi"
      "lo \<le> ?tv" "unat ?tv + (unat ?te - unat ?ts) \<le> unat hi" "lo \<le> hi" "below_CBASE hi n" by blast
  have ls: "load_segments fa fi fz s = ret (if bss_exists M then grow_brk (BSS_VADD M) (BSS_VADD M + BSS_SIZE M) s2 else s2)"
    using seg_ok_exists[OF t] s1(1) s2(1) by (simp add: load_segments_def M(1)[symmetric] Let_def)
  show ?thesis
  proof (cases "BSS_SIZE M = 0")
    case True
    then have "\<not> bss_exists M" by (simp add: bss_exists_def)
    then show ?thesis using ls s2 True by (intro exI[of _ s2] exI[of _ lo] exI[of _ hi]) simp
  next
    case False
    then have bb: "below_CBASE (BSS_VADD M) (unat (BSS_SIZE M) + n)" using M(2) by (simp add: image_ok_def)
    then have be: "unat (BSS_VADD M + BSS_SIZE M) = unat (BSS_VADD M) + unat (BSS_SIZE M)"
      by (simp add: below_CBASE_def CBASE_unat unat_word_ariths)
    then have bl: "BSS_VADD M + BSS_SIZE M < CBASE" "below_CBASE (BSS_VADD M + BSS_SIZE M) n" using bb by (simp_all add: below_CBASE_def word_less_nat_alt)
    define b3 where "b3 = \<lparr>brk_start = min (BSS_VADD M) lo, brk_end = max (BSS_VADD M + BSS_SIZE M) hi\<rparr>"
    have g: "grow_brk (BSS_VADD M) (BSS_VADD M + BSS_SIZE M) s2 = set_brk b3 s2" using s2(2,3) by (simp add: grow_brk_def Let_def b3_def)
    have f3: "my_brk (set_brk b3 s2) = my_brk s" "brks (set_brk b3 s2) (my_brk s) = b3"
      using s2(2) set_brk_fields(2)[of b3 s2] by simp_all
    have "grown 0 0 s2 (set_brk b3 s2)" using f3 s2(2,3) by (simp add: grown_def) (auto simp: b3_def min_def max_def)
    then have keep: "bytes_at (set_brk b3 s2) v bs" if "bytes_at s2 v bs" for v bs
      using that f3(1) s2(2) by (auto simp: bytes_at_def in_brk_def grown_def)
    note f3
    moreover have be': "bss_exists M" using False bl by (simp add: bss_exists_def)
    moreover have "lo' \<le> min x y \<longleftrightarrow> lo' \<le> x \<and> lo' \<le> y" for lo' x y :: u64 by simp
    ultimately show ?thesis using ls g keep s2 be bl
      by (intro exI[of _ "set_brk b3 s2"] exI[of _ "min (BSS_VADD M) lo"] exI[of _ "max (BSS_VADD M + BSS_SIZE M) hi"])
        (auto simp: b3_def min_def max_def word_le_nat_alt)
  qed
qed

lemma put_args_ok:
  assumes k: "my_brk s \<noteq> 0" and b: "brks s (my_brk s) = \<lparr>brk_start = lo, brk_end = hi\<rparr>" "lo \<le> hi" "below_CBASE hi (length args + 1)"
  shows "\<exists>argv s'. put_args args s = ret (argv, s') \<and> bytes_at s' argv (args @ [0]) \<and> grown argv (length args + 1) s s' \<and>
    below_CBASE argv (length args + 1) \<and> (unat argv + (length args + 1) \<le> unat lo \<or> unat hi \<le> unat argv) \<and> my_brk s' = my_brk s"
proof -
  define n where "n = length args + 1"
  have n1: "length (args @ [0]) = n" by (simp add: n_def)
  have "n < 18446744073709551616" using b(3) by (simp add: n_def below_CBASE_def CBASE_unat)
  then have "unat (of_nat n :: u64) = n" by (rule unat_of_nat_small)
  note n = n1 this
  have pa: "put_args args s =
     (if of_nat n < lo
      then bindR (user_copy (lo - of_nat n) (args @ [0]) (set_brk \<lparr>brk_start = lo - of_nat n, brk_end = hi\<rparr> s)) (\<lambda>s. ret (lo - of_nat n, s))
      else bindR (user_copy hi (args @ [0]) (set_brk \<lparr>brk_start = lo, brk_end = hi + of_nat n\<rparr> s)) (\<lambda>s. ret (hi, s)))"
    unfolding put_args_def n_def Let_def b(1) by simp
  have lh: "unat lo \<le> unat hi" "unat hi + n < unat CBASE" using b(2,3) by (simp_all add: word_le_nat_alt below_CBASE_def n_def)
  show ?thesis
  proof (cases "of_nat n < lo")
    case True
    then have u: "unat (lo - of_nat n) + n = unat lo" using n(2) by (simp add: unat_sub word_le_nat_alt word_less_nat_alt)
    have le: "lo - of_nat n \<le> lo" using u by (simp add: word_le_nat_alt)
    have "\<exists>s'. user_copy (lo - of_nat n) (args @ [0]) (set_brk \<lparr>brk_start = lo - of_nat n, brk_end = hi\<rparr> s) = ret s' \<and>
        bytes_at s' (lo - of_nat n) (args @ [0]) \<and> grown (lo - of_nat n) (length (args @ [0])) s s' \<and>
        brks s' (my_brk s') = \<lparr>brk_start = lo - of_nat n, brk_end = hi\<rparr> \<and> my_brk s' = my_brk s"
      by (rule copy_into_brk) (use k b u lh n le in \<open>simp_all add: below_CBASE_def\<close>)
    moreover have "below_CBASE (lo - of_nat n) n" using u lh by (simp add: below_CBASE_def)
    ultimately show ?thesis unfolding pa n_def[symmetric] using True u n by auto
  next
    case False
    have u: "unat (hi + of_nat n) = unat hi + n"
      by (rule range_unat[OF b(3)[folded n_def] order_refl])
    have "\<exists>s'. user_copy hi (args @ [0]) (set_brk \<lparr>brk_start = lo, brk_end = hi + of_nat n\<rparr> s) = ret s' \<and>
        bytes_at s' hi (args @ [0]) \<and> grown hi (length (args @ [0])) s s' \<and>
        brks s' (my_brk s') = \<lparr>brk_start = lo, brk_end = hi + of_nat n\<rparr> \<and> my_brk s' = my_brk s"
      by (rule copy_into_brk) (use k b u lh n in \<open>simp_all add: below_CBASE_def word_le_nat_alt\<close>)
    moreover have "below_CBASE hi n" using b(3) by (simp add: n_def)
    ultimately show ?thesis unfolding pa n_def[symmetric] using False n by auto
  qed
qed


text \<open>A page fault in the range is served by mapping the page of the address, and nothing else; any other
  fault of a program stops with \<open>ERR_PAGE_FAULT\<close>.\<close>

lemma PAGE_FAULT_cases:
  assumes "errc AND 1 = 0" and "my_brk s \<noteq> 0" and "brks s (my_brk s) = \<lparr>brk_start = lo, brk_end = hi\<rparr>" and "hi < CBASE"
  shows "PAGE_FAULT a errc s =
    (if lo \<le> a \<and> a \<le> hi then ret (s\<lparr>upages := insert (page_of a) (upages s)\<rparr>) else stop (ERROR ERR_PAGE_FAULT errc))"
proof -
  have "a < CBASE" if "a \<le> hi" using that assms(4) by (rule order.strict_trans1)
  moreover have "page_of a AND 0xfff = 0" using page_of_aligned[of a] by (simp add: page_aligned_def)
  ultimately show ?thesis using assms page_below_CBASE(2)[of a]
    by (simp add: PAGE_FAULT_def UPALLOC_user_def Let_def page_of_def)
qed


text \<open>A program of three bytes at \<open>0x1000\<close>, and a task with an empty range of memory to load it in.\<close>

definition demo_file3 :: "u8 list" where
  "demo_file3 =
     [64, 0, 0, 0, 0, 0, 0, 0, 67, 0, 0, 0, 0, 0, 0, 0, 0, 0x10, 0, 0, 0, 0, 0, 0, 0, 0, 0, 0, 0, 0, 0, 0,
      0, 0, 0, 0, 0, 0, 0, 0, 0, 0, 0, 0, 0, 0, 0, 0, 0, 0, 0, 0, 0, 0, 0, 0, 0, 0, 0, 0, 0, 0, 0, 0,
      0x90, 0x90, 0xc3, 0]"

definition demo_user :: user_fsys where
  "demo_user = fsys.extend
     (demo_fsys\<lparr>tcbs := (\<lambda>_. new_tcb\<lparr>kernelFdLen := 128, brk := 0x500\<rparr>), brks := (\<lambda>_. \<lparr>brk_start = CBASE, brk_end = 0\<rparr>)\<rparr>)
     (user_fsys.fields {} (\<lambda>_. \<lparr>ea_File = [], ea_arguments = [], ea_sema = 0, ea_done = False\<rparr>))"

lemma demo_user_simps:
  "my_brk demo_user = 0x500" "brks demo_user p = \<lparr>brk_start = CBASE, brk_end = 0\<rparr>" "upages demo_user = {}"
  by (simp_all add: demo_user_def my_brk_def tcb_def new_tcb_def demo_fsys_def demo_streams_def demo_sched_def sched.defs
      streams.defs fsys.defs user_fsys.defs)

lemma demo_header:
  "header demo_file3 = \<lparr>TEXT_START = 64, TEXT_END = 67, TEXT_VADD = 0x1000, DATA_START = 0, DATA_END = 0, DATA_VADD = 0,
     BSS_SIZE = 0, BSS_VADD = 0\<rparr>"
  by (simp add: header_def quad_at_def demo_file3_def)



subsection \<open>Programs (usermode.c)\<close>

definition switchToUserModeProc :: "'a user_alloc \<Rightarrow> addr \<Rightarrow> u32 \<Rightarrow> 'a user_fsys_scheme \<Rightarrow> (addr \<times> u64 \<times> 'a user_fsys_scheme) run" where
  "switchToUserModeProc kpalloc UP rdi s =
     bindR (check (\<not> CBASE < UP) (ERROR ERR_NOT_UM UP)) (\<lambda>_.
     bindR (lift (kpalloc s)) (\<lambda>(p, s).
     let s = loadRSP0 (p + 0xff8) s
     in ret (UP, scast rdi, s\<lparr>iopl := if PL (tcb (current_task_TCB s) s) = 2 then 3 else 0\<rparr>)))"

definition UM_CLEANUP :: "'a user_fsys_scheme \<Rightarrow> 'a user_fsys_scheme run" where
  "UM_CLEANUP s =
     bindR (check (PL (tcb (current_task_TCB s) s) = 3) (ERROR ERR_PL_CLEANUP (ucast (PL (tcb (current_task_TCB s) s))))) (\<lambda>_.
       PROC_EXIT s)"

text \<open>\<open>P_FREES(v, l)\<close>: the pages are given back one by one.\<close>

definition P_FREES :: "addr \<Rightarrow> u64 \<Rightarrow> 'a user_fsys_scheme \<Rightarrow> 'a user_fsys_scheme run" where
  "P_FREES v l s =
     bindR (check (\<not> sint l < 1) (ERROR ERR_AL_NOP_FREE l)) (\<lambda>_.
       ret (fold (\<lambda>i. P_FREE_event (v + of_nat i * 0x1000)) [0..<unat l] s))"

text \<open>
  The new task's part of \<open>exec\<close> up to the point where the parent goes on: its descriptors, the file's
  contents in kernel pages (\<open>kpallocs\<close> gives their address and what they held), the image, and the mode.
\<close>

definition ExecN_load :: "'a user_alloc \<Rightarrow> (u64 \<Rightarrow> 'a user_fsys_scheme \<Rightarrow> (addr \<times> u8 list \<times> 'a user_fsys_scheme) run) \<Rightarrow>
    addr \<times> u8 list \<Rightarrow> u8 list \<Rightarrow> addr \<Rightarrow> 'a user_fsys_scheme \<Rightarrow> (addr \<times> u32 \<times> 'a user_fsys_scheme) run" where
  "ExecN_load kpalloc kpallocs b2 junk A s =
     bindR (InitKernelFd kpalloc b2 s) (\<lambda>s.
     bindR (OPEN kpalloc b2 junk (ea_File (exec_args s A)) 5 s) (\<lambda>(AF, s).
     bindR (SEEK kpalloc b2 AF 0 2 s) (\<lambda>s.
     bindR (TELL AF s) (\<lambda>AFL.
     bindR (SEEK kpalloc b2 AF 0 0 s) (\<lambda>s.
     bindR (kpallocs (drop_bit 12 AFL + (if AFL AND 0xFFF \<noteq> 0 then 1 else 0)) s) (\<lambda>(MEM, old, s).
     bindR (READ kpalloc b2 AF old AFL s) (\<lambda>(fi, e, s).
     bindR (PF_load kpalloc MEM fi AFL (ea_arguments (exec_args s A)) s) (\<lambda>(INI, rdi, s).
     bindR (P_FREES MEM (drop_bit 12 AFL + (if AFL AND 0xFFF \<noteq> 0 then 1 else 0)) s) (\<lambda>s.
     bindR (CLOSE kpalloc b2 AF s) (\<lambda>s.
     let s = upd (current_task_TCB s) (\<lambda>t. t\<lparr>PL := 3\<rparr>) s;
         s = s\<lparr>exec_args := (exec_args s)(A := (exec_args s A)\<lparr>ea_done := True\<rparr>)\<rparr>
     in ret (INI, rdi, s)))))))))))"

text \<open>The parent's part before it waits for \<open>done\<close>: the arguments and the task. \<open>execn\<close> is the address of \<open>ExecN\<close>.\<close>

definition ExecFile_args :: "'a user_alloc \<Rightarrow> u8 list \<Rightarrow> u8 list \<Rightarrow> 'a user_fsys_scheme \<Rightarrow> (addr \<times> 'a user_fsys_scheme) run" where
  "ExecFile_args kpalloc A argv s =
     bindR (malloc kpalloc 28 s) (\<lambda>(n, s).
     bindR (malloc kpalloc (of_nat (length A) + 1) s) (\<lambda>(f, s).
     bindR (malloc kpalloc (of_nat (length argv) + 1) s) (\<lambda>(g, s).
     bindR (create_semaphore kpalloc 1 s) (\<lambda>(q, s).
       ret (n, s\<lparr>exec_args := (exec_args s)(n := \<lparr>ea_File = A, ea_arguments = argv, ea_sema = q, ea_done = False\<rparr>)\<rparr>)))))"

definition ExecFile_start :: "'a user_alloc \<Rightarrow> addr \<Rightarrow> u8 list \<Rightarrow> u8 list \<Rightarrow> addr \<Rightarrow> 'a user_fsys_scheme \<Rightarrow>
    (addr \<times> 'a user_fsys_scheme) run" where
  "ExecFile_start kpalloc execn A argv pd s =
     bindR (ExecFile_args kpalloc A argv s) (\<lambda>(n, s). ckprocA kpalloc execn n pd s)"

subsection \<open>System calls (syscall.c)\<close>

fun user_fetch :: "addr \<Rightarrow> nat \<Rightarrow> 'a user_fsys_scheme \<Rightarrow> (u8 list \<times> 'a user_fsys_scheme) run" where
  "user_fetch a 0 s = ret ([], s)"
| "user_fetch a (Suc n) s =
     bindR (touch a 0 s) (\<lambda>s. bindR (user_fetch (a + 1) n s) (\<lambda>(bs, t). ret (umem s a # bs, t)))"

definition user_bytes :: "addr \<Rightarrow> nat \<Rightarrow> 'a user_fsys_scheme \<Rightarrow> u8 list" where
  "user_bytes a n s = map (\<lambda>i. umem s (a + of_nat i)) [0..<n]"

definition sbrk_call :: "u64 \<Rightarrow> 'a user_fsys_scheme \<Rightarrow> (u64 \<times> 'a user_fsys_scheme) run" where
  "sbrk_call n s =
     bindR (check (my_brk s \<noteq> 0) (ERROR ERR_BINFMT_BROKEN 0)) (\<lambda>_.
       let b = brks s (my_brk s) in ret (brk_end b + n, set_brk (b\<lparr>brk_end := brk_end b + n\<rparr>) s))"

text \<open>
  The dispatch on \<open>rdi\<close>. The outcome says whether the call has returned: the calls that give up the
  processor have not. \<open>ustr s a\<close> is the string at a user address.
\<close>

definition syscall_switch :: "'a user_alloc \<Rightarrow> addr \<times> u8 list \<Rightarrow> u8 list \<Rightarrow> ('a user_fsys_scheme \<Rightarrow> addr \<Rightarrow> u8 list) \<Rightarrow> addr \<Rightarrow>
    u64 \<Rightarrow> u64 \<Rightarrow> u64 \<Rightarrow> u64 \<Rightarrow> 'a user_fsys_scheme \<Rightarrow> (u64 \<times> read_end \<times> 'a user_fsys_scheme) run" where
  "syscall_switch kpalloc b2 junk ustr execn rdi rsi rdx rcx s =
     (let driver = (\<lambda>m. if PL (tcb (current_task_TCB s) s) = 2 then m else ret (- 1, Complete, s));
          done0 = (\<lambda>m. bindR m (\<lambda>s. ret (0, Complete, s)));
          waits = (\<lambda>m. bindR m (\<lambda>s. ret (0, Waiting, s)))
      in if rdi = 0 then
           bindR (VERIFY_USER rdx) (\<lambda>p.
           bindR (READ kpalloc b2 rsi (user_bytes p (unat rcx) s) rcx s) (\<lambda>(b, e, s).
           bindR (user_copy p b s) (\<lambda>s. ret (0, e, s))))
         else if rdi = 1 then
           bindR (VERIFY_USER rdx) (\<lambda>p.
           bindR (user_fetch p (unat rcx) s) (\<lambda>(b, s). done0 (WRITE kpalloc b2 rsi b rcx s)))
         else if rdi = 2 then
           bindR (VERIFY_USER rsi) (\<lambda>p. bindR (OPEN kpalloc b2 junk (ustr s p) (rdx AND 0xff) s) (\<lambda>(fd, s). ret (fd, Complete, s)))
         else if rdi = 3 then done0 (CLOSE kpalloc b2 rsi s)
         else if rdi = 4 then done0 (SEEK kpalloc b2 rsi rdx rcx s)
         else if rdi = 5 then bindR (sbrk_call rsi s) (\<lambda>(v, s). ret (v, Complete, s))
         else if rdi = 6 then bindR (TELL rsi s) (\<lambda>v. ret (v, Complete, s))
         else if rdi = 7 then
           bindR (let p = le_word (user_bytes rcx 8 s)
                  in VERIFY_PERMS_EXEC kpalloc b2 (p, ustr s p, le_word (user_bytes (rcx + 8) 8 s)) s) (\<lambda>(pd, s).
           bindR (VERIFY_USER rdx) (\<lambda>argv.
           bindR (VERIFY_USER rsi) (\<lambda>p.
           bindR (ExecFile_start kpalloc execn (ustr s p) (ustr s argv) pd s) (\<lambda>(M, s).
             ret (pid (tcb M s), Waiting, s)))))
         else if rdi = 8 then done0 (BIND_HANDLES rsi rdx s)
         else if rdi = 9 then waits (UM_CLEANUP s)
         else if rdi = 0xa then waits (waitForChildToDie s)
         else if rdi = 0xb then bindR (find_child_by_pid rsi s) (\<lambda>b. ret (0, Complete, BINDR b rdx s))
         else if rdi = 0xc then done0 (unblock_child rsi s)
         else if rdi = 0xd then driver (done0 (d0xD kpalloc (ustr s rsi) s))
         else if rdi = 0xe then driver (done0 (d0xE rsi (ustr s rdx) s))
         else if rdi = 0xf then driver (waits (wait_for_irq (ucast rsi) 0 0 s))
         else if rdi = 0x10 then bindR (checkStream rsi s) (\<lambda>v. ret (if v then 1 else 0, Complete, s))
         else if rdi = 0x11 then waits (uwait rsi s)
         else if rdi = 0x12 then waits (nano_sleep rsi s)
         else stop (ERROR ERR_INT rdi))"

text \<open>
  The frame: a call runs on a kernel stack of its own, so that the task may be switched away and enter
  the kernel again; the stack is given back and the old one restored when the call returns.
\<close>

definition syscall_enter :: "'a user_alloc \<Rightarrow> 'a user_fsys_scheme \<Rightarrow> (addr \<times> addr \<times> 'a user_fsys_scheme) run" where
  "syscall_enter kpalloc s =
     (let s = s\<lparr>int_flag := False\<rparr>; old = rsp0 (tcb (current_task_TCB s) s)
      in bindR (lift (kpalloc s)) (\<lambda>(n, s). ret (old, n, (loadRSP0 (n + 0xff8) s)\<lparr>int_flag := True\<rparr>)))"

definition syscall_leave :: "addr \<Rightarrow> addr \<Rightarrow> 'a user_fsys_scheme \<Rightarrow> 'a user_fsys_scheme" where
  "syscall_leave old n s = loadRSP0 old (P_FREE_event n (s\<lparr>int_flag := False\<rparr>))"

definition INT0x80C :: "'a user_alloc \<Rightarrow> addr \<times> u8 list \<Rightarrow> u8 list \<Rightarrow> ('a user_fsys_scheme \<Rightarrow> addr \<Rightarrow> u8 list) \<Rightarrow> addr \<Rightarrow>
    u64 \<Rightarrow> u64 \<Rightarrow> u64 \<Rightarrow> u64 \<Rightarrow> 'a user_fsys_scheme \<Rightarrow> (u64 \<times> read_end \<times> 'a user_fsys_scheme) run" where
  "INT0x80C kpalloc b2 junk ustr execn rdi rsi rdx rcx s =
     bindR (syscall_enter kpalloc s) (\<lambda>(old, n, s).
     bindR (syscall_switch kpalloc b2 junk ustr execn rdi rsi rdx rcx s) (\<lambda>(v, e, s).
       ret (v, e, if e = Waiting then s else syscall_leave old n s)))"

subsection \<open>What a system call may do\<close>


lemma more_user:
  assumes "kheap.more t = kheap.more s"
  shows "brks t = brks s" "upages t = upages s"
  using assms by (cases s; cases t; simp)+

text \<open>\<open>sbrk\<close> gives the program more memory: after the call every address up to the new end, which is the
  result, can be accessed, what lies beyond still stops the program, and the task's kernel stack is the one it
  had before the call.\<close>

theorem sbrk_moves_border:
  assumes "INT0x80C (KPALLOC no_more_pages) b2 junk ustr execn 5 k rdx rcx s = ret (v, e, s')"
    and "brks s (my_brk s) = \<lparr>brk_start = lo, brk_end = hi\<rparr>" and "hi + k < CBASE" and "page_of a \<notin> upages s"
  shows "v = hi + k \<and> e = Complete \<and> rsp0 (tcb (current_task_TCB s') s') = rsp0 (tcb (current_task_TCB s) s) \<and>
    tss_rsp0 s' = rsp0 (tcb (current_task_TCB s) s) \<and>
    touch a 2 s' = (if lo \<le> a \<and> a \<le> v then ret (s'\<lparr>upages := insert (page_of a) (upages s')\<rparr>) else stop (ERROR ERR_PAGE_FAULT 2))"
proof -
  let ?c = "current_task_TCB s"
  obtain n t where t: "KPALLOC no_more_pages (s\<lparr>int_flag := False\<rparr>) = Inr (n, t)"
  proof (cases "KPALLOC no_more_pages (s\<lparr>int_flag := False\<rparr>)")
    case (Inl err)
    then show ?thesis using assms(1) by (simp add: INT0x80C_def syscall_enter_def Let_def)
  next
    case (Inr r)
    then show ?thesis using that by (cases r) auto
  qed
  have mt: "kheap.more t = kheap.more (s\<lparr>int_flag := False\<rparr>)" by (rule more_KPALLOC[OF t])
  note f = more_fields(19,20)[OF mt]
  have g: "brks t = brks s" "upages t = upages s" using more_user[OF mt] by simp_all
  define u where "u = (loadRSP0 (n + 0xff8) t)\<lparr>int_flag := True\<rparr>"
  have bu: "my_brk u = my_brk s" "brks u = brks s" "upages u = upages s"
    using f g by (simp_all add: u_def loadRSP0_def my_brk_def tcb_def upd_def)
  have en: "syscall_enter (KPALLOC no_more_pages) s = ret (rsp0 (tcb ?c s), n, u)"
    by (simp add: syscall_enter_def Let_def t lift_def u_def tcb_def ret_def bindR_def)
  have nz: "my_brk s \<noteq> 0" using assms(1) bu
    by (auto simp: INT0x80C_def en syscall_switch_def sbrk_call_def check_def)
  have r: "v = hi + k" "e = Complete" "s' = syscall_leave (rsp0 (tcb ?c s)) n (set_brk \<lparr>brk_start = lo, brk_end = hi + k\<rparr> u)"
    using assms(1,2) bu nz by (auto simp: INT0x80C_def en syscall_switch_def sbrk_call_def check_def Let_def)
  have l: "my_brk s' = my_brk s" "brks s' (my_brk s) = \<lparr>brk_start = lo, brk_end = hi + k\<rparr>" "upages s' = upages s"
    "rsp0 (tcb (current_task_TCB s') s') = rsp0 (tcb ?c s)" "tss_rsp0 s' = rsp0 (tcb ?c s)"
    using bu by (simp_all add: r(3) syscall_leave_def loadRSP0_def P_FREE_event_def set_brk_def my_brk_def tcb_def upd_def)
  have "touch a 2 s' = (if lo \<le> a \<and> a \<le> hi + k then ret (s'\<lparr>upages := insert (page_of a) (upages s')\<rparr>) else stop (ERROR ERR_PAGE_FAULT 2))"
    using PAGE_FAULT_cases[of 2 s' lo "hi + k" a] l nz assms(3,4) by (simp add: touch_def)
  with r l show ?thesis by simp
qed

text \<open>A task whose kernel has one page left.\<close>

definition demo_call :: user_fsys where
  "demo_call = (stq (slot 0) 0x700000 demo_user)\<lparr>brks := (\<lambda>_. \<lparr>brk_start = 0x1000, brk_end = 0x1fff\<rparr>)\<rparr>"

lemma demo_call_page:
  "KPALLOC no_more_pages (demo_call\<lparr>int_flag := False\<rparr>) = Inr (0x700000, memfill_page 0x700000 (stq (slot 0) 0 (demo_call\<lparr>int_flag := False\<rparr>)))"
proof -
  have "ldq (demo_call\<lparr>int_flag := False\<rparr>) (slot 0) = 0x700000" by (simp add: demo_call_def ldq_def stq_def)
  then show ?thesis by (intro KPALLOC_first) simp_all
qed

lemma demo_call_simps:
  "my_brk demo_call = 0x500" "brks demo_call p = \<lparr>brk_start = 0x1000, brk_end = 0x1fff\<rparr>" "upages demo_call = {}"
  "tcb p demo_call = new_tcb\<lparr>kernelFdLen := 128, brk := 0x500\<rparr>" "current_task_TCB demo_call = 0"
  using demo_user_simps by (simp_all add: demo_call_def my_brk_def stq_def tcb_def)
    (simp_all add: demo_user_def tcb_def demo_fsys_def demo_streams_def demo_sched_def sched.defs streams.defs fsys.defs user_fsys.defs)

lemma demo_call_enter:
  "\<exists>s1. syscall_enter (KPALLOC no_more_pages) demo_call = ret (rsp0 new_tcb, 0x700000, s1) \<and> PL (tcb (current_task_TCB s1) s1) = PL new_tcb \<and>
    my_brk s1 = 0x500 \<and> brks s1 = (\<lambda>_. \<lparr>brk_start = 0x1000, brk_end = 0x1fff\<rparr>)"
proof -
  let ?u = "memfill_page 0x700000 (stq (slot 0) 0 (demo_call\<lparr>int_flag := False\<rparr>))"
  have m: "kheap.more ?u = kheap.more (demo_call\<lparr>int_flag := False\<rparr>)" by (rule more_KPALLOC[OF demo_call_page])
  note f = more_fields(19,20)[OF m]
  have "brks ?u = brks demo_call" using more_user(1)[OF m] by simp
  then show ?thesis using f demo_call_simps
    by (simp add: syscall_enter_def Let_def demo_call_page loadRSP0_def upd_def my_brk_def) (simp add: tcb_def fun_eq_iff)
qed


theorem sbrk_moves_border_witness:
  "\<exists>s'. INT0x80C (KPALLOC no_more_pages) (0, []) [] (\<lambda>_ _. []) 0 5 0x1000 0 0 demo_call = ret (0x2fff, Complete, s') \<and>
    touch 0x2800 2 s' = ret (s'\<lparr>upages := insert 0x2000 (upages s')\<rparr>) \<and> touch 0x3000 2 s' = stop (ERROR ERR_PAGE_FAULT 2)"
proof -
  obtain s1 where s1: "syscall_enter (KPALLOC no_more_pages) demo_call = ret (rsp0 new_tcb, 0x700000, s1)"
    "my_brk s1 = 0x500" "brks s1 = (\<lambda>_. \<lparr>brk_start = 0x1000, brk_end = 0x1fff\<rparr>)"
    using demo_call_enter by blast
  have "\<exists>v e s'. INT0x80C (KPALLOC no_more_pages) (0, []) [] (\<lambda>_ _. []) 0 5 0x1000 0 0 demo_call = ret (v, e, s')"
    using s1 by (simp add: INT0x80C_def syscall_switch_def sbrk_call_def Let_def)
  then obtain v e s' where r: "INT0x80C (KPALLOC no_more_pages) (0, []) [] (\<lambda>_ _. []) 0 5 0x1000 0 0 demo_call = ret (v, e, s')" by blast
  have p: "page_of 0x2800 = 0x2000" by (simp add: page_of_def)
  from sbrk_moves_border[OF r, of "0x1000" "0x1fff" "0x2800"] sbrk_moves_border[OF r, of "0x1000" "0x1fff" "0x3000"] r show ?thesis
    by (simp add: demo_call_simps p CBASE_def)
qed

end
