(* ===== verification/Paging.thy ===== *)
theory Paging
  imports Exec "HOL-Library.Sublist"
begin

section \<open>Page tables and physical frames (page.c)\<close>

text \<open>
  \<open>ptab\<close> is physical memory as far as it holds page tables, quad by quad. The code reaches a table in
  two ways. The first two megabytes behind \<open>CBASE\<close> are mapped to the first two of memory, so the root
  table at \<open>MBASE+0x10000\<close> and the table of those two megabytes at \<open>MBASE+0x13000\<close> have fixed
  addresses. Any other table is seen through a window: \<open>manualptVlookup\<close> stores the frame of the table
  in the entry of the page \<open>MBASE+0x1c000\<close>. Stores to a page of the kernel that is about to become a
  table go through the translation of its address.

  Where the code writes \<open>get_pdptVP(..)[i] = V2P(M)|..\<close> both sides move the window; the model evaluates
  the right-hand side first, which is the order the code needs.
\<close>

record paged = user_fsys +
  ptab :: "addr \<Rightarrow> u64"

type_synonym 'a pg_alloc = "'a paged_scheme \<Rightarrow> fault + addr \<times> 'a paged_scheme"

definition phys :: "addr \<Rightarrow> addr" where
  "phys a = a - CBASE"

definition put_quad :: "addr \<Rightarrow> u64 \<Rightarrow> 'a paged_scheme \<Rightarrow> 'a paged_scheme" where
  "put_quad a v s = s\<lparr>ptab := (ptab s)(a := v)\<rparr>"

definition quad :: "addr \<Rightarrow> nat \<Rightarrow> addr" where
  "quad f i = f + 8 * of_nat i"

subsection \<open>The window\<close>

definition window_offset :: u64 where
  "window_offset = push_bit 3 (drop_bit 12 (MBASE - CBASE) + 0x1c)"

definition window_entry :: addr where
  "window_entry = phys (MBASE + 0x13000 + window_offset)"

definition manualptVlookup :: "u64 \<Rightarrow> 'a paged_scheme \<Rightarrow> 'a paged_scheme run" where
  "manualptVlookup AD s =
     bindR (check (\<not> 0x1000 \<le> window_offset) (ERROR ERR_MBASE_TOOHIGH window_offset)) (\<lambda>_.
       ret (put_quad window_entry (AD OR 3) s))"

text \<open>Quad \<open>i\<close> of the page the window shows.\<close>

definition window :: "nat \<Rightarrow> 'a paged_scheme \<Rightarrow> addr" where
  "window i s = quad (ptab s window_entry AND NOT 0xFFF) i"

definition get_pml4V :: "nat \<Rightarrow> 'a paged_scheme \<Rightarrow> u64" where
  "get_pml4V pml4 s = ptab s (quad (phys (MBASE + 0x10000)) pml4)"

definition get_pdptV :: "nat \<Rightarrow> nat \<Rightarrow> 'a paged_scheme \<Rightarrow> (u64 \<times> 'a paged_scheme) run" where
  "get_pdptV pml4 pdpt s =
     bindR (manualptVlookup (get_pml4V pml4 s AND NOT 0xFFF) s) (\<lambda>s. ret (ptab s (window pdpt s), s))"

definition get_pdeV :: "nat \<Rightarrow> nat \<Rightarrow> nat \<Rightarrow> 'a paged_scheme \<Rightarrow> (u64 \<times> 'a paged_scheme) run" where
  "get_pdeV pml4 pdpt pde s =
     bindR (get_pdptV pml4 pdpt s) (\<lambda>(e, s).
     bindR (manualptVlookup (e AND NOT 0xFFF) s) (\<lambda>s. ret (ptab s (window pde s), s)))"

definition get_ptV :: "nat \<Rightarrow> nat \<Rightarrow> nat \<Rightarrow> nat \<Rightarrow> 'a paged_scheme \<Rightarrow> (u64 \<times> 'a paged_scheme) run" where
  "get_ptV pml4 pdpt pde pt s =
     bindR (get_pdeV pml4 pdpt pde s) (\<lambda>(e, s).
     bindR (manualptVlookup (e AND NOT 0xFFF) s) (\<lambda>s. ret (ptab s (window pt s), s)))"

definition get_pml4VP :: "nat \<Rightarrow> 'a paged_scheme \<Rightarrow> 'a paged_scheme run" where
  "get_pml4VP pml4 s = manualptVlookup (get_pml4V pml4 s AND NOT 0xFFF) s"

definition get_pdptVP :: "nat \<Rightarrow> nat \<Rightarrow> 'a paged_scheme \<Rightarrow> 'a paged_scheme run" where
  "get_pdptVP pml4 pdpt s = bindR (get_pdptV pml4 pdpt s) (\<lambda>(e, s). manualptVlookup (e AND NOT 0xFFF) s)"

definition get_pdeVP :: "nat \<Rightarrow> nat \<Rightarrow> nat \<Rightarrow> 'a paged_scheme \<Rightarrow> 'a paged_scheme run" where
  "get_pdeVP pml4 pdpt pde s = bindR (get_pdeV pml4 pdpt pde s) (\<lambda>(e, s). manualptVlookup (e AND NOT 0xFFF) s)"

definition put_window :: "nat \<Rightarrow> u64 \<Rightarrow> 'a paged_scheme \<Rightarrow> 'a paged_scheme" where
  "put_window i v s = put_quad (window i s) v s"

subsection \<open>Addresses\<close>

definition construct_virtual_address :: "u64 \<Rightarrow> u64 \<Rightarrow> u64 \<Rightarrow> u64 \<Rightarrow> addr" where
  "construct_virtual_address pml4 pdpt pde pt =
     pt * 0x1000 + pde * 0x1000 * 512 + pdpt * 0x1000 * 512 * 512 + pml4 * 0x1000 * 512 * 512 * 512"

definition pt_ix :: "addr \<Rightarrow> nat" where "pt_ix v = unat (drop_bit 12 (v AND 0x1FF000))"
definition pde_ix :: "addr \<Rightarrow> nat" where "pde_ix v = unat (drop_bit 21 (v AND 0x3FE00000))"
definition pdpt_ix :: "addr \<Rightarrow> nat" where "pdpt_ix v = unat (drop_bit 30 (v AND 0x7FC0000000))"
definition pml4_ix :: "addr \<Rightarrow> nat" where "pml4_ix v = unat (drop_bit 39 (v AND 0xFF8000000000))"

text \<open>\<open>V2P\<close> has a mask of its own for the second index.\<close>

definition V2P_pdpt :: "addr \<Rightarrow> nat" where "V2P_pdpt v = unat (drop_bit 30 (v AND 0x7FB0000000))"

definition V2P :: "addr \<Rightarrow> 'a paged_scheme \<Rightarrow> (addr \<times> 'a paged_scheme) run" where
  "V2P V s =
     bindR (get_ptV (pml4_ix V) (V2P_pdpt V) (pde_ix V) (pt_ix V) s) (\<lambda>(e, s).
       ret ((e AND NOT 0xFFF) + (V AND 0xFFF), s))"

subsection \<open>What the processor does\<close>

text \<open>
  The table (or, after four steps, the page) a list of indices leads to, and the translation of an
  address.
\<close>

fun table_at :: "(addr \<Rightarrow> u64) \<Rightarrow> addr \<Rightarrow> nat list \<Rightarrow> addr option" where
  "table_at T f [] = Some f"
| "table_at T f (i # p) = (if T (quad f i) AND 1 = 0 then None else table_at T (T (quad f i) AND NOT 0xFFF) p)"

definition PML4_FRAME :: addr where "PML4_FRAME = 0x30000"

definition path :: "addr \<Rightarrow> nat list" where
  "path v = [pml4_ix v, pdpt_ix v, pde_ix v, pt_ix v]"

definition frame_of :: "'a paged_scheme \<Rightarrow> addr \<Rightarrow> addr option" where
  "frame_of s v = table_at (ptab s) PML4_FRAME (path v)"

definition translate :: "'a paged_scheme \<Rightarrow> addr \<Rightarrow> addr option" where
  "translate s v = map_option (\<lambda>f. f + (v AND 0xFFF)) (frame_of s v)"

definition store_virt :: "addr \<Rightarrow> u64 \<Rightarrow> 'a paged_scheme \<Rightarrow> 'a paged_scheme run" where
  "store_virt a v s = (case translate s a of None \<Rightarrow> stop (Prelude.PF a) | Some p \<Rightarrow> ret (put_quad p v s))"

definition clear_frame :: "addr \<Rightarrow> 'a paged_scheme \<Rightarrow> 'a paged_scheme" where
  "clear_frame f s = s\<lparr>ptab := (\<lambda>a. if a - f < 0x1000 then 0 else ptab s a)\<rparr>"

definition memfill_virt :: "addr \<Rightarrow> 'a paged_scheme \<Rightarrow> 'a paged_scheme run" where
  "memfill_virt M s = (case translate s M of None \<Rightarrow> stop (Prelude.PF M) | Some p \<Rightarrow> ret (clear_frame p s))"

subsection \<open>The bitmap of frames\<close>

definition PL_MAP_START :: addr where "PL_MAP_START = MBASE + 0x15000"

text \<open>The place of quad \<open>index\<close> of the bitmap; quad 511 of each of its pages links to the next.\<close>

function LL_NV :: "'a pg_alloc \<Rightarrow> nat \<Rightarrow> addr \<Rightarrow> 'a paged_scheme \<Rightarrow> (addr \<times> 'a paged_scheme) run" where
  "LL_NV kpalloc index PLM s =
     (if 510 < index
      then bindR (if ldq s (quad PLM 511) = 0
                  then bindR (lift (kpalloc s)) (\<lambda>(p, s). ret (memfill_page p (stq (quad PLM 511) p s)))
                  else ret s) (\<lambda>s.
           LL_NV kpalloc (index - 511) (ldq s (quad PLM 511)) s)
      else ret (quad PLM index, s))"
  by auto
termination by (relation "measure (\<lambda>(_, i, _, _). i)") auto

declare LL_NV.simps [simp del]

text \<open>\<open>1 << (index & 63)\<close> shifts an \<open>int\<close>: the processor takes the count modulo 32, and the result is
  sign-extended.\<close>

definition int_bit :: "nat \<Rightarrow> u64" where
  "int_bit n = sx64 (int_shl1 n)"

definition PL_SV :: "'a pg_alloc \<Rightarrow> u64 \<Rightarrow> u8 \<Rightarrow> 'a paged_scheme \<Rightarrow> 'a paged_scheme run" where
  "PL_SV kpalloc index val s =
     bindR (LL_NV kpalloc (unat (drop_bit 6 index)) PL_MAP_START s) (\<lambda>(a, s).
       let m = int_bit (unat (index AND 63))
       in ret (stq a (if val = 1 then ldq s a OR m else ldq s a AND NOT m) s))"

text \<open>\<open>__builtin_ctzll\<close>, and the loop over the bits of a quad: it repeats after 32 turns.\<close>

definition ctz :: "u64 \<Rightarrow> nat" where
  "ctz w = length (takeWhile (\<lambda>k. \<not> bit w k) [0..<64])"

fun first_clear :: "u64 \<Rightarrow> nat \<Rightarrow> nat \<Rightarrow> nat option" where
  "first_clear q m 0 = None"
| "first_clear q m (Suc n) = (if q AND int_bit m \<noteq> 0 then first_clear q (m + 1) n else Some m)"

fun PL_scan :: "'a paged_scheme \<Rightarrow> addr \<Rightarrow> nat \<Rightarrow> nat \<Rightarrow> nat option" where
  "PL_scan s PT j 0 = None"
| "PL_scan s PT j (Suc n) = (if ldq s (quad PT j) \<noteq> 0xFFFFFFFFFFFFFFFF then Some j else PL_scan s PT (Suc j) n)"

partial_function (option) PL_FN_from :: "'a pg_alloc \<Rightarrow> u64 \<Rightarrow> addr \<Rightarrow> 'a paged_scheme \<Rightarrow> (u64 \<times> 'a paged_scheme) run" where
  "PL_FN_from kpalloc i PT s =
     (case PL_scan s PT 0 511 of
        Some j \<Rightarrow>
          (let q = ldq s (quad PT j) in
           case first_clear q 0 32 of
             None \<Rightarrow> None
           | Some m \<Rightarrow> bindR (check (m = ctz (NOT q)) (ERROR ERR_PL_FN_MISMATCH (of_nat m))) (\<lambda>_.
               ret (i + of_nat (64 * j) + of_nat m, s)))
      | None \<Rightarrow>
          bindR (if ldq s (quad PT 511) = 0
                 then bindR (lift (kpalloc s)) (\<lambda>(p, s). ret (memfill_page p (stq (quad PT 511) p s)))
                 else ret s) (\<lambda>s.
            PL_FN_from kpalloc (i + 64 * 511) (ldq s (quad PT 511)) s))"

definition PL_FN :: "'a pg_alloc \<Rightarrow> 'a paged_scheme \<Rightarrow> (u64 \<times> 'a paged_scheme) run" where
  "PL_FN kpalloc s = PL_FN_from kpalloc 0 PL_MAP_START s"

text \<open>A new frame, marked as used.\<close>

definition new_frame :: "'a pg_alloc \<Rightarrow> 'a paged_scheme \<Rightarrow> (u64 \<times> 'a paged_scheme) run" where
  "new_frame kpalloc s = bindR (PL_FN kpalloc s) (\<lambda>(ad, s). bindR (PL_SV kpalloc ad 1 s) (\<lambda>s. ret (ad, s)))"

subsection \<open>New tables\<close>

definition new_table :: "'a pg_alloc \<Rightarrow> 'a paged_scheme \<Rightarrow> (addr \<times> 'a paged_scheme) run" where
  "new_table kpalloc s = bindR (lift (kpalloc s)) (\<lambda>(M, s). bindR (memfill_virt M s) (\<lambda>s. ret (M, s)))"

text \<open>An entry of a table is set to the frame of the page \<open>M\<close>.\<close>

definition link_pml4 :: "nat \<Rightarrow> addr \<Rightarrow> u64 \<Rightarrow> 'a paged_scheme \<Rightarrow> 'a paged_scheme run" where
  "link_pml4 pml4 M magic s =
     bindR (V2P M s) (\<lambda>(f, s). ret (put_quad (quad (phys (MBASE + 0x10000)) pml4) (f OR magic) s))"

definition link_pdpt :: "nat \<Rightarrow> nat \<Rightarrow> addr \<Rightarrow> u64 \<Rightarrow> 'a paged_scheme \<Rightarrow> 'a paged_scheme run" where
  "link_pdpt pml4 pdpt M magic s =
     bindR (V2P M s) (\<lambda>(f, s). bindR (get_pml4VP pml4 s) (\<lambda>s. ret (put_window pdpt (f OR magic) s)))"

definition link_pde :: "nat \<Rightarrow> nat \<Rightarrow> nat \<Rightarrow> addr \<Rightarrow> u64 \<Rightarrow> 'a paged_scheme \<Rightarrow> 'a paged_scheme run" where
  "link_pde pml4 pdpt pde M magic s =
     bindR (V2P M s) (\<lambda>(f, s). bindR (get_pdptVP pml4 pdpt s) (\<lambda>s. ret (put_window pde (f OR magic) s)))"

definition make_pml4 :: "'a pg_alloc \<Rightarrow> u64 \<Rightarrow> nat \<Rightarrow> 'a paged_scheme \<Rightarrow> 'a paged_scheme run" where
  "make_pml4 kpalloc magic pml4 s =
     (if get_pml4V pml4 s AND 1 = 0 then bindR (new_table kpalloc s) (\<lambda>(M, s). link_pml4 pml4 M magic s) else ret s)"

definition make_pdpt :: "'a pg_alloc \<Rightarrow> u64 \<Rightarrow> nat \<Rightarrow> nat \<Rightarrow> 'a paged_scheme \<Rightarrow> 'a paged_scheme run" where
  "make_pdpt kpalloc magic pml4 pdpt s =
     bindR (get_pdptV pml4 pdpt s) (\<lambda>(e, s).
       if e AND 1 = 0 then bindR (new_table kpalloc s) (\<lambda>(M, s). link_pdpt pml4 pdpt M magic s) else ret s)"

definition make_pde :: "'a pg_alloc \<Rightarrow> u64 \<Rightarrow> nat \<Rightarrow> nat \<Rightarrow> nat \<Rightarrow> 'a paged_scheme \<Rightarrow> 'a paged_scheme run" where
  "make_pde kpalloc magic pml4 pdpt pde s =
     bindR (get_pdeV pml4 pdpt pde s) (\<lambda>(e, s).
       if e AND 1 = 0 then bindR (new_table kpalloc s) (\<lambda>(M, s). link_pde pml4 pdpt pde M magic s) else ret s)"

subsection \<open>Mapping an address\<close>

definition ALSP :: "'a pg_alloc \<Rightarrow> addr \<Rightarrow> u8 \<Rightarrow> u8 \<Rightarrow> u8 \<Rightarrow> 'a paged_scheme \<Rightarrow> 'a paged_scheme run" where
  "ALSP kpalloc v_add flags magic1 magic2 s =
     (let pt = pt_ix v_add; pde = pde_ix v_add; pdpt = pdpt_ix v_add; pml4 = pml4_ix v_add in
      bindR (new_frame kpalloc s) (\<lambda>(ad, s).
      bindR (make_pml4 kpalloc (ucast magic1) pml4 s) (\<lambda>s.
      bindR (make_pdpt kpalloc (ucast magic1) pml4 pdpt s) (\<lambda>s.
      bindR (make_pde kpalloc (ucast magic1) pml4 pdpt pde s) (\<lambda>s.
      bindR (get_ptV pml4 pdpt pde pt s) (\<lambda>(e, s).
      bindR (check (e AND 1 = 0) (ERROR ERR_PT_EXISTS_ALREADY v_add)) (\<lambda>_.
      bindR (get_pdeVP pml4 pdpt pde s) (\<lambda>s.
        ret (put_window pt (0x1000 * ad OR ucast magic2 OR ucast flags) s)))))))))"

fun ALSP_loop :: "'a pg_alloc \<Rightarrow> addr \<Rightarrow> u8 \<Rightarrow> u8 \<Rightarrow> u8 \<Rightarrow> nat \<Rightarrow> 'a paged_scheme \<Rightarrow> 'a paged_scheme run" where
  "ALSP_loop kpalloc v flags magic1 magic2 0 s = ret s"
| "ALSP_loop kpalloc v flags magic1 magic2 (Suc n) s =
     bindR (ALSP kpalloc v flags magic1 magic2 s) (ALSP_loop kpalloc (v + 0x1000) flags magic1 magic2 n)"

text \<open>\<open>size_pages\<close> is signed: for a negative number the loop has no turns.\<close>

definition UP_ALLOC4 :: "'a pg_alloc \<Rightarrow> u8 \<Rightarrow> addr \<Rightarrow> u64 \<Rightarrow> 'a paged_scheme \<Rightarrow> (addr \<times> 'a paged_scheme) run" where
  "UP_ALLOC4 kpalloc flags initial size_pages s =
     bindR (check (size_pages \<noteq> 0) (ERROR ERR_UAL_NOP size_pages)) (\<lambda>_.
     bindR (check (\<not> (CBASE < initial + 0x1000 * size_pages \<or> initial AND 0xfff \<noteq> 0)) (ERROR ERR_UPA_BIN initial)) (\<lambda>_.
     bindR (ALSP_loop kpalloc initial flags 0x7 0x5 (nat (sint size_pages)) s) (\<lambda>s. ret (initial, s))))"

definition UPALLOC :: "'a pg_alloc \<Rightarrow> u8 \<Rightarrow> addr \<Rightarrow> u64 \<Rightarrow> 'a paged_scheme \<Rightarrow> (addr \<times> 'a paged_scheme) run" where
  "UPALLOC kpalloc FLAGS initial size_pages s = UP_ALLOC4 kpalloc FLAGS initial size_pages s"

definition doesPDEEExist :: "addr \<Rightarrow> 'a paged_scheme \<Rightarrow> (bool \<times> 'a paged_scheme) run" where
  "doesPDEEExist v_add s =
     (let pt = pt_ix v_add; pde = pde_ix v_add; pdpt = pdpt_ix v_add; pml4 = pml4_ix v_add in
      if get_pml4V pml4 s AND 1 = 0 then ret (False, s)
      else bindR (get_pdptV pml4 pdpt s) (\<lambda>(e, s).
        if e AND 1 = 0 then ret (False, s)
        else bindR (get_pdeV pml4 pdpt pde s) (\<lambda>(e, s).
          if e AND 1 = 0 then ret (False, s)
          else bindR (get_ptV pml4 pdpt pde pt s) (\<lambda>(e, s). ret (e AND 1 = 0, s)))))"

text \<open>The search for \<open>size_pages\<close> free pages in a row; it has no end of its own.\<close>

partial_function (option) free_area :: "u64 \<Rightarrow> addr \<Rightarrow> u64 \<Rightarrow> 'a paged_scheme \<Rightarrow> (addr \<times> 'a paged_scheme) run" where
  "free_area size_pages ini i s =
     (if i = size_pages then ret (ini, s)
      else bindR (doesPDEEExist (ini + push_bit 12 i) s) (\<lambda>(free, s).
        if free then free_area size_pages ini (i + 1) s
        else free_area size_pages (ini + push_bit 12 (i + 1)) 0 s))"

definition KP_ALLOC4 :: "'a pg_alloc \<Rightarrow> u64 \<Rightarrow> 'a paged_scheme \<Rightarrow> (addr \<times> 'a paged_scheme) run" where
  "KP_ALLOC4 kpalloc size_pages s =
     bindR (check (size_pages \<noteq> 0) (ERROR ERR_AL_NOP size_pages)) (\<lambda>_.
     if size_pages = 1 then lift (kpalloc s)
     else bindR (free_area size_pages MBASE 0 s) (\<lambda>(ini, s).
          bindR (ALSP_loop kpalloc ini 0x0 0x1 0x1 (nat (sint size_pages)) s) (\<lambda>s. ret (ini, s))))"

definition KPALLOCS :: "'a pg_alloc \<Rightarrow> u64 \<Rightarrow> 'a paged_scheme \<Rightarrow> (addr \<times> 'a paged_scheme) run" where
  "KPALLOCS kpalloc n s = KP_ALLOC4 kpalloc n s"

subsection \<open>The first free address\<close>

fun pt_loop :: "nat \<Rightarrow> nat \<Rightarrow> nat \<Rightarrow> nat \<Rightarrow> nat \<Rightarrow> 'a paged_scheme \<Rightarrow> (nat option \<times> 'a paged_scheme) run" where
  "pt_loop pml4 pdpt pde pt 0 s = ret (None, s)"
| "pt_loop pml4 pdpt pde pt (Suc n) s =
     bindR (get_ptV pml4 pdpt pde pt s) (\<lambda>(e, s).
       if e AND 1 = 0 then ret (Some pt, s) else pt_loop pml4 pdpt pde (Suc pt) n s)"

definition vaddr :: "nat \<Rightarrow> nat \<Rightarrow> nat \<Rightarrow> nat \<Rightarrow> addr" where
  "vaddr pml4 pdpt pde pt = construct_virtual_address (of_nat pml4) (of_nat pdpt) (of_nat pde) (of_nat pt)"

text \<open>
  \<open>KP_ALLOC3\<close> and \<open>UP_ALLOC3\<close> are the same four nested loops with other limits and flags: \<open>m\<close> is put on
  tables made at the start of a turn, \<open>m2\<close> on those made when a table is full, \<open>leaf\<close> is the entry of
  the new page, \<open>top\<close> the last first-level index. The result is \<open>None\<close> when a loop ends without
  having returned.
\<close>

record alloc3 =
  a_magic :: u64
  a_magic2 :: u64
  a_leaf :: u64
  a_top :: nat

text \<open>The next table is made: one, two or three levels of it.\<close>

definition next_pde :: "'a pg_alloc \<Rightarrow> alloc3 \<Rightarrow> nat \<Rightarrow> nat \<Rightarrow> nat \<Rightarrow> 'a paged_scheme \<Rightarrow> (addr option \<times> 'a paged_scheme) run" where
  "next_pde kpalloc a pml4 pdpt pde s =
     bindR (new_table kpalloc s) (\<lambda>(M, s).
     bindR (link_pde pml4 pdpt (pde + 1) M (a_magic2 a) s) (\<lambda>s.
     bindR (store_virt M (a_leaf a) s) (\<lambda>s.
       ret (Some (vaddr pml4 pdpt (pde + 1) 0), s))))"

definition next_pdpt :: "'a pg_alloc \<Rightarrow> alloc3 \<Rightarrow> nat \<Rightarrow> nat \<Rightarrow> 'a paged_scheme \<Rightarrow> (addr option \<times> 'a paged_scheme) run" where
  "next_pdpt kpalloc a pml4 pdpt s =
     bindR (new_table kpalloc s) (\<lambda>(M, s).
     bindR (new_table kpalloc s) (\<lambda>(M2, s).
     bindR (link_pdpt pml4 (pdpt + 1) M (a_magic2 a) s) (\<lambda>s.
     bindR (V2P M2 s) (\<lambda>(f2, s).
     bindR (store_virt M (f2 OR a_magic2 a) s) (\<lambda>s.
     bindR (store_virt M2 (a_leaf a) s) (\<lambda>s.
       ret (Some (vaddr pml4 (pdpt + 1) 0 0), s)))))))"

definition next_pml4 :: "'a pg_alloc \<Rightarrow> alloc3 \<Rightarrow> nat \<Rightarrow> 'a paged_scheme \<Rightarrow> (addr option \<times> 'a paged_scheme) run" where
  "next_pml4 kpalloc a pml4 s =
     bindR (new_table kpalloc s) (\<lambda>(M, s).
     bindR (new_table kpalloc s) (\<lambda>(M2, s).
     bindR (new_table kpalloc s) (\<lambda>(M3, s).
     bindR (link_pml4 (pml4 + 1) M (a_magic2 a) s) (\<lambda>s.
     bindR (V2P M2 s) (\<lambda>(f2, s).
     bindR (store_virt M (f2 OR a_magic2 a) s) (\<lambda>s.
     bindR (V2P M3 s) (\<lambda>(f3, s).
     bindR (store_virt M2 (f3 OR a_magic2 a) s) (\<lambda>s.
     bindR (store_virt M3 (a_leaf a) s) (\<lambda>s.
       ret (Some (vaddr (pml4 + 1) 0 0 0), s))))))))))"

fun pde_loop :: "'a pg_alloc \<Rightarrow> alloc3 \<Rightarrow> nat \<Rightarrow> nat \<Rightarrow> nat \<Rightarrow> nat \<Rightarrow> 'a paged_scheme \<Rightarrow> (addr option \<times> 'a paged_scheme) run" where
  "pde_loop kpalloc a pml4 pdpt pde 0 s = ret (None, s)"
| "pde_loop kpalloc a pml4 pdpt pde (Suc n) s =
     bindR (make_pde kpalloc (a_magic a) pml4 pdpt pde s) (\<lambda>s.
     bindR (pt_loop pml4 pdpt pde 0 512 s) (\<lambda>(r, s).
     case r of
       Some pt \<Rightarrow> bindR (get_pdeVP pml4 pdpt pde s) (\<lambda>s. ret (Some (vaddr pml4 pdpt pde pt), put_window pt (a_leaf a) s))
     | None \<Rightarrow>
         if pde < 511 then
           bindR (get_pdeV pml4 pdpt (pde + 1) s) (\<lambda>(e, s).
             if e AND 1 = 0 then next_pde kpalloc a pml4 pdpt pde s
             else pde_loop kpalloc a pml4 pdpt (pde + 1) n s)
         else if pdpt < 511 then
           bindR (get_pdptV pml4 (pdpt + 1) s) (\<lambda>(e, s).
             if e AND 1 = 0 then next_pdpt kpalloc a pml4 pdpt s
             else pde_loop kpalloc a pml4 pdpt (pde + 1) n s)
         else if pml4 < a_top a then
           (if get_pml4V (pml4 + 1) s AND 1 = 0 then next_pml4 kpalloc a pml4 s
            else pde_loop kpalloc a pml4 pdpt (pde + 1) n s)
         else stop (ERROR ERR_PAGE_NOFREESPACE 0)))"

fun pdpt_loop :: "'a pg_alloc \<Rightarrow> alloc3 \<Rightarrow> nat \<Rightarrow> nat \<Rightarrow> nat \<Rightarrow> 'a paged_scheme \<Rightarrow> (addr option \<times> 'a paged_scheme) run" where
  "pdpt_loop kpalloc a pml4 pdpt 0 s = ret (None, s)"
| "pdpt_loop kpalloc a pml4 pdpt (Suc n) s =
     bindR (make_pdpt kpalloc (a_magic a) pml4 pdpt s) (\<lambda>s.
     bindR (pde_loop kpalloc a pml4 pdpt 0 512 s) (\<lambda>(r, s).
     case r of Some v \<Rightarrow> ret (Some v, s) | None \<Rightarrow> pdpt_loop kpalloc a pml4 (pdpt + 1) n s))"

fun pml4_loop :: "'a pg_alloc \<Rightarrow> alloc3 \<Rightarrow> nat \<Rightarrow> nat \<Rightarrow> 'a paged_scheme \<Rightarrow> (addr option \<times> 'a paged_scheme) run" where
  "pml4_loop kpalloc a pml4 0 s = ret (None, s)"
| "pml4_loop kpalloc a pml4 (Suc n) s =
     bindR (make_pml4 kpalloc (a_magic a) pml4 s) (\<lambda>s.
     bindR (pdpt_loop kpalloc a pml4 0 512 s) (\<lambda>(r, s).
     case r of Some v \<Rightarrow> ret (Some v, s) | None \<Rightarrow> pml4_loop kpalloc a (pml4 + 1) n s))"

definition alloc3_result :: "addr option \<times> 'a paged_scheme \<Rightarrow> (addr \<times> 'a paged_scheme) run" where
  "alloc3_result r = (case fst r of Some v \<Rightarrow> ret (v, snd r) | None \<Rightarrow> stop (ERROR ERR_PAGE_ALLOC_SHOULDNOTEXIST 0))"

definition UP_ALLOC3 :: "'a pg_alloc \<Rightarrow> u8 \<Rightarrow> 'a paged_scheme \<Rightarrow> (addr \<times> 'a paged_scheme) run" where
  "UP_ALLOC3 kpalloc FLAGS s =
     bindR (new_frame kpalloc s) (\<lambda>(ad, s).
     bindR (pml4_loop kpalloc \<lparr>a_magic = 0x7, a_magic2 = 0x27, a_leaf = 0x1000 * ad OR 0x5 OR ucast FLAGS, a_top = 0\<rparr> 0 1 s)
       alloc3_result)"

text \<open>While \<open>PA_CALLING\<close> is set, \<open>KPALLOC\<close> does not refill the pool: the calls inside \<open>KP_ALLOC3\<close> do not come back to it.\<close>

definition KP_ALLOC3_run :: "'a paged_scheme \<Rightarrow> (addr \<times> 'a paged_scheme) run" where
  "KP_ALLOC3_run s =
     (let kpalloc = KPALLOC no_more_pages; s = s\<lparr>PA_CALLING := 1\<rparr> in
      bindR (new_frame kpalloc s) (\<lambda>(ad, s).
      bindR (pml4_loop kpalloc \<lparr>a_magic = 0x1, a_magic2 = 0x23, a_leaf = 0x1000 * ad OR 0x1, a_top = 511\<rparr> 1 511 s) (\<lambda>r.
      bindR (alloc3_result r) (\<lambda>(v, s). ret (v, s\<lparr>PA_CALLING := 0\<rparr>)))))"

text \<open>For \<open>KPALLOC\<close> an allocation that does not end is one that does not return.\<close>

definition KP_ALLOC3 :: "'a pg_alloc" where
  "KP_ALLOC3 s = (case KP_ALLOC3_run s of None \<Rightarrow> Inl FAULT | Some r \<Rightarrow> r)"

subsection \<open>Giving pages back\<close>

definition P_FREE :: "'a pg_alloc \<Rightarrow> addr \<Rightarrow> 'a paged_scheme \<Rightarrow> 'a paged_scheme run" where
  "P_FREE kpalloc v_add s =
     (let pt = pt_ix v_add; pde = pde_ix v_add; pdpt = pdpt_ix v_add; pml4 = pml4_ix v_add in
      bindR (V2P v_add s) (\<lambda>(f, s).
      bindR (PL_SV kpalloc (drop_bit 12 f) 0 s) (\<lambda>s.
      bindR (get_pdeVP pml4 pdpt pde s) (\<lambda>s.
        ret (put_window pt 0 s)))))"

fun P_FREE_loop :: "'a pg_alloc \<Rightarrow> addr \<Rightarrow> nat \<Rightarrow> 'a paged_scheme \<Rightarrow> 'a paged_scheme run" where
  "P_FREE_loop kpalloc v 0 s = ret s"
| "P_FREE_loop kpalloc v (Suc n) s = bindR (P_FREE kpalloc v s) (P_FREE_loop kpalloc (v + 0x1000) n)"

definition P_FREE_pages :: "'a pg_alloc \<Rightarrow> addr \<Rightarrow> u64 \<Rightarrow> 'a paged_scheme \<Rightarrow> 'a paged_scheme run" where
  "P_FREE_pages kpalloc v_add l s =
     bindR (check (\<not> sint l < 1) (ERROR ERR_AL_NOP_FREE l)) (\<lambda>_. P_FREE_loop kpalloc v_add (nat (sint l)) s)"

text \<open>
  \<open>U_PFREEALL\<close> gives all of a program back. A call like \<open>P_FREE(get_pdeVP(..))\<close> moves the window and then
  frees the address it is at, \<open>MBASE+0x1c000\<close>.
\<close>

definition window_page :: addr where "window_page = MBASE + 0x1c000"

fun U_PFREEALL_pts :: "'a pg_alloc \<Rightarrow> nat \<Rightarrow> nat \<Rightarrow> nat \<Rightarrow> nat \<Rightarrow> 'a paged_scheme \<Rightarrow> 'a paged_scheme run" where
  "U_PFREEALL_pts kpalloc pdpt pde pt 0 s = ret s"
| "U_PFREEALL_pts kpalloc pdpt pde pt (Suc n) s =
     bindR (P_FREE kpalloc (vaddr 0 pdpt pde pt) s) (U_PFREEALL_pts kpalloc pdpt pde (Suc pt) n)"

fun U_PFREEALL_pdes :: "'a pg_alloc \<Rightarrow> nat \<Rightarrow> nat \<Rightarrow> nat \<Rightarrow> 'a paged_scheme \<Rightarrow> 'a paged_scheme run" where
  "U_PFREEALL_pdes kpalloc pdpt pde 0 s = ret s"
| "U_PFREEALL_pdes kpalloc pdpt pde (Suc n) s =
     bindR (get_pdeV 0 pdpt pde s) (\<lambda>(e, s).
     bindR (if e AND 1 \<noteq> 0 then U_PFREEALL_pts kpalloc pdpt pde 0 512 s else ret s) (\<lambda>s.
     bindR (get_pdeVP 0 pdpt pde s) (\<lambda>s.
     bindR (P_FREE kpalloc window_page s) (\<lambda>s.
     bindR (get_pdptVP 0 pdpt s) (\<lambda>s.
       U_PFREEALL_pdes kpalloc pdpt (Suc pde) n (put_window pde 0 s))))))"

fun U_PFREEALL_pdpts :: "'a pg_alloc \<Rightarrow> nat list \<Rightarrow> 'a paged_scheme \<Rightarrow> 'a paged_scheme run" where
  "U_PFREEALL_pdpts kpalloc [] s = ret s"
| "U_PFREEALL_pdpts kpalloc (pdpt # is) s =
     bindR (get_pdptV 0 pdpt s) (\<lambda>(e, s).
     bindR (if e AND 1 \<noteq> 0 then U_PFREEALL_pdes kpalloc pdpt 0 512 s else ret s) (\<lambda>s.
     bindR (get_pdptVP 0 pdpt s) (\<lambda>s.
     bindR (P_FREE kpalloc window_page s) (\<lambda>s.
     bindR (get_pml4VP 0 s) (\<lambda>s.
       U_PFREEALL_pdpts kpalloc is (put_window pdpt 0 s))))))"

definition U_PFREEALL :: "'a pg_alloc \<Rightarrow> 'a paged_scheme \<Rightarrow> 'a paged_scheme run" where
  "U_PFREEALL kpalloc s =
     bindR (check (my_brk s \<noteq> 0) (Prelude.PF 8)) (\<lambda>_.
       let b = brks s (my_brk s)
       in U_PFREEALL_pdpts kpalloc [pdpt_ix (brk_start b)..<pdpt_ix (brk_end b) + 1] s)"

subsection \<open>Setting up\<close>

text \<open>The bitmap entries 0 to 511, quad by quad; no page of the bitmap beyond the first is needed.\<close>

definition P_ALLOC3_SETUP :: "'a paged_scheme \<Rightarrow> 'a paged_scheme run" where
  "P_ALLOC3_SETUP s =
     (let s = s\<lparr>PA_CALLING := 0\<rparr>;
          s = memfill_page PL_MAP_START (memfill_page (MBASE + 0x17000) (memfill_page POOL s))
      in bindR (fold (\<lambda>i m. bindR m (PL_SV (KPALLOC KP_ALLOC3) (of_nat i) 1)) [0..<512] (ret s)) (\<lambda>s.
         let s = stq (slot 501) (MBASE + 0x19000) s;
             s = stq (slot 502) (MBASE + 0x1A000) s;
             s = stq (slot 503) (MBASE + 0x1E000) s;
             s = stq (slot 500) (MBASE + 0x1F000) s
         in bindR (lift (KPALLOC KP_ALLOC3 s)) (\<lambda>(p, s).
              ret (put_quad (quad (phys (MBASE + 0x10000)) 0) 0 (stq (slot 511) p s)))))"

end
