(* ===== verification/Translation.thy ===== *)
theory Translation
  imports Paging
begin

section \<open>The tables as a tree, the bitmap as a set\<close>

text \<open>
  Lemmas on \<open>Paging\<close>: what a change of one table entry does to the walks of the processor, what the
  window shows, and which frames the bitmap counts as used.
\<close>

subsection \<open>Quads of a table\<close>

lemma frame_aligned [simp]: "page_aligned (e AND NOT 0xFFF)" "page_aligned (e AND - 4096)"
proof -
  show "page_aligned (e AND NOT 0xFFF)" by (simp add: page_aligned_def and.assoc)
  then show "page_aligned (e AND - 4096)" by simp
qed

lemma PML4_FRAME_aligned [simp]: "page_aligned PML4_FRAME"
  by (simp add: page_aligned_def PML4_FRAME_def)

lemma quad_page: "page_aligned f \<Longrightarrow> i < 512 \<Longrightarrow> page_of (quad f i) = f"
  unfolding quad_def
  by (rule page_of_offset) (simp_all add: word_less_nat_alt unat_word_ariths unat_of_nat_small)

lemma quad_eq_iff:
  assumes "page_aligned f" "page_aligned g" "i < 512" "j < 512"
  shows "quad f i = quad g j \<longleftrightarrow> f = g \<and> i = j"
proof
  assume q: "quad f i = quad g j"
  then have "f = g" using quad_page assms by metis
  moreover have "unat (8 * of_nat k :: addr) = 8 * k" if "k < 512" for k
    using that by (simp add: unat_word_ariths unat_of_nat_small)
  ultimately show "f = g \<and> i = j" using q assms(3,4) unfolding quad_def
    by (metis add_left_cancel mult_left_cancel zero_neq_numeral)
qed simp

lemma quad_in_page: "page_aligned f \<Longrightarrow> page_aligned g \<Longrightarrow> i < 512 \<Longrightarrow> quad f i - g < 0x1000 \<longleftrightarrow> f = g"
  using page_of_iff[of g "quad f i"] quad_page[of f i] by auto

subsection \<open>Walks\<close>

definition ixs :: "nat list \<Rightarrow> bool" where
  "ixs p \<longleftrightarrow> (\<forall>i \<in> set p. i < 512)"

lemma ixs_simps [simp]: "ixs []" "ixs (i # p) \<longleftrightarrow> i < 512 \<and> ixs p" "ixs (p @ q) \<longleftrightarrow> ixs p \<and> ixs q"
  by (auto simp: ixs_def)

abbreviation walk_to :: "(addr \<Rightarrow> u64) \<Rightarrow> nat list \<Rightarrow> addr option" where
  "walk_to T p \<equiv> table_at T PML4_FRAME p"

lemma table_at_append: "table_at T f (p @ q) = Option.bind (table_at T f p) (\<lambda>g. table_at T g q)"
  by (induction p arbitrary: f) simp_all

lemma table_at_snoc:
  "table_at T f (p @ [i]) = (case table_at T f p of None \<Rightarrow> None
     | Some g \<Rightarrow> if T (quad g i) AND 1 = 0 then None else Some (T (quad g i) AND NOT 0xFFF))"
  by (cases "table_at T f p") (simp_all add: table_at_append)

lemma table_at_aligned: "table_at T f p = Some g \<Longrightarrow> page_aligned f \<Longrightarrow> page_aligned g"
  by (induction p arbitrary: f) (auto split: if_splits)

declare table_at.simps(2) [simp del]

lemma walk_aligned: "walk_to T p = Some g \<Longrightarrow> page_aligned g"
  by (rule table_at_aligned[OF _ PML4_FRAME_aligned])

lemma walk_prefix: "walk_to T (p @ q) \<noteq> None \<Longrightarrow> walk_to T p \<noteq> None"
  by (cases "walk_to T p") (simp_all add: table_at_append)

text \<open>
  A tree: no table is reached in two ways. The table of the first two megabytes of the kernel is at its
  fixed place.
\<close>

definition LOW_TABLE :: addr where "LOW_TABLE = 0x33000"

definition tree_ok :: "(addr \<Rightarrow> u64) \<Rightarrow> bool" where
  "tree_ok T \<longleftrightarrow> walk_to T [1, 0, 0] = Some LOW_TABLE \<and>
     (\<forall>p q f. length p \<le> 3 \<longrightarrow> length q \<le> 3 \<longrightarrow> ixs p \<longrightarrow> ixs q \<longrightarrow> walk_to T p = Some f \<longrightarrow> walk_to T q = Some f \<longrightarrow> p = q)"

lemma tree_low: "tree_ok T \<Longrightarrow> walk_to T [1, 0, 0] = Some LOW_TABLE"
  by (simp add: tree_ok_def)

lemma tree_inj: "tree_ok T \<Longrightarrow> walk_to T p = Some f \<Longrightarrow> walk_to T q = Some f \<Longrightarrow>
    length p \<le> 3 \<Longrightarrow> length q \<le> 3 \<Longrightarrow> ixs p \<Longrightarrow> ixs q \<Longrightarrow> p = q"
  by (simp add: tree_ok_def)

lemma tree_cong: "(\<And>q. ixs q \<Longrightarrow> length q \<le> 3 \<Longrightarrow> walk_to T' q = walk_to T q) \<Longrightarrow> tree_ok T' = tree_ok T"
  unfolding tree_ok_def by auto

text \<open>Walks that read the same entries lead to the same place.\<close>

lemma walk_cong:
  assumes "\<And>p g i. walk_to T p = Some g \<Longrightarrow> prefix (p @ [i]) q \<Longrightarrow> T' (quad g i) = T (quad g i)"
  shows "walk_to T' q = walk_to T q"
  using assms
proof (induction q rule: rev_induct)
  case (snoc i q)
  have ih: "walk_to T' q = walk_to T q" by (rule snoc.IH) (use snoc.prems in auto)
  show ?case
  proof (cases "walk_to T q")
    case (Some g)
    then have "T' (quad g i) = T (quad g i)" using snoc.prems[of q g i] by simp
    then show ?thesis using ih Some by (simp add: table_at_snoc)
  qed (simp add: ih table_at_snoc)
qed simp

text \<open>One entry of one table is changed: only walks through this entry are.\<close>

lemma walk_update_other:
  assumes T: "tree_ok T" and p: "walk_to T p = Some f" "length p \<le> 3" "ixs p" "i < 512"
    and q: "ixs q" "length q \<le> 4" "\<not> prefix (p @ [i]) q"
  shows "walk_to (T(quad f i := e)) q = walk_to T q"
proof (rule walk_cong)
  fix r g j assume r: "walk_to T r = Some g" "prefix (r @ [j]) q"
  have rq: "ixs r" "j < 512" "length r \<le> 3" using r(2) q(1,2) by (auto simp: prefix_def)
  have "quad g j \<noteq> quad f i"
  proof
    assume "quad g j = quad f i"
    then have "g = f" "j = i" using quad_eq_iff[OF walk_aligned[OF r(1)] walk_aligned[OF p(1)] rq(2) p(4)] by simp_all
    then have "r = p" using tree_inj[OF T r(1)] p rq by simp
    then show False using r(2) q(3) \<open>j = i\<close> by simp
  qed
  then show "(T(quad f i := e)) (quad g j) = T (quad g j)" by simp
qed

lemma walk_update_at:
  assumes T: "tree_ok T" and p: "walk_to T p = Some f" "length p \<le> 3" "ixs p" "i < 512"
  shows "walk_to (T(quad f i := e)) (p @ i # r) =
    (if e AND 1 = 0 then None else table_at (T(quad f i := e)) (e AND NOT 0xFFF) r)"
proof -
  have "walk_to (T(quad f i := e)) p = Some f"
    using walk_update_other[OF T p, of p e] p by simp
  then show ?thesis by (simp add: table_at_append table_at.simps)
qed

text \<open>Clearing a frame that is no table.\<close>

lemma walk_clear:
  assumes F: "page_aligned F" "\<And>r. length r \<le> 3 \<Longrightarrow> ixs r \<Longrightarrow> walk_to T r \<noteq> Some F" and q: "ixs q" "length q \<le> 4"
  shows "walk_to (\<lambda>a. if a - F < 0x1000 then 0 else T a) q = walk_to T q"
proof (rule walk_cong)
  fix r g j assume r: "walk_to T r = Some g" "prefix (r @ [j]) q"
  have rq: "ixs r" "j < 512" "length r \<le> 3" using r(2) q by (auto simp: prefix_def)
  have "g \<noteq> F" using F(2)[of r] r(1) rq by auto
  then have "\<not> quad g j - F < 0x1000" using quad_in_page[OF walk_aligned[OF r(1)] F(1) rq(2)] by simp
  then show "(if quad g j - F < 0x1000 then 0 else T (quad g j)) = T (quad g j)" by simp
qed

lemma tree_clear:
  assumes F: "page_aligned F" "\<And>r. length r \<le> 3 \<Longrightarrow> ixs r \<Longrightarrow> walk_to T r \<noteq> Some F" and T: "tree_ok T"
  shows "tree_ok (\<lambda>a. if a - F < 0x1000 then 0 else T a)"
  using T tree_cong[OF walk_clear[OF F]] by simp

text \<open>An empty frame that is no table becomes one, at an entry that was absent.\<close>

definition link_table :: "(addr \<Rightarrow> u64) \<Rightarrow> addr \<Rightarrow> nat \<Rightarrow> u64 \<Rightarrow> addr \<Rightarrow> u64" where
  "link_table T f i e = T(quad f i := e)"

lemma walk_link_table:
  assumes T: "tree_ok T" and p: "walk_to T p = Some f" "length p \<le> 2" "ixs p" "i < 512" "T (quad f i) AND 1 = 0"
    and e: "e AND 1 \<noteq> 0" "e AND NOT 0xFFF = F" and F: "F \<noteq> f" "\<And>j. j < 512 \<Longrightarrow> T (quad F j) = 0"
    and q: "ixs q" "length q \<le> 4"
  shows "walk_to (link_table T f i e) q = (if q = p @ [i] then Some F else walk_to T q)"
proof (cases "prefix (p @ [i]) q")
  case False
  then show ?thesis using walk_update_other[OF T p(1) _ p(3,4) q False] p(2) by (auto simp: link_table_def)
next
  case True
  then obtain r where r: "q = p @ i # r" by (auto simp: prefix_def)
  have n: "walk_to T q = None" using p(1,5) by (simp add: r table_at_append table_at.simps)
  have w: "walk_to (link_table T f i e) q = table_at (link_table T f i e) F r"
    using walk_update_at[OF T p(1) _ p(3,4), of e r] p(2) e unfolding r link_table_def by simp
  show ?thesis
  proof (cases r)
    case Nil
    then show ?thesis using w r by simp
  next
    case (Cons j r')
    have "j < 512" using q(1) r Cons by simp
    moreover have "page_aligned F" using e(2) frame_aligned(1)[of e] by simp
    ultimately have "quad F j \<noteq> quad f i" using quad_eq_iff[of F f j i] walk_aligned[OF p(1)] p(4) F(1) by simp
    then have "link_table T f i e (quad F j) = 0" using F(2) \<open>j < 512\<close> by (simp add: link_table_def)
    then show ?thesis using w r Cons n by (simp add: table_at.simps)
  qed
qed

lemma tree_link_table:
  assumes T: "tree_ok T" and p: "walk_to T p = Some f" "length p \<le> 2" "ixs p" "i < 512" "T (quad f i) AND 1 = 0"
    and e: "e AND 1 \<noteq> 0" "e AND NOT 0xFFF = F" and F: "\<And>j. j < 512 \<Longrightarrow> T (quad F j) = 0"
    and nF: "\<And>r. length r \<le> 3 \<Longrightarrow> ixs r \<Longrightarrow> walk_to T r \<noteq> Some F"
  shows "tree_ok (link_table T f i e)"
proof -
  have Ff: "F \<noteq> f" using nF[of p] p by auto
  note w = walk_link_table[OF T p e Ff F]
  have ne: "p @ [i] \<noteq> [1, 0, 0]"
  proof
    assume pi: "p @ [i] = [1, 0, 0]"
    have "walk_to T (p @ [i]) \<noteq> None" unfolding pi using tree_low[OF T] by simp
    then show False using p(1,5) by (simp add: table_at_snoc)
  qed
  show ?thesis unfolding tree_ok_def
  proof (intro conjI allI impI)
    show "walk_to (link_table T f i e) [1, 0, 0] = Some LOW_TABLE" using w[of "[1, 0, 0]"] ne tree_low[OF T] by (auto split: if_splits)
    fix q r g assume a: "length q \<le> 3" "length r \<le> 3" "ixs q" "ixs r"
      "walk_to (link_table T f i e) q = Some g" "walk_to (link_table T f i e) r = Some g"
    then show "q = r" using w[of q] w[of r] nF[of q] nF[of r] tree_inj[OF T, of q g r] by (auto split: if_splits)
  qed
qed

subsection \<open>The window\<close>

lemma window_consts: "window_entry = quad LOW_TABLE 60" "phys (MBASE + 0x10000) = PML4_FRAME"
  "phys (MBASE + 0x13000) = LOW_TABLE"
  by (simp_all add: window_entry_def phys_def window_offset_def MBASE_def CBASE_def quad_def LOW_TABLE_def PML4_FRAME_def)

definition window_path :: "nat list" where "window_path = [1, 0, 0, 60]"

definition set_window :: "u64 \<Rightarrow> 'a paged_scheme \<Rightarrow> 'a paged_scheme" where
  "set_window AD s = put_quad window_entry (AD OR 3) s"

lemma manualptVlookup_eq: "manualptVlookup AD s = ret (set_window AD s)"
  by (simp add: manualptVlookup_def set_window_def window_offset_def MBASE_def CBASE_def)

lemma put_quad_fields [simp]:
  "ptab (put_quad a v s) = (ptab s)(a := v)" "mem (put_quad a v s) = mem s" "PA_CALLING (put_quad a v s) = PA_CALLING s"
  "ldq (put_quad a v s) = ldq s"
  by (simp_all add: put_quad_def ldq_def fun_eq_iff)

text \<open>Moving the window changes no table.\<close>

lemma walk_window:
  assumes "tree_ok T" "ixs q" "length q \<le> 4" "q \<noteq> window_path"
  shows "walk_to (T(window_entry := x)) q = walk_to T q"
proof -
  have "\<not> prefix ([1, 0, 0] @ [60]) q" using assms(3,4) by (auto simp: prefix_def window_path_def)
  then show ?thesis unfolding window_consts using walk_update_other[OF assms(1) tree_low[OF assms(1)], of 60 q x] assms(2,3) by simp
qed

lemma tree_window: "tree_ok T \<Longrightarrow> tree_ok (T(window_entry := x)) = tree_ok T"
  by (rule tree_cong) (auto intro!: walk_window simp: window_path_def)

text \<open>A quad of a table is not the window's own entry, unless it is that of the low table.\<close>

lemma quad_not_window:
  assumes "tree_ok T" "walk_to T p = Some f" "ixs p" "i < 512" "length p \<le> 3" "p @ [i] \<noteq> window_path"
  shows "quad f i \<noteq> window_entry"
proof
  assume "quad f i = window_entry"
  then have "f = LOW_TABLE" "i = 60"
    using quad_eq_iff[OF walk_aligned[OF assms(2)] walk_aligned[OF tree_low[OF assms(1)]] assms(4), of 60] by (simp_all add: window_consts)
  then have "p = [1, 0, 0]" using tree_inj[OF assms(1,2), of "[1, 0, 0]"] tree_low[OF assms(1)] assms(3,5) by simp
  then show False using assms(6) \<open>i = 60\<close> by (simp add: window_path_def)
qed

text \<open>What the functions that look at an entry return, and that they leave the window on its table.\<close>

lemma window_after [simp]: "page_aligned f \<Longrightarrow> window i (set_window f s) = quad f i"
proof -
  assume a: "page_aligned f"
  have "(f OR 3) AND NOT 0xFFF = (f AND NOT 0xFFF) OR (3 AND NOT 0xFFF)" by (simp only: bit.conj_disj_distrib2)
  also have "\<dots> = f" using page_of_self[OF a] by (simp add: page_of_def)
  finally show ?thesis by (simp add: window_def set_window_def)
qed

lemma set_window_fields [simp]:
  "ptab (set_window f s) = (ptab s)(window_entry := f OR 3)" "mem (set_window f s) = mem s" "ldq (set_window f s) = ldq s"
  "PA_CALLING (set_window f s) = PA_CALLING s" "set_window f (set_window g s) = set_window f s"
  by (simp_all add: set_window_def put_quad_def ldq_def fun_eq_iff)

lemma walk_1: "walk_to T [i] = Some f \<Longrightarrow> f = T (quad PML4_FRAME i) AND NOT 0xFFF \<and> T (quad PML4_FRAME i) AND 1 \<noteq> 0"
  by (auto simp: table_at.simps split: if_splits)

lemma walk_step: "walk_to T (p @ [i]) = Some f \<Longrightarrow> \<exists>g. walk_to T p = Some g \<and> f = T (quad g i) AND NOT 0xFFF \<and> T (quad g i) AND 1 \<noteq> 0"
  by (auto simp: table_at_snoc split: option.splits if_splits)

lemma get_pdptV_ret:
  assumes T: "tree_ok (ptab s)" and w: "walk_to (ptab s) [i4] = Some f" and i: "i4 < 512" "i3 < 512"
  shows "get_pdptV i4 i3 s = ret (ptab s (quad f i3), set_window f s)" "get_pml4VP i4 s = ret (set_window f s)"
proof -
  have f: "get_pml4V i4 s AND NOT 0xFFF = f" using walk_1[OF w] by (simp add: get_pml4V_def window_consts)
  have "quad f i3 \<noteq> window_entry" by (rule quad_not_window[OF T w]) (use i in \<open>simp_all add: window_path_def\<close>)
  then show "get_pdptV i4 i3 s = ret (ptab s (quad f i3), set_window f s)"
    using walk_aligned[OF w] unfolding get_pdptV_def f manualptVlookup_eq by simp
  show "get_pml4VP i4 s = ret (set_window f s)" unfolding get_pml4VP_def f manualptVlookup_eq by simp
qed

lemma get_pdeV_ret:
  assumes T: "tree_ok (ptab s)" and w: "walk_to (ptab s) [i4, i3] = Some f" and i: "i4 < 512" "i3 < 512" "i2 < 512"
  shows "get_pdeV i4 i3 i2 s = ret (ptab s (quad f i2), set_window f s)" "get_pdptVP i4 i3 s = ret (set_window f s)"
proof -
  obtain g where g: "walk_to (ptab s) [i4] = Some g" "f = ptab s (quad g i3) AND NOT 0xFFF" using walk_step[of _ "[i4]" i3 f] w by auto
  note r = get_pdptV_ret(1)[OF T g(1) i(1,2)]
  have "quad f i2 \<noteq> window_entry" by (rule quad_not_window[OF T w]) (use i in \<open>simp_all add: window_path_def\<close>)
  then show "get_pdeV i4 i3 i2 s = ret (ptab s (quad f i2), set_window f s)"
    using walk_aligned[OF w] unfolding get_pdeV_def r bindR_simps prod.case g(2)[symmetric] manualptVlookup_eq by simp
  show "get_pdptVP i4 i3 s = ret (set_window f s)"
    unfolding get_pdptVP_def r bindR_simps prod.case g(2)[symmetric] manualptVlookup_eq by simp
qed

lemma get_ptV_ret:
  assumes T: "tree_ok (ptab s)" and w: "walk_to (ptab s) [i4, i3, i2] = Some f" and i: "i4 < 512" "i3 < 512" "i2 < 512" "i1 < 512"
  shows "get_ptV i4 i3 i2 i1 s = ret (if [i4, i3, i2, i1] = window_path then f OR 3 else ptab s (quad f i1), set_window f s)"
    "get_pdeVP i4 i3 i2 s = ret (set_window f s)"
proof -
  obtain g where g: "walk_to (ptab s) [i4, i3] = Some g" "f = ptab s (quad g i2) AND NOT 0xFFF" using walk_step[of _ "[i4, i3]" i2 f] w by auto
  note r = get_pdeV_ret(1)[OF T g(1) i(1-3)]
  have "quad f i1 = window_entry \<longleftrightarrow> [i4, i3, i2, i1] = window_path"
  proof
    assume "[i4, i3, i2, i1] = window_path"
    then show "quad f i1 = window_entry" using w tree_low[OF T] by (simp add: window_consts window_path_def)
  next
    assume "quad f i1 = window_entry"
    then show "[i4, i3, i2, i1] = window_path" using quad_not_window[OF T w _ i(4)] i by auto
  qed
  then show "get_ptV i4 i3 i2 i1 s = ret (if [i4, i3, i2, i1] = window_path then f OR 3 else ptab s (quad f i1), set_window f s)"
    using walk_aligned[OF w] unfolding get_ptV_def r bindR_simps prod.case g(2)[symmetric] manualptVlookup_eq by simp
  show "get_pdeVP i4 i3 i2 s = ret (set_window f s)"
    unfolding get_pdeVP_def r bindR_simps prod.case g(2)[symmetric] manualptVlookup_eq by simp
qed

subsection \<open>Addresses and their indices\<close>

lemma and_0x1FF: "unat (drop_bit n v AND 0x1FF) = unat (v :: u64) div 2 ^ n mod 512"
proof -
  have "drop_bit n v AND 0x1FF = take_bit 9 (drop_bit n v)" by (simp add: take_bit_eq_mask mask_eq_exp_minus_1)
  moreover have "unat (take_bit 9 (drop_bit n v)) = take_bit 9 (drop_bit n (unat v))"
    by (simp only: unsigned_take_bit_eq unat_drop_bit_eq)
  ultimately show ?thesis by (simp only: take_bit_eq_mod drop_bit_eq_div) simp
qed

lemma and_0xfff: "unat (v AND 0xfff :: u64) = unat v mod 4096"
proof -
  have "v AND 0xfff = take_bit 12 v" by (simp add: take_bit_eq_mask mask_eq_exp_minus_1)
  then show ?thesis by (simp only: unsigned_take_bit_eq) (simp add: take_bit_eq_mod)
qed

lemma page_aligned_unat: "page_aligned v \<longleftrightarrow> unat v mod 4096 = 0"
  unfolding page_aligned_def and_0xfff[symmetric] by (simp only: unat_eq_zero)

lemma ix_eq:
  "pt_ix v = unat v div 2 ^ 12 mod 512" "pde_ix v = unat v div 2 ^ 21 mod 512"
  "pdpt_ix v = unat v div 2 ^ 30 mod 512" "pml4_ix v = unat v div 2 ^ 39 mod 512"
proof -
  have d: "drop_bit 12 (0x1FF000 :: u64) = 0x1FF" "drop_bit 21 (0x3FE00000 :: u64) = 0x1FF"
    "drop_bit 30 (0x7FC0000000 :: u64) = 0x1FF" "drop_bit 39 (0xFF8000000000 :: u64) = 0x1FF" by simp_all
  show "pt_ix v = unat v div 2 ^ 12 mod 512" "pde_ix v = unat v div 2 ^ 21 mod 512"
    "pdpt_ix v = unat v div 2 ^ 30 mod 512" "pml4_ix v = unat v div 2 ^ 39 mod 512"
    unfolding pt_ix_def pde_ix_def pdpt_ix_def pml4_ix_def drop_bit_and d and_0x1FF by (rule refl)+
qed

lemma ix_less [simp]: "pt_ix v < 512" "pde_ix v < 512" "pdpt_ix v < 512" "pml4_ix v < 512"
  by (simp_all add: ix_eq)

lemma path_ixs [simp]: "ixs (path v)" "length (path v) = 4"
  by (simp_all add: path_def)

lemma unat_vaddr:
  assumes "i4 < 512" "i3 < 512" "i2 < 512" "i1 < 512"
  shows "unat (vaddr i4 i3 i2 i1) = i1 * 2 ^ 12 + i2 * 2 ^ 21 + i3 * 2 ^ 30 + i4 * 2 ^ 39"
proof -
  have "vaddr i4 i3 i2 i1 = of_nat (i1 * 2 ^ 12 + i2 * 2 ^ 21 + i3 * 2 ^ 30 + i4 * 2 ^ 39)"
    by (simp add: vaddr_def construct_virtual_address_def)
  moreover have "i1 * 2 ^ 12 + i2 * 2 ^ 21 + i3 * 2 ^ 30 + i4 * 2 ^ 39 < 2 ^ 64" using assms by simp
  ultimately show ?thesis by (simp only: unat_of_nat take_bit_eq_mod) simp
qed

lemma path_vaddr: 
  assumes "i4 < 512" "i3 < 512" "i2 < 512" "i1 < 512"
  shows "path (vaddr i4 i3 i2 i1) = [i4, i3, i2, i1]" "page_aligned (vaddr i4 i3 i2 i1)"
proof -
  let ?n = "i1 * 2 ^ 12 + i2 * 2 ^ 21 + i3 * 2 ^ 30 + i4 * 2 ^ 39"
  have "(i + 512 * j) mod 512 = i" if "i < 512" for i j :: nat using that by (simp only: mod_mult_self2 mod_less)
  note m = this[OF assms(4), of "i2 + 512 * (i3 + 512 * i4)"] this[OF assms(3), of "i3 + 512 * i4"] this[OF assms(2), of i4]
  have "?n div 2 ^ 12 = i1 + 512 * (i2 + 512 * (i3 + 512 * i4))" by simp
  with m(1) have "?n div 2 ^ 12 mod 512 = i1" by metis
  moreover have "?n div 2 ^ 21 = i2 + 512 * (i3 + 512 * i4)" using assms by simp
  with m(2) have "?n div 2 ^ 21 mod 512 = i2" by metis
  moreover have "?n div 2 ^ 30 = i3 + 512 * i4" using assms by simp
  with m(3) have "?n div 2 ^ 30 mod 512 = i3" by metis
  moreover have "?n div 2 ^ 39 = i4" using assms by simp
  then have "?n div 2 ^ 39 mod 512 = i4" using assms(1) by (metis mod_less)
  ultimately show "path (vaddr i4 i3 i2 i1) = [i4, i3, i2, i1]"
    unfolding path_def ix_eq unat_vaddr[OF assms] by metis
  show "page_aligned (vaddr i4 i3 i2 i1)" unfolding page_aligned_unat unat_vaddr[OF assms] by simp
qed

lemma path_inj:
  assumes "path v = path w" "unat v < 2 ^ 48" "unat w < 2 ^ 48" "page_aligned v" "page_aligned w"
  shows "v = w"
proof -
  have d: "unat x = 4096 * (unat x div 2 ^ 12 mod 512 + 512 * (unat x div 2 ^ 21 mod 512 + 512 * (unat x div 2 ^ 30 mod 512 + 512 * (unat x div 2 ^ 39 mod 512))))"
    if "unat x < 2 ^ 48" "page_aligned x" for x :: addr
  proof -
    let ?n = "unat x"
    have a: "?n = 4096 * (?n div 2 ^ 12)" using that(2) by (simp add: page_aligned_unat) (metis dvd_imp_mod_0 dvd_mult_div_cancel mod_0_imp_dvd)
    have e: "m div k = m div k mod 512 + 512 * (m div (k * 512))" for m k :: nat
      unfolding div_mult2_eq using mod_mult_div_eq[of "m div k" 512] by simp
    have "?n div 2 ^ 39 mod 512 = ?n div 2 ^ 39" using that(1) by simp
    note d = this
    have abs: "n = 4096 * a \<Longrightarrow> a = a' + 512 * b \<Longrightarrow> b = b' + 512 * c \<Longrightarrow> c = c' + 512 * d \<Longrightarrow> d' = d \<Longrightarrow>
        n = 4096 * (a' + 512 * (b' + 512 * (c' + 512 * d')))" for n a a' b b' c c' d d' :: nat by simp
    have "?n div 2 ^ 12 = ?n div 2 ^ 12 mod 512 + 512 * (?n div 2 ^ 21)" by (rule trans[OF e]) simp
    moreover have "?n div 2 ^ 21 = ?n div 2 ^ 21 mod 512 + 512 * (?n div 2 ^ 30)" by (rule trans[OF e]) simp
    moreover have "?n div 2 ^ 30 = ?n div 2 ^ 30 mod 512 + 512 * (?n div 2 ^ 39)" by (rule trans[OF e]) simp
    ultimately show ?thesis by (rule abs[OF a _ _ _ d])
  qed
  have "unat v div 2 ^ 12 mod 512 = unat w div 2 ^ 12 mod 512" "unat v div 2 ^ 21 mod 512 = unat w div 2 ^ 21 mod 512"
    "unat v div 2 ^ 30 mod 512 = unat w div 2 ^ 30 mod 512" "unat v div 2 ^ 39 mod 512 = unat w div 2 ^ 39 mod 512"
    using assms(1) unfolding path_def ix_eq by simp_all
  then have "unat v = unat w"
    by (intro trans[OF d[OF assms(2,4)] trans[OF _ d[OF assms(3,5), symmetric]]]) (simp only:)
  then show ?thesis by (rule word_unat_eq_iff[THEN iffD2])
qed

lemma V2P_pdpt_even: "even (pdpt_ix v) \<Longrightarrow> V2P_pdpt v = pdpt_ix v"
proof -
  assume e: "even (pdpt_ix v)"
  let ?w = "drop_bit 30 v"
  have p: "pdpt_ix v = unat (?w AND 0x1FF)" "V2P_pdpt v = unat (?w AND 0x1FE)" by (simp_all add: pdpt_ix_def V2P_pdpt_def drop_bit_and)
  have b: "\<not> bit ?w 0"
  proof -
    have "\<not> bit (unat (?w AND 0x1FF)) 0" using e p(1) by (simp only: bit_0) simp
    then have "\<not> bit (?w AND 0x1FF) 0" by (simp only: bit_unsigned_iff) simp
    then show ?thesis by (simp add: bit_simps)
  qed
  have w1: "?w AND 1 = 0" using b by (simp only: and_one_eq mod_2_eq_odd bit_0) simp
  have c: "(0x1FF :: u64) = 0x1FE OR 1" by simp
  have "?w AND 0x1FF = ?w AND 0x1FE" unfolding c bit.conj_disj_distrib w1 by (rule or.right_neutral)
  then show ?thesis using p by simp
qed

subsection \<open>The bitmap\<close>

text \<open>
  The quads of the first page of the bitmap. A quad is uniform if its bits from 31 on are equal, which
  is how the sign-extended masks leave them: bit 31 then stands for all of them, and the numbers
  \<open>i\<close> and \<open>i + 32\<close> of a quad share a bit.
\<close>

definition plq :: "'a paged_scheme \<Rightarrow> nat \<Rightarrow> u64" where
  "plq s j = ldq s (quad PL_MAP_START j)"

definition NFRAMES :: nat where "NFRAMES = 64 * 511"

definition uniform :: "'a paged_scheme \<Rightarrow> bool" where
  "uniform s \<longleftrightarrow> (\<forall>j < 511. \<forall>k. 31 \<le> k \<and> k < 64 \<longrightarrow> bit (plq s j) k = bit (plq s j) 31)"

definition taken :: "'a paged_scheme \<Rightarrow> nat \<Rightarrow> bool" where
  "taken s f \<longleftrightarrow> f < NFRAMES \<and> bit (plq s (f div 64)) (f mod 32)"

lemma bit_int_bit: "bit (int_bit n) k \<longleftrightarrow> k < 64 \<and> (if n mod 32 = 31 then 31 \<le> k else k = n mod 32)"
  by (simp add: int_bit_def bit_sx64_shl1)

lemma uniform_bit:
  assumes "uniform s" "j < 511" "m < 32"
  shows "plq s j AND int_bit m = 0 \<longleftrightarrow> \<not> bit (plq s j) m"
proof -
  have u: "bit (plq s j) k = bit (plq s j) 31" if "31 \<le> k" "k < 64" for k using assms(1,2) that unfolding uniform_def by blast
  have "plq s j AND int_bit m = 0 \<longleftrightarrow> (\<forall>k. \<not> (bit (plq s j) k \<and> bit (int_bit m) k))"
  proof
    assume e: "plq s j AND int_bit m = 0"
    have "bit (plq s j AND int_bit m) k = False" for k unfolding e by simp
    then show "\<forall>k. \<not> (bit (plq s j) k \<and> bit (int_bit m) k)" by (simp add: bit_and_iff)
  next
    assume a: "\<forall>k. \<not> (bit (plq s j) k \<and> bit (int_bit m) k)"
    show "plq s j AND int_bit m = 0" by (rule bit_word_eqI) (use a in \<open>simp add: bit_and_iff\<close>)
  qed
  also have "\<dots> \<longleftrightarrow> \<not> bit (plq s j) m"
  proof (cases "m = 31")
    case True
    have "(\<forall>k. \<not> (bit (plq s j) k \<and> bit (int_bit m) k)) \<longleftrightarrow> (\<forall>k. 31 \<le> k \<and> k < 64 \<longrightarrow> \<not> bit (plq s j) k)"
      using True by (auto simp: bit_int_bit)
    also have "\<dots> \<longleftrightarrow> \<not> bit (plq s j) 31"
    proof
      assume "\<forall>k. 31 \<le> k \<and> k < 64 \<longrightarrow> \<not> bit (plq s j) k"
      from spec[OF this, of 31] show "\<not> bit (plq s j) 31" by simp
    qed (use u in blast)
    finally show ?thesis using True by simp
  next
    case False
    then have b: "bit (int_bit m) k \<longleftrightarrow> k = m" for k using assms(3) by (auto simp: bit_int_bit)
    show ?thesis unfolding b by blast
  qed
  finally show ?thesis .
qed

lemma first_clear_ok:
  assumes "uniform s" "j < 511" "m + n = 32" "\<exists>k. m \<le> k \<and> k < 32 \<and> \<not> bit (plq s j) k"
  shows "\<exists>k. first_clear (plq s j) m n = Some k \<and> m \<le> k \<and> k < 32 \<and> \<not> bit (plq s j) k \<and> (\<forall>i. m \<le> i \<and> i < k \<longrightarrow> bit (plq s j) i)"
  using assms(3,4)
proof (induction n arbitrary: m)
  case (Suc n)
  then have m: "m < 32" by simp
  show ?case
  proof (cases "bit (plq s j) m")
    case False
    then have "plq s j AND int_bit m = 0" using uniform_bit[OF assms(1,2) m] by simp
    then show ?thesis using False m by (intro exI[of _ m]) auto
  next
    case True
    then have nz: "plq s j AND int_bit m \<noteq> 0" using uniform_bit[OF assms(1,2) m] by simp
    have "\<exists>k. m + 1 \<le> k \<and> k < 32 \<and> \<not> bit (plq s j) k"
    proof -
      obtain k where k: "m \<le> k" "k < 32" "\<not> bit (plq s j) k" using Suc.prems(2) by blast
      then have "k \<noteq> m" using True by auto
      then show ?thesis using k by (intro exI[of _ k]) simp
    qed
    from Suc.IH[of "m + 1", OF _ this] Suc.prems(1) obtain k where k: "first_clear (plq s j) (m + 1) n = Some k" "m + 1 \<le> k" "k < 32"
      "\<not> bit (plq s j) k" "\<forall>i. m + 1 \<le> i \<and> i < k \<longrightarrow> bit (plq s j) i" by auto
    have "bit (plq s j) i" if "m \<le> i" "i < k" for i using that k(5) True by (cases "i = m") auto
    then show ?thesis using k nz by (intro exI[of _ k]) simp
  qed
qed auto

text \<open>The loop over the bits computes what \<open>__builtin_ctzll\<close> of the complement does.\<close>

lemma ctz_eq: "k < 64 \<Longrightarrow> bit w k \<Longrightarrow> (\<And>i. i < k \<Longrightarrow> \<not> bit w i) \<Longrightarrow> ctz w = k"
proof -
  assume k: "k < 64" "bit w k" and low: "\<And>i. i < k \<Longrightarrow> \<not> bit w i"
  have "[0..<64] = [0..<k] @ [k..<64]" using k(1) upt_add_eq_append[of 0 k "64 - k"] by simp
  moreover have "[k..<64] = k # [Suc k..<64]" using k(1) by (simp add: upt_conv_Cons)
  moreover have "takeWhile (\<lambda>i. \<not> bit w i) ([0..<k] @ k # [Suc k..<64]) = [0..<k]"
    by (subst takeWhile_append2) (use k(2) low in auto)
  ultimately show ?thesis by (simp add: ctz_def)
qed

lemma not_full_clear:
  assumes "uniform s" "j < 511" "plq s j \<noteq> - 1"
  shows "\<exists>k < 32. \<not> bit (plq s j) k"
proof (rule ccontr)
  assume a: "\<not> (\<exists>k < 32. \<not> bit (plq s j) k)"
  have "bit (plq s j) k" if "k < 64" for k
  proof (cases "k < 32")
    case False
    then have "31 \<le> k" by simp
    then have "bit (plq s j) k = bit (plq s j) 31" using assms(1,2) that unfolding uniform_def by blast
    then show ?thesis using a by auto
  qed (use a in auto)
  then have "plq s j = - 1" by (intro bit_word_eqI) simp
  then show False using assms(3) by simp
qed

lemma PL_scan_Suc: "PL_scan s PL_MAP_START j (Suc n) = (if plq s j \<noteq> - 1 then Some j else PL_scan s PL_MAP_START (Suc j) n)"
  by (simp add: plq_def)

declare PL_scan.simps(2) [simp del]

lemma PL_scan_ok:
  assumes "j + n = 511"
  shows "case PL_scan s PL_MAP_START j n of
      None \<Rightarrow> \<forall>i. j \<le> i \<and> i < 511 \<longrightarrow> plq s i = - 1
    | Some k \<Rightarrow> j \<le> k \<and> k < 511 \<and> plq s k \<noteq> - 1 \<and> (\<forall>i. j \<le> i \<and> i < k \<longrightarrow> plq s i = - 1)"
  using assms
proof (induction n arbitrary: j)
  case (Suc n)
  from Suc.IH[of "Suc j"] Suc.prems
  have ih: "case PL_scan s PL_MAP_START (Suc j) n of
      None \<Rightarrow> \<forall>i. Suc j \<le> i \<and> i < 511 \<longrightarrow> plq s i = - 1
    | Some k \<Rightarrow> Suc j \<le> k \<and> k < 511 \<and> plq s k \<noteq> - 1 \<and> (\<forall>i. Suc j \<le> i \<and> i < k \<longrightarrow> plq s i = - 1)" by simp
  show ?case
  proof (cases "plq s j = - 1")
    case True
    have "plq s i = - 1" if "j \<le> i" "Suc j \<le> i \<longrightarrow> plq s i = - 1" for i
      using that True by (cases "i = j") auto
    note st = this
    have e: "PL_scan s PL_MAP_START j (Suc n) = PL_scan s PL_MAP_START (Suc j) n" using True by (simp add: PL_scan_Suc)
    show ?thesis
    proof (cases "PL_scan s PL_MAP_START (Suc j) n")
      case None
      with ih have "\<forall>i. Suc j \<le> i \<and> i < 511 \<longrightarrow> plq s i = - 1" by simp
      then have "\<forall>i. j \<le> i \<and> i < 511 \<longrightarrow> plq s i = - 1" using st by blast
      then show ?thesis unfolding e None by simp
    next
      case (Some k)
      with ih have k: "Suc j \<le> k \<and> k < 511 \<and> plq s k \<noteq> - 1 \<and> (\<forall>i. Suc j \<le> i \<and> i < k \<longrightarrow> plq s i = - 1)" by simp
      then have "\<forall>i. j \<le> i \<and> i < k \<longrightarrow> plq s i = - 1" using st by blast
      with k show ?thesis unfolding e Some by simp
    qed
  next
    case False
    then show ?thesis using Suc.prems by (auto simp: PL_scan_Suc)
  qed
qed auto

text \<open>
  \<open>PL_FN\<close> returns the first frame that is not used, as long as the first page of the bitmap has one.
\<close>

definition first_free :: "'a paged_scheme \<Rightarrow> nat \<Rightarrow> bool" where
  "first_free s f \<longleftrightarrow> f < NFRAMES \<and> f mod 64 < 32 \<and> \<not> taken s f \<and> (\<forall>g < f. g mod 64 < 32 \<longrightarrow> taken s g)"

lemma PL_FN_ret:
  assumes u: "uniform s" and f: "f < NFRAMES" "\<not> taken s f"
  shows "\<exists>g. PL_FN kpalloc s = ret (of_nat g, s) \<and> first_free s g"
proof -
  have fj: "f div 64 < 511" using f(1) by (simp add: NFRAMES_def)
  have "\<not> bit (plq s (f div 64)) (f mod 32)" using f by (simp add: taken_def)
  moreover have "bit (- 1 :: u64) (f mod 32)" by (simp only: bit_minus_1_iff possible_bit_word) simp
  ultimately have "plq s (f div 64) \<noteq> - 1" by metis
  then obtain j where j: "PL_scan s PL_MAP_START 0 511 = Some j" "j < 511" "plq s j \<noteq> - 1"
      "\<forall>i < j. plq s i = - 1"
    using PL_scan_ok[of 0 511 s] fj by (auto split: option.splits)
  obtain m where m: "first_clear (plq s j) 0 32 = Some m" "m < 32" "\<not> bit (plq s j) m" "\<forall>i < m. bit (plq s j) i"
    using first_clear_ok[OF u j(2), of 0 32] not_full_clear[OF u j(2,3)] by auto
  have "ctz (NOT (plq s j)) = m" by (rule ctz_eq) (use m(2,3,4) in \<open>auto simp: bit_not_iff\<close>)
  then have r: "PL_FN kpalloc s = ret (of_nat (64 * j + m), s)"
    using j(1) m(1) by (simp add: PL_FN_def PL_FN_from.simps plq_def Let_def)
  have d: "(64 * j + m) div 64 = j" "(64 * j + m) mod 64 = m" "(64 * j + m) mod 32 = m" using m(2) by simp_all
      (metis add.commute mod_less mod_mult_self1 mult.assoc mult.commute numeral_Bit0_eq_double)
  have "taken s g" if g: "g < 64 * j + m" "g mod 64 < 32" for g
  proof -
    have m32: "g mod 32 = g mod 64" using g(2) mod_mod_cancel[of 32 64 g] by simp
    have gN: "g < NFRAMES" using g(1) j(2) m(2) by (simp add: NFRAMES_def)
    show ?thesis
    proof (cases "g div 64 = j")
      case True
      then have "g mod 64 < m" using g(1) mult_div_mod_eq[of 64 g] by simp
      then show ?thesis using m(4) True gN m32 by (simp add: taken_def)
    next
      case False
      have "g div 64 < j" using False g(1) m(2) by (metis d(1) div_le_mono le_neq_implies_less less_imp_le)
      then have "plq s (g div 64) = - 1" using j(4) by simp
      then show ?thesis using gN g(2) by (simp add: taken_def m32)
    qed
  qed
  moreover have "64 * j + m < NFRAMES" using j(2) m(2) by (simp add: NFRAMES_def)
  ultimately have "first_free s (64 * j + m)" using d m(2,3) by (simp add: first_free_def taken_def)
  then show ?thesis using r by blast
qed

text \<open>\<open>PL_SV\<close> on a frame of the first page.\<close>

definition mark :: "nat \<Rightarrow> bool \<Rightarrow> 'a paged_scheme \<Rightarrow> 'a paged_scheme" where
  "mark f b s = stq (quad PL_MAP_START (f div 64))
     (if b then plq s (f div 64) OR int_bit (f mod 64) else plq s (f div 64) AND NOT (int_bit (f mod 64))) s"

lemma of_nat_frame:
  assumes "f < NFRAMES"
  shows "unat (of_nat f :: u64) = f" "unat (drop_bit 6 (of_nat f :: u64)) = f div 64" "unat (of_nat f AND 63 :: u64) = f mod 64"
proof -
  show u: "unat (of_nat f :: u64) = f" by (rule unat_of_nat_small) (use assms in \<open>simp add: NFRAMES_def\<close>)
  have "unat (drop_bit 6 (of_nat f :: u64)) = drop_bit 6 f" by (simp only: unat_drop_bit_eq u)
  then show "unat (drop_bit 6 (of_nat f :: u64)) = f div 64" by (simp only: drop_bit_eq_div) simp
  have "(of_nat f :: u64) AND 63 = take_bit 6 (of_nat f)" by (simp add: take_bit_eq_mask mask_eq_exp_minus_1)
  then show "unat (of_nat f AND 63 :: u64) = f mod 64" by (simp only: unsigned_take_bit_eq u) (simp add: take_bit_eq_mod)
qed

lemma PL_SV_ret:
  assumes "f < NFRAMES"
  shows "PL_SV kpalloc (of_nat f) v s = ret (mark f (v = 1) s)"
proof -
  have "f div 64 \<le> 510" using assms by (simp add: NFRAMES_def)
  then show ?thesis using of_nat_frame[OF assms] by (simp add: PL_SV_def LL_NV.simps mark_def plq_def Let_def)
qed

lemma PL_MAP_aligned [simp]: "page_aligned PL_MAP_START"
  by (simp add: page_aligned_def PL_MAP_START_def MBASE_def CBASE_def)

lemma plq_mark:
  "j < 511 \<Longrightarrow> f < NFRAMES \<Longrightarrow> plq (mark f b s) j =
    (if j = f div 64 then (if b then plq s j OR int_bit (f mod 64) else plq s j AND NOT (int_bit (f mod 64))) else plq s j)"
  using quad_eq_iff[of PL_MAP_START PL_MAP_START j "f div 64"] by (auto simp: plq_def mark_def NFRAMES_def)

lemma mod_64_32: "g mod 64 mod 32 = (g :: nat) mod 32"
  using mod_mod_cancel[of 32 64 g] by simp

lemma taken_mark:
  assumes f: "f < NFRAMES"
  shows "taken (mark f b s) g \<longleftrightarrow> (if g < NFRAMES \<and> g div 64 = f div 64 \<and> g mod 32 = f mod 32 then b else taken s g)"
proof (cases "g < NFRAMES \<and> g div 64 = f div 64")
  case True
  then have "g div 64 < 511" using f by (simp add: NFRAMES_def)
  then have q: "plq (mark f b s) (g div 64) = (if b then plq s (f div 64) OR int_bit (f mod 64) else plq s (f div 64) AND NOT (int_bit (f mod 64)))"
    using plq_mark[OF \<open>g div 64 < 511\<close> f, of b s] True by simp
  have g: "g mod 32 < 32" "g mod 32 < 64" by (simp_all add: less_trans[OF pos_mod_bound])
  have "bit (int_bit (f mod 64)) (g mod 32) \<longleftrightarrow> g mod 32 = f mod 32"
    using g by (auto simp: bit_int_bit mod_64_32)
  then show ?thesis using True q g by (auto simp: taken_def bit_or_iff bit_and_iff bit_not_iff)
next
  case False
  show ?thesis
  proof (cases "g < NFRAMES")
    case True
    then have "g div 64 < 511" by (simp add: NFRAMES_def)
    then show ?thesis using False True plq_mark[OF _ f, of "g div 64" b s] by (auto simp: taken_def)
  qed (simp add: taken_def)
qed

lemma uniform_mark:
  assumes "f < NFRAMES" "uniform s"
  shows "uniform (mark f b s)"
  unfolding uniform_def
proof (intro allI impI)
  fix j k :: nat assume j: "j < 511" and k: "31 \<le> k \<and> k < 64"
  have u: "bit (plq s j) k \<longleftrightarrow> bit (plq s j) 31" using assms(2) j k unfolding uniform_def by blast
  have i: "bit (int_bit n) k \<longleftrightarrow> bit (int_bit n) 31" for n
  proof -
    have "n mod 32 < 32" by simp
    then show ?thesis using k by (auto simp: bit_int_bit)
  qed
  show "bit (plq (mark f b s) j) k = bit (plq (mark f b s) j) 31"
    unfolding plq_mark[OF j assms(1)] using u i[of "f mod 64"] k by (cases "j = f div 64") (simp_all add: bit_or_iff bit_and_iff bit_not_iff)
qed

lemma mark_fields [simp]: "ptab (mark f b s) = ptab s" "PA_CALLING (mark f b s) = PA_CALLING s"
  by (simp_all add: mark_def stq_def)

lemma mark_other: "f < NFRAMES \<Longrightarrow> page_of a \<noteq> PL_MAP_START \<Longrightarrow> ldq (mark f b s) a = ldq s a"
proof -
  assume "f < NFRAMES" "page_of a \<noteq> PL_MAP_START"
  then have "a \<noteq> quad PL_MAP_START (f div 64)" using quad_page[of PL_MAP_START "f div 64"] by (auto simp: NFRAMES_def)
  then show ?thesis by (simp add: mark_def)
qed

text \<open>How many frames are left.\<close>

definition free_frames :: "'a paged_scheme \<Rightarrow> nat set" where
  "free_frames s = {f. f < NFRAMES \<and> f mod 64 < 32 \<and> \<not> taken s f}"

lemma finite_free_frames [simp]: "finite (free_frames s)"
  by (rule finite_subset[of _ "{..<NFRAMES}"]) (auto simp: free_frames_def)

lemma free_frames_mark:
  assumes "f \<in> free_frames s"
  shows "free_frames (mark f True s) = free_frames s - {f}"
proof -
  have f: "f < NFRAMES" "f mod 64 < 32" using assms by (simp_all add: free_frames_def)
  have "g = f" if "g div 64 = f div 64" "g mod 32 = f mod 32" "g mod 64 < 32" for g
  proof -
    have "g mod 64 = f mod 64" using that f(2) mod_64_32[of g] mod_64_32[of f] by simp
    then show ?thesis using that(1) by (metis div_mult_mod_eq)
  qed
  then show ?thesis using f by (auto simp: free_frames_def taken_mark)
qed

lemma new_frame_ret:
  assumes u: "uniform s" and c: "0 < card (free_frames s)"
  shows "\<exists>f. new_frame kpalloc s = ret (of_nat f, mark f True s) \<and> first_free s f \<and> f \<in> free_frames s"
proof -
  obtain g where "g \<in> free_frames s" using c by (metis card.empty ex_in_conv less_numeral_extra(3))
  then have "g < NFRAMES" "\<not> taken s g" by (simp_all add: free_frames_def)
  from PL_FN_ret[OF u this, of kpalloc] obtain f where f: "PL_FN kpalloc s = ret (of_nat f, s)" "first_free s f" by blast
  then have "f < NFRAMES" by (simp add: first_free_def)
  from PL_SV_ret[OF this, of kpalloc 1 s] f show ?thesis
    by (intro exI[of _ f]) (simp add: new_frame_def first_free_def free_frames_def)
qed

end
