(* ===== verification/PageAlloc.thy ===== *)
theory PageAlloc
  imports Translation
begin

section \<open>Every page has a frame of its own\<close>

text \<open>
  The invariant of the page allocator: the tables form a tree, no two pages share a frame, every frame
  in use is marked in the bitmap, and every page of the pool and every page handed out is mapped. It is
  kept by \<open>KPALLOC\<close>, \<open>KP_ALLOC3\<close>, \<open>ALSP\<close> and \<open>P_FREE\<close>, as long as the first page of the bitmap, which
  covers the frames below \<open>64 * 511\<close>, has frames left.
\<close>

subsection \<open>The mapping as a function\<close>

text \<open>
  The abstract state of the tables: from a list of indices to the table or page it leads to. The page
  the window shows is left out, as it changes with every look at a table.
\<close>

definition view :: "(addr \<Rightarrow> u64) \<Rightarrow> nat list \<Rightarrow> addr option" where
  "view T q = (if ixs q \<and> length q \<le> 4 \<and> q \<noteq> window_path then walk_to T q else None)"

abbreviation pages :: "'a paged_scheme \<Rightarrow> nat list \<Rightarrow> addr option" where
  "pages s \<equiv> view (ptab s)"

lemma view_walk: "ixs q \<Longrightarrow> length q \<le> 4 \<Longrightarrow> q \<noteq> window_path \<Longrightarrow> view T q = walk_to T q"
  by (simp add: view_def)

lemma view_table: "ixs q \<Longrightarrow> length q \<le> 3 \<Longrightarrow> view T q = walk_to T q"
  by (auto simp: view_def window_path_def)

lemma view_Some: "view T q = Some F \<Longrightarrow> walk_to T q = Some F \<and> ixs q \<and> length q \<le> 4 \<and> q \<noteq> window_path"
  by (auto simp: view_def split: if_splits)

lemma view_aligned: "view T q = Some F \<Longrightarrow> page_aligned F"
  using view_Some walk_aligned by blast

lemma view_window [simp]: "tree_ok T \<Longrightarrow> view (T(window_entry := x)) = view T"
  by (rule ext) (simp add: view_def walk_window)

lemma tree_ok_view: "view T' = view T \<Longrightarrow> tree_ok T' = tree_ok T"
  by (rule tree_cong) (metis view_table)

lemma tree_window' [simp]: "tree_ok T \<Longrightarrow> tree_ok (T(window_entry := x))"
  by (simp add: tree_window)

lemma view_prefix: "view T (p @ q) \<noteq> None \<Longrightarrow> length p \<le> 3 \<Longrightarrow> \<exists>f. view T p = Some f"
proof -
  assume v: "view T (p @ q) \<noteq> None" and l: "length p \<le> 3"
  then have "walk_to T (p @ q) \<noteq> None" "ixs p" by (auto simp: view_def split: if_splits)
  then show ?thesis using walk_prefix[of T p q] view_table[OF _ l, of T] by auto
qed

text \<open>The three changes of the mapping.\<close>

lemma view_clear:
  assumes "page_aligned F" "\<And>r. length r \<le> 3 \<Longrightarrow> view T r \<noteq> Some F"
  shows "view (\<lambda>a. if a - F < 0x1000 then 0 else T a) = view T"
proof
  fix q
  have "walk_to T r \<noteq> Some F" if "length r \<le> 3" "ixs r" for r using assms(2)[OF that(1)] view_table[OF that(2,1), of T] by simp
  from walk_clear[OF assms(1) this, of q] show "view (\<lambda>a. if a - F < 0x1000 then 0 else T a) q = view T q"
    by (simp add: view_def)
qed

lemma view_link:
  assumes T: "tree_ok T" and p: "view T p = Some f" "length p \<le> 2" "i < 512" "view T (p @ [i]) = None"
    and e: "e AND 1 \<noteq> 0" "e AND NOT 0xFFF = F" and F: "\<And>j. j < 512 \<Longrightarrow> T (quad F j) = 0" "\<And>r. length r \<le> 3 \<Longrightarrow> view T r \<noteq> Some F"
  shows "view (T(quad f i := e)) = (view T)(p @ [i] := Some F)" "tree_ok (T(quad f i := e))"
proof -
  have w: "walk_to T p = Some f" "ixs p" using view_Some[OF p(1)] by simp_all
  have "walk_to T (p @ [i]) = None" using p(2,3,4) w(2) view_table[of "p @ [i]" T] by simp
  then have a: "T (quad f i) AND 1 = 0" using w(1) by (auto simp: table_at_snoc split: if_splits)
  have nF: "walk_to T r \<noteq> Some F" if "length r \<le> 3" "ixs r" for r using F(2)[OF that(1)] view_table[OF that(2,1), of T] by simp
  have "F \<noteq> f" using F(2)[of p] p by auto
  note l = walk_link_table[OF T w(1) p(2) w(2) p(3) a e this F(1)]
  have "p @ [i] \<noteq> window_path" using p(2) by (auto simp: window_path_def)
  then show "view (T(quad f i := e)) = (view T)(p @ [i] := Some F)"
    using l p(2,3) w(2) unfolding link_table_def by (intro ext) (auto simp: view_def)
  show "tree_ok (T(quad f i := e))"
    using tree_link_table[OF T w(1) p(2) w(2) p(3) a e F(1) nF] by (simp add: link_table_def)
qed

lemma view_leaf:
  assumes T: "tree_ok T" and p: "view T p = Some f" "length p = 3" "i < 512" "p @ [i] \<noteq> window_path"
  shows "view (T(quad f i := e)) = (view T)(p @ [i] := (if e AND 1 = 0 then None else Some (e AND NOT 0xFFF)))"
    "tree_ok (T(quad f i := e))"
proof -
  have w: "walk_to T p = Some f" "ixs p" using view_Some[OF p(1)] by simp_all
  have at: "walk_to (T(quad f i := e)) (p @ [i]) = (if e AND 1 = 0 then None else Some (e AND NOT 0xFFF))"
    using walk_update_at[OF T w(1) _ w(2) p(3), of e "[]"] p(2) by simp
  have other: "walk_to (T(quad f i := e)) q = walk_to T q" if "ixs q" "length q \<le> 4" "q \<noteq> p @ [i]" for q
  proof -
    have "\<not> prefix (p @ [i]) q"
    proof
      assume "prefix (p @ [i]) q"
      then obtain r where "q = p @ [i] @ r" by (auto simp: prefix_def)
      then show False using that(2,3) p(2) by simp
    qed
    then show ?thesis using walk_update_other[OF T w(1) _ w(2) p(3) that(1,2), of e] p(2) by simp
  qed
  show "view (T(quad f i := e)) = (view T)(p @ [i] := (if e AND 1 = 0 then None else Some (e AND NOT 0xFFF)))"
  proof
    fix q
    show "view (T(quad f i := e)) q = ((view T)(p @ [i] := (if e AND 1 = 0 then None else Some (e AND NOT 0xFFF)))) q"
    proof (cases "q = p @ [i]")
      case True
      then show ?thesis using at p w(2) by (simp add: view_def)
    next
      case False
      then show ?thesis using other[of q] by (simp add: view_def)
    qed
  qed
  show "tree_ok (T(quad f i := e))" using T tree_cong[of "T(quad f i := e)" T] other p(2) by fastforce
qed

subsection \<open>The invariant\<close>

definition used :: "'a paged_scheme \<Rightarrow> addr \<Rightarrow> bool" where
  "used s F \<longleftrightarrow> (\<exists>f. F = of_nat (4096 * f) \<and> taken s f)"

definition pool :: "'a kmem_scheme \<Rightarrow> addr set" where
  "pool s = {p. p \<noteq> 0 \<and> (\<exists>i < 512. p = ldq s (slot i))}"

definition table_frame :: "'a paged_scheme \<Rightarrow> addr \<Rightarrow> bool" where
  "table_frame s F \<longleftrightarrow> (\<exists>q. length q \<le> 3 \<and> pages s q = Some F)"

definition mapped_page :: "'a paged_scheme \<Rightarrow> addr \<Rightarrow> bool" where
  "mapped_page s p \<longleftrightarrow> page_aligned p \<and> unat p < 2 ^ 48 \<and> path p \<noteq> window_path \<and> pages s (path p) \<noteq> None"

text \<open>A page that can become a table: \<open>V2P\<close> finds its frame, and the frame is no table yet.\<close>

definition spare :: "'a paged_scheme \<Rightarrow> addr \<Rightarrow> bool" where
  "spare s p \<longleftrightarrow> mapped_page s p \<and> even (pdpt_ix p) \<and> (\<forall>F. pages s (path p) = Some F \<longrightarrow> \<not> table_frame s F)"

definition leaf_inj :: "'a paged_scheme \<Rightarrow> bool" where
  "leaf_inj s \<longleftrightarrow> (\<forall>p q F. length p = 4 \<longrightarrow> length q = 4 \<longrightarrow> pages s p = Some F \<longrightarrow> pages s q = Some F \<longrightarrow> p = q)"

definition page_inv :: "'a paged_scheme \<Rightarrow> addr set \<Rightarrow> bool" where
  "page_inv s U \<longleftrightarrow> pool_held s U \<and> PL_MAP_START \<in> U \<and> uniform s \<and> tree_ok (ptab s) \<and> leaf_inj s \<and>
     (\<forall>q F. pages s q = Some F \<longrightarrow> used s F) \<and> mapped_page s POOL \<and> (\<forall>p \<in> U. mapped_page s p) \<and> (\<forall>p \<in> pool s. spare s p)"

lemma page_invD:
  assumes "page_inv s U"
  shows "pool_held s U" "PL_MAP_START \<in> U" "uniform s" "tree_ok (ptab s)" "leaf_inj s"
    "pages s q = Some F \<Longrightarrow> used s F" "mapped_page s POOL" "p \<in> U \<Longrightarrow> mapped_page s p" "p \<in> pool s \<Longrightarrow> spare s p"
  using assms by (auto simp: page_inv_def)

lemma leaf_injD: "leaf_inj s \<Longrightarrow> pages s p = Some F \<Longrightarrow> pages s q = Some F \<Longrightarrow> length p = 4 \<Longrightarrow> length q = 4 \<Longrightarrow> p = q"
  by (simp add: leaf_inj_def)

lemma same_bitmap:
  assumes "\<forall>j < 511. plq s' j = plq s j"
  shows "taken s' = taken s" "used s' = used s" "free_frames s' = free_frames s" "uniform s' = uniform s"
proof -
  have "f div 64 < 511" if "f < NFRAMES" for f using that by (simp add: NFRAMES_def)
  then show t: "taken s' = taken s" using assms by (auto simp: fun_eq_iff taken_def)
  then show "used s' = used s" "free_frames s' = free_frames s" by (simp_all add: fun_eq_iff used_def free_frames_def)
  show "uniform s' = uniform s" unfolding uniform_def by (rule all_cong) (simp only: assms[rule_format])
qed

lemma same_pages:
  assumes "pages s' = pages s"
  shows "mapped_page s' = mapped_page s" "table_frame s' = table_frame s" "spare s' = spare s" "leaf_inj s' = leaf_inj s"
    "tree_ok (ptab s') = tree_ok (ptab s)"
proof -
  show m: "mapped_page s' = mapped_page s" "table_frame s' = table_frame s"
    by (simp_all add: fun_eq_iff mapped_page_def table_frame_def assms)
  then show "spare s' = spare s" by (simp add: fun_eq_iff spare_def assms)
  show "leaf_inj s' = leaf_inj s" by (simp add: leaf_inj_def assms)
  show "tree_ok (ptab s') = tree_ok (ptab s)" by (rule tree_ok_view[OF assms])
qed

text \<open>The invariant looks at kernel memory and at the mapping only.\<close>

lemma page_inv_cong:
  assumes "ldq s' = ldq s" "pages s' = pages s"
  shows "page_inv s' U = page_inv s U" "spare s' p = spare s p" "used s' = used s" "taken s' = taken s" "free_frames s' = free_frames s"
proof -
  have plq: "plq s' = plq s" by (simp add: fun_eq_iff plq_def assms(1))
  show u: "used s' = used s" "taken s' = taken s" by (simp_all add: fun_eq_iff used_def taken_def plq)
  then show "free_frames s' = free_frames s" by (simp add: free_frames_def)
  have m: "mapped_page s' = mapped_page s" "table_frame s' = table_frame s" by (simp_all add: fun_eq_iff mapped_page_def table_frame_def assms(2))
  then have sp: "spare s' = spare s" by (simp add: fun_eq_iff spare_def assms(2))
  then show "spare s' p = spare s p" by simp
  have "pool s' = pool s" "pool_held s' U = pool_held s U" by (simp_all add: pool_def pool_held_def assms(1))
  moreover have "uniform s' = uniform s" "leaf_inj s' = leaf_inj s" by (simp_all add: uniform_def plq leaf_inj_def assms(2))
  ultimately show "page_inv s' U = page_inv s U"
    unfolding page_inv_def using tree_ok_view[OF assms(2)] u m sp by (simp add: assms(2))
qed

lemma page_inv_window [simp]:
  assumes "tree_ok (ptab s)"
  shows "pages (set_window f s) = pages s" "page_inv (set_window f s) U = page_inv s U" "tree_ok (ptab (set_window f s))"
    "spare (set_window f s) p = spare s p"  "used (set_window f s) = used s" "free_frames (set_window f s) = free_frames s"
proof -
  show v: "pages (set_window f s) = pages s" "tree_ok (ptab (set_window f s))" using assms by simp_all
  show "page_inv (set_window f s) U = page_inv s U" "spare (set_window f s) p = spare s p" "used (set_window f s) = used s"
    "free_frames (set_window f s) = free_frames s"
    by (rule page_inv_cong; simp add: assms)+
qed

text \<open>\<open>grows s s'\<close>: what was mapped still is, and new entries lead to frames that were not in use.\<close>

definition grows :: "'a paged_scheme \<Rightarrow> 'a paged_scheme \<Rightarrow> bool" where
  "grows s s' \<longleftrightarrow> (\<forall>q F. pages s q = Some F \<longrightarrow> pages s' q = Some F) \<and>
     (\<forall>q F. pages s' q = Some F \<longrightarrow> (\<exists>r. pages s r = Some F) \<or> \<not> used s F) \<and> (\<forall>f. taken s f \<longrightarrow> taken s' f)"

lemma grows_refl: "pages s' = pages s \<Longrightarrow> ldq s' = ldq s \<Longrightarrow> grows s s'"
  using page_inv_cong(4)[of s' s] by (auto simp: grows_def)

lemma used_mono: "(\<And>f. taken s f \<Longrightarrow> taken s' f) \<Longrightarrow> used s F \<Longrightarrow> used s' F"
  by (auto simp: used_def)

lemma grows_trans:
  assumes a: "grows s t" and b: "grows t u"
  shows "grows s u"
  unfolding grows_def
proof (intro conjI allI impI)
  fix q F assume "pages u q = Some F"
  then consider r where "pages t r = Some F" | "\<not> used t F" using b unfolding grows_def by blast
  then show "(\<exists>r. pages s r = Some F) \<or> \<not> used s F"
  proof cases
    case 1
    then show ?thesis using a unfolding grows_def by blast
  next
    case 2
    have "taken s f \<Longrightarrow> taken t f" for f using a by (simp add: grows_def)
    then show ?thesis using used_mono[of s t F] 2 by blast
  qed
qed (use a b in \<open>simp_all add: grows_def\<close>)

lemma page_inv_drop: "page_inv s (insert M U) \<Longrightarrow> PL_MAP_START \<in> U \<Longrightarrow> page_inv s U"
  by (auto simp: page_inv_def pool_held_def)

lemma used_frame: "f < NFRAMES \<Longrightarrow> used s (of_nat (4096 * f)) \<longleftrightarrow> taken s f"
proof -
  assume f: "f < NFRAMES"
  have "g = f" if "of_nat (4096 * f) = (of_nat (4096 * g) :: addr)" "g < NFRAMES" for g
  proof -
    have "unat (of_nat (4096 * h) :: addr) = 4096 * h" if "h < NFRAMES" for h
      by (rule unat_of_nat_small) (use that in \<open>simp add: NFRAMES_def\<close>)
    from this[OF f] this[OF that(2)] that(1) show ?thesis by (metis mult_cancel1 zero_neq_numeral)
  qed
  then show ?thesis by (auto simp: used_def taken_def)
qed

lemma frame_addr_aligned [simp]: "page_aligned (of_nat (4096 * f))"
proof -
  have "(of_nat (4096 * f) :: addr) = push_bit 12 (of_nat f)" by (simp add: push_bit_eq_mult)
  then have "of_nat (4096 * f) AND 0xfff = (push_bit 12 (of_nat f) AND mask 12 :: addr)" by (simp add: mask_eq_exp_minus_1)
  also have "\<dots> = 0" by (rule bit_word_eqI) (auto simp: bit_simps)
  finally show ?thesis by (simp add: page_aligned_def)
qed

text \<open>Marking a frame as used.\<close>

lemma pages_mark [simp]: "pages (mark f b s) = pages s" by simp

lemma page_inv_mark:
  assumes f: "f < NFRAMES" and I: "page_inv s U"
  shows "page_inv (mark f True s) U" "spare s p \<Longrightarrow> spare (mark f True s) p" "grows s (mark f True s)"
proof -
  have ne: "POOL \<noteq> PL_MAP_START" by (simp add: POOL_def PL_MAP_START_def)
  have sl: "ldq (mark f True s) (slot i) = ldq s (slot i)" if "i < 512" for i
    by (rule mark_other[OF f]) (simp add: slot_page[OF that] ne)
  have tk: "taken s g \<Longrightarrow> taken (mark f True s) g" for g by (simp add: taken_mark[OF f])
  have m: "mapped_page (mark f True s) = mapped_page s" "table_frame (mark f True s) = table_frame s"
    by (simp_all add: fun_eq_iff mapped_page_def table_frame_def)
  then have sp: "spare (mark f True s) = spare s" by (simp add: fun_eq_iff spare_def)
  then show "spare s p \<Longrightarrow> spare (mark f True s) p" by simp
  show "grows s (mark f True s)" using tk by (auto simp: grows_def)
  have "pool (mark f True s) = pool s" using sl by (auto simp: pool_def)
  moreover have "pool_held (mark f True s) U" by (rule pool_held_cong[OF page_invD(1)[OF I] sl])
  moreover have "uniform (mark f True s)" by (rule uniform_mark[OF f page_invD(3)[OF I]])
  moreover have "used (mark f True s) F" if "pages s q = Some F" for q F
    using used_mono[OF tk] page_invD(6)[OF I that] by blast
  ultimately show "page_inv (mark f True s) U"
    using I unfolding page_inv_def m sp leaf_inj_def pages_mark by simp
qed

text \<open>Clearing a frame that is no table changes nothing the invariant looks at.\<close>

lemma clear_frame_fields [simp]: "ldq (clear_frame F s) = ldq s" "PA_CALLING (clear_frame F s) = PA_CALLING s"
  by (simp_all add: clear_frame_def fun_eq_iff ldq_def)

lemma pages_clear: "page_aligned F \<Longrightarrow> \<not> table_frame s F \<Longrightarrow> pages (clear_frame F s) = pages s"
  unfolding clear_frame_def table_frame_def by simp (rule view_clear, auto)

lemma page_inv_clear:
  assumes "page_aligned F" "\<not> table_frame s F"
  shows "page_inv (clear_frame F s) U = page_inv s U" "spare (clear_frame F s) p = spare s p"
    "free_frames (clear_frame F s) = free_frames s" "grows s (clear_frame F s)"
proof -
  note p = pages_clear[OF assms]
  show "page_inv (clear_frame F s) U = page_inv s U" "spare (clear_frame F s) p = spare s p"
    "free_frames (clear_frame F s) = free_frames s"
    by (rule page_inv_cong; simp add: p)+
  show "grows s (clear_frame F s)" by (rule grows_refl) (simp_all add: p)
qed

text \<open>The frame of a page, as the code and the processor find it.\<close>

lemma frame_of_view: "pages s (path p) = Some F \<Longrightarrow> frame_of s p = Some F"
  using view_Some unfolding frame_of_def by blast

lemma memfill_virt_ret:
  assumes "pages s (path M) = Some F" "page_aligned M"
  shows "memfill_virt M s = ret (clear_frame F s)"
  using assms by (simp add: memfill_virt_def translate_def frame_of_view page_aligned_def)

lemma store_virt_ret:
  assumes "pages s (path M) = Some F" "page_aligned M"
  shows "store_virt M v s = ret (put_quad (quad F 0) v s)"
  using assms by (simp add: store_virt_def translate_def frame_of_view page_aligned_def quad_def)

lemma path_prefixes: "path v = [pml4_ix v, pdpt_ix v, pde_ix v] @ [pt_ix v]" by (simp add: path_def)

lemma leaf_table:
  assumes "pages s (path v) = Some F"
  shows "\<exists>f. pages s [pml4_ix v, pdpt_ix v, pde_ix v] = Some f \<and> F = ptab s (quad f (pt_ix v)) AND NOT 0xFFF"
proof -
  have w: "walk_to (ptab s) ([pml4_ix v, pdpt_ix v, pde_ix v] @ [pt_ix v]) = Some F" "path v \<noteq> window_path"
    using view_Some[OF assms] by (simp_all add: path_prefixes)
  from walk_step[OF w(1)] obtain f where "walk_to (ptab s) [pml4_ix v, pdpt_ix v, pde_ix v] = Some f" "F = ptab s (quad f (pt_ix v)) AND NOT 0xFFF" by blast
  then show ?thesis by (intro exI[of _ f]) (simp add: view_table)
qed

lemma V2P_ret:
  assumes T: "tree_ok (ptab s)" and p: "pages s (path M) = Some F" "page_aligned M" "even (pdpt_ix M)"
  shows "\<exists>g. V2P M s = ret (F, set_window g s) \<and> pages s [pml4_ix M, pdpt_ix M, pde_ix M] = Some g"
proof -
  obtain f where f: "pages s [pml4_ix M, pdpt_ix M, pde_ix M] = Some f" "F = ptab s (quad f (pt_ix M)) AND NOT 0xFFF"
    using leaf_table[OF p(1)] by blast
  have "walk_to (ptab s) [pml4_ix M, pdpt_ix M, pde_ix M] = Some f" "[pml4_ix M, pdpt_ix M, pde_ix M, pt_ix M] \<noteq> window_path"
    using view_Some[OF f(1)] view_Some[OF p(1)] by (simp_all add: path_def)
  then have "get_ptV (pml4_ix M) (pdpt_ix M) (pde_ix M) (pt_ix M) s = ret (ptab s (quad f (pt_ix M)), set_window f s)"
    using get_ptV_ret(1)[OF T, of "pml4_ix M" "pdpt_ix M" "pde_ix M" f "pt_ix M"] by simp
  then show ?thesis using f p(2) by (intro exI[of _ f]) (simp add: V2P_def V2P_pdpt_even[OF p(3)] page_aligned_def)
qed

lemma spareD:
  assumes "spare s p"
  shows "page_aligned p" "unat p < 2 ^ 48" "path p \<noteq> window_path" "even (pdpt_ix p)" "pages s (path p) = Some F \<Longrightarrow> \<not> table_frame s F"
    "\<exists>F. pages s (path p) = Some F"
  using assms by (auto simp: spare_def mapped_page_def)

lemma mapped_inj:
  assumes "mapped_page s p" "mapped_page s q" "path p = path q"
  shows "p = q"
  using assms path_inj[of p q] by (simp add: mapped_page_def)

lemma pool_held_pool: "pool_held s (insert M U) \<Longrightarrow> M \<notin> pool s"
  by (auto simp: pool_held_def pool_def)

text \<open>A page of the kernel becomes a table: its frame, cleared, is linked where no table was.\<close>

lemma link_ok:
  assumes I: "page_inv s (insert M U)" "PL_MAP_START \<in> U" and M: "spare s M" "pages s (path M) = Some F"
    and z: "\<forall>j < 512. ptab s (quad F j) = 0"
    and p: "pages s p = Some f" "length p \<le> 2" "i < 512" "pages s (p @ [i]) = None"
    and magic: "magic AND 1 \<noteq> 0" "magic AND NOT 0xFFF = 0"
    and s': "s' = put_quad (quad f i) (F OR magic) (set_window g s)"
  shows "pages s' = (pages s)(p @ [i] := Some F)" "page_inv s' U" "grows s s'" "free_frames s' = free_frames s" "ldq s' = ldq s"
    "q \<noteq> M \<Longrightarrow> spare s q \<Longrightarrow> spare s' q"
proof -
  note T = page_invD(4)[OF I(1)]
  let ?T = "(ptab s)(window_entry := g OR 3)"
  have T': "tree_ok ?T" and v': "view ?T = pages s" using T by simp_all
  have nF: "\<not> table_frame s F" by (rule spareD(5)[OF M])
  have Fa: "page_aligned F" by (rule view_aligned[OF M(2)])
  have "LOW_TABLE \<noteq> F"
  proof
    assume "LOW_TABLE = F"
    then have "pages s [1, 0, 0] = Some F" using tree_low[OF T] by (simp add: view_table)
    then show False using nF by (auto simp: table_frame_def intro!: exI[of _ "[1, 0, 0]"])
  qed
  then have z': "?T (quad F j) = 0" if "j < 512" for j
    using z[rule_format, OF that] quad_eq_iff[OF Fa walk_aligned[OF tree_low[OF T]] that, of 60] by (simp add: window_consts)
  have e: "(F OR magic) AND 1 \<noteq> 0" "(F OR magic) AND NOT 0xFFF = F"
  proof -
    have "F AND NOT 0xFFF = F" using page_of_self[OF Fa] by (simp add: page_of_def)
    then show "(F OR magic) AND NOT 0xFFF = F" using magic(2) by (simp only: bit.conj_disj_distrib2 or.right_neutral)
    have "bit magic 0" using magic(1) by (simp add: and_one_eq odd_iff_mod_2_eq_one bit_0)
    then have "bit (F OR magic) 0" unfolding bit_or_iff by (rule disjI2)
    then show "(F OR magic) AND 1 \<noteq> 0" by (simp add: and_one_eq odd_iff_mod_2_eq_one bit_0)
  qed
  have nF': "view ?T r \<noteq> Some F" if "length r \<le> 3" for r using nF that v' by (auto simp: table_frame_def)
  have vp: "view ?T p = Some f" "view ?T (p @ [i]) = None" using p v' by simp_all
  note l = view_link[OF T' vp(1) p(2,3) vp(2) e z' nF']
  have ps: "ptab s' = ?T(quad f i := F OR magic)" by (simp add: s')
  show P: "pages s' = (pages s)(p @ [i] := Some F)" using l(1) v' by (simp only: ps)
  show m: "ldq s' = ldq s" by (simp add: s')
  have plq: "plq s' = plq s" by (simp add: fun_eq_iff plq_def m)
  then have tk: "taken s' = taken s" by (simp add: fun_eq_iff taken_def)
  then show "free_frames s' = free_frames s" by (simp add: free_frames_def)
  have us: "used s' = used s" using tk by (simp add: fun_eq_iff used_def)
  have leaf: "pages s' q = pages s q" if "length q = 4" for q using that p(2) by (auto simp: P)
  have mp: "mapped_page s' = mapped_page s" using leaf by (simp add: fun_eq_iff mapped_page_def)
  have keep: "spare s' q" if q: "spare s q" and qM: "q \<noteq> M" for q
  proof -
    obtain G where G: "pages s (path q) = Some G" using spareD(6)[OF q] by blast
    have "G \<noteq> F"
    proof
      assume "G = F"
      then have "path q = path M" using leaf_injD[OF page_invD(5)[OF I(1)] G] M(2) by simp
      then have "q = M" using mapped_inj q M(1) unfolding spare_def by blast
      then show False using qM by simp
    qed
    moreover have "\<not> table_frame s G" by (rule spareD(5)[OF q G])
    ultimately have "\<not> table_frame s' G" by (auto simp: table_frame_def P)
    then show ?thesis using q G by (simp add: spare_def mp leaf)
  qed
  then show "q \<noteq> M \<Longrightarrow> spare s q \<Longrightarrow> spare s' q" by blast
  have sp: "spare s' q" if "q \<in> pool s" for q
    using keep[OF page_invD(9)[OF I(1) that]] that pool_held_pool[OF page_invD(1)[OF I(1)]] by auto
  have ph: "pool_held s' U" "pool s' = pool s" using page_invD(1)[OF I(1)] by (auto simp: pool_held_def pool_def m)
  have u: "used s' G" if "pages s' q = Some G" for q G
  proof (cases "q = p @ [i]")
    case True
    then show ?thesis using that page_invD(6)[OF I(1) M(2)] by (simp add: P us)
  next
    case False
    then show ?thesis using that page_invD(6)[OF I(1), of q G] by (simp add: P us)
  qed
  have uni: "uniform s'" using page_invD(3)[OF I(1)] unfolding uniform_def plq .
  have li: "leaf_inj s'" unfolding leaf_inj_def using leaf leaf_injD[OF page_invD(5)[OF I(1)]] by metis
  have tr: "tree_ok (ptab s')" using l(2) by (simp only: ps)
  show "page_inv s' U"
    unfolding page_inv_def mp ph(2)
  proof (intro conjI allI impI ballI)
    show "mapped_page s q" if "q \<in> U" for q using page_invD(8)[OF I(1), of q] that by simp
    show "mapped_page s POOL" by (rule page_invD(7)[OF I(1)])
  qed (fact ph(1) I(2) uni tr li u sp)+
  show "grows s s'" unfolding grows_def
  proof (intro conjI allI impI)
    show "pages s' q = Some G" if "pages s q = Some G" for q G using that p(4) by (auto simp: P)
    show "(\<exists>r. pages s r = Some G) \<or> \<not> used s G" if "pages s' q = Some G" for q G
      using that M(2) by (auto simp: P split: if_splits)
  qed (simp add: tk)
qed

text \<open>A frame that is marked and not mapped becomes a page.\<close>

lemma leaf_ok:
  assumes I: "page_inv s U" and F: "used s F" "\<And>q. pages s q \<noteq> Some F"
    and p: "pages s p = Some f" "length p = 3" "i < 512" "pages s (p @ [i]) = None" "p @ [i] \<noteq> window_path"
    and e: "e AND 1 \<noteq> 0" "e AND NOT 0xFFF = F"
    and s': "s' = put_quad (quad f i) e s"
  shows "pages s' = (pages s)(p @ [i] := Some F)" "page_inv s' U" "free_frames s' = free_frames s" "ldq s' = ldq s"
    "used s' = used s" "taken s' = taken s" "spare s q \<Longrightarrow> spare s' q"
proof -
  note T = page_invD(4)[OF I]
  note l = view_leaf[OF T p(1,2,3,5), of e]
  have ps: "ptab s' = (ptab s)(quad f i := e)" by (simp add: s')
  show P: "pages s' = (pages s)(p @ [i] := Some F)" using l(1) e by (simp only: ps) simp
  show m: "ldq s' = ldq s" by (simp add: s')
  have plq: "plq s' = plq s" by (simp add: fun_eq_iff plq_def m)
  then show tk: "taken s' = taken s" by (simp add: fun_eq_iff taken_def)
  then show "free_frames s' = free_frames s" by (simp add: free_frames_def)
  show us: "used s' = used s" using tk by (simp add: fun_eq_iff used_def)
  have keep: "pages s' q = Some G" if "pages s q = Some G" for q G using that p(4) by (auto simp: P)
  have mp: "mapped_page s' q" if "mapped_page s q" for q
    using that keep unfolding mapped_page_def by blast
  have "pages s' r = pages s r" if "length r \<le> 3" for r using that p(2) by (auto simp: P)
  then have tf: "table_frame s' = table_frame s" unfolding table_frame_def fun_eq_iff by metis
  have sp: "spare s' q" if q: "spare s q" for q
  proof -
    obtain G where G: "pages s (path q) = Some G" using spareD(6)[OF q] by blast
    from q have "mapped_page s q" "even (pdpt_ix q)" by (simp_all add: spare_def)
    then show ?thesis using mp[of q] spareD(5)[OF q G] keep[OF G] by (simp add: spare_def tf)
  qed
  then show "spare s q \<Longrightarrow> spare s' q" .
  have ph: "pool_held s' U" "pool s' = pool s" using page_invD(1)[OF I] by (auto simp: pool_held_def pool_def m)
  have uni: "uniform s'" using page_invD(3)[OF I] unfolding uniform_def plq .
  have li: "leaf_inj s'" unfolding leaf_inj_def P using leaf_injD[OF page_invD(5)[OF I]] F(2) by (metis fun_upd_apply)
  have tr: "tree_ok (ptab s')" using l(2) by (simp only: ps)
  have u: "used s' G" if "pages s' q = Some G" for q G
    using that F(1) page_invD(6)[OF I, of q G] by (simp add: P us split: if_splits)
  show "page_inv s' U"
    unfolding page_inv_def ph(2)
  proof (intro conjI allI impI ballI)
    show "mapped_page s' q" if "q \<in> U" for q using mp[OF page_invD(8)[OF I that]] .
    show "mapped_page s' POOL" by (rule mp[OF page_invD(7)[OF I]])
    show "spare s' q" if "q \<in> pool s" for q by (rule sp[OF page_invD(9)[OF I that]])
  qed (fact ph(1) page_invD(2)[OF I] uni tr li u)+
qed

subsection \<open>Interfaces\<close>

text \<open>
  What changes when pages are allocated: the mapping grows, by new frames, except at the paths that are
  \<open>kept\<close>; at most \<open>c\<close> frames are used; pages handed out keep their contents and do not become tables.
\<close>

definition supplied :: "nat \<Rightarrow> (nat list \<Rightarrow> bool) \<Rightarrow> addr set \<Rightarrow> 'a paged_scheme \<Rightarrow> 'a paged_scheme \<Rightarrow> bool" where
  "supplied c kept U s s' \<longleftrightarrow> grows s s' \<and> (\<forall>q. kept q \<longrightarrow> pages s' q = pages s q) \<and>
     card (free_frames s) \<le> card (free_frames s') + c \<and>
     (\<forall>a. page_of a \<in> U \<longrightarrow> page_of a \<noteq> PL_MAP_START \<longrightarrow> ldq s' a = ldq s a) \<and>
     (\<forall>p \<in> U. spare s p \<longrightarrow> spare s' p)"

lemma suppliedD:
  assumes "supplied c kept U s s'"
  shows "grows s s'" "kept q \<Longrightarrow> pages s' q = pages s q" "card (free_frames s) \<le> card (free_frames s') + c"
    "page_of a \<in> U \<Longrightarrow> page_of a \<noteq> PL_MAP_START \<Longrightarrow> ldq s' a = ldq s a" "p \<in> U \<Longrightarrow> spare s p \<Longrightarrow> spare s' p"
  using assms by (simp_all add: supplied_def)

lemma supplied_trans:
  assumes "supplied c k U s t" "supplied d k' U t u" "c + d \<le> e" "\<And>q. k'' q \<Longrightarrow> k q \<and> k' q"
  shows "supplied e k'' U s u"
proof -
  note a = suppliedD[OF assms(1)] and b = suppliedD[OF assms(2)]
  have "grows s u" by (rule grows_trans[OF a(1) b(1)])
  moreover have "pages u q = pages s q" if "k'' q" for q using a(2)[of q] b(2)[of q] assms(4)[OF that] by simp
  moreover have "card (free_frames s) \<le> card (free_frames u) + e" using a(3) b(3) assms(3) by simp
  moreover have "ldq u x = ldq s x" if "page_of x \<in> U" "page_of x \<noteq> PL_MAP_START" for x using a(4) b(4) that by simp
  moreover have "spare u p" if "p \<in> U" "spare s p" for p using a(5)[OF that] b(5) that(1) by blast
  ultimately show ?thesis by (simp add: supplied_def)
qed

lemma supplied_same: "pages s' = pages s \<Longrightarrow> ldq s' = ldq s \<Longrightarrow> supplied c k U s s'"
  using page_inv_cong(2,5)[of s' s] by (simp add: supplied_def grows_refl)

lemma supplied_weaken: "supplied c k U s s' \<Longrightarrow> c \<le> d \<Longrightarrow> (\<And>q. k' q \<Longrightarrow> k q) \<Longrightarrow> U' \<subseteq> U \<Longrightarrow> supplied d k' U' s s'"
  by (fastforce simp: supplied_def)

locale page_supply =
  fixes kp :: "'a pg_alloc" and c :: nat and kept :: "nat list \<Rightarrow> bool"
  assumes supplies: "page_inv s U \<Longrightarrow> c \<le> card (free_frames s) \<Longrightarrow> kp s = Inr (M, s') \<Longrightarrow>
    supplied c kept U s s' \<and> page_inv s' (insert M U) \<and> M \<notin> U \<and> M \<noteq> 0 \<and> spare s' M"
begin

lemma new_table_ok:
  assumes I: "page_inv s U" and c: "c \<le> card (free_frames s)" and r: "new_table kp s = ret (M, s')"
  shows "\<exists>F. supplied c kept U s s' \<and> page_inv s' (insert M U) \<and> M \<notin> U \<and> spare s' M \<and>
    pages s' (path M) = Some F \<and> (\<forall>j < 512. ptab s' (quad F j) = 0)"
proof -
  obtain t where t: "kp s = Inr (M, t)" and m: "memfill_virt M t = ret s'"
    using r by (cases "kp s") (auto simp: new_table_def bindR_ret_iff)
  note k = supplies[OF I c t]
  then have sp: "spare t M" by blast
  obtain F where F: "pages t (path M) = Some F" using spareD(6)[OF sp] by blast
  have a: "page_aligned F" "\<not> table_frame t F" using view_aligned[OF F] spareD(5)[OF sp F] .
  have s': "s' = clear_frame F t" using m memfill_virt_ret[OF F spareD(1)[OF sp]] by simp
  note cl = page_inv_clear[OF a] and pc = pages_clear[OF a]
  have "supplied 0 kept U t s'" by (rule supplied_same) (simp_all add: s' pc)
  then have "supplied c kept U s s'" using k by (auto intro: supplied_trans)
  moreover have "ptab s' (quad F j) = 0" if "j < 512" for j
    using quad_in_page[OF a(1) a(1) that] by (simp add: s' clear_frame_def)
  ultimately show ?thesis using k F by (intro exI[of _ F]) (simp add: s' cl pc)
qed

end

text \<open>After one of the three steps that make sure of a table, the table is there.\<close>

definition made :: "nat \<Rightarrow> (nat list \<Rightarrow> bool) \<Rightarrow> nat list \<Rightarrow> addr set \<Rightarrow> 'a paged_scheme \<Rightarrow> 'a paged_scheme \<Rightarrow> bool" where
  "made c kept q U s s' \<longleftrightarrow> supplied c (\<lambda>r. kept r \<and> r \<noteq> q) U s s' \<and> page_inv s' U \<and> (\<exists>F. pages s' q = Some F)"

definition flag_bits :: "u64 \<Rightarrow> bool" where
  "flag_bits m \<longleftrightarrow> m AND 1 \<noteq> 0 \<and> m AND NOT 0xFFF = 0"

lemma pages_root: "pages s [] = Some PML4_FRAME"
  by (simp add: view_table)

lemma entry_present:
  assumes "tree_ok (ptab s)" "pages s p = Some f" "length p \<le> 3" "i < 512" "p @ [i] \<noteq> window_path"
  shows "pages s (p @ [i]) = (if ptab s (quad f i) AND 1 = 0 then None else Some (ptab s (quad f i) AND NOT 0xFFF))"
proof -
  have "walk_to (ptab s) p = Some f" "ixs p" using view_Some[OF assms(2)] by simp_all
  then have "walk_to (ptab s) (p @ [i]) = (if ptab s (quad f i) AND 1 = 0 then None else Some (ptab s (quad f i) AND NOT 0xFFF))"
    by (simp add: table_at_snoc)
  moreover have "pages s (p @ [i]) = walk_to (ptab s) (p @ [i])" by (rule view_walk) (use \<open>ixs p\<close> assms in simp_all)
  ultimately show ?thesis by simp
qed

lemma link_pde_ret:
  assumes "V2P M s = ret (F, set_window g s)" and f: "pages s [i4, i3] = Some f" and T: "tree_ok (ptab s)" and i: "i4 < 512" "i3 < 512" "i2 < 512"
  shows "link_pde i4 i3 i2 M magic s = ret (put_quad (quad f i2) (F OR magic) (set_window f s))"
proof -
  have "walk_to (ptab (set_window g s)) [i4, i3] = Some f"
    using view_Some[of "ptab (set_window g s)" "[i4, i3]" f] f T by simp
  from get_pdeV_ret(2)[OF _ this i] T have "get_pdptVP i4 i3 (set_window g s) = ret (set_window f s)" by simp
  then show ?thesis using assms(1) view_aligned[OF f] by (simp add: link_pde_def put_window_def)
qed

lemma supplied_window: "tree_ok (ptab s) \<Longrightarrow> supplied c k U s (set_window f s)"
  by (rule supplied_same) simp_all

lemma made_window:
  assumes "tree_ok (ptab s)" "made c k q U (set_window f s) s'"
  shows "made c k q U s s'"
  using assms(2) supplied_trans[OF supplied_window[OF assms(1), of 0 "\<lambda>_. True" U f], of c "\<lambda>r. k r \<and> r \<noteq> q" s' c "\<lambda>r. k r \<and> r \<noteq> q"]
  unfolding made_def by simp

context page_supply
begin

lemma link_new:
  assumes I: "page_inv s U" "c \<le> card (free_frames s)" and r: "new_table kp s = ret (M, s2)"
    and p: "pages s p = Some f" "length p \<le> 2" "i < 512" "pages s (p @ [i]) = None" "kept (p @ [i])"
    and magic: "flag_bits magic"
  shows "\<exists>F g. V2P M s2 = ret (F, set_window g s2) \<and> pages s2 p = Some f \<and> tree_ok (ptab s2) \<and>
    (\<forall>h. made c kept (p @ [i]) U s (put_quad (quad f i) (F OR magic) (set_window h s2)) \<and>
      pages (put_quad (quad f i) (F OR magic) (set_window h s2)) = (pages s2)(p @ [i] := Some F)) \<and>
    pages s2 (path M) = Some F \<and> page_aligned M \<and> pages s2 (p @ [i]) = None"
proof -
  from new_table_ok[OF I r] obtain F where F: "supplied c kept U s s2" "page_inv s2 (insert M U)" "spare s2 M"
    "pages s2 (path M) = Some F" "\<forall>j < 512. ptab s2 (quad F j) = 0" and MU: "M \<notin> U" by blast
  note T = page_invD(4)[OF F(2)]
  have p2: "pages s2 p = Some f" "pages s2 (p @ [i]) = None"
    using suppliedD(1)[OF F(1)] suppliedD(2)[OF F(1) p(5)] p(1,4) by (simp_all add: grows_def)
  obtain g where g: "V2P M s2 = ret (F, set_window g s2)"
    using V2P_ret[OF T F(4) spareD(1)[OF F(3)] spareD(4)[OF F(3)]] by blast
  have "made c kept (p @ [i]) U s (put_quad (quad f i) (F OR magic) (set_window h s2)) \<and>
      pages (put_quad (quad f i) (F OR magic) (set_window h s2)) = (pages s2)(p @ [i] := Some F)" for h
  proof -
    let ?t = "put_quad (quad f i) (F OR magic) (set_window h s2)"
    have mg: "magic AND 1 \<noteq> 0" "magic AND NOT 0xFFF = 0" using magic by (simp_all add: flag_bits_def)
    note l = link_ok[OF F(2) page_invD(2)[OF I(1)] F(3,4,5) p2(1) p(2,3) p2(2) mg refl, where g = h]
    have "supplied 0 (\<lambda>r. r \<noteq> p @ [i]) U s2 ?t" unfolding supplied_def
    proof (intro conjI allI impI ballI)
      show "spare ?t q" if "q \<in> U" "spare s2 q" for q using l(6)[OF _ that(2)] that(1) MU by blast
      show "pages ?t q = pages s2 q" if "q \<noteq> p @ [i]" for q using that l(1) by simp
      show "grows s2 ?t" by (rule l(3))
    qed (use l(4,5) in simp_all)
    from supplied_trans[OF F(1) this, of c] have "supplied c (\<lambda>r. kept r \<and> r \<noteq> p @ [i]) U s ?t" by simp
    then show ?thesis using l(1,2) by (simp add: made_def)
  qed
  then show ?thesis using g p2 T F(4) spareD(1)[OF F(3)] by blast
qed

lemma made_present: "page_inv s' U \<Longrightarrow> pages s' = pages s \<Longrightarrow> ldq s' = ldq s \<Longrightarrow> pages s q = Some F \<Longrightarrow> made c kept q U s s'"
  by (simp add: made_def supplied_same)

lemma make_pml4_ok:
  assumes I: "page_inv s U" "c \<le> card (free_frames s)" and r: "make_pml4 kp magic i s = ret s'"
    and i: "i < 512" "kept [i]" and magic: "flag_bits magic"
  shows "made c kept [i] U s s'"
proof -
  have e: "pages s [i] = None \<longleftrightarrow> get_pml4V i s AND 1 = 0"
    using entry_present[OF page_invD(4)[OF I(1)] pages_root, of i] i(1) by (simp add: get_pml4V_def window_consts window_path_def)
  show ?thesis
  proof (cases "pages s [i]")
    case (Some F)
    then have "s' = s" using e r by (simp add: make_pml4_def)
    then show ?thesis using made_present[OF I(1) refl refl Some] by simp
  next
    case None
    then obtain M s2 where n: "new_table kp s = ret (M, s2)" and l: "link_pml4 i M magic s2 = ret s'"
      using e r by (auto simp: make_pml4_def bindR_ret_iff)
    from link_new[OF I n pages_root _ i(1) _ _ magic] None i(2) obtain F g where
      "V2P M s2 = ret (F, set_window g s2)" "made c kept [i] U s (put_quad (quad PML4_FRAME i) (F OR magic) (set_window g s2))" by auto
    then show ?thesis using l by (simp add: link_pml4_def window_consts)
  qed
qed

lemma make_pdpt_ok:
  assumes I: "page_inv s U" "c \<le> card (free_frames s)" and r: "make_pdpt kp magic i4 i3 s = ret s'"
    and i: "i4 < 512" "i3 < 512" "kept [i4, i3]" and magic: "flag_bits magic" and f: "pages s [i4] = Some f"
  shows "made c kept [i4, i3] U s s'"
proof -
  note T = page_invD(4)[OF I(1)]
  have w: "walk_to (ptab s) [i4] = Some f" using view_Some[OF f] by simp
  note g = get_pdptV_ret(1)[OF T w i(1,2)]
  let ?s = "set_window f s"
  have I': "page_inv ?s U" "c \<le> card (free_frames ?s)" "pages ?s = pages s" using I T by simp_all
  have e: "pages s [i4, i3] = None \<longleftrightarrow> ptab s (quad f i3) AND 1 = 0"
    using entry_present[OF T f, of i3] i(2) by (simp add: window_path_def)
  show ?thesis
  proof (cases "pages s [i4, i3]")
    case (Some F)
    then have "s' = ?s" using e r g by (simp add: make_pdpt_def)
    then show ?thesis using made_present[OF I'(1,3) _ Some] by simp
  next
    case None
    then obtain M s2 where n: "new_table kp ?s = ret (M, s2)" and l: "link_pdpt i4 i3 M magic s2 = ret s'"
      using e r g by (auto simp: make_pdpt_def bindR_ret_iff)
    from link_new[OF I'(1,2) n, of "[i4]" f i3 magic] f None i(2,3) magic I'(3) obtain F g where
      v: "V2P M s2 = ret (F, set_window g s2)" "pages s2 [i4] = Some f" "tree_ok (ptab s2)"
        "made c kept [i4, i3] U ?s (put_quad (quad f i3) (F OR magic) (set_window f s2))" by auto
    have "walk_to (ptab (set_window g s2)) [i4] = Some f"
      using view_Some[of "ptab (set_window g s2)" "[i4]" f] v(2,3) by simp
    from get_pdptV_ret(2)[OF _ this i(1,2)] v(3) have "get_pml4VP i4 (set_window g s2) = ret (set_window f s2)" by simp
    then have "s' = put_quad (quad f i3) (F OR magic) (set_window f s2)"
      using l v(1) view_aligned[OF f] by (simp add: link_pdpt_def put_window_def)
    then have "made c kept [i4, i3] U ?s s'" using v(4) by simp
    then show ?thesis by (rule made_window[OF T])
  qed
qed

lemma make_pde_ok:
  assumes I: "page_inv s U" "c \<le> card (free_frames s)" and r: "make_pde kp magic i4 i3 i2 s = ret s'"
    and i: "i4 < 512" "i3 < 512" "i2 < 512" "kept [i4, i3, i2]" and magic: "flag_bits magic" and f: "pages s [i4, i3] = Some f"
  shows "made c kept [i4, i3, i2] U s s'"
proof -
  note T = page_invD(4)[OF I(1)]
  have w: "walk_to (ptab s) [i4, i3] = Some f" using view_Some[OF f] by simp
  note g = get_pdeV_ret(1)[OF T w i(1-3)]
  let ?s = "set_window f s"
  have I': "page_inv ?s U" "c \<le> card (free_frames ?s)" "pages ?s = pages s" using I T by simp_all
  have e: "pages s [i4, i3, i2] = None \<longleftrightarrow> ptab s (quad f i2) AND 1 = 0"
    using entry_present[OF T f, of i2] i(3) by (simp add: window_path_def)
  show ?thesis
  proof (cases "pages s [i4, i3, i2]")
    case (Some F)
    then have "s' = ?s" using e r g by (simp add: make_pde_def)
    then show ?thesis using made_present[OF I'(1,3) _ Some] by simp
  next
    case None
    then obtain M s2 where n: "new_table kp ?s = ret (M, s2)" and l: "link_pde i4 i3 i2 M magic s2 = ret s'"
      using e r g by (auto simp: make_pde_def bindR_ret_iff)
    from link_new[OF I'(1,2) n, of "[i4, i3]" f i2 magic] f None i(3,4) magic I'(3) obtain F g where
      v: "V2P M s2 = ret (F, set_window g s2)" "pages s2 [i4, i3] = Some f" "tree_ok (ptab s2)"
        "made c kept [i4, i3, i2] U ?s (put_quad (quad f i2) (F OR magic) (set_window f s2))" by auto
    have "s' = put_quad (quad f i2) (F OR magic) (set_window f s2)"
      using l link_pde_ret[OF v(1,2,3) i(1-3)] by simp
    then have "made c kept [i4, i3, i2] U ?s s'" using v(4) by simp
    then show ?thesis by (rule made_window[OF T])
  qed
qed

end

subsection \<open>Entries\<close>

lemma low_bit: "(x :: u64) AND 1 \<noteq> 0 \<longleftrightarrow> bit x 0"
  by (simp add: and_one_eq odd_iff_mod_2_eq_one bit_0)

lemma and_low_byte: "ucast (m :: u8) AND NOT 0xFFF = (0 :: u64)" "(ucast m :: u64) AND 1 \<noteq> 0 \<longleftrightarrow> odd m"
proof -
  show "ucast m AND NOT 0xFFF = (0 :: u64)"
  proof (rule bit_word_eqI)
    fix k
    have "(0xFFF :: u64) = mask 12" by (simp add: mask_eq_exp_minus_1)
    then have "k < 8 \<Longrightarrow> bit (0xFFF :: u64) k" by (simp only: bit_mask_iff possible_bit_word) simp
    moreover have "bit m k \<Longrightarrow> k < 8" using bit_imp_le_length[of m k] by simp
    ultimately have "\<not> bit (ucast m AND NOT 0xFFF :: u64) k"
      unfolding bit_and_iff bit_not_iff bit_unsigned_iff by blast
    then show "bit (ucast m AND NOT 0xFFF :: u64) k = bit 0 k" by (simp only: bit_0_eq bot_apply bot_bool_def)
  qed
  have "bit (ucast m :: u64) 0 \<longleftrightarrow> bit m 0" by (simp only: bit_unsigned_iff) simp
  then show "(ucast m :: u64) AND 1 \<noteq> 0 \<longleftrightarrow> odd m" unfolding low_bit by (simp only: bit_0)
qed

lemma flag_bits_ucast: "odd (m :: u8) \<Longrightarrow> flag_bits (ucast m)"
  using and_low_byte[of m] by (simp add: flag_bits_def)

lemma flag_bits_literals [simp]: "flag_bits 0x1" "flag_bits 0x7" "flag_bits 0x23" "flag_bits 0x27"
  by (simp_all add: flag_bits_def)

lemma flag_bits_or: "flag_bits m \<Longrightarrow> flag_bits (m OR ucast (fl :: u8))"
proof -
  assume "flag_bits m"
  then have "bit m 0" "(m OR ucast fl) AND NOT 0xFFF = 0"
    using and_low_byte(1)[of fl] by (simp_all only: flag_bits_def low_bit bit.conj_disj_distrib2 or.right_neutral)
  then show "flag_bits (m OR ucast fl)" unfolding flag_bits_def low_bit bit_or_iff by blast
qed

lemma leaf_entry:
  assumes "flag_bits m"
  shows "(0x1000 * of_nat f OR m) AND 1 \<noteq> 0" "(0x1000 * of_nat f OR m) AND NOT 0xFFF = of_nat (4096 * f)"
proof -
  show "(0x1000 * of_nat f OR m) AND 1 \<noteq> 0" using assms unfolding flag_bits_def low_bit bit_or_iff by blast
  have "(of_nat (4096 * f) :: u64) AND NOT 0xFFF = of_nat (4096 * f)"
    using page_of_self[OF frame_addr_aligned[of f]] by (simp add: page_of_def)
  then show "(0x1000 * of_nat f OR m) AND NOT 0xFFF = of_nat (4096 * f)"
    using assms by (simp add: flag_bits_def bit.conj_disj_distrib2)
qed

text \<open>A new frame is marked and not mapped, and stays so while tables are made.\<close>

lemma new_frame_ok:
  assumes I: "page_inv s U" and c: "0 < card (free_frames s)" and r: "new_frame kp s = ret (ad, t)"
  shows "\<exists>f. ad = of_nat f \<and> first_free s f \<and> page_inv t U \<and> supplied 1 (\<lambda>_. True) U s t \<and> used t (of_nat (4096 * f)) \<and>
    \<not> used s (of_nat (4096 * f)) \<and> (\<forall>q. pages t q \<noteq> Some (of_nat (4096 * f))) \<and> card (free_frames s) = card (free_frames t) + 1 \<and>
    ptab t = ptab s"
proof -
  from new_frame_ret[OF page_invD(3)[OF I] c, of kp] r obtain f where
    f: "ad = of_nat f" "t = mark f True s" "first_free s f" "f \<in> free_frames s" by auto
  have fN: "f < NFRAMES" and nt: "\<not> taken s f" using f(3) by (simp_all add: first_free_def)
  note m = page_inv_mark[OF fN I]
  have cf: "card (free_frames s) = card (free_frames t) + 1"
    using card_Suc_Diff1[OF finite_free_frames f(4)] by (simp add: f(2) free_frames_mark[OF f(4)])
  have "supplied 1 (\<lambda>_. True) U s t"
    unfolding supplied_def using m(2,3) cf mark_other[OF fN, of _ True s] by (simp add: f(2))
  moreover have "\<not> used s (of_nat (4096 * f))" "used t (of_nat (4096 * f))"
    unfolding used_frame[OF fN] f(2) taken_mark[OF fN] using nt fN by simp_all
  moreover have "pages t q \<noteq> Some (of_nat (4096 * f))" for q
    using calculation(2) page_invD(6)[OF I, of q "of_nat (4096 * f)"] by (auto simp: f(2))
  ultimately show ?thesis using f(1,3) m(1) cf by (intro exI[of _ f]) (simp add: f(2))
qed

lemma still_unmapped:
  assumes "grows s t" "used s F" "\<And>q. pages s q \<noteq> Some F"
  shows "used t F" "pages t q \<noteq> Some F"
  using assms used_mono[of s t F] unfolding grows_def by blast+

text \<open>
  The last step of an allocation: the entry of the page is set. \<open>s\<close> is the state before the frame was
  marked, \<open>s1\<close> after that, \<open>t\<close> after the tables were made.
\<close>

definition same_bit :: "nat \<Rightarrow> nat \<Rightarrow> bool" where
  "same_bit f g \<longleftrightarrow> g < NFRAMES \<and> g div 64 = f div 64 \<and> g mod 32 = f mod 32"

definition own_bit :: "'a paged_scheme \<Rightarrow> nat list \<Rightarrow> nat \<Rightarrow> bool" where
  "own_bit s p f \<longleftrightarrow> (\<forall>q g. pages s q = Some (of_nat (4096 * g)) \<longrightarrow> same_bit f g \<longrightarrow> q = p)"

lemma used_same_bit:
  assumes "same_bit f g" "f < NFRAMES"
  shows "used s (of_nat (4096 * g)) \<longleftrightarrow> used s (of_nat (4096 * f))"
proof -
  have g: "g < NFRAMES" using assms(1) by (simp add: same_bit_def)
  show ?thesis unfolding used_frame[OF g] used_frame[OF assms(2)] using assms by (simp add: taken_def same_bit_def)
qed

lemma place_ok:
  assumes I: "page_inv s U" and n: "supplied 1 (\<lambda>_. True) U s s1" "used s1 F" "\<not> used s F" "\<And>q. pages s1 q \<noteq> Some F"
    and t: "supplied c k U s1 t" "page_inv t U"
    and p: "pages t p = Some f" "length p = 3" "i < 512" "pages t (p @ [i]) = None" "p @ [i] \<noteq> window_path"
    and e: "e AND 1 \<noteq> 0" "e AND NOT 0xFFF = F" and s': "s' = put_quad (quad f i) e t"
  shows "pages s (p @ [i]) = None" "pages s' (p @ [i]) = Some F" "page_inv s' U"
    "supplied (c + 1) (\<lambda>q. k q \<and> q \<noteq> p @ [i]) U s s'"
    "path v = p @ [i] \<Longrightarrow> page_aligned v \<Longrightarrow> unat v < 2 ^ 48 \<Longrightarrow> v \<notin> U \<and> page_inv s' (insert v U)"
    "path v = p @ [i] \<Longrightarrow> page_aligned v \<Longrightarrow> unat v < 2 ^ 48 \<Longrightarrow> even (pdpt_ix v) \<Longrightarrow> spare s' v"
    "F = of_nat (4096 * h) \<Longrightarrow> h < NFRAMES \<Longrightarrow> own_bit s' (p @ [i]) h"
proof -
  note F = still_unmapped[OF suppliedD(1)[OF t(1)] n(2,4)]
  note l = leaf_ok[OF t(2) F(1) F(2) p e s']
  have S: "supplied (c + 1) k U s t" by (rule supplied_trans[OF n(1) t(1)]) simp_all
  note P = l(1)
  show none: "pages s (p @ [i]) = None"
    using suppliedD(1)[OF S] p(4) by (cases "pages s (p @ [i])") (auto simp: grows_def)
  show at: "pages s' (p @ [i]) = Some F" by (simp add: P)
  show I': "page_inv s' U" by (rule l(2))
  have g: "grows s s'"
    unfolding grows_def
  proof (intro conjI allI impI)
    show "pages s' q = Some G" if "pages s q = Some G" for q G
      using that suppliedD(1)[OF S] none by (auto simp: P grows_def)
    show "(\<exists>r. pages s r = Some G) \<or> \<not> used s G" if "pages s' q = Some G" for q G
      using that suppliedD(1)[OF S] n(3) by (auto simp: P grows_def split: if_splits)
    show "taken s' g" if "taken s g" for g
      using that suppliedD(1)[OF S] l(6) by (simp add: grows_def)
  qed
  show "supplied (c + 1) (\<lambda>q. k q \<and> q \<noteq> p @ [i]) U s s'"
    unfolding supplied_def
  proof (intro conjI allI impI)
    show "grows s s'" by (rule g)
    show "pages s' q = pages s q" if "k q \<and> q \<noteq> p @ [i]" for q
      using that suppliedD(2)[OF S, of q] by (auto simp: P)
    show "card (free_frames s) \<le> card (free_frames s') + (c + 1)" using suppliedD(3)[OF S] l(3) by simp
    show "ldq s' a = ldq s a" if "page_of a \<in> U" "page_of a \<noteq> PL_MAP_START" for a
      using suppliedD(4)[OF S that] l(4) by simp
    show "\<forall>p \<in> U. spare s p \<longrightarrow> spare s' p" using suppliedD(5)[OF S] l(7) by simp
  qed
  show "own_bit s' (p @ [i]) h" if h: "F = of_nat (4096 * h)" "h < NFRAMES"
    unfolding own_bit_def
  proof (intro allI impI, rule ccontr)
    fix q g assume q: "pages s' q = Some (of_nat (4096 * g))" "same_bit h g" "q \<noteq> p @ [i]"
    then have "pages t q = Some (of_nat (4096 * g))" by (simp add: P)
    then consider r where "pages s1 r = Some (of_nat (4096 * g))" | "\<not> used s1 (of_nat (4096 * g))"
      using suppliedD(1)[OF t(1)] unfolding grows_def by blast
    then show False
    proof cases
      case 1
      then have "used s (of_nat (4096 * g))" using suppliedD(2)[OF n(1), of r] page_invD(6)[OF I] by simp
      then show False using n(3) used_same_bit[OF q(2) h(2)] h(1) by blast
    next
      case 2
      then show False using n(2) used_same_bit[OF q(2) h(2)] h(1) by blast
    qed
  qed
  assume v: "path v = p @ [i]" "page_aligned v" "unat v < 2 ^ 48"
  have m: "mapped_page s' v" using v p(5) at by (simp add: mapped_page_def)
  have new: "\<not> mapped_page t v" using v(1) p(4) by (simp add: mapped_page_def)
  have vU: "v \<notin> U" "v \<noteq> POOL" "v \<notin> pool t"
    using new page_invD(7,8)[OF t(2)] page_invD(9)[OF t(2), of v] by (auto simp: spare_def)
  have "pool_held s' (insert v U)"
  proof (rule pool_heldI)
    show "POOL \<notin> insert v U" using vU(2) pool_heldD(1)[OF page_invD(1)[OF I']] by blast
    show "page_aligned (ldq s' (slot j)) \<and> ldq s' (slot j) \<notin> insert v U \<and> ldq s' (slot j) \<noteq> POOL"
      if j: "j < 512" "ldq s' (slot j) \<noteq> 0" for j
    proof -
      have "ldq s' (slot j) \<in> pool t" using j by (auto simp: pool_def l(4))
      then show ?thesis using vU(3) pool_heldD(2)[OF page_invD(1)[OF I'] j] by auto
    qed
  qed (rule pool_heldD(3)[OF page_invD(1)[OF I']])
  then show "v \<notin> U \<and> page_inv s' (insert v U)" using I' m vU(1) unfolding page_inv_def by blast
  assume "even (pdpt_ix v)"
  moreover have "\<not> table_frame s' F"
    using F(2) p(2) by (auto simp: table_frame_def P split: if_splits)
  ultimately show "spare s' v" using m v(1) at by (simp add: spare_def)
qed

text \<open>
  \<open>ALSP\<close> maps its address, which was not mapped, to the first frame that was free; what else it adds are
  tables on the way to it.
\<close>

context page_supply
begin

lemma ALSP_ok:
  assumes I: "page_inv s U" and c: "3 * c + 1 \<le> card (free_frames s)" and r: "ALSP kp v fl m1 m2 s = ret s'"
    and k: "\<And>q. prefix q (path v) \<Longrightarrow> kept q" and v: "path v \<noteq> window_path" and m: "odd m1" "odd m2"
  shows "\<exists>f. first_free s f \<and> pages s (path v) = None \<and> pages s' (path v) = Some (of_nat (4096 * f)) \<and>
    \<not> used s (of_nat (4096 * f)) \<and> page_inv s' U \<and> supplied (3 * c + 1) (\<lambda>q. kept q \<and> \<not> prefix q (path v)) U s s' \<and>
    (page_aligned v \<longrightarrow> unat v < 2 ^ 48 \<longrightarrow> v \<notin> U \<and> page_inv s' (insert v U)) \<and> own_bit s' (path v) f"
proof -
  let ?i4 = "pml4_ix v" and ?i3 = "pdpt_ix v" and ?i2 = "pde_ix v" and ?i1 = "pt_ix v"
  let ?k = "\<lambda>q. kept q \<and> \<not> prefix q (path v)"
  note m1 = flag_bits_ucast[OF m(1)]
  from r obtain ad s1 s2 s3 s4 e s5 s6 where
    1: "new_frame kp s = ret (ad, s1)" and 2: "make_pml4 kp (ucast m1) ?i4 s1 = ret s2" and
    3: "make_pdpt kp (ucast m1) ?i4 ?i3 s2 = ret s3" and 4: "make_pde kp (ucast m1) ?i4 ?i3 ?i2 s3 = ret s4" and
    5: "get_ptV ?i4 ?i3 ?i2 ?i1 s4 = ret (e, s5)" "e AND 1 = 0" and 6: "get_pdeVP ?i4 ?i3 ?i2 s5 = ret s6" and
    7: "s' = put_window ?i1 (0x1000 * ad OR ucast m2 OR ucast fl) s6"
    by (auto simp: ALSP_def Let_def bindR_ret_iff check_def split: if_splits)
  have pre: "kept [?i4]" "kept [?i4, ?i3]" "kept [?i4, ?i3, ?i2]" by (rule k; simp add: path_def)+
  from new_frame_ok[OF I _ 1] c obtain f where f: "ad = of_nat f" "first_free s f" "page_inv s1 U" "supplied 1 (\<lambda>_. True) U s s1"
    "used s1 (of_nat (4096 * f))" "\<not> used s (of_nat (4096 * f))" "\<And>q. pages s1 q \<noteq> Some (of_nat (4096 * f))"
    "card (free_frames s) = card (free_frames s1) + 1" by auto
  have d2: "made c kept [?i4] U s1 s2"
    by (rule make_pml4_ok[OF f(3) _ 2 _ pre(1) m1]) (use c f(8) in simp_all)
  then obtain g4 where g4: "pages s2 [?i4] = Some g4" and I2: "page_inv s2 U" and S2: "supplied c (\<lambda>r. kept r \<and> r \<noteq> [?i4]) U s1 s2"
    by (auto simp: made_def)
  have d3: "made c kept [?i4, ?i3] U s2 s3"
    by (rule make_pdpt_ok[OF I2 _ 3 _ _ pre(2) m1 g4]) (use c f(8) suppliedD(3)[OF S2] in simp_all)
  then obtain g3 where g3: "pages s3 [?i4, ?i3] = Some g3" and I3: "page_inv s3 U" and S3: "supplied c (\<lambda>r. kept r \<and> r \<noteq> [?i4, ?i3]) U s2 s3"
    by (auto simp: made_def)
  have d4: "made c kept [?i4, ?i3, ?i2] U s3 s4"
    by (rule make_pde_ok[OF I3 _ 4 _ _ _ pre(3) m1 g3]) (use c f(8) suppliedD(3)[OF S2] suppliedD(3)[OF S3] in simp_all)
  then obtain g2 where g2: "pages s4 [?i4, ?i3, ?i2] = Some g2" and I4: "page_inv s4 U" and S4: "supplied c (\<lambda>r. kept r \<and> r \<noteq> [?i4, ?i3, ?i2]) U s3 s4"
    by (auto simp: made_def)
  note T = page_invD(4)[OF I4]
  have w: "walk_to (ptab s4) [?i4, ?i3, ?i2] = Some g2" using view_Some[OF g2] by simp
  have vp': "[?i4, ?i3, ?i2] @ [?i1] \<noteq> window_path" using v by (simp add: path_def)
  have e: "e = ptab s4 (quad g2 ?i1)" "s5 = set_window g2 s4"
    using get_ptV_ret(1)[OF T w, of ?i1] 5(1) vp' by simp_all
  have w5: "walk_to (ptab s5) [?i4, ?i3, ?i2] = Some g2" and T5: "tree_ok (ptab s5)"
    using view_Some[of "ptab s5" "[?i4, ?i3, ?i2]" g2] g2 T e(2) by simp_all
  have "s6 = set_window g2 s4" using get_ptV_ret(2)[OF T5 w5, of 0] 6 e(2) by simp
  then have s': "s' = put_quad (quad g2 ?i1) (0x1000 * of_nat f OR (ucast m2 OR ucast fl)) (set_window g2 s4)"
    using 7 view_aligned[OF g2] by (simp add: put_window_def f(1) or.assoc)
  have vp: "[?i4, ?i3, ?i2] @ [?i1] = path v" by (simp add: path_def)
  have t: "supplied (3 * c) ?k U s1 (set_window g2 s4)"
  proof -
    have "supplied (2 * c) ?k U s1 s3" by (rule supplied_trans[OF S2 S3]) (auto simp: path_def)
    then have "supplied (3 * c) ?k U s1 s4" by (rule supplied_trans[OF _ S4]) (auto simp: path_def)
    then show ?thesis using supplied_trans[OF _ supplied_window[OF T, of 0 ?k U g2]] by simp
  qed
  have "pages (set_window g2 s4) ([?i4, ?i3, ?i2] @ [?i1]) = None"
    using entry_present[OF T g2 _ _ vp'] 5(2) e(1) T by simp
  note l = place_ok[OF I f(4-7) t _ _ _ _ this vp' leaf_entry[OF flag_bits_or[OF flag_bits_ucast[OF m(2)]]] s']
  have g2': "pages (set_window g2 s4) [?i4, ?i3, ?i2] = Some g2" "page_inv (set_window g2 s4) U" using g2 I4 T by simp_all
  note l = l[OF g2'(2,1), simplified, unfolded vp]
  have "supplied (3 * c + 1) ?k U s s'" by (rule supplied_weaken[OF l(4)]) (auto simp: path_def)
  moreover have "own_bit s' (path v) f" using l(7)[of f] f(2) by (simp add: path_def first_free_def)
  ultimately show ?thesis using f(2,6) l(1-3) l(5)[of v] by (intro exI[of _ f]) (simp add: path_def)
qed

end

subsection \<open>KPALLOC\<close>

text \<open>A change of kernel memory outside the pool and the bitmap is not seen.\<close>

lemma page_inv_mem:
  assumes I: "page_inv s U" and m: "\<forall>j < 511. plq s' j = plq s j" "pages s' = pages s"
    and h: "pool_held s' V" "PL_MAP_START \<in> V" "\<And>p. p \<in> V \<Longrightarrow> p \<in> U \<or> mapped_page s p" "\<And>p. p \<in> pool s' \<Longrightarrow> spare s p"
  shows "page_inv s' V"
proof -
  note b = same_bitmap[OF m(1)] and p = same_pages[OF m(2)]
  show ?thesis
    unfolding page_inv_def p m(2) b(2)
  proof (intro conjI allI impI ballI)
    show "mapped_page s q" if "q \<in> V" for q using h(3)[OF that] page_invD(8)[OF I] by blast
  qed (use h(1,2,4) b(4) page_invD(3-7)[OF I] in blast)+
qed

lemma slot_not_bitmap: "i < 512 \<Longrightarrow> j < 512 \<Longrightarrow> slot i \<noteq> quad PL_MAP_START j"
proof
  assume "i < 512" "j < 512" "slot i = quad PL_MAP_START j"
  then have "POOL = PL_MAP_START" using slot_page[of i] quad_page[OF PL_MAP_aligned, of j] by simp
  then show False by (simp add: POOL_def PL_MAP_START_def)
qed

lemma plq_stq_slot [simp]: "i < 512 \<Longrightarrow> j < 511 \<Longrightarrow> plq (stq (slot i) v s) j = plq s j"
  using slot_not_bitmap[of i j] by (auto simp: plq_def)

lemma pages_mem [simp]: "ptab (stq a v s) = ptab s" "ptab (memfill_page p s) = ptab s"
  by (simp_all add: stq_def memfill_page_def)

lemma supplied_mem:
  assumes "\<forall>j < 511. plq s' j = plq s j" "pages s' = pages s"
    "\<And>a. page_of a \<in> U \<Longrightarrow> page_of a \<noteq> PL_MAP_START \<Longrightarrow> ldq s' a = ldq s a"
  shows "supplied c k U s s'"
  using same_bitmap[OF assms(1)] assms(2,3) same_pages(3)[OF assms(2)] by (auto simp: supplied_def grows_def)

context page_supply
begin

lemma refill_ok:
  assumes "page_inv s U" "n * c \<le> card (free_frames s)" "refill kp i n s = Inr s'" "i + n \<le> 512"
  shows "page_inv s' U \<and> supplied (n * c) kept U s s'"
  using assms
proof (induction n arbitrary: i s)
  case 0
  then show ?case by (simp add: supplied_same)
next
  case (Suc n)
  show ?case
  proof (cases "ldq s (slot i) = 0")
    case False
    then have r: "refill kp (Suc i) n s = Inr s'" using Suc.prems(3) by simp
    have "page_inv s' U \<and> supplied (n * c) kept U s s'" by (rule Suc.IH[OF Suc.prems(1) _ r]) (use Suc.prems(2,4) in simp_all)
    then show ?thesis using supplied_weaken[of "n * c" kept U s s' "Suc n * c" kept U] by simp
  next
    case True
    then obtain p t where t: "kp s = Inr (p, t)" and r: "refill kp (Suc i) n (stq (slot i) p t) = Inr s'"
      using Suc.prems(3) by (auto simp: bindE_Inr_iff)
    have c: "c \<le> card (free_frames s)" using Suc.prems(2) by simp
    have k: "supplied c kept U s t" "page_inv t (insert p U)" "p \<notin> U" "p \<noteq> 0" "spare t p"
      using supplies[OF Suc.prems(1) c t] by simp_all
    have i: "i < 512" using Suc.prems(4) by simp
    let ?t = "stq (slot i) p t"
    have ph: "pool_held ?t U"
      using page_invD(1)[OF k(2)] i k(3-5) spareD(1)[OF k(5)] by (auto simp: pool_held_def slot_inj)
    have sp: "q = p \<or> q \<in> pool t" if "q \<in> pool ?t" for q using that i by (auto simp: pool_def slot_inj split: if_splits)
    have It: "page_inv ?t U"
      by (rule page_inv_mem[OF k(2) _ _ ph page_invD(2)[OF Suc.prems(1)]]) (use sp k(5) page_invD(9)[OF k(2)] i in auto)
    have "supplied 0 kept U t ?t"
      by (rule supplied_mem) (use i slot_page[OF i] pool_heldD(1)[OF ph] in auto)
    then have S: "supplied c kept U s ?t" using supplied_trans[OF k(1)] by simp
    have "page_inv s' U \<and> supplied (n * c) kept U ?t s'"
      by (rule Suc.IH[OF It _ r]) (use Suc.prems(2,4) suppliedD(3)[OF S] in simp_all)
    then show ?thesis using supplied_trans[OF S, of "n * c" kept s' "Suc n * c" kept] by simp
  qed
qed

theorem KPALLOC_supply: "page_supply (KPALLOC kp) (64 * c) kept"
proof
  fix s :: "'a paged_scheme" and U M s'
  assume I: "page_inv s U" and c: "64 * c \<le> card (free_frames s)" and r: "KPALLOC kp s = Inr (M, s')"
  obtain AN where sc: "pool_scan s 0 512 = (M, AN)" and M: "M \<noteq> 0"
    using r by (cases "pool_scan s 0 512") (auto simp: KPALLOC_def bindE_Inr_iff Let_def split: if_splits)
  let ?s0 = "stq (slot AN) 0 s" and ?V = "insert M U"
  obtain s1 where rf: "(if 32 \<le> AN \<and> PA_CALLING s = 0 then refill kp 0 64 ?s0 else Inr ?s0) = Inr s1" and s': "s' = memfill_page M s1"
    using r sc by (auto simp: KPALLOC_def bindE_Inr_iff Let_def split: if_splits)
  have AN: "AN < 512" "ldq s (slot AN) = M" using pool_scan_spec[OF sc M] by auto
  have k: "page_aligned M" "M \<notin> U" "M \<noteq> POOL" and h0: "pool_held ?s0 ?V" using pool_held_take[OF page_invD(1)[OF I] AN M] by auto
  have sM: "spare s M" by (rule page_invD(9)[OF I]) (use AN M in \<open>auto simp: pool_def\<close>)
  have I0: "page_inv ?s0 ?V"
    by (rule page_inv_mem[OF I _ _ h0])
      (use AN(1) page_invD(2,9)[OF I] sM in \<open>auto simp: pool_def spare_def slot_inj split: if_splits\<close>)
  have S0: "supplied 0 kept U s ?s0" 
    by (rule supplied_mem) (use AN(1) slot_page[OF AN(1)] pool_heldD(1)[OF page_invD(1)[OF I]] in auto)
  have c0: "64 * c \<le> card (free_frames ?s0)" using suppliedD(3)[OF S0] c by simp
  have 1: "page_inv s1 ?V \<and> supplied (64 * c) kept ?V ?s0 s1"
  proof (cases "32 \<le> AN \<and> PA_CALLING s = 0")
    case True
    then have "refill kp 0 64 ?s0 = Inr s1" using rf by simp
    from refill_ok[OF I0 c0 this] show ?thesis by simp
  next
    case False
    then have "s1 = ?s0" using rf by auto
    then show ?thesis using I0 by (simp add: supplied_same)
  qed
  have h1: "pool_held s1 ?V" using 1 page_invD(1) by blast
  have MP: "M \<noteq> PL_MAP_START" using page_invD(2)[OF I] k(2) by auto
  have plq: "\<forall>j < 511. plq s' j = plq s1 j"
    using quad_page[OF PL_MAP_aligned] MP by (simp add: plq_def s' ldq_memfill[OF k(1)])
  have sl: "ldq s' (slot i) = ldq s1 (slot i)" if "i < 512" for i
    using slot_page[OF that] k(3) by (simp add: s' ldq_memfill[OF k(1)])
  have I': "page_inv s' ?V"
  proof (rule page_inv_mem[of s1 ?V, OF _ plq])
    show "pool_held s' ?V" by (rule pool_held_cong[OF h1 sl])
    show "spare s1 p" if "p \<in> pool s'" for p
      using that page_invD(9)[of s1 ?V p] 1 sl by (auto simp: pool_def)
  qed (use 1 page_invD(2)[OF I] in \<open>simp_all add: s'\<close>)
  have "supplied 0 kept U s1 s'"
    by (rule supplied_mem[OF plq]) (use k(2) in \<open>auto simp: s' ldq_memfill[OF k(1)]\<close>)
  then have S: "supplied (64 * c) kept U s s'"
    using supplied_trans[OF S0 supplied_weaken[OF conjunct2[OF 1], of "64 * c" kept U], of "64 * c" kept]
      supplied_trans[of "64 * c" kept U s s1 0 kept s' "64 * c" kept] by auto
  have "spare ?s0 M" using sM same_pages(3)[of ?s0 s] by simp
  then have "spare s1 M" using 1 suppliedD(5)[of "64 * c" kept ?V ?s0 s1 M] by blast
  then have "spare s' M" using same_pages(3)[of s' s1] by (simp add: s')
  then show "supplied (64 * c) kept U s s' \<and> page_inv s' ?V \<and> M \<notin> U \<and> M \<noteq> 0 \<and> spare s' M"
    using S I' k(2) M by simp
qed

end

end
