(* ===== verification/KernelPages.thy ===== *)
theory KernelPages
  imports PageAlloc
begin

section \<open>New pages for the kernel\<close>

text \<open>
  \<open>KP_ALLOC3\<close> searches the kernel's half of the address space for the first address that is not mapped.
  The first page of the bitmap has fewer frames than 64 tables have entries, so the search ends within the
  first 64 tables: the steps to a further second- or first-level index are never taken.
\<close>

subsection \<open>The pool while it is not refilled\<close>

interpretation no_pages: page_supply no_more_pages 0 "\<lambda>_. True"
  by unfold_locales (simp add: no_more_pages_def)

interpretation inner: page_supply "KPALLOC no_more_pages" 0 "\<lambda>_. True"
  using no_pages.KPALLOC_supply by simp

lemma pool_scan_none: "pool_scan s i n = (0, AN) \<Longrightarrow> i \<le> j \<Longrightarrow> j < i + n \<Longrightarrow> ldq s (slot j) = 0"
proof (induction s i n rule: pool_scan.induct)
  case (2 s i n)
  then have z: "ldq s (slot i) = 0" "pool_scan s (Suc i) n = (0, AN)" by (auto split: if_splits)
  then show ?case using 2 by (cases "j = i") auto
qed simp

lemma KPALLOC_inner:
  assumes "PA_CALLING s \<noteq> 0"
  shows "if pool s = {} then KPALLOC no_more_pages s = Inl (ERROR ERR_KPALLOC_NOFREE 0)
    else \<exists>M s'. KPALLOC no_more_pages s = Inr (M, s')"
proof -
  obtain k AN where sc: "pool_scan s 0 512 = (k, AN)" by fastforce
  have e: "k = 0 \<longleftrightarrow> pool s = {}"
  proof
    assume "k = 0"
    then show "pool s = {}" using pool_scan_none[of s 0 512 AN] sc by (auto simp: pool_def)
  next
    assume p: "pool s = {}"
    show "k = 0"
    proof (rule ccontr)
      assume "k \<noteq> 0"
      with pool_scan_spec[OF sc] have "k \<in> pool s" by (auto simp: pool_def)
      then show False using p by simp
    qed
  qed
  then show ?thesis using assms by (auto simp: KPALLOC_def sc Let_def)
qed

subsection \<open>The search\<close>

definition occupied :: "'a paged_scheme \<Rightarrow> nat list \<Rightarrow> bool" where
  "occupied s q \<longleftrightarrow> q = window_path \<or> pages s q \<noteq> None"

lemma get_ptV_entry:
  assumes T: "tree_ok (ptab s)" and f: "pages s [i4, i3, i2] = Some f" and i: "i4 < 512" "i3 < 512" "i2 < 512" "i1 < 512"
  shows "\<exists>e. get_ptV i4 i3 i2 i1 s = ret (e, set_window f s) \<and> (e AND 1 = 0 \<longleftrightarrow> \<not> occupied s [i4, i3, i2, i1])"
proof -
  have w: "walk_to (ptab s) [i4, i3, i2] = Some f" using view_Some[OF f] by simp
  have "(f OR 3) AND 1 \<noteq> 0" unfolding low_bit bit_or_iff by simp
  then show ?thesis
    using get_ptV_ret(1)[OF T w i] entry_present[OF T f, of i1] i(4)
    by (cases "[i4, i3, i2, i1] = window_path") (auto simp: occupied_def)
qed

lemma pt_loop_ret:
  assumes T: "tree_ok (ptab s)" and f: "pages s [i4, i3, i2] = Some f" and i: "i4 < 512" "i3 < 512" "i2 < 512"
  shows "pt + n = 512 \<Longrightarrow> \<exists>r t. pt_loop i4 i3 i2 pt n s = ret (r, t) \<and> (t = set_window f s \<or> n = 0 \<and> t = s) \<and>
    (case r of Some k \<Rightarrow> pt \<le> k \<and> k < 512 \<and> \<not> occupied s [i4, i3, i2, k]
       | None \<Rightarrow> \<forall>k. pt \<le> k \<and> k < 512 \<longrightarrow> occupied s [i4, i3, i2, k])"
  using T f
proof (induction n arbitrary: pt s)
  case (Suc n)
  obtain e where e: "get_ptV i4 i3 i2 pt s = ret (e, set_window f s)" "e AND 1 = 0 \<longleftrightarrow> \<not> occupied s [i4, i3, i2, pt]"
    using get_ptV_entry[OF Suc.prems(2,3) i, of pt] Suc.prems(1) by auto
  show ?case
  proof (cases "e AND 1 = 0")
    case True
    then show ?thesis using e Suc.prems(1) by (intro exI[of _ "Some pt"] exI[of _ "set_window f s"]) simp
  next
    case False
    let ?s = "set_window f s"
    have s: "pages ?s = pages s" "tree_ok (ptab ?s)" using Suc.prems(2) by simp_all
    then have o: "occupied ?s = occupied s" by (simp add: fun_eq_iff occupied_def)
    obtain r t where "pt_loop i4 i3 i2 (Suc pt) n ?s = ret (r, t)" "t = set_window f ?s \<or> n = 0 \<and> t = ?s"
      and r: "case r of Some k \<Rightarrow> Suc pt \<le> k \<and> k < 512 \<and> \<not> occupied s [i4, i3, i2, k]
       | None \<Rightarrow> \<forall>k. Suc pt \<le> k \<and> k < 512 \<longrightarrow> occupied s [i4, i3, i2, k]"
      using Suc.IH[OF _ s(2), of "Suc pt", unfolded o s(1)] Suc.prems(1,3) by simp blast
    then have "pt_loop i4 i3 i2 pt (Suc n) s = ret (r, set_window f s)" using e False by auto
    moreover have "case r of Some k \<Rightarrow> pt \<le> k \<and> k < 512 \<and> \<not> occupied s [i4, i3, i2, k]
       | None \<Rightarrow> \<forall>k. pt \<le> k \<and> k < 512 \<longrightarrow> occupied s [i4, i3, i2, k]"
    proof (cases r)
      case None
      have "occupied s [i4, i3, i2, k]" if "pt \<le> k" "k < 512" for k
        using r None that e(2) False by (cases "k = pt") auto
      then show ?thesis using None by simp
    next
      case (Some k)
      then show ?thesis using r by simp
    qed
    ultimately show ?thesis by auto
  qed
qed auto

text \<open>The pages of 64 tables cannot all have a frame.\<close>

lemma table_not_full:
  assumes I: "page_inv s U"
  shows "\<exists>p < 64. \<exists>k < 512. \<not> occupied s [1, 0, p, k]"
proof (rule ccontr)
  assume "\<not> (\<exists>p < 64. \<exists>k < 512. \<not> occupied s [1, 0, p, k])"
  then have full: "occupied s [1, 0, p, k]" if "p < 64" "k < 512" for p k using that by blast
  let ?X = "({..<64} \<times> {..<512}) - {(0 :: nat, 60 :: nat)}"
  have ex: "\<exists>f. f < NFRAMES \<and> pages s [1, 0, fst x, snd x] = Some (of_nat (4096 * f))" if "x \<in> ?X" for x
  proof -
    from that have "occupied s [1, 0, fst x, snd x]" "[1, 0, fst x, snd x] \<noteq> window_path"
      using full by (auto simp: window_path_def prod_eq_iff)
    then obtain F where F: "pages s [1, 0, fst x, snd x] = Some F" by (auto simp: occupied_def)
    then show ?thesis using page_invD(6)[OF I F] by (auto simp: used_def taken_def)
  qed
  define h where "h x = (SOME f. f < NFRAMES \<and> pages s [1, 0, fst x, snd x] = Some (of_nat (4096 * f)))" for x
  have h: "h x < NFRAMES \<and> pages s [1, 0, fst x, snd x] = Some (of_nat (4096 * h x))" if "x \<in> ?X" for x
    unfolding h_def by (rule someI_ex[OF ex[OF that]])
  have "inj_on h ?X"
  proof (rule inj_onI)
    fix x y assume xy: "x \<in> ?X" "y \<in> ?X" and e: "h x = h y"
    have "[1, 0, fst x, snd x] = [1, 0, fst y, snd y]"
      by (rule leaf_injD[OF page_invD(5)[OF I] conjunct2[OF h[OF xy(1)]] conjunct2[OF h[OF xy(2), folded e]]]) simp_all
    then show "x = y" by (simp add: prod_eq_iff)
  qed
  moreover have "h ` ?X \<subseteq> {..<NFRAMES}" using h by auto
  ultimately have "card ?X \<le> card {..<NFRAMES}" by (rule card_inj_on_le) simp
  moreover have "card ?X = 64 * 512 - 1"
    by (subst card_Diff_singleton) (simp_all add: card_cartesian_product)
  ultimately show False by (simp add: NFRAMES_def)
qed

text \<open>Nothing changes for user programs: the kernel's half begins at the first-level index 1.\<close>

definition user_half :: "nat list \<Rightarrow> bool" where
  "user_half q \<longleftrightarrow> q = [] \<or> hd q = 0"

lemma next_pde_ret:
  assumes I: "page_inv s U" and PA: "PA_CALLING s \<noteq> 0" and h: "pages s [1, 0] = Some h" and j: "pde + 1 < 512" "pages s [1, 0, pde + 1] = None"
    and a: "flag_bits (a_magic2 a)"
  shows "if pool s = {} then next_pde (KPALLOC no_more_pages) a 1 0 pde s = stop (ERROR ERR_KPALLOC_NOFREE 0)
    else \<exists>t F. next_pde (KPALLOC no_more_pages) a 1 0 pde s = ret (Some (vaddr 1 0 (pde + 1) 0), put_quad (quad F 0) (a_leaf a) t) \<and>
      page_inv t U \<and> supplied 0 user_half U s t \<and> pages t [1, 0, pde + 1] = Some F \<and> pages t [1, 0, pde + 1, 0] = None"
proof (cases "pool s = {}")
  case True
  then show ?thesis using KPALLOC_inner[OF PA] by (simp add: next_pde_def new_table_def)
next
  case False
  let ?kp = "KPALLOC no_more_pages"
  let ?p = "[1, 0, pde + 1]"
  obtain M t0 where M: "?kp s = Inr (M, t0)" using KPALLOC_inner[OF PA] False by auto
  have sp: "spare t0 M" using inner.supplies[OF I _ M] by simp
  obtain F0 where "pages t0 (path M) = Some F0" using spareD(6)[OF sp] by blast
  from memfill_virt_ret[OF this spareD(1)[OF sp]] M obtain s2 where n: "new_table ?kp s = ret (M, s2)"
    by (simp add: new_table_def)
  have p: "[1, 0] @ [pde + 1] = ?p" by simp
  from inner.link_new[OF I _ n h _ j(1) _ _ a, unfolded p] j(2) obtain F g where
    v: "V2P M s2 = ret (F, set_window g s2)" "pages s2 [1, 0] = Some h" "tree_ok (ptab s2)"
      "made 0 (\<lambda>_. True) ?p U s (put_quad (quad h (pde + 1)) (F OR a_magic2 a) (set_window h s2))"
      "pages (put_quad (quad h (pde + 1)) (F OR a_magic2 a) (set_window h s2)) = (pages s2)(?p := Some F)"
      "pages s2 (path M) = Some F" "page_aligned M" "pages s2 ?p = None" by auto
  let ?t = "put_quad (quad h (pde + 1)) (F OR a_magic2 a) (set_window h s2)"
  have l: "link_pde 1 0 (pde + 1) M (a_magic2 a) s2 = ret ?t"
    by (rule link_pde_ret[OF v(1,2,3)]) (use j(1) in simp_all)
  have "pages ?t (path M) = Some F" unfolding v(5) using v(6) by (simp add: path_def)
  then have "store_virt M (a_leaf a) ?t = ret (put_quad (quad F 0) (a_leaf a) ?t)" by (rule store_virt_ret[OF _ v(7)])
  then have "next_pde ?kp a 1 0 pde s = ret (Some (vaddr 1 0 (pde + 1) 0), put_quad (quad F 0) (a_leaf a) ?t)"
    using l unfolding next_pde_def n bindR_simps prod.case l by simp
  moreover have "pages s2 (?p @ [0]) = None" using view_prefix[of "ptab s2" ?p "[0]"] v(8) by fastforce
  then have "pages ?t [1, 0, pde + 1, 0] = None" unfolding v(5) by simp
  moreover have "pages ?t ?p = Some F" unfolding v(5) by simp
  moreover have "page_inv ?t U" "supplied 0 user_half U s ?t"
    using v(4) by (auto simp: made_def user_half_def elim: supplied_weaken)
  ultimately show ?thesis using False by (simp only: if_False) blast
qed

text \<open>The loop over the tables of the first gigabyte.\<close>

lemma occupied_window: "tree_ok (ptab s) \<Longrightarrow> occupied (set_window f s) = occupied s"
  by (simp add: fun_eq_iff occupied_def)

lemma pde_loop_ok:
  assumes a: "flag_bits (a_magic2 a)"
  shows "pde + n = 512 \<Longrightarrow> pde < 64 \<Longrightarrow> page_inv s U \<Longrightarrow> PA_CALLING s \<noteq> 0 \<Longrightarrow> pages s [1, 0] = Some h \<Longrightarrow> pages s [1, 0, pde] = Some f \<Longrightarrow>
    (\<And>p k. p < pde \<Longrightarrow> k < 512 \<Longrightarrow> occupied s [1, 0, p, k]) \<Longrightarrow>
    pool s = {} \<and> pde_loop (KPALLOC no_more_pages) a 1 0 pde n s = stop (ERROR ERR_KPALLOC_NOFREE 0) \<or>
    (\<exists>t i2 i1 F. pde_loop (KPALLOC no_more_pages) a 1 0 pde n s = ret (Some (vaddr 1 0 i2 i1), put_quad (quad F i1) (a_leaf a) t) \<and>
      page_inv t U \<and> supplied 0 user_half U s t \<and> pages t [1, 0, i2] = Some F \<and> i2 < 512 \<and> i1 < 512 \<and> \<not> occupied t [1, 0, i2, i1])"
proof (induction n arbitrary: pde s f)
  case (Suc n)
  let ?kp = "KPALLOC no_more_pages"
  note I = Suc.prems(3) and f = Suc.prems(6)
  note T = page_invD(4)[OF I]
  let ?s = "set_window h s"
  have pd: "pde < 512" using Suc.prems(1) by simp
  have w: "walk_to (ptab s) [1, 0] = Some h" using view_Some[OF Suc.prems(5)] by simp
  have "ptab s (quad h pde) AND 1 \<noteq> 0"
    using entry_present[OF T Suc.prems(5), of pde] f pd by (auto simp: window_path_def split: if_splits)
  then have m: "make_pde ?kp (a_magic a) 1 0 pde s = ret ?s"
    using get_pdeV_ret(1)[OF T w, of pde] pd by (simp add: make_pde_def)
  have s: "pages ?s = pages s" "tree_ok (ptab ?s)" using T by simp_all
  obtain r t where r: "pt_loop 1 0 pde 0 512 ?s = ret (r, t)" "t = set_window f s"
    "case r of Some k \<Rightarrow> 0 \<le> k \<and> k < 512 \<and> \<not> occupied s [1, 0, pde, k] | None \<Rightarrow> \<forall>k. 0 \<le> k \<and> k < 512 \<longrightarrow> occupied s [1, 0, pde, k]"
    using pt_loop_ret[OF s(2), of 1 0 pde f 0 512, unfolded occupied_window[OF T] s(1)] f pd by auto
  have t: "pages t = pages s" "page_inv t U" "occupied t = occupied s" "tree_ok (ptab t)"
    using T I occupied_window[OF T] by (simp_all add: r(2))
  have St: "supplied 0 user_half U s t" using supplied_window[OF T] by (simp add: r(2))
  show ?case
  proof (cases r)
    case (Some k)
    then have k: "k < 512" "\<not> occupied s [1, 0, pde, k]" using r(3) by simp_all
    have "walk_to (ptab t) [1, 0, pde] = Some f" using view_Some[of "ptab t" "[1, 0, pde]" f] f t(1) by simp
    from get_ptV_ret(2)[OF t(4) this] pd k(1) have gv: "get_pdeVP 1 0 pde t = ret t" by (simp add: r(2))
    then have "pde_loop ?kp a 1 0 pde (Suc n) s = ret (Some (vaddr 1 0 pde k), put_quad (quad f k) (a_leaf a) t)"
      unfolding pde_loop.simps m bindR_simps r(1) prod.case Some option.case gv
      using view_aligned[OF f] by (simp add: put_window_def r(2))
    then show ?thesis using t St f k pd by (intro disjI2 exI[of _ t] exI[of _ pde] exI[of _ k] exI[of _ f]) simp
  next
    case None
    then have full: "occupied s [1, 0, p, k]" if "p < pde + 1" "k < 512" for p k
      using r(3) Suc.prems(7)[of p k] that by (cases "p = pde") auto
    have pde: "pde + 1 < 64"
    proof (rule ccontr)
      assume "\<not> pde + 1 < 64"
      then have "pde + 1 = 64" using Suc.prems(2) by simp
      then show False using table_not_full[OF I] full by auto
    qed
    have w': "walk_to (ptab t) [1, 0] = Some h" using view_Some[of "ptab t" "[1, 0]" h] Suc.prems(5) t(1) by simp
    have g: "get_pdeV 1 0 (pde + 1) t = ret (ptab t (quad h (pde + 1)), ?s)"
      using get_pdeV_ret(1)[OF t(4) w', of "pde + 1"] pde by (simp add: r(2))
    have e: "ptab t (quad h (pde + 1)) AND 1 = 0 \<longleftrightarrow> pages s [1, 0, pde + 1] = None"
      using entry_present[OF t(4), of "[1, 0]" h "pde + 1"] pde Suc.prems(5) t(1) by (auto simp: window_path_def)
    have Is: "page_inv ?s U" "PA_CALLING ?s \<noteq> 0" "pages ?s [1, 0] = Some h" "pool ?s = pool s"
      using I T Suc.prems(4,5) by (simp_all add: pool_def)
    have Ss: "supplied 0 user_half U s ?s" by (rule supplied_window[OF T])
    have step: "pde_loop ?kp a 1 0 pde (Suc n) s =
       (if pages s [1, 0, pde + 1] = None then next_pde ?kp a 1 0 pde ?s else pde_loop ?kp a 1 0 (pde + 1) n ?s)"
      unfolding pde_loop.simps m bindR_simps r(1) prod.case None option.case using pde unfolding g e[symmetric] by simp
    show ?thesis
    proof (cases "pages s [1, 0, pde + 1]")
      case None
      from next_pde_ret[OF Is(1-3), of pde a] a pde None s(1)
      consider "pool s = {}" "next_pde ?kp a 1 0 pde ?s = stop (ERROR ERR_KPALLOC_NOFREE 0)"
        | t F where "next_pde ?kp a 1 0 pde ?s = ret (Some (vaddr 1 0 (pde + 1) 0), put_quad (quad F 0) (a_leaf a) t)"
          "page_inv t U" "supplied 0 user_half U ?s t" "pages t [1, 0, pde + 1] = Some F" "pages t [1, 0, pde + 1, 0] = None"
        unfolding Is(4) by (auto split: if_splits)
      then show ?thesis
      proof cases
        case 1
        then show ?thesis using step None by simp
      next
        case 2
        have "supplied 0 user_half U s t" using supplied_trans[OF Ss 2(3)] by simp
        then show ?thesis using step None 2 pde
          by (intro disjI2 exI[of _ t] exI[of _ "pde + 1"] exI[of _ 0] exI[of _ F]) (simp add: occupied_def window_path_def)
      qed
    next
      case (Some f')
      note Suc.IH[OF _ pde Is(1-3), of f', unfolded occupied_window[OF T] s(1) Is(4)]
      from this Some full Suc.prems(1)
      have ih: "pool s = {} \<and> pde_loop ?kp a 1 0 (pde + 1) n ?s = stop (ERROR ERR_KPALLOC_NOFREE 0) \<or>
        (\<exists>t i2 i1 F. pde_loop ?kp a 1 0 (pde + 1) n ?s = ret (Some (vaddr 1 0 i2 i1), put_quad (quad F i1) (a_leaf a) t) \<and>
        page_inv t U \<and> supplied 0 user_half U ?s t \<and> pages t [1, 0, i2] = Some F \<and> i2 < 512 \<and> i1 < 512 \<and> \<not> occupied t [1, 0, i2, i1])"
        by simp
      have "supplied 0 user_half U s t" if "supplied 0 user_half U ?s t" for t using supplied_trans[OF Ss that] by simp
      then show ?thesis using ih step Some by auto
    qed
  qed
qed simp

subsection \<open>KP_ALLOC3\<close>

lemma PA_CALLING_irrelevant:
  "pages (s\<lparr>PA_CALLING := x\<rparr>) = pages s" "page_inv (s\<lparr>PA_CALLING := x\<rparr>) U = page_inv s U" "spare (s\<lparr>PA_CALLING := x\<rparr>) = spare s"
  "used (s\<lparr>PA_CALLING := x\<rparr>) = used s" "free_frames (s\<lparr>PA_CALLING := x\<rparr>) = free_frames s" "supplied 0 k U s (s\<lparr>PA_CALLING := x\<rparr>)"
  "taken (s\<lparr>PA_CALLING := x\<rparr>) = taken s" "pool (s\<lparr>PA_CALLING := x\<rparr>) = pool s"
proof -
  have l: "ldq (s\<lparr>PA_CALLING := x\<rparr>) = ldq s" by (simp add: fun_eq_iff ldq_def)
  show p: "pages (s\<lparr>PA_CALLING := x\<rparr>) = pages s" by simp
  show "page_inv (s\<lparr>PA_CALLING := x\<rparr>) U = page_inv s U" "spare (s\<lparr>PA_CALLING := x\<rparr>) = spare s"
    "used (s\<lparr>PA_CALLING := x\<rparr>) = used s" "free_frames (s\<lparr>PA_CALLING := x\<rparr>) = free_frames s" "taken (s\<lparr>PA_CALLING := x\<rparr>) = taken s"
    using page_inv_cong[OF l p] by (auto simp: fun_eq_iff)
  show "supplied 0 k U s (s\<lparr>PA_CALLING := x\<rparr>)" by (rule supplied_same[OF p l])
  show "pool (s\<lparr>PA_CALLING := x\<rparr>) = pool s" by (simp add: pool_def l)
qed

lemma low_tables:
  assumes "tree_ok (ptab s)"
  shows "\<exists>g h. pages s [1] = Some g \<and> pages s [1, 0] = Some h \<and> pages s [1, 0, 0] = Some LOW_TABLE"
  using tree_low[OF assms] walk_prefix[of "ptab s" "[1]" "[0, 0]"] walk_prefix[of "ptab s" "[1, 0]" "[0]"]
  by (simp add: view_table)

text \<open>What \<open>KP_ALLOC3\<close> does to the mapping, for the first free frame \<open>f\<close> and the address \<open>v\<close> it returns.\<close>

definition new_kernel_page :: "addr set \<Rightarrow> 'a paged_scheme \<Rightarrow> addr \<Rightarrow> nat \<Rightarrow> 'a paged_scheme \<Rightarrow> bool" where
  "new_kernel_page U s v f s' \<longleftrightarrow> first_free s f \<and> pages s (path v) = None \<and> pages s' (path v) = Some (of_nat (4096 * f)) \<and>
     pml4_ix v = 1 \<and> pdpt_ix v = 0 \<and> v \<notin> U \<and> page_inv s' (insert v U) \<and> spare s' v \<and> supplied 1 user_half U s s'"

lemma found_page:
  assumes I: "page_inv s U" and n: "supplied 1 (\<lambda>_. True) U s s1" "used s1 (of_nat (4096 * f))" "\<not> used s (of_nat (4096 * f))"
      "\<And>q. pages s1 q \<noteq> Some (of_nat (4096 * f))"
    and t: "page_inv t U" "supplied 0 user_half U s1 t" "pages t [1, 0, i2] = Some F" "i2 < 512" "i1 < 512" "\<not> occupied t [1, 0, i2, i1]"
    and f: "first_free s f" and s': "s' = put_quad (quad F i1) (0x1000 * of_nat f OR 0x1) t"
  shows "new_kernel_page U s (vaddr 1 0 i2 i1) f s'"
proof -
  let ?v = "vaddr 1 0 i2 i1"
  have pv: "path ?v = [1, 0, i2] @ [i1]" "page_aligned ?v" using path_vaddr[of 1 0 i2 i1] t(4,5) by simp_all
  have lt: "unat ?v < 2 ^ 48" using unat_vaddr[of 1 0 i2 i1] t(4,5) by simp
  have ix: "pml4_ix ?v = 1" "pdpt_ix ?v = 0" using pv(1) by (simp_all add: path_def)
  have o: "pages t ([1, 0, i2] @ [i1]) = None" "[1, 0, i2] @ [i1] \<noteq> window_path"
    using t(6) by (simp_all add: occupied_def)
  note l = place_ok[OF I n t(2,1,3) _ t(5) o leaf_entry[of 1 f] s']
  have "supplied 1 user_half U s s'" using l(4) by (auto simp: user_half_def elim: supplied_weaken)
  then show ?thesis
    unfolding new_kernel_page_def pv(1) using l(1,2) l(5)[OF _ _ _ pv lt] l(6)[OF _ _ _ pv lt] ix f by simp
qed

lemma KP_ALLOC3_cases:
  assumes I: "page_inv s U" and c: "0 < card (free_frames s)"
  shows "pool s = {} \<and> KP_ALLOC3 s = Inl (ERROR ERR_KPALLOC_NOFREE 0) \<or>
    (\<exists>v f s'. KP_ALLOC3 s = Inr (v, s') \<and> new_kernel_page U s v f s')"
proof -
  let ?kp = "KPALLOC no_more_pages" and ?s = "s\<lparr>PA_CALLING := 1\<rparr>"
  have I0: "page_inv ?s U" and c0: "0 < card (free_frames ?s)" using I c by (simp_all add: PA_CALLING_irrelevant)
  from new_frame_ret[OF page_invD(3)[OF I0] c0, of ?kp] obtain f0 where nf: "new_frame ?kp ?s = ret (of_nat f0, mark f0 True ?s)" and f0: "f0 < NFRAMES" by (auto simp: first_free_def)
  let ?t = "mark f0 True ?s"
  from new_frame_ok[OF I0 c0 nf] obtain f where f: "of_nat f0 = (of_nat f :: u64)" "first_free ?s f" "page_inv ?t U" "supplied 1 (\<lambda>_. True) U ?s ?t"
    "used ?t (of_nat (4096 * f))" "\<not> used ?s (of_nat (4096 * f))" "\<And>q. pages ?t q \<noteq> Some (of_nat (4096 * f))" by blast
  have S1: "supplied 1 (\<lambda>_. True) U s ?t" using supplied_trans[OF PA_CALLING_irrelevant(6) f(4)] by simp
  have ff: "first_free s f" using f(2) by (simp add: first_free_def PA_CALLING_irrelevant)
  let ?a = "\<lparr>a_magic = 0x1, a_magic2 = 0x23, a_leaf = 0x1000 * of_nat f OR 0x1, a_top = 511\<rparr>"
  note T = page_invD(4)[OF f(3)]
  obtain g h where gh: "pages ?t [1] = Some g" "pages ?t [1, 0] = Some h" "pages ?t [1, 0, 0] = Some LOW_TABLE"
    using low_tables[OF T] by blast
  have "get_pml4V 1 ?t AND 1 \<noteq> 0"
    using entry_present[OF T pages_root, of 1] gh(1) by (auto simp: get_pml4V_def window_consts window_path_def split: if_splits)
  then have m4: "make_pml4 ?kp (a_magic ?a) 1 ?t = ret ?t" by (simp add: make_pml4_def)
  let ?u = "set_window g ?t"
  have "walk_to (ptab ?t) [1] = Some g" using view_Some[OF gh(1)] by simp
  from get_pdptV_ret(1)[OF T this, of 0] entry_present[OF T gh(1), of 0] gh(2)
  have m3: "make_pdpt ?kp (a_magic ?a) 1 0 ?t = ret ?u" by (auto simp: make_pdpt_def window_path_def split: if_splits)
  have u: "page_inv ?u U" "pages ?u = pages ?t" "PA_CALLING ?u \<noteq> 0" using T f(3) by simp_all
  have pu: "pool ?u = pool s"
  proof -
    have "ldq ?u (slot i) = ldq s (slot i)" if "i < 512" for i
      using mark_other[of f0 "slot i" True ?s] slot_page[OF that] f0 by (simp add: POOL_def PL_MAP_START_def ldq_def)
    then show ?thesis by (auto simp: pool_def)
  qed
  have run: "KP_ALLOC3_run s = bindR (bindR (pml4_loop ?kp ?a 1 511 ?t) alloc3_result) (\<lambda>(v, s). ret (v, s\<lparr>PA_CALLING := 0\<rparr>))"
    unfolding KP_ALLOC3_run_def Let_def nf bindR_simps prod.case f(1) bindR_assoc ..
  have l4: "pml4_loop ?kp ?a 1 511 ?t = bindR (pdpt_loop ?kp ?a 1 0 512 ?t) (\<lambda>(r, s).
     case r of Some v \<Rightarrow> ret (Some v, s) | None \<Rightarrow> pml4_loop ?kp ?a (1 + 1) 510 s)"
    using pml4_loop.simps(2)[of ?kp ?a 1 510 ?t] unfolding m4 bindR_simps by simp
  have l3: "pdpt_loop ?kp ?a 1 0 512 ?t = bindR (pde_loop ?kp ?a 1 0 0 512 ?u) (\<lambda>(r, s).
     case r of Some v \<Rightarrow> ret (Some v, s) | None \<Rightarrow> pdpt_loop ?kp ?a 1 (0 + 1) 511 s)"
    using pdpt_loop.simps(2)[of ?kp ?a 1 0 511 ?t] unfolding m3 bindR_simps by simp
  from pde_loop_ok[of ?a 0 512 ?u U h LOW_TABLE] u gh
  consider "pool s = {}" "pde_loop ?kp ?a 1 0 0 512 ?u = stop (ERROR ERR_KPALLOC_NOFREE 0)"
    | t i2 i1 F where "pde_loop ?kp ?a 1 0 0 512 ?u = ret (Some (vaddr 1 0 i2 i1), put_quad (quad F i1) (a_leaf ?a) t)"
      "page_inv t U" "supplied 0 user_half U ?u t" "pages t [1, 0, i2] = Some F" "i2 < 512" "i1 < 512" "\<not> occupied t [1, 0, i2, i1]"
    unfolding pu by auto
  then show ?thesis
  proof cases
    case 1
    then have "KP_ALLOC3 s = Inl (ERROR ERR_KPALLOC_NOFREE 0)"
      by (simp only: KP_ALLOC3_def run l4 l3 bindR_simps stop_def option.case)
    then show ?thesis using 1(1) by blast
  next
    case 2
    let ?w = "put_quad (quad F i1) (a_leaf ?a) t" and ?v = "vaddr 1 0 i2 i1"
    have "supplied 0 user_half U ?t t" using supplied_trans[OF supplied_window[OF T] 2(3)] by simp
    from found_page[OF I S1 f(5) _ f(7) 2(2) this 2(4-7) ff] f(6)
    have k: "new_kernel_page U s ?v f ?w" by (simp add: PA_CALLING_irrelevant)
    have S: "supplied 1 user_half U s (?w\<lparr>PA_CALLING := 0\<rparr>)"
      using supplied_trans[OF _ PA_CALLING_irrelevant(6), of 1 user_half U s ?w 1 user_half user_half 0] k by (simp add: new_kernel_page_def)
    have "new_kernel_page U s ?v f (?w\<lparr>PA_CALLING := 0\<rparr>)"
      using k S unfolding new_kernel_page_def PA_CALLING_irrelevant by blast
    moreover have "KP_ALLOC3 s = Inr (?v, ?w\<lparr>PA_CALLING := 0\<rparr>)"
      by (simp only: KP_ALLOC3_def run l4 l3 2(1) bindR_simps prod.case option.case alloc3_result_def fst_conv snd_conv ret_def)
    ultimately show ?thesis by blast
  qed
qed

subsection \<open>The allocators as the code links them\<close>

lemma pml4_ix_0: "pml4_ix 0 = 0"
  by (simp add: ix_eq)

interpretation kp3: page_supply KP_ALLOC3 1 user_half
proof
  fix s :: "'a paged_scheme" and U M s'
  assume I: "page_inv s U" and c: "1 \<le> card (free_frames s)" and r: "KP_ALLOC3 s = Inr (M, s')"
  have "0 < card (free_frames s)" using c by simp
  from KP_ALLOC3_cases[OF I this] r obtain f where n: "new_kernel_page U s M f s'" by auto
  then have "M \<noteq> 0" using pml4_ix_0 by (auto simp: new_kernel_page_def)
  then show "supplied 1 user_half U s s' \<and> page_inv s' (insert M U) \<and> M \<notin> U \<and> M \<noteq> 0 \<and> spare s' M"
    using n by (simp add: new_kernel_page_def)
qed

interpretation pool: page_supply "KPALLOC KP_ALLOC3" 64 user_half
  using kp3.KPALLOC_supply by simp

lemma below_CBASE: "unat v < 2 ^ 39 \<Longrightarrow> pml4_ix v = 0"
  by (simp add: ix_eq)

lemma user_prefix: "unat v < 2 ^ 39 \<Longrightarrow> prefix q (path v) \<Longrightarrow> user_half q"
  using below_CBASE[of v] by (cases q) (auto simp: user_half_def path_def)

lemma user_not_window: "unat v < 2 ^ 39 \<Longrightarrow> path v \<noteq> window_path"
  using below_CBASE[of v] by (auto simp: path_def window_path_def)

text \<open>The abstract state of a user program's memory, as \<open>Exec\<close> has it: the set of its mapped pages.\<close>

definition mapped_user :: "'a paged_scheme \<Rightarrow> addr set" where
  "mapped_user s = {p. page_aligned p \<and> unat p < 2 ^ 39 \<and> pages s (path p) \<noteq> None}"

lemma path_eq_user: "page_aligned p \<Longrightarrow> page_aligned v \<Longrightarrow> unat p < 2 ^ 39 \<Longrightarrow> unat v < 2 ^ 39 \<Longrightarrow> path p = path v \<longleftrightarrow> p = v"
  using path_inj[of p v] by auto

lemma ALSP_user:
  assumes I: "page_inv s U" "193 \<le> card (free_frames s)" and r: "ALSP (KPALLOC KP_ALLOC3) v fl m1 m2 s = ret s'"
    and v: "page_aligned v" "unat v < 2 ^ 39" and m: "odd m1" "odd m2"
  shows "v \<notin> mapped_user s" "mapped_user s' = insert v (mapped_user s)" "page_inv s' U" "grows s s'"
    "card (free_frames s) \<le> card (free_frames s') + 193"
    "\<exists>f. first_free s f \<and> pages s' (path v) = Some (of_nat (4096 * f)) \<and> own_bit s' (path v) f \<and> page_inv s' (insert v U)"
proof -
  from pool.ALSP_ok[OF I(1) _ r user_prefix[OF v(2)] user_not_window[OF v(2)] m] I(2) obtain f where
    l: "pages s (path v) = None" "pages s' (path v) = Some (of_nat (4096 * f))" "page_inv s' U"
      "supplied 193 (\<lambda>q. user_half q \<and> \<not> prefix q (path v)) U s s'"
    and f: "first_free s f" "own_bit s' (path v) f" "page_inv s' (insert v U)" using v by auto
  then show "\<exists>f. first_free s f \<and> pages s' (path v) = Some (of_nat (4096 * f)) \<and> own_bit s' (path v) f \<and> page_inv s' (insert v U)"
    by blast
  show "v \<notin> mapped_user s" "page_inv s' U" using l by (simp_all add: mapped_user_def)
  show "grows s s'" "card (free_frames s) \<le> card (free_frames s') + 193" using suppliedD(1,3)[OF l(4)] .
  have "pages s' (path p) = pages s (path p)" if "page_aligned p" "unat p < 2 ^ 39" "p \<noteq> v" for p
  proof (rule suppliedD(2)[OF l(4)])
    have "path p \<noteq> path v" using path_eq_user[of p v] that v by blast
    then have "\<not> prefix (path p) (path v)" by (auto simp: path_def)
    then show "user_half (path p) \<and> \<not> prefix (path p) (path v)" using user_prefix[OF that(2), of "path p"] by simp
  qed
  then have "x \<in> mapped_user s' \<longleftrightarrow> x \<in> insert v (mapped_user s)" for x
    using v l(2) by (cases "x = v") (auto simp: mapped_user_def)
  then show "mapped_user s' = insert v (mapped_user s)" by blast
qed

lemma next_page:
  assumes "page_aligned v" "unat v + 4096 * Suc n \<le> 2 ^ 39"
  shows "page_aligned (v + 0x1000)" "unat (v + 0x1000) + 4096 * n \<le> 2 ^ 39"
proof -
  have "unat (v + 0x1000) = unat v + 4096" by (subst unat_add_lem[THEN iffD1]) (use assms(2) in simp_all)
  then show "page_aligned (v + 0x1000)" "unat (v + 0x1000) + 4096 * n \<le> 2 ^ 39" using assms by (simp_all add: page_aligned_unat)
qed

lemma ALSP_loop_user:
  assumes "page_inv s U" "193 * n \<le> card (free_frames s)" "ALSP_loop (KPALLOC KP_ALLOC3) v fl m1 m2 n s = ret s'"
    "page_aligned v" "unat v + 4096 * n \<le> 2 ^ 39" "odd m1" "odd m2"
  shows "mapped_user s' = mapped_user s \<union> (\<lambda>i. v + 0x1000 * of_nat i) ` {..<n} \<and>
    mapped_user s \<inter> (\<lambda>i. v + 0x1000 * of_nat i) ` {..<n} = {} \<and> page_inv s' U \<and> grows s s'"
  using assms
proof (induction n arbitrary: v s)
  case 0
  then show ?case by (simp add: grows_refl)
next
  case (Suc n)
  obtain t where t: "ALSP (KPALLOC KP_ALLOC3) v fl m1 m2 s = ret t" and r: "ALSP_loop (KPALLOC KP_ALLOC3) (v + 0x1000) fl m1 m2 n t = ret s'"
    using Suc.prems(3) by (auto simp: bindR_ret_iff)
  have lt: "unat v < 2 ^ 39" "193 \<le> card (free_frames s)" using Suc.prems(2,5) by simp_all
  note a = ALSP_user[OF Suc.prems(1) lt(2) t Suc.prems(4) lt(1) Suc.prems(6,7)]
  note nx = next_page[OF Suc.prems(4,5)]
  have "193 * n \<le> card (free_frames t)" using a(5) Suc.prems(2) by simp
  note ih = Suc.IH[OF a(3) this r nx Suc.prems(6,7)]
  have "(\<lambda>i. v + 0x1000 * of_nat i) ` {..<Suc n} = insert v ((\<lambda>i. v + 0x1000 + 0x1000 * of_nat i) ` {..<n})"
    unfolding lessThan_Suc_eq_insert_0 by (simp add: image_image algebra_simps)
  then show ?case using ih a grows_trans[OF a(4)] by auto
qed

end
