(* ===== verification/PageFree.thy ===== *)
theory PageFree
  imports KernelPages
begin

section \<open>Giving pages back, and the tables after boot\<close>

text \<open>
  \<open>P_FREE\<close> takes a page out of its table and clears the bit of its frame. As two frames of a quad share a
  bit, the bit may be cleared only if no other page has a frame with the same bit; this holds for every frame
  \<open>PL_FN\<close> returned.
\<close>

subsection \<open>P_FREE\<close>

lemma drop_frame: "f < NFRAMES \<Longrightarrow> drop_bit 12 (of_nat (4096 * f) :: u64) = of_nat f"
proof -
  assume f: "f < NFRAMES"
  have e: "unat (of_nat (4096 * f) :: u64) = 4096 * f" by (rule unat_of_nat_small) (use f in \<open>simp add: NFRAMES_def\<close>)
  have "unat (drop_bit 12 (of_nat (4096 * f) :: u64)) = drop_bit 12 (4096 * f)" by (simp only: unat_drop_bit_eq e)
  also have "\<dots> = f" by (simp add: drop_bit_eq_div)
  finally have "unat (drop_bit 12 (of_nat (4096 * f) :: u64)) = unat (of_nat f :: u64)"
    using of_nat_frame(1)[OF f] by simp
  then show ?thesis by (rule word_unat_eq_iff[THEN iffD2])
qed

lemma P_FREE_ok:
  assumes I: "page_inv s U" and p: "pages s (path v) = Some (of_nat (4096 * f))" "f < NFRAMES"
    and v: "page_aligned v" "even (pdpt_ix v)" "v \<notin> pool s" "v \<noteq> POOL" "v \<noteq> PL_MAP_START" "unat v < 2 ^ 48"
    and own: "own_bit s (path v) f"
  shows "\<exists>s'. P_FREE kpalloc v s = ret s' \<and> pages s' = (pages s)(path v := None) \<and> page_inv s' (U - {v}) \<and>
    (\<forall>g. taken s' g \<longleftrightarrow> taken s g \<and> \<not> same_bit f g)"
proof -
  let ?F = "of_nat (4096 * f) :: addr"
  note T = page_invD(4)[OF I]
  obtain g where g: "V2P v s = ret (?F, set_window g s)" "pages s [pml4_ix v, pdpt_ix v, pde_ix v] = Some g"
    using V2P_ret[OF T p(1) v(1,2)] by blast
  let ?s1 = "mark f False (set_window g s)"
  have sv: "PL_SV kpalloc (drop_bit 12 ?F) 0 (set_window g s) = ret ?s1"
    using PL_SV_ret[OF p(2), of kpalloc 0 "set_window g s"] drop_frame[OF p(2)] by simp
  have T1: "tree_ok (ptab ?s1)" and v1: "pages ?s1 = pages s" using T by simp_all
  have "walk_to (ptab ?s1) [pml4_ix v, pdpt_ix v, pde_ix v] = Some g"
    using view_Some[of "ptab ?s1" "[pml4_ix v, pdpt_ix v, pde_ix v]" g] g(2) v1 by simp
  from get_ptV_ret(2)[OF T1 this, of 0] have w: "get_pdeVP (pml4_ix v) (pdpt_ix v) (pde_ix v) ?s1 = ret (set_window g ?s1)" by simp
  let ?s2 = "set_window g ?s1"
  define t where t: "t = put_quad (quad g (pt_ix v)) 0 ?s2"
  have r: "P_FREE kpalloc v s = ret t"
    using view_aligned[OF g(2)] unfolding P_FREE_def Let_def g(1) bindR_simps prod.case sv w by (simp add: put_window_def t)
  have T2: "tree_ok (ptab ?s2)" "view (ptab ?s2) = pages s" using T by simp_all
  have vw: "[pml4_ix v, pdpt_ix v, pde_ix v] @ [pt_ix v] \<noteq> window_path" using view_Some[OF p(1)] by (simp add: path_def)
  have g2: "view (ptab ?s2) [pml4_ix v, pdpt_ix v, pde_ix v] = Some g" using g(2) T2(2) by simp
  note l = view_leaf[OF T2(1) g2 _ _ vw, of 0]
  have P: "pages t = (pages s)(path v := None)"
    using l(1) T2(2) unfolding t put_quad_fields(1) by (simp add: path_def)
  have tk: "taken t h \<longleftrightarrow> taken s h \<and> \<not> same_bit f h" for h
  proof -
    have "taken t h = taken (mark f False (set_window g s)) h" by (simp add: taken_def plq_def t)
    also have "\<dots> \<longleftrightarrow> \<not> same_bit f h \<and> taken (set_window g s) h" unfolding taken_mark[OF p(2)] same_bit_def by auto
    finally show ?thesis by (auto simp: taken_def plq_def)
  qed
  have sl: "ldq t (slot i) = ldq s (slot i)" if "i < 512" for i
    using mark_other[OF p(2), of "slot i" False "set_window g s"] slot_page[OF that] by (simp add: POOL_def PL_MAP_START_def t)
  then have pl: "pool t = pool s" by (auto simp: pool_def)
  have "page_inv t (U - {v})"
    unfolding page_inv_def
  proof (intro conjI allI impI ballI)
    show "pool_held t (U - {v})"
      using pool_held_cong[OF page_invD(1)[OF I], of t] sl unfolding pool_held_def by simp
    show "PL_MAP_START \<in> U - {v}" using page_invD(2)[OF I] v(5) by simp
    show "uniform t"
    proof -
      have "uniform (set_window g s)" using page_invD(3)[OF I] same_bitmap(4)[of "set_window g s" s] by (simp add: plq_def)
      then have "uniform ?s1" by (rule uniform_mark[OF p(2)])
      then show ?thesis using same_bitmap(4)[of t ?s1] by (simp add: plq_def t)
    qed
    show "tree_ok (ptab t)" using l(2) unfolding t put_quad_fields(1) by simp
    show "leaf_inj t" unfolding leaf_inj_def
    proof (intro allI impI)
      fix x y G assume "length x = 4" "length y = 4" "pages t x = Some G" "pages t y = Some G"
      then show "x = y"
        using leaf_injD[OF page_invD(5)[OF I], of x G y] unfolding P fun_upd_apply by (simp split: if_splits)
    qed
    show "used t G" if "pages t q = Some G" for q G
    proof -
      from that have q: "q \<noteq> path v" "pages s q = Some G" by (auto simp: P split: if_splits)
      then obtain h where h: "G = of_nat (4096 * h)" "taken s h" using page_invD(6)[OF I q(2)] by (auto simp: used_def)
      then have "\<not> same_bit f h" using own q unfolding own_bit_def by blast
      then show ?thesis using h tk by (auto simp: used_def)
    qed
    have keep: "mapped_page t x" if "mapped_page s x" "x \<noteq> v" for x
    proof -
      have "path x \<noteq> path v"
        using that path_inj[of x v] v(1,6) by (auto simp: mapped_page_def)
      then show ?thesis using that(1) by (simp add: mapped_page_def P)
    qed
    show "mapped_page t POOL" using keep[OF page_invD(7)[OF I]] v(4) by blast
    show "mapped_page t x" if "x \<in> U - {v}" for x using keep[OF page_invD(8)[OF I, of x]] that by blast
    show "spare t x" if "x \<in> pool t" for x
    proof -
      have x: "spare s x" "x \<noteq> v" using that page_invD(9)[OF I, of x] v(3) by (auto simp: pl)
      have m: "mapped_page t x" using keep x by (auto simp: spare_def)
      then have ne: "path x \<noteq> path v" by (auto simp: mapped_page_def P)
      have "table_frame t G \<Longrightarrow> table_frame s G" for G by (auto simp: table_frame_def P split: if_splits)
      then show ?thesis using x(1) m ne by (auto simp: spare_def P)
    qed
  qed
  then show ?thesis using r P tk by blast
qed

subsection \<open>Mapping and freeing\<close>

text \<open>If the table is there and the address is free, \<open>ALSP\<close> returns.\<close>

lemma ALSP_returns:
  assumes I: "page_inv s U" "0 < card (free_frames s)" and f: "pages s [pml4_ix v, pdpt_ix v, pde_ix v] = Some f"
    and v: "pages s (path v) = None" "path v \<noteq> window_path"
  shows "\<exists>s'. ALSP kp v fl m1 m2 s = ret s'"
proof -
  let ?i4 = "pml4_ix v" and ?i3 = "pdpt_ix v" and ?i2 = "pde_ix v" and ?i1 = "pt_ix v"
  obtain ad t where n: "new_frame kp s = ret (ad, t)" using new_frame_ret[OF page_invD(3)[OF I(1)] I(2), of kp] by blast
  from new_frame_ok[OF I n] have It: "page_inv t U" and pt: "ptab t = ptab s" by blast+
  note T = page_invD(4)[OF It]
  have vt: "pages t = pages s" by (simp add: pt)
  obtain g where g: "pages t [?i4] = Some g" using view_prefix[of "ptab t" "[?i4]" "[?i3, ?i2]"] f vt by auto
  obtain h where h: "pages t [?i4, ?i3] = Some h" using view_prefix[of "ptab t" "[?i4, ?i3]" "[?i2]"] f vt by auto
  have ft: "pages t [?i4, ?i3, ?i2] = Some f" using f vt by simp
  have w: "walk_to (ptab t) [?i4] = Some g" "walk_to (ptab t) [?i4, ?i3] = Some h" using view_Some[OF g] view_Some[OF h] by simp_all
  have "get_pml4V ?i4 t AND 1 \<noteq> 0"
    using entry_present[OF T pages_root, of ?i4] g by (auto simp: get_pml4V_def window_consts window_path_def split: if_splits)
  then have 1: "make_pml4 kp (ucast m1) ?i4 t = ret t" by (simp add: make_pml4_def)
  have 2: "make_pdpt kp (ucast m1) ?i4 ?i3 t = ret (set_window g t)"
    using get_pdptV_ret(1)[OF T w(1), of ?i3] entry_present[OF T g, of ?i3] h
    by (auto simp: make_pdpt_def window_path_def split: if_splits)
  let ?t = "set_window g t"
  have T': "tree_ok (ptab ?t)" and v': "pages ?t = pages t" using T by simp_all
  have h': "pages ?t [?i4, ?i3] = Some h" using h v' by simp
  then have w': "walk_to (ptab ?t) [?i4, ?i3] = Some h" using view_Some[OF h'] by simp
  have 3: "make_pde kp (ucast m1) ?i4 ?i3 ?i2 ?t = ret (set_window h ?t)"
    using get_pdeV_ret(1)[OF T' w', of ?i2] entry_present[OF T' h', of ?i2] ft v'
    by (auto simp: make_pde_def window_path_def split: if_splits)
  let ?u = "set_window h t"
  have Tu: "tree_ok (ptab ?u)" "pages ?u [?i4, ?i3, ?i2] = Some f" using T ft by simp_all
  obtain e where e: "get_ptV ?i4 ?i3 ?i2 ?i1 ?u = ret (e, set_window f ?u)" "e AND 1 = 0 \<longleftrightarrow> \<not> occupied ?u [?i4, ?i3, ?i2, ?i1]"
    using get_ptV_entry[OF Tu, of ?i1] by auto
  have e0: "e AND 1 = 0" using e(2) v vt T by (simp add: occupied_def path_def)
  have "tree_ok (ptab (set_window f ?u))" using T by simp
  moreover have "walk_to (ptab (set_window f ?u)) [?i4, ?i3, ?i2] = Some f"
    using view_Some[of "ptab (set_window f ?u)" "[?i4, ?i3, ?i2]" f] ft T by simp
  ultimately have 4: "get_pdeVP ?i4 ?i3 ?i2 (set_window f ?u) = ret (set_window f (set_window f ?u))"
    using get_ptV_ret(2)[of "set_window f ?u" ?i4 ?i3 ?i2 f 0] by simp
  show ?thesis
    unfolding ALSP_def Let_def n bindR_simps prod.case 1 2 3
    using e(1) e0 4 by (simp only: set_window_fields(5) bindR_simps prod.case) simp
qed

text \<open>What \<open>ALSP\<close> mapped, \<open>P_FREE\<close> gives back: the address is free again, and so is the frame.\<close>

lemma free_after_map:
  assumes I: "page_inv s U" "193 \<le> card (free_frames s)" and r: "ALSP (KPALLOC KP_ALLOC3) v fl m1 m2 s = ret s1"
    and v: "page_aligned v" "unat v < 2 ^ 39" "even (pdpt_ix v)" and m: "odd m1" "odd m2"
  shows "\<exists>s2 f. P_FREE kpalloc v s1 = ret s2 \<and> page_inv s2 U \<and> mapped_user s2 = mapped_user s \<and>
    pages s1 (path v) = Some (of_nat (4096 * f)) \<and> first_free s f \<and> \<not> taken s2 f"
proof -
  note a = ALSP_user[OF I r v(1,2) m]
  obtain f where f: "first_free s f" "pages s1 (path v) = Some (of_nat (4096 * f))" "own_bit s1 (path v) f" "page_inv s1 (insert v U)"
    using a(6) by blast
  have fN: "f < NFRAMES" using f(1) by (simp add: first_free_def)
  have ph: "v \<notin> pool s1" "v \<noteq> POOL" using page_invD(1)[OF f(4)] pool_held_pool[of s1 v U] by (auto simp: pool_held_def)
  have "v \<noteq> PL_MAP_START" "unat v < 2 ^ 48" using v(2) by (auto simp: PL_MAP_START_def MBASE_def CBASE_def)
  from P_FREE_ok[OF f(4,2) fN v(1,3) ph this f(3), of kpalloc] obtain s2 where
    s2: "P_FREE kpalloc v s1 = ret s2" "pages s2 = (pages s1)(path v := None)" "page_inv s2 (insert v U - {v})"
      "\<And>g. taken s2 g \<longleftrightarrow> taken s1 g \<and> \<not> same_bit f g" by blast
  have "v \<notin> U"
  proof
    assume "v \<in> U"
    then have "pages s (path v) \<noteq> None" using page_invD(8)[OF I(1)] by (simp add: mapped_page_def)
    then show False using a(1) v by (simp add: mapped_user_def)
  qed
  then have "page_inv s2 U" using s2(3) by (simp add: Diff_insert0)
  moreover have "x \<in> mapped_user s2 \<longleftrightarrow> x \<in> mapped_user s1 \<and> x \<noteq> v" for x
    using path_eq_user[of x v] v by (auto simp: mapped_user_def s2(2))
  then have "mapped_user s2 = mapped_user s" using a(1,2) by blast
  moreover have "\<not> taken s2 f" using s2(4) fN by (simp add: same_bit_def)
  ultimately show ?thesis using s2(1) f(1,2) by blast
qed

subsection \<open>The search for a frame, and a reference for it\<close>

definition PL_FN_reference :: "'a paged_scheme \<Rightarrow> nat option" where
  "PL_FN_reference s = find (\<lambda>f. f mod 64 < 32 \<and> \<not> taken s f) [0..<NFRAMES]"

lemma reference_first_free: "PL_FN_reference s = Some f \<longleftrightarrow> first_free s f"
proof -
  have "PL_FN_reference s = Some f \<longleftrightarrow> f < NFRAMES \<and> f mod 64 < 32 \<and> \<not> taken s f \<and> (\<forall>g < f. \<not> (g mod 64 < 32 \<and> \<not> taken s g))"
    by (auto simp: PL_FN_reference_def find_Some_iff)
  then show ?thesis by (auto simp: first_free_def)
qed

lemma first_free_unique: "first_free s f \<Longrightarrow> first_free s g \<Longrightarrow> f = g"
  using reference_first_free[of s f] reference_first_free[of s g] by simp

end
