(* ===== verification/BootPages.thy ===== *)
theory BootPages
  imports PageFree
begin

section \<open>The tables after boot\<close>

text \<open>
  \<open>protk.S\<close> maps the first two megabytes behind \<open>CBASE\<close> to the first two of memory: the tables are at
  \<open>0x30000\<close>, \<open>0x31000\<close>, \<open>0x32000\<close> and \<open>0x33000\<close>. \<open>P_ALLOC3_SETUP\<close> marks 512 frames and puts pages into
  the pool. The state below is that state, with four tables of a user program added; the invariant holds in
  it, and it is the input of the examples.
\<close>

definition boot_ptab :: "addr \<Rightarrow> u64" where
  "boot_ptab a = (let n = unat a in
     if n = 0x30000 then 0x40007 else if n = 0x30008 then 0x31003 else if n = 0x31000 then 0x32003 else if n = 0x32000 then 0x33003
     else if n = 0x40000 then 0x41007 else if n = 0x41000 then 0x42007
     else if 0x33000 \<le> n \<and> n < 0x34000 then of_nat (512 * (n - 0x33000)) OR 3 else 0)"

definition boot_mem :: "addr \<Rightarrow> u64" where
  "boot_mem a = (if PL_MAP_START \<le> a \<and> a < PL_MAP_START + 64 then - 1
     else if a = slot 0 then MBASE + 0x19000 else if a = slot 1 then MBASE + 0x1A000 else 0)"

definition boot :: paged where
  "boot = (user_fsys.extend demo_user (paged.fields boot_ptab))\<lparr>PA_CALLING := 0, mem := boot_mem\<rparr>"

lemma boot_fields [simp]: "ptab boot = boot_ptab" "PA_CALLING boot = 0" "ldq boot = boot_mem"
  by (simp_all add: boot_def user_fsys.defs paged.defs ldq_def fun_eq_iff)

lemma unat_quad: "unat f + 8 * i < 2 ^ 64 \<Longrightarrow> unat (quad f i) = unat f + 8 * i"
proof -
  assume a: "unat f + 8 * i < 2 ^ 64"
  have "unat (8 * of_nat i :: addr) = 8 * i" using a by (simp add: unat_word_ariths unat_of_nat_small)
  then show ?thesis unfolding quad_def by (subst unat_add_lem[THEN iffD1]) (use a in simp_all)
qed

lemma boot_entries:
  assumes "i < 512"
  shows "boot_ptab (quad 0x30000 i) = (if i = 0 then 0x40007 else if i = 1 then 0x31003 else 0)"
    "boot_ptab (quad 0x31000 i) = (if i = 0 then 0x32003 else 0)" "boot_ptab (quad 0x32000 i) = (if i = 0 then 0x33003 else 0)"
    "boot_ptab (quad 0x40000 i) = (if i = 0 then 0x41007 else 0)" "boot_ptab (quad 0x41000 i) = (if i = 0 then 0x42007 else 0)"
    "boot_ptab (quad 0x42000 i) = 0" "boot_ptab (quad 0x33000 i) = of_nat (4096 * i) OR 3"
proof -
  have u: "unat (quad F i) = unat F + 8 * i" if "F \<in> {0x30000, 0x31000, 0x32000, 0x33000, 0x40000, 0x41000, 0x42000}" for F
    by (rule unat_quad) (use that assms in auto)
  show "boot_ptab (quad 0x30000 i) = (if i = 0 then 0x40007 else if i = 1 then 0x31003 else 0)"
    "boot_ptab (quad 0x31000 i) = (if i = 0 then 0x32003 else 0)" "boot_ptab (quad 0x32000 i) = (if i = 0 then 0x33003 else 0)"
    "boot_ptab (quad 0x40000 i) = (if i = 0 then 0x41007 else 0)" "boot_ptab (quad 0x41000 i) = (if i = 0 then 0x42007 else 0)"
    "boot_ptab (quad 0x42000 i) = 0" "boot_ptab (quad 0x33000 i) = of_nat (4096 * i) OR 3"
    using assms by (simp_all add: boot_ptab_def u)
qed

lemma boot_leaf_entry: "(of_nat (4096 * i) OR 3) AND 1 \<noteq> (0 :: u64)" "(of_nat (4096 * i) OR 3) AND NOT 0xFFF = (of_nat (4096 * i) :: u64)"
proof -
  show "(of_nat (4096 * i) OR 3) AND 1 \<noteq> (0 :: u64)" unfolding low_bit bit_or_iff by simp
  have "(of_nat (4096 * i) :: u64) AND NOT 0xFFF = of_nat (4096 * i)"
    using page_of_self[OF frame_addr_aligned[of i]] by (simp add: page_of_def)
  then show "(of_nat (4096 * i) OR 3) AND NOT 0xFFF = (of_nat (4096 * i) :: u64)" by (simp add: bit.conj_disj_distrib2)
qed

definition boot_table :: "nat list \<Rightarrow> nat option" where
  "boot_table q = (if q = [] then Some 0x30 else if q = [1] then Some 0x31 else if q = [1, 0] then Some 0x32 else if q = [1, 0, 0] then Some 0x33
     else if q = [0] then Some 0x40 else if q = [0, 0] then Some 0x41 else if q = [0, 0, 0] then Some 0x42
     else if length q = 4 \<and> take 3 q = [1, 0, 0] then Some (q ! 3) else None)"

lemma boot_steps:
  assumes "i < 512"
  shows "table_at boot_ptab 0x30000 (i # p) = (if i = 0 then table_at boot_ptab 0x40000 p else if i = 1 then table_at boot_ptab 0x31000 p else None)"
    "table_at boot_ptab 0x31000 (i # p) = (if i = 0 then table_at boot_ptab 0x32000 p else None)"
    "table_at boot_ptab 0x32000 (i # p) = (if i = 0 then table_at boot_ptab 0x33000 p else None)"
    "table_at boot_ptab 0x40000 (i # p) = (if i = 0 then table_at boot_ptab 0x41000 p else None)"
    "table_at boot_ptab 0x41000 (i # p) = (if i = 0 then table_at boot_ptab 0x42000 p else None)"
    "table_at boot_ptab 0x42000 (i # p) = None"
    "table_at boot_ptab 0x33000 (i # p) = table_at boot_ptab (of_nat (4096 * i)) p"
proof -
  show "table_at boot_ptab 0x33000 (i # p) = table_at boot_ptab (of_nat (4096 * i)) p"
    unfolding table_at.simps boot_entries(7)[OF assms] boot_leaf_entry(2) using boot_leaf_entry(1)[of i] by simp
qed (use assms in \<open>simp_all add: table_at.simps boot_entries\<close>)

lemma boot_walk:
  assumes "ixs q" "length q \<le> 4"
  shows "walk_to boot_ptab q = map_option (\<lambda>f. of_nat (4096 * f)) (boot_table q)"
proof -
  have "q = [] \<or> (\<exists>a. q = [a]) \<or> (\<exists>a b. q = [a, b]) \<or> (\<exists>a b c. q = [a, b, c]) \<or> (\<exists>a b c d. q = [a, b, c, d])"
    using assms(2) by (cases q; cases "tl q"; cases "tl (tl q)"; cases "tl (tl (tl q))") auto
  then show ?thesis
    using assms(1) by (elim disjE exE) (simp_all add: boot_table_def PML4_FRAME_def boot_steps)
qed

lemma boot_view: "view boot_ptab q = (if ixs q \<and> length q \<le> 4 \<and> q \<noteq> window_path then map_option (\<lambda>f. of_nat (4096 * f)) (boot_table q) else None)"
  by (simp add: view_def boot_walk)

lemma boot_table_less: "ixs q \<Longrightarrow> boot_table q = Some f \<Longrightarrow> f < 512"
proof -
  assume q: "ixs q" "boot_table q = Some f"
  have "q ! 3 < 512" if "length q = 4" using q(1) that by (auto simp: ixs_def)
  then show ?thesis using q(2) by (auto simp: boot_table_def split: if_splits)
qed

lemma frame_inj: "f < NFRAMES \<Longrightarrow> g < NFRAMES \<Longrightarrow> (of_nat (4096 * f) :: addr) = of_nat (4096 * g) \<longleftrightarrow> f = g"
proof -
  assume f: "f < NFRAMES" "g < NFRAMES"
  have "unat (of_nat (4096 * h) :: addr) = 4096 * h" if "h < NFRAMES" for h
    by (rule unat_of_nat_small) (use that in \<open>simp add: NFRAMES_def\<close>)
  from this[OF f(1)] this[OF f(2)] show ?thesis by (metis mult_cancel1 zero_neq_numeral)
qed

lemma small_frame: "f < 512 \<Longrightarrow> f < NFRAMES"
  by (simp add: NFRAMES_def)

lemma boot_frame: "view boot_ptab q = Some F \<Longrightarrow> \<exists>f < 512. F = of_nat (4096 * f) \<and> boot_table q = Some f"
  using boot_table_less[of q] by (auto simp: boot_view split: if_splits)

text \<open>The bitmap.\<close>

lemma boot_plq: "j < 511 \<Longrightarrow> plq boot j = (if j < 8 then - 1 else 0)"
proof -
  assume j: "j < 511"
  have u: "unat (quad PL_MAP_START j) = unat PL_MAP_START + 8 * j"
    by (rule unat_quad) (use j in \<open>simp add: PL_MAP_START_def MBASE_def CBASE_def\<close>)
  have s: "quad PL_MAP_START j \<noteq> slot i" if "i < 512" for i using slot_not_bitmap[OF that, of j] j by auto
  have u64: "unat (PL_MAP_START + 64) = unat PL_MAP_START + 64" by (simp add: PL_MAP_START_def MBASE_def CBASE_def)
  show ?thesis
    using s[of 0] s[of 1] unfolding plq_def boot_fields boot_mem_def word_le_nat_alt word_less_nat_alt u u64 by auto
qed

lemma boot_taken: "taken boot f \<longleftrightarrow> f < 512"
proof -
  have "f div 64 < 8 \<longleftrightarrow> f < 512" by auto
  moreover have "bit (- 1 :: u64) (f mod 32)" by (simp only: bit_minus_1_iff possible_bit_word) simp
  moreover have "f < NFRAMES \<Longrightarrow> f div 64 < 511" by (simp add: NFRAMES_def)
  ultimately show ?thesis using small_frame[of f] boot_plq[of "f div 64"] by (auto simp: taken_def)
qed

lemma boot_uniform: "uniform boot"
  unfolding uniform_def
proof (intro allI impI)
  fix j k :: nat assume "j < 511" "31 \<le> k \<and> k < 64"
  then show "bit (plq boot j) k = bit (plq boot j) 31"
    unfolding boot_plq[OF \<open>j < 511\<close>] by (cases "j < 8") (simp_all only: if_True if_False bit_minus_1_iff possible_bit_word bit_0_eq, simp_all)
qed

text \<open>The pool.\<close>

lemma boot_slot: "i < 512 \<Longrightarrow> boot_mem (slot i) = (if i = 0 then MBASE + 0x19000 else if i = 1 then MBASE + 0x1A000 else 0)"
proof -
  assume i: "i < 512"
  have "unat (slot i) = unat POOL + 8 * i"
    unfolding slot_def quad_def[symmetric] by (rule unat_quad) (use i in \<open>simp add: POOL_def MBASE_def CBASE_def\<close>)
  then have "\<not> slot i < PL_MAP_START + 64" unfolding word_less_nat_alt by (simp add: POOL_def PL_MAP_START_def MBASE_def CBASE_def)
  then show ?thesis using slot_inj[OF i, of 0] slot_inj[OF i, of 1] by (auto simp: boot_mem_def)
qed

lemma low_page:
  assumes "a = MBASE + 0x1000 * of_nat n" "n < 0x1e0" "n \<noteq> 0x1c"
  shows "path a = [1, 0, 0, 0x20 + n]" "mapped_page boot a" "pages boot (path a) = Some (of_nat (4096 * (0x20 + n)))" "pdpt_ix a = 0"
proof -
  have "a = vaddr 1 0 0 (0x20 + n)"
    by (simp add: assms(1) vaddr_def construct_virtual_address_def MBASE_def CBASE_def algebra_simps)
  moreover have lt: "0x20 + n < 512" using assms(2) by simp
  ultimately have al: "page_aligned a" and p: "path a = [1, 0, 0, 0x20 + n]"
    using path_vaddr[of 1 0 0 "0x20 + n"] by simp_all
  show "path a = [1, 0, 0, 0x20 + n]" by (rule p)
  show v: "pages boot (path a) = Some (of_nat (4096 * (0x20 + n)))"
    using assms(2,3) by (simp add: p boot_view window_path_def boot_table_def)
  have "unat a < 2 ^ 48" using unat_vaddr[of 1 0 0 "0x20 + n"] \<open>a = vaddr 1 0 0 (0x20 + n)\<close> lt by simp
  then show "mapped_page boot a" using v al assms(3) by (simp add: mapped_page_def p window_path_def)
  show "pdpt_ix a = 0" using p by (simp add: path_def)
qed

lemma boot_table_frame: "table_frame boot (of_nat (4096 * f)) \<Longrightarrow> f < 512 \<Longrightarrow> f \<in> {0x30, 0x31, 0x32, 0x33, 0x40, 0x41, 0x42}"
proof -
  assume t: "table_frame boot (of_nat (4096 * f))" and f: "f < 512"
  then obtain q where q: "length q \<le> 3" "view boot_ptab q = Some (of_nat (4096 * f))" by (auto simp: table_frame_def)
  from boot_frame[OF q(2)] obtain g where "g < 512" "(of_nat (4096 * f) :: addr) = of_nat (4096 * g)" "boot_table q = Some g" by blast
  then show ?thesis using frame_inj[OF small_frame[OF f] small_frame[of g]] q(1) by (auto simp: boot_table_def split: if_splits)
qed

lemma boot_spare: "n \<in> {0x19, 0x1a} \<Longrightarrow> a = MBASE + 0x1000 * of_nat n \<Longrightarrow> spare boot a"
  using low_page[of a n] boot_table_frame[of "0x20 + n"] by (auto simp: spare_def)

lemma boot_pool: "pool boot = {MBASE + 0x19000, MBASE + 0x1A000}"
proof -
  have "pool boot = {p. p \<noteq> 0 \<and> (\<exists>i < 512. p = boot_mem (slot i))}" by (simp add: pool_def)
  also have "\<dots> = {MBASE + 0x19000, MBASE + 0x1A000}"
  proof -
    have "\<exists>i < 512. MBASE + 0x19000 = boot_mem (slot i)" by (intro exI[of _ 0]) (simp add: boot_slot)
    moreover have "\<exists>i < 512. MBASE + 0x1A000 = boot_mem (slot i)" by (intro exI[of _ 1]) (simp add: boot_slot)
    moreover have "MBASE + 0x19000 \<noteq> 0" "MBASE + 0x1A000 \<noteq> 0" by (simp_all add: MBASE_def CBASE_def)
    ultimately show ?thesis by (auto simp: boot_slot split: if_splits)
  qed
  finally show ?thesis .
qed

theorem boot_inv: "page_inv boot {PL_MAP_START}"
  unfolding page_inv_def
proof (intro conjI allI impI ballI)
  show "pool_held boot {PL_MAP_START}"
    by (rule pool_heldI) (auto simp: boot_slot page_aligned_def POOL_def PL_MAP_START_def MBASE_def CBASE_def split: if_splits)
  show "tree_ok (ptab boot)"
    unfolding tree_ok_def
  proof (intro conjI allI impI)
    show "walk_to (ptab boot) [1, 0, 0] = Some LOW_TABLE" by (simp add: boot_walk boot_table_def LOW_TABLE_def)
    fix p q F assume "length p \<le> 3" "length q \<le> 3" "ixs p" "ixs q" "walk_to (ptab boot) p = Some F" "walk_to (ptab boot) q = Some F"
    moreover from this obtain f g where "boot_table p = Some f" "boot_table q = Some g" "(of_nat (4096 * f) :: addr) = of_nat (4096 * g)"
      by (auto simp: boot_walk)
    moreover from calculation have "f = g"
      using frame_inj[OF small_frame[OF boot_table_less] small_frame[OF boot_table_less]] by blast
    ultimately show "p = q" by (auto simp: boot_table_def split: if_splits)
  qed
  show "leaf_inj boot"
    unfolding leaf_inj_def
  proof (intro allI impI)
    fix p q F assume pq: "length p = 4" "length q = 4" "pages boot p = Some F" "pages boot q = Some F"
    then obtain f g where f: "f < 512" "g < 512" "boot_table p = Some f" "boot_table q = Some g" "(of_nat (4096 * f) :: addr) = of_nat (4096 * g)"
      using boot_frame[of p F] boot_frame[of q F] by auto
    then have "f = g" using frame_inj[OF small_frame small_frame] by blast
    then have "take 3 p = take 3 q" "p ! 3 = q ! 3" using f(3,4) pq(1,2) by (auto simp: boot_table_def split: if_splits)
    moreover have "r = take 3 r @ [r ! 3]" if "length r = 4" for r :: "nat list"
      using take_Suc_conv_app_nth[of 3 r] that by simp
    ultimately show "p = q" using pq(1,2) by metis
  qed
  show "used boot F" if "pages boot q = Some F" for q F
    using boot_frame[of q F] that boot_taken by (auto simp: used_def)
  show "mapped_page boot POOL" by (rule low_page(2)[of _ 22]) (simp_all add: POOL_def)
  show "mapped_page boot p" if "p \<in> {PL_MAP_START}" for p
    by (rule low_page(2)[of _ 21]) (use that in \<open>simp_all add: PL_MAP_START_def\<close>)
  show "spare boot p" if "p \<in> pool boot" for p
    using that boot_spare[of 25 p] boot_spare[of 26 p] by (auto simp: boot_pool)
qed (simp_all add: boot_uniform)

lemma boot_free: "193 \<le> card (free_frames boot)"
proof -
  let ?A = "{8..<511 :: nat} \<times> {..<32 :: nat}" and ?h = "\<lambda>(a, b). 64 * a + b :: nat"
  have ab: "(64 * a + b) mod 64 = b \<and> (64 * a + b) div 64 = a" if "b < 32" for a b :: nat using that by simp
  have "?h ` ?A \<subseteq> free_frames boot"
    using ab by (auto simp: free_frames_def boot_taken NFRAMES_def)
  moreover have "inj_on ?h ?A"
  proof (rule inj_onI)
    fix x y assume "x \<in> ?A" "y \<in> ?A" "?h x = ?h y"
    then show "x = y" using ab[of "snd x" "fst x"] ab[of "snd y" "fst y"] by (auto simp: split_beta prod_eq_iff)
  qed
  then have "card (?h ` ?A) = 503 * 32" by (simp add: card_image)
  ultimately show ?thesis using card_mono[OF finite_free_frames, of "?h ` ?A" boot] by simp
qed

lemma boot_user_table: "pages boot [0, 0, 0] = Some 0x42000" "unat p < 0x200000 \<Longrightarrow> page_aligned p \<Longrightarrow> pages boot (path p) = None"
proof -
  show "pages boot [0, 0, 0] = Some 0x42000" by (simp add: boot_view window_path_def boot_table_def)
  assume p: "unat p < 0x200000"
  then have "path p = [0, 0, 0, pt_ix p]" by (simp add: path_def ix_eq)
  then show "pages boot (path p) = None" by (simp add: boot_view boot_table_def)
qed

lemma boot_ALSP: "\<exists>s'. ALSP kp 0x1000 fl m1 m2 boot = ret s'"
proof (rule ALSP_returns[OF boot_inv])
  have "path 0x1000 = [0, 0, 0, 1]" by (simp add: path_def ix_eq)
  then have "pml4_ix 0x1000 = 0" "pdpt_ix 0x1000 = 0" "pde_ix 0x1000 = 0" by (simp_all add: path_def)
  then show "pages boot [pml4_ix 0x1000, pdpt_ix 0x1000, pde_ix 0x1000] = Some 0x42000" using boot_user_table(1) by simp
  show "path 0x1000 \<noteq> window_path" using \<open>path 0x1000 = _\<close> by (simp add: window_path_def)
qed (use boot_free boot_user_table(2)[of 4096] in \<open>simp_all add: page_aligned_def\<close>)

section \<open>What the page allocator promises\<close>

text \<open>C2. With a frame left in the first page of the bitmap and a page in the pool, \<open>KP_ALLOC3\<close> returns: an address
  that was not mapped is mapped to the first free frame; the address is none of the pages in use, every page
  mapped before keeps its frame, and no user page is touched.\<close>

theorem KP_ALLOC3_new_page:
  assumes "page_inv s U" "0 < card (free_frames s)" "pool s \<noteq> {}"
  shows "\<exists>v f s'. KP_ALLOC3 s = Inr (v, s') \<and> first_free s f \<and> pages s (path v) = None \<and> pages s' (path v) = Some (of_nat (4096 * f)) \<and>
    v \<notin> U \<and> page_inv s' (insert v U) \<and> grows s s' \<and> mapped_user s' = mapped_user s"
proof -
  obtain v f s' where r: "KP_ALLOC3 s = Inr (v, s')" and n: "new_kernel_page U s v f s'"
    using KP_ALLOC3_cases[OF assms(1,2)] assms(3) by blast
  have S: "supplied 1 user_half U s s'" using n by (simp add: new_kernel_page_def)
  have "mapped_user s' = mapped_user s"
    using suppliedD(2)[OF S user_prefix] by (auto simp: mapped_user_def)
  then show ?thesis using r n suppliedD(1)[OF S] by (auto simp: new_kernel_page_def)
qed

theorem KP_ALLOC3_new_page_witness:
  "\<exists>v f s'. KP_ALLOC3 boot = Inr (v, s') \<and> first_free boot f \<and> pages boot (path v) = None \<and> pages s' (path v) = Some (of_nat (4096 * f)) \<and>
    v \<notin> {PL_MAP_START} \<and> page_inv s' (insert v {PL_MAP_START}) \<and> grows boot s' \<and> mapped_user s' = mapped_user boot"
  by (rule KP_ALLOC3_new_page[OF boot_inv]) (use boot_free in \<open>simp_all add: boot_pool\<close>)

text \<open>C36. A page \<open>KPALLOC\<close> returns, whether or not it refills the pool on the way, is none of the pages in use and is
  mapped; every page mapped before keeps its frame, the pages of programs stay what they were, and the pages
  in use keep their contents, the bitmap apart.\<close>

theorem KPALLOC_new_page:
  assumes "page_inv s U" "64 \<le> card (free_frames s)" "KPALLOC KP_ALLOC3 s = Inr (p, s')"
  shows "p \<notin> U \<and> p \<noteq> 0 \<and> page_aligned p \<and> pages s' (path p) \<noteq> None \<and> grows s s' \<and> mapped_user s' = mapped_user s \<and>
    (\<forall>a. page_of a \<in> U \<longrightarrow> page_of a \<noteq> PL_MAP_START \<longrightarrow> ldq s' a = ldq s a)"
proof -
  have k: "supplied 64 user_half U s s'" "p \<notin> U" "p \<noteq> 0" "spare s' p"
    using pool.supplies[OF assms] by simp_all
  have "mapped_user s' = mapped_user s"
    using suppliedD(2)[OF k(1) user_prefix] by (auto simp: mapped_user_def)
  then show ?thesis using k(2-4) spareD(1,6)[OF k(4)] suppliedD(1,4)[OF k(1)] by simp
qed

theorem KPALLOC_new_page_witness:
  "\<exists>s'. KPALLOC KP_ALLOC3 boot = Inr (MBASE + 0x19000, s') \<and> pages s' (path (MBASE + 0x19000)) \<noteq> None \<and> mapped_user s' = mapped_user boot"
proof -
  have r: "KPALLOC KP_ALLOC3 boot = Inr (MBASE + 0x19000, memfill_page (MBASE + 0x19000) (stq (slot 0) 0 boot))"
    by (rule KPALLOC_first) (simp_all add: boot_slot MBASE_def CBASE_def)
  have "64 \<le> card (free_frames boot)" using boot_free by simp
  from KPALLOC_new_page[OF boot_inv this r] r show ?thesis by blast
qed

text \<open>C15. The page tables stay well formed: \<open>KP_ALLOC3\<close>, \<open>KPALLOC\<close> and \<open>ALSP\<close> for a user page keep the invariant,
  with the new page among those in use.\<close>

theorem page_tables_stay_well_formed:
  assumes "page_inv s U" "193 \<le> card (free_frames s)"
  shows "(\<forall>v s'. KP_ALLOC3 s = Inr (v, s') \<longrightarrow> page_inv s' (insert v U)) \<and>
    (\<forall>p s'. KPALLOC KP_ALLOC3 s = Inr (p, s') \<longrightarrow> page_inv s' (insert p U)) \<and>
    (\<forall>v fl s'. page_aligned v \<longrightarrow> unat v < 2 ^ 39 \<longrightarrow> ALSP (KPALLOC KP_ALLOC3) v fl 7 5 s = ret s' \<longrightarrow> page_inv s' (insert v U))"
proof (intro conjI allI impI)
  have c: "1 \<le> card (free_frames s)" "64 \<le> card (free_frames s)" using assms(2) by simp_all
  show "page_inv s' (insert v U)" if "KP_ALLOC3 s = Inr (v, s')" for v s' using kp3.supplies[OF assms(1) c(1) that] by simp
  show "page_inv s' (insert p U)" if "KPALLOC KP_ALLOC3 s = Inr (p, s')" for p s' using pool.supplies[OF assms(1) c(2) that] by simp
  show "page_inv s' (insert v U)" if "page_aligned v" "unat v < 2 ^ 39" "ALSP (KPALLOC KP_ALLOC3) v fl 7 5 s = ret s'" for v fl s'
    using ALSP_user(6)[OF assms that(3,1,2)] by auto
qed

theorem page_tables_stay_well_formed_witness:
  "\<exists>s'. ALSP (KPALLOC KP_ALLOC3) 0x1000 0 7 5 boot = ret s' \<and> page_inv s' (insert 0x1000 {PL_MAP_START})"
proof -
  obtain s' where "ALSP (KPALLOC KP_ALLOC3) 0x1000 0 7 5 boot = ret s'" using boot_ALSP by blast
  then show ?thesis using page_tables_stay_well_formed[OF boot_inv boot_free] by (auto simp: page_aligned_def)
qed

text \<open>When \<open>UP_ALLOC4\<close> returns, it returns its address; the pages it was asked for are mapped and were not before,
  no other page of the program appears or goes, and every page mapped before keeps its frame.\<close>

theorem UP_ALLOC4_maps:
  assumes I: "page_inv s U" and n: "193 * n \<le> card (free_frames s)" "n < 2 ^ 27"
    and p: "unat p < 2 ^ 39" and r: "UP_ALLOC4 (KPALLOC KP_ALLOC3) fl p (of_nat n) s = ret (q, s')"
  shows "q = p \<and> mapped_user s' = mapped_user s \<union> (\<lambda>i. p + 0x1000 * of_nat i) ` {..<n} \<and>
    mapped_user s \<inter> (\<lambda>i. p + 0x1000 * of_nat i) ` {..<n} = {} \<and> page_inv s' U \<and> grows s s'"
proof -
  from r have c: "\<not> CBASE < p + 0x1000 * of_nat n" "p AND 0xfff = 0" and q: "q = p"
    and l: "ALSP_loop (KPALLOC KP_ALLOC3) p fl 0x7 0x5 (nat (sint (of_nat n :: u64))) s = ret s'"
    by (auto simp: UP_ALLOC4_def bindR_ret_iff check_def split: if_splits)
  have "sint (of_nat n :: u64) = int n"
    using n(2) by (simp add: signed_of_nat signed_take_bit_int_eq_self)
  then have l': "ALSP_loop (KPALLOC KP_ALLOC3) p fl 0x7 0x5 n s = ret s'" using l by simp
  have u: "unat (p + 0x1000 * of_nat n) = unat p + 4096 * n"
  proof -
    have m: "unat (0x1000 * of_nat n :: u64) = 4096 * n" using n(2) by (simp add: unat_word_ariths unat_of_nat_small)
    show ?thesis by (subst unat_add_lem[THEN iffD1]) (use n(2) p m in simp_all)
  qed
  have "unat p + 4096 * n \<le> 2 ^ 39" using c(1) unfolding word_less_nat_alt u by (simp add: CBASE_def)
  from ALSP_loop_user[OF I n(1) l' _ this] c(2) show ?thesis using q by (simp add: page_aligned_def)
qed

theorem UP_ALLOC4_maps_witness:
  "\<exists>s'. UP_ALLOC4 (KPALLOC KP_ALLOC3) 0 0x1000 (of_nat 1) boot = ret (0x1000, s') \<and> mapped_user s' = mapped_user boot \<union> {0x1000}"
proof -
  obtain s' where a: "ALSP (KPALLOC KP_ALLOC3) 0x1000 0 7 5 boot = ret s'" using boot_ALSP by blast
  have r: "UP_ALLOC4 (KPALLOC KP_ALLOC3) 0 0x1000 (of_nat 1) boot = ret (0x1000, s')"
    using a by (simp add: UP_ALLOC4_def CBASE_def)
  have c: "193 * 1 \<le> card (free_frames boot)" using boot_free by simp
  have "{..<1 :: nat} = {0}" by auto
  then show ?thesis using UP_ALLOC4_maps[OF boot_inv c _ _ r] r by simp
qed

text \<open>C3. \<open>UPALLOC\<close> of a page refines \<open>UPALLOC_user\<close> of \<open>Exec\<close>, for which a program's memory is the set of its mapped
  pages: after a return the sets agree, and where the abstract operation stops, the code stops with the same
  error.\<close>

theorem UPALLOC_refines:
  assumes "page_inv s U" "193 \<le> card (free_frames s)" "unat p < 2 ^ 39"
  shows "(\<forall>q s'. UPALLOC (KPALLOC KP_ALLOC3) fl p 1 s = ret (q, s') \<longrightarrow>
      (\<exists>t. UPALLOC_user p (s\<lparr>upages := mapped_user s\<rparr>) = ret t \<and> upages t = mapped_user s')) \<and>
    (\<forall>e. UPALLOC_user p s = stop e \<longrightarrow> UPALLOC (KPALLOC KP_ALLOC3) fl p 1 s = stop e)"
proof (intro conjI allI impI)
  fix q s' assume "UPALLOC (KPALLOC KP_ALLOC3) fl p 1 s = ret (q, s')"
  then have c: "\<not> CBASE < p + 0x1000" "p AND 0xfff = 0" and r: "ALSP (KPALLOC KP_ALLOC3) p fl 7 5 s = ret s'"
    by (auto simp: UPALLOC_def UP_ALLOC4_def bindR_ret_iff check_def split: if_splits)
  have "mapped_user s' = insert p (mapped_user s)"
    using ALSP_user(2)[OF assms(1,2) r _ assms(3)] c(2) by (simp add: page_aligned_def)
  then show "\<exists>t. UPALLOC_user p (s\<lparr>upages := mapped_user s\<rparr>) = ret t \<and> upages t = mapped_user s'"
    using c by (simp add: UPALLOC_user_def)
next
  fix e assume "UPALLOC_user p s = stop e"
  then show "UPALLOC (KPALLOC KP_ALLOC3) fl p 1 s = stop e"
    by (auto simp: UPALLOC_user_def UPALLOC_def UP_ALLOC4_def check_def stop_def split: if_splits)
qed

theorem UPALLOC_refines_witness:
  "\<exists>s' t. UPALLOC (KPALLOC KP_ALLOC3) 2 0x1000 1 boot = ret (0x1000, s') \<and>
    UPALLOC_user 0x1000 (boot\<lparr>upages := mapped_user boot\<rparr>) = ret t \<and> upages t = mapped_user s'"
proof -
  obtain s' where a: "ALSP (KPALLOC KP_ALLOC3) 0x1000 2 7 5 boot = ret s'" using boot_ALSP by blast
  have r: "UPALLOC (KPALLOC KP_ALLOC3) 2 0x1000 1 boot = ret (0x1000, s')"
    using a by (simp add: UPALLOC_def UP_ALLOC4_def CBASE_def)
  have "unat (0x1000 :: addr) < 2 ^ 39" by simp
  from UPALLOC_refines[OF boot_inv boot_free this, of 2] r show ?thesis by blast
qed

text \<open>C37. The search of \<open>PL_FN\<close>, by quads and then by bits, finds the frame a search through all frames finds, and its
  comparison with \<open>__builtin_ctzll\<close> never fails.\<close>

theorem PL_FN_equiv:
  assumes "uniform s" "PL_FN_reference s = Some f"
  shows "PL_FN kpalloc s = ret (of_nat f, s)"
proof -
  have f: "first_free s f" using assms(2) reference_first_free by blast
  then have "f < NFRAMES" "\<not> taken s f" by (simp_all add: first_free_def)
  from PL_FN_ret[OF assms(1) this, of kpalloc] show ?thesis using first_free_unique[OF f] by blast
qed

theorem PL_FN_equiv_witness: "PL_FN (KPALLOC no_more_pages) boot = ret (512, boot)"
proof -
  have "first_free boot 512" by (simp add: first_free_def boot_taken NFRAMES_def)
  then have "PL_FN_reference boot = Some 512" by (simp only: reference_first_free)
  from PL_FN_equiv[OF boot_uniform this] show ?thesis by simp
qed



text \<open>The indices of an address, put together, are the address.\<close>

theorem virtual_address_roundtrip:
  assumes "page_aligned v" "unat v < 2 ^ 48"
  shows "construct_virtual_address (of_nat (pml4_ix v)) (of_nat (pdpt_ix v)) (of_nat (pde_ix v)) (of_nat (pt_ix v)) = v"
proof -
  let ?w = "vaddr (pml4_ix v) (pdpt_ix v) (pde_ix v) (pt_ix v)"
  have w: "path ?w = path v" "page_aligned ?w" using path_vaddr[of "pml4_ix v" "pdpt_ix v" "pde_ix v" "pt_ix v"] by (simp_all add: path_def)
  have "unat ?w = pt_ix v * 2 ^ 12 + pde_ix v * 2 ^ 21 + pdpt_ix v * 2 ^ 30 + pml4_ix v * 2 ^ 39" by (rule unat_vaddr) simp_all
  also have "\<dots> < 2 ^ 48"
  proof -
    have "a * 2 ^ 12 + b * 2 ^ 21 + c * 2 ^ 30 + d * 2 ^ 39 < 2 ^ 48" if "a < 512" "b < 512" "c < 512" "d < 512" for a b c d :: nat
      using that by simp
    then show ?thesis using ix_less[of v] by blast
  qed
  finally show ?thesis using path_inj[OF w(1) _ assms(2) w(2) assms(1)] by (simp add: vaddr_def)
qed

theorem virtual_address_roundtrip_witness: "construct_virtual_address 1 0 0 0x36 = POOL"
proof -
  have "unat POOL < 2 ^ 48" by (simp add: POOL_def MBASE_def CBASE_def)
  from virtual_address_roundtrip[OF POOL_aligned this] show ?thesis by (simp add: ix_eq POOL_def MBASE_def CBASE_def)
qed

end
