(* ===== verification/MkFs.thy ===== *)
theory MkFs
  imports Qfs
begin

section \<open>The image builder (insertFileSystem/main.c)\<close>

text \<open>
  The program that puts the directory \<open>sysroot\<close> onto the floppy image. It reads the directory into a
  tree, gives every node a number and a run of sectors in preorder, writes the blocks and then the table of
  inodes at the start of the file system. The directory of the host is an argument, in the order in which
  \<open>readdir\<close> returns its entries; the mode, owner and time \<open>stat\<close> returns are stored in the tree and not used.
  The image is a byte memory; \<open>errc\<close> counts the errors.
\<close>

subsection \<open>Reading the directory\<close>

datatype host = HFile "u8 list" | HDir "(u8 list \<times> host) list"

datatype dirORfile = File (dname: "u8 list") "u8 list" | Dir (dname: "u8 list") "dirORfile list"

definition after_slash :: "u8 list \<Rightarrow> u8 list" where
  "after_slash p = rev (takeWhile (\<lambda>c. c \<noteq> SLASH) (rev p))"

definition DOT :: u8 where "DOT = 0x2e"

definition SYSROOT :: "u8 list" where   \<comment> \<open>\<open>./sysroot\<close>\<close>
  "SYSROOT = [DOT, SLASH, 0x73, 0x79, 0x73, 0x72, 0x6f, 0x6f, 0x74]"

fun readDir :: "u8 list \<Rightarrow> host \<Rightarrow> dirORfile" and read_entries :: "u8 list \<Rightarrow> (u8 list \<times> host) list \<Rightarrow> dirORfile list" where
  "readDir name (HFile c) = File (after_slash name) c"
| "readDir name (HDir es) = Dir (if name = SYSROOT then [] else after_slash name) (read_entries name es)"
| "read_entries name [] = []"
| "read_entries name ((d, h) # es) =
     (if d = [DOT] \<or> d = [DOT, DOT] then read_entries name es
      else readDir ((if name = [] then [DOT] else name) @ SLASH # d) h # read_entries name es)"

text \<open>\<open>numinodes\<close> counts the calls.\<close>

fun nodes :: "dirORfile \<Rightarrow> nat" and nodes_all :: "dirORfile list \<Rightarrow> nat" where
  "nodes (File n c) = 1"
| "nodes (Dir n ts) = 1 + nodes_all ts"
| "nodes_all [] = 0"
| "nodes_all (t # ts) = nodes t + nodes_all ts"

subsection \<open>The state\<close>

record mkfs =
  dbytes :: "nat \<Rightarrow> u8"
  flll :: nat
  FIRST_UNU :: nat
  lastfucker :: nat
  inbase :: "nat \<Rightarrow> inode"
  errc :: nat

definition strncpy32 :: "u8 list \<Rightarrow> u8 list" where
  "strncpy32 name = take 32 (name @ replicate 32 0)"

definition constructInode :: "nat \<Rightarrow> nat \<Rightarrow> u16 \<Rightarrow> u8 list \<Rightarrow> inode" where
  "constructInode st b prm name =
     \<lparr>chunkaddr1 = of_nat st, chunklen = of_nat b, iperms = prm, iowner = 0, igroup = 0, timestamp = 0, iname = strncpy32 name\<rparr>"

definition FS_BASE :: nat where "FS_BASE = unat LBA_FS_BASE * 0x200"

definition wdiskr :: "nat \<Rightarrow> nat \<Rightarrow> u8 list \<Rightarrow> mkfs \<Rightarrow> mkfs" where
  "wdiskr lba len mrg s =
     (let s = (if flll s < 0x200 * lba + 0x200 * len then s\<lparr>errc := errc s + 1\<rparr> else s)
      in s\<lparr>dbytes := stb (FS_BASE + 0x200 * lba) (take (0x200 * len) mrg) (dbytes s)\<rparr>)"

definition getdiskregion :: "nat \<Rightarrow> mkfs \<Rightarrow> nat \<times> mkfs" where
  "getdiskregion sz s = (FIRST_UNU s, s\<lparr>FIRST_UNU := FIRST_UNU s + sz\<rparr>)"

definition sectors_for :: "nat \<Rightarrow> nat" where
  "sectors_for n = n div 0x200 + (if n mod 0x200 \<noteq> 0 then 1 else 0)"

fun getsizeofDOF :: "dirORfile \<Rightarrow> nat" where
  "getsizeofDOF (File n c) = sectors_for (length c)"
| "getsizeofDOF (Dir n ts) = sectors_for (length ts * INODE_SIZE)"

subsection \<open>Writing the tree\<close>

text \<open>The block \<open>m\<close> of a node is written, read back and compared; then its inode is filled in.\<close>

definition put_node :: "nat \<Rightarrow> nat \<Rightarrow> u8 list \<Rightarrow> nat \<Rightarrow> u16 \<Rightarrow> u8 list \<Rightarrow> mkfs \<Rightarrow> nat \<times> mkfs" where
  "put_node st b m ourindex prm name s =
     (let s = wdiskr st b m s;
          s = (if ldb (dbytes s) (FS_BASE + 0x200 * st) (0x200 * b) \<noteq> m then s\<lparr>errc := errc s + 1\<rparr> else s)
      in (ourindex, s\<lparr>inbase := (inbase s)(ourindex := constructInode st b prm name)\<rparr>))"

definition block_of :: "nat \<Rightarrow> u8 list \<Rightarrow> u8 list" where
  "block_of b c = c @ replicate (0x200 * b - length c) 0"

definition id_bytes :: "nat list \<Rightarrow> u8 list" where
  "id_bytes is = concat (map (\<lambda>i. le_bytes 8 (of_nat i :: u64)) is)"

fun cDF :: "dirORfile \<Rightarrow> mkfs \<Rightarrow> nat \<times> mkfs" and cDF_all :: "dirORfile list \<Rightarrow> mkfs \<Rightarrow> nat list \<times> mkfs" where
  "cDF (File name c) s =
     (let b = getsizeofDOF (File name c); (st, s) = getdiskregion b s; ourindex = lastfucker s; s = s\<lparr>lastfucker := ourindex + 1\<rparr>;
          s = (if 0x200 * b < length c then s\<lparr>errc := errc s + 1\<rparr> else s)
      in put_node st b (block_of b c) ourindex 0x1 name s)"
| "cDF (Dir name ts) s =
     (let b = getsizeofDOF (Dir name ts); (st, s) = getdiskregion b s; ourindex = lastfucker s; s = s\<lparr>lastfucker := ourindex + 1\<rparr>;
          (ids, s) = cDF_all ts s
      in put_node st b (block_of b (id_bytes ids)) ourindex 0x8 name s)"
| "cDF_all [] s = ([], s)"
| "cDF_all (t # ts) s = (let (i, s) = cDF t s; (is, s) = cDF_all ts s in (i # is, s))"

definition table_bytes :: "nat \<Rightarrow> nat \<Rightarrow> (nat \<Rightarrow> inode) \<Rightarrow> u8 list" where
  "table_bytes lnb n T = block_of lnb (concat (map (\<lambda>i. encode_inode (T i)) [0..<n]))"

text \<open>\<open>shitfuckpiss2000\<close>.\<close>

definition build_image :: "host \<Rightarrow> mkfs \<Rightarrow> mkfs" where
  "build_image sysroot s =
     (let root = readDir SYSROOT sysroot;
          lnb = sectors_for (INODE_SIZE * nodes root);
          s = (if lnb = 0 then s\<lparr>errc := errc s + 1\<rparr> else s);
          s = s\<lparr>FIRST_UNU := FIRST_UNU s + lnb\<rparr>;
          (i, s) = cDF root (s\<lparr>inbase := (\<lambda>_. zero_inode)\<rparr>)
      in wdiskr 0 lnb (table_bytes lnb (nodes root) (inbase s)) s)"

subsection \<open>The keymap\<close>

definition qwerty :: "u8 list" where
  "qwerty = [0, 27, 49, 50, 51, 52, 53, 54, 55, 56, 57, 48, 45, 61, 8, 9, 113, 119, 101, 114, 116, 121, 117, 105, 111, 112, 91, 93,
     10, 0, 97, 115, 100, 102, 103, 104, 106, 107, 108, 59, 39, 96, 0, 92, 122, 120, 99, 118, 98, 110, 109, 44, 46, 47, 0, 42, 0, 32,
     0, 0, 0, 0, 0, 0, 0, 0, 0, 0, 0, 0, 0, 55, 56, 57, 45, 52, 53, 54, 43, 49, 50, 51, 48, 46]"

definition qwertySHIFT :: "u8 list" where
  "qwertySHIFT = [0, 27, 33, 64, 35, 36, 37, 94, 38, 42, 40, 41, 95, 43, 8, 9, 81, 87, 69, 82, 84, 89, 85, 73, 79, 80, 123, 125,
     10, 0, 65, 83, 68, 70, 71, 72, 74, 75, 76, 58, 34, 126, 0, 92, 90, 88, 67, 86, 66, 78, 77, 60, 62, 63, 0, 42, 0, 32,
     0, 0, 0, 0, 0, 0, 0, 0, 0, 0, 0, 0, 0, 55, 56, 57, 45, 52, 53, 54, 43, 49, 50, 51, 48, 46]"

definition keymap_quarter :: "u8 list \<Rightarrow> u8 list" where
  "keymap_quarter q = take 0x53 q @ replicate (0x80 - 0x53) 0"

definition constructKeymap :: "u8 list" where
  "constructKeymap = keymap_quarter qwerty @ keymap_quarter qwertySHIFT @ keymap_quarter qwerty @ keymap_quarter qwertySHIFT"

text \<open>
  \<open>main\<close>: \<open>sysroot\<close> is the directory of the host as it is once the keymap has been written to
  \<open>sysroot/etc/keymap\<close>. The result is the exit status.
\<close>

definition mkfs_main :: "(u8 list \<Rightarrow> host) \<Rightarrow> (nat \<Rightarrow> u8) \<Rightarrow> nat \<Rightarrow> int \<times> mkfs" where
  "mkfs_main sysroot floppy len =
     (let s = build_image (sysroot constructKeymap)
            \<lparr>dbytes = floppy, flll = len, FIRST_UNU = 0, lastfucker = 0, inbase = (\<lambda>_. zero_inode), errc = 0\<rparr>
      in (if errc s \<noteq> 0 then - 1 else 0, s))"

subsection \<open>The layout\<close>

text \<open>Where a node, its block and its children are: numbers and sectors are given in preorder.\<close>

fun secs :: "dirORfile \<Rightarrow> nat" and secs_all :: "dirORfile list \<Rightarrow> nat" where
  "secs (File n c) = getsizeofDOF (File n c)"
| "secs (Dir n ts) = getsizeofDOF (Dir n ts) + secs_all ts"
| "secs_all [] = 0"
| "secs_all (t # ts) = secs t + secs_all ts"

fun ids_from :: "nat \<Rightarrow> dirORfile list \<Rightarrow> nat list" where
  "ids_from i [] = []"
| "ids_from i (t # ts) = i # ids_from (i + nodes t) ts"

definition block_at :: "(nat \<Rightarrow> u8) \<Rightarrow> nat \<Rightarrow> nat \<Rightarrow> u8 list" where
  "block_at D a b = ldb D (FS_BASE + 512 * a) (512 * b)"

fun stored :: "(nat \<Rightarrow> u8) \<Rightarrow> (nat \<Rightarrow> inode) \<Rightarrow> nat \<Rightarrow> nat \<Rightarrow> dirORfile \<Rightarrow> bool"
  and stored_all :: "(nat \<Rightarrow> u8) \<Rightarrow> (nat \<Rightarrow> inode) \<Rightarrow> nat \<Rightarrow> nat \<Rightarrow> dirORfile list \<Rightarrow> bool" where
  "stored D T i a (File n c) \<longleftrightarrow>
     (let b = getsizeofDOF (File n c) in T i = constructInode a b 1 n \<and> block_at D a b = block_of b c)"
| "stored D T i a (Dir n ts) \<longleftrightarrow>
     (let b = getsizeofDOF (Dir n ts) in T i = constructInode a b 8 n \<and> block_at D a b = block_of b (id_bytes (ids_from (i + 1) ts)) \<and>
        stored_all D T (i + 1) (a + b) ts)"
| "stored_all D T i a [] \<longleftrightarrow> True"
| "stored_all D T i a (t # ts) \<longleftrightarrow> stored D T i a t \<and> stored_all D T (i + nodes t) (a + secs t) ts"

lemma block_at_cong:
  "(\<And>k. FS_BASE + 512 * a \<le> k \<Longrightarrow> k < FS_BASE + 512 * (a + b) \<Longrightarrow> D' k = D k) \<Longrightarrow> block_at D' a b = block_at D a b"
  unfolding block_at_def by (rule ldb_cong) simp

lemma stored_cong:
  "(\<And>k. FS_BASE + 512 * a \<le> k \<Longrightarrow> k < FS_BASE + 512 * (a + secs t) \<Longrightarrow> D' k = D k) \<Longrightarrow>
    (\<And>j. i \<le> j \<Longrightarrow> j < i + nodes t \<Longrightarrow> T' j = T j) \<Longrightarrow> stored D' T' i a t = stored D T i a t"
  "(\<And>k. FS_BASE + 512 * a \<le> k \<Longrightarrow> k < FS_BASE + 512 * (a + secs_all ts) \<Longrightarrow> D' k = D k) \<Longrightarrow>
    (\<And>j. i \<le> j \<Longrightarrow> j < i + nodes_all ts \<Longrightarrow> T' j = T j) \<Longrightarrow> stored_all D' T' i a ts = stored_all D T i a ts"
proof (induction t and ts arbitrary: i a and i a rule: nodes_nodes_all.induct)
  case (1 n c)
  have "block_at D' a (getsizeofDOF (File n c)) = block_at D a (getsizeofDOF (File n c))"
    by (rule block_at_cong) (use 1 in simp)
  then show ?case using 1 by (simp add: Let_def)
next
  case (2 n ts)
  have "block_at D' a (getsizeofDOF (Dir n ts)) = block_at D a (getsizeofDOF (Dir n ts))"
    by (rule block_at_cong) (use 2 in simp)
  moreover have "stored_all D' T' (i + 1) (a + getsizeofDOF (Dir n ts)) ts = stored_all D T (i + 1) (a + getsizeofDOF (Dir n ts)) ts"
    by (rule 2) (use 2 in simp_all)
  ultimately show ?case using 2 by (simp add: Let_def)
next
  case (4 t ts)
  have "stored D' T' i a t = stored D T i a t" by (rule 4(1)) (use 4 in simp_all)
  moreover have "stored_all D' T' (i + nodes t) (a + secs t) ts = stored_all D T (i + nodes t) (a + secs t) ts"
    by (rule 4(2)) (use 4 in simp_all)
  ultimately show ?case by simp
qed simp

subsection \<open>What the builder writes\<close>

text \<open>Sectors and inodes are used from the next free ones on, and nothing else is touched.\<close>

definition wrote :: "nat \<Rightarrow> nat \<Rightarrow> mkfs \<Rightarrow> mkfs \<Rightarrow> bool" where
  "wrote n m s s' \<longleftrightarrow> lastfucker s' = lastfucker s + n \<and> FIRST_UNU s' = FIRST_UNU s + m \<and> flll s' = flll s \<and>
     (\<forall>k. k < FS_BASE + 512 * FIRST_UNU s \<or> FS_BASE + 512 * (FIRST_UNU s + m) \<le> k \<longrightarrow> dbytes s' k = dbytes s k) \<and>
     (\<forall>j. j < lastfucker s \<or> lastfucker s + n \<le> j \<longrightarrow> inbase s' j = inbase s j) \<and>
     (512 * (FIRST_UNU s + m) \<le> flll s \<longrightarrow> errc s' = errc s)"

lemma wrote_refl: "wrote 0 0 s s"
  by (simp add: wrote_def)

lemma wroteD:
  assumes "wrote n m s s'"
  shows "lastfucker s' = lastfucker s + n" "FIRST_UNU s' = FIRST_UNU s + m" "flll s' = flll s"
    "k < FS_BASE + 512 * FIRST_UNU s \<or> FS_BASE + 512 * (FIRST_UNU s + m) \<le> k \<Longrightarrow> dbytes s' k = dbytes s k"
    "j < lastfucker s \<or> lastfucker s + n \<le> j \<Longrightarrow> inbase s' j = inbase s j"
    "512 * (FIRST_UNU s + m) \<le> flll s \<Longrightarrow> errc s' = errc s"
  using assms unfolding wrote_def by blast+

lemma wrote_trans:
  assumes "wrote n m s t" "wrote n' m' t u"
  shows "wrote (n + n') (m + m') s u"
proof -
  note a = wroteD[OF assms(1)] and b = wroteD[OF assms(2)]
  have "dbytes u k = dbytes s k" if "k < FS_BASE + 512 * FIRST_UNU s \<or> FS_BASE + 512 * (FIRST_UNU s + (m + m')) \<le> k" for k
    using that
  proof
    assume "k < FS_BASE + 512 * FIRST_UNU s"
    then show ?thesis using a(2) a(4)[of k] b(4)[of k] by simp
  next
    assume "FS_BASE + 512 * (FIRST_UNU s + (m + m')) \<le> k"
    then show ?thesis using a(2) a(4)[of k] b(4)[of k] by simp
  qed
  moreover have "inbase u j = inbase s j" if "j < lastfucker s \<or> lastfucker s + (n + n') \<le> j" for j
    using that
  proof
    assume "j < lastfucker s"
    then show ?thesis using a(1) a(5)[of j] b(5)[of j] by simp
  next
    assume "lastfucker s + (n + n') \<le> j"
    then show ?thesis using a(1) a(5)[of j] b(5)[of j] by simp
  qed
  moreover have "errc u = errc s" if "512 * (FIRST_UNU s + (m + m')) \<le> flll s"
    using a(2,3,6) b(6) that by (simp add: distrib_left)
  ultimately show ?thesis using a(1-3) b(1-3) unfolding wrote_def by (intro conjI allI impI) simp_all
qed

lemma length_block_of: "length c \<le> 512 * b \<Longrightarrow> length (block_of b c) = 512 * b"
  by (simp add: block_of_def)

lemma sectors_for_le: "n \<le> 512 * sectors_for n"
proof -
  obtain q r where q: "n div 512 = q" "n mod 512 = r" by blast
  then have "n = q * 512 + r" "r < 512" using div_mult_mod_eq[of n 512] by auto
  then show ?thesis unfolding sectors_for_def by (simp add: q(1))
qed

lemma length_id_bytes: "length (id_bytes is) = 8 * length is"
  by (induction "is") (simp_all add: id_bytes_def)

lemma length_ids_from [simp]: "length (ids_from i ts) = length ts"
  by (induction ts arbitrary: i) simp_all

lemma put_node_ok:
  assumes m: "length m = 512 * b" and r: "put_node st b m i p name s = (r, s')"
  shows "r = i" "block_at (dbytes s') st b = m" "inbase s' = (inbase s)(i := constructInode st b p name)"
    "lastfucker s' = lastfucker s" "FIRST_UNU s' = FIRST_UNU s" "flll s' = flll s"
    "512 * (st + b) \<le> flll s \<Longrightarrow> errc s' = errc s"
    "k < FS_BASE + 512 * st \<or> FS_BASE + 512 * (st + b) \<le> k \<Longrightarrow> dbytes s' k = dbytes s k"
proof -
  let ?w = "wdiskr st b m s"
  have d: "dbytes ?w = stb (FS_BASE + 512 * st) m (dbytes s)" using m by (simp add: wdiskr_def Let_def)
  then have rb: "ldb (dbytes ?w) (FS_BASE + 512 * st) (512 * b) = m" using m by (simp add: ldb_stb_same)
  then have s': "r = i" "s' = ?w\<lparr>inbase := (inbase ?w)(i := constructInode st b p name)\<rparr>"
    using r by (auto simp: put_node_def Let_def)
  show "r = i" by (rule s'(1))
  show "block_at (dbytes s') st b = m" using rb by (simp add: s'(2) block_at_def)
  show "inbase s' = (inbase s)(i := constructInode st b p name)" "lastfucker s' = lastfucker s" "FIRST_UNU s' = FIRST_UNU s" "flll s' = flll s"
    by (simp_all add: s'(2) wdiskr_def Let_def)
  show "512 * (st + b) \<le> flll s \<Longrightarrow> errc s' = errc s" by (simp add: s'(2) wdiskr_def Let_def)
  show "k < FS_BASE + 512 * st \<or> FS_BASE + 512 * (st + b) \<le> k \<Longrightarrow> dbytes s' k = dbytes s k"
    using m by (simp add: s'(2) d stb_outside add.assoc distrib_left)
qed

lemma id_bytes_fit: "length (id_bytes (ids_from i ts)) \<le> 512 * sectors_for (length ts * INODE_SIZE)"
  using sectors_for_le[of "length ts * INODE_SIZE"] by (simp add: length_id_bytes INODE_SIZE_def)

lemma cDF_ok:
  "cDF t s = (r, s') \<Longrightarrow> r = lastfucker s \<and> wrote (nodes t) (secs t) s s' \<and> stored (dbytes s') (inbase s') (lastfucker s) (FIRST_UNU s) t"
  "cDF_all ts s = (rs, s') \<Longrightarrow> rs = ids_from (lastfucker s) ts \<and> wrote (nodes_all ts) (secs_all ts) s s' \<and>
    stored_all (dbytes s') (inbase s') (lastfucker s) (FIRST_UNU s) ts"
proof (induction t s and ts s arbitrary: r s' and rs s' rule: cDF_cDF_all.induct)
  case (1 name c s)
  let ?b = "sectors_for (length c)"
  let ?s = "s\<lparr>FIRST_UNU := FIRST_UNU s + ?b, lastfucker := lastfucker s + 1\<rparr>"
  have fit: "\<not> 512 * ?b < length c" using sectors_for_le[of "length c"] by simp
  then have r: "put_node (FIRST_UNU s) ?b (block_of ?b c) (lastfucker s) 1 name ?s = (r, s')"
    using 1 by (simp add: Let_def getdiskregion_def)
  note p = put_node_ok[OF length_block_of r] 
  have l: "length c \<le> 512 * ?b" using fit by simp
  show ?case using p(1,2,3,4,5,6,7)[OF l] p(8)[OF l] by (auto simp: wrote_def Let_def)
next
  case (2 name ts s)
  let ?b = "sectors_for (length ts * INODE_SIZE)"
  let ?s = "s\<lparr>FIRST_UNU := FIRST_UNU s + ?b, lastfucker := lastfucker s + 1\<rparr>"
  obtain "is" u where u: "cDF_all ts ?s = (is, u)" by fastforce
  have r: "put_node (FIRST_UNU s) ?b (block_of ?b (id_bytes is)) (lastfucker s) 8 name u = (r, s')"
    using 2(2) u by (simp add: Let_def getdiskregion_def)
  have ih: "is = ids_from (lastfucker s + 1) ts" "wrote (nodes_all ts) (secs_all ts) ?s u"
    "stored_all (dbytes u) (inbase u) (lastfucker s + 1) (FIRST_UNU s + ?b) ts"
    using 2(1)[OF refl _ refl refl refl] u by (simp_all add: getdiskregion_def)
  have l: "length (block_of ?b (id_bytes is)) = 512 * ?b" by (rule length_block_of) (simp add: ih(1) id_bytes_fit)
  note p = put_node_ok[OF l r]
  have "stored_all (dbytes s') (inbase s') (lastfucker s + 1) (FIRST_UNU s + ?b) ts = stored_all (dbytes u) (inbase u) (lastfucker s + 1) (FIRST_UNU s + ?b) ts"
    by (rule stored_cong(2)) (use p(3,8) in simp_all)
  then have "stored (dbytes s') (inbase s') (lastfucker s) (FIRST_UNU s) (Dir name ts)"
    using p(2,3) ih by (simp add: Let_def)
  moreover have "wrote (1 + nodes_all ts) (?b + secs_all ts) s s'"
    using ih(2) p(3-8) unfolding wrote_def by (auto simp: algebra_simps)
  ultimately show ?case using p(1) by simp
next
  case (3 s)
  then show ?case by (simp add: wrote_refl)
next
  case (4 t ts s)
  obtain i u where i: "cDF t s = (i, u)" by fastforce
  obtain "is" v where v: "cDF_all ts u = (is, v)" by fastforce
  have r: "rs = i # is" "s' = v" using 4(3) i v by simp_all
  have a: "i = lastfucker s" "wrote (nodes t) (secs t) s u" "stored (dbytes u) (inbase u) (lastfucker s) (FIRST_UNU s) t"
    using 4(1)[OF i] by simp_all
  have b: "is = ids_from (lastfucker u) ts" "wrote (nodes_all ts) (secs_all ts) u v" "stored_all (dbytes v) (inbase v) (lastfucker u) (FIRST_UNU u) ts"
    using 4(2)[OF i[symmetric] refl v] by simp_all
  have "stored (dbytes v) (inbase v) (lastfucker s) (FIRST_UNU s) t = stored (dbytes u) (inbase u) (lastfucker s) (FIRST_UNU s) t"
    by (rule stored_cong(1)) (use a(2) b(2) in \<open>auto simp: wrote_def\<close>)
  then show ?case using r a b wrote_trans[OF a(2) b(2)] by (simp add: wrote_def)
qed

lemma length_strncpy32 [simp]: "length (strncpy32 w) = 32"
  by (simp add: strncpy32_def)

lemma cDF_wf:
  "cDF t s = (r, s') \<Longrightarrow> \<forall>j. inode_wf (inbase s j) \<Longrightarrow> \<forall>j. inode_wf (inbase s' j)"
  "cDF_all ts s = (rs, s') \<Longrightarrow> \<forall>j. inode_wf (inbase s j) \<Longrightarrow> \<forall>j. inode_wf (inbase s' j)"
proof (induction t s and ts s arbitrary: r s' and rs s' rule: cDF_cDF_all.induct)
  case (1 name c s)
  then show ?case by (auto simp: Let_def getdiskregion_def put_node_def wdiskr_def inode_wf_def constructInode_def split: if_splits)
next
  case (2 name ts s)
  let ?b = "sectors_for (length ts * INODE_SIZE)"
  let ?s = "s\<lparr>FIRST_UNU := FIRST_UNU s + ?b, lastfucker := lastfucker s + 1\<rparr>"
  obtain "is" u where u: "cDF_all ts ?s = (is, u)" by fastforce
  have "\<forall>j. inode_wf (inbase u j)" using 2(1)[OF refl _ refl refl refl] u 2(3) by (simp add: getdiskregion_def)
  moreover have "put_node (FIRST_UNU s) ?b (block_of ?b (id_bytes is)) (lastfucker s) 8 name u = (r, s')"
    using 2(2) u by (simp add: Let_def getdiskregion_def)
  ultimately show ?case by (auto simp: put_node_def wdiskr_def inode_wf_def constructInode_def Let_def split: if_splits)
next
  case (3 s)
  then show ?case by simp
next
  case (4 t ts s)
  obtain i u where i: "cDF t s = (i, u)" by fastforce
  obtain "is" v where v: "cDF_all ts u = (is, v)" by fastforce
  show ?case using 4(1)[OF i 4(4)] 4(2)[OF i[symmetric] refl v] 4(3) i v by simp
qed

text \<open>The table of inodes.\<close>

lemma concat_record:
  assumes "\<forall>i. length (f i) = r" "j < n"
  shows "take r (drop (r * j) (concat (map f [0..<n]) @ z)) = f j"
proof -
  have len: "length (concat (map f [0..<m])) = r * m" for m using assms(1) by (induction m) simp_all
  have "[0..<n] = [0..<j] @ j # [Suc j..<n]" using assms(2) upt_add_eq_append[of 0 j "n - j"] by (simp add: upt_conv_Cons)
  then have "concat (map f [0..<n]) @ z = concat (map f [0..<j]) @ f j @ concat (map f [Suc j..<n]) @ z" by simp
  then show ?thesis using len[of j] assms(1) by simp
qed

lemma table_bytes_ok:
  assumes "\<forall>j. inode_wf (T j)" "lnb = sectors_for (60 * n)"
  shows "length (table_bytes lnb n T) = 512 * lnb" "j < n \<Longrightarrow> take 60 (drop (60 * j) (table_bytes lnb n T)) = encode_inode (T j)"
proof -
  have e: "\<forall>i. length (encode_inode (T i)) = 60" using assms(1) length_encode_inode by blast
  then have "length (concat (map (\<lambda>i. encode_inode (T i)) [0..<n])) = 60 * n" by (induction n) simp_all
  then show "length (table_bytes lnb n T) = 512 * lnb"
    using sectors_for_le[of "60 * n"] assms(2) by (simp add: table_bytes_def length_block_of)
  show "j < n \<Longrightarrow> take 60 (drop (60 * j) (table_bytes lnb n T)) = encode_inode (T j)"
    unfolding table_bytes_def block_of_def by (rule concat_record[OF e])
qed

definition fresh_mkfs :: "mkfs \<Rightarrow> bool" where
  "fresh_mkfs s \<longleftrightarrow> FIRST_UNU s = 0 \<and> lastfucker s = 0"

lemma build_image_ok:
  assumes s: "fresh_mkfs s" and r: "root = readDir SYSROOT h" and lnb: "lnb = sectors_for (INODE_SIZE * nodes root)"
    and s': "s' = build_image h s"
  shows "stored (dbytes s') (inbase s') 0 lnb root" "block_at (dbytes s') 0 lnb = table_bytes lnb (nodes root) (inbase s')"
    "\<forall>j. inode_wf (inbase s' j)" "512 * (lnb + secs root) \<le> flll s \<Longrightarrow> errc s' = errc s"
proof -
  have n1: "0 < nodes root" by (cases root) simp_all
  have lnb0: "lnb \<noteq> 0" using sectors_for_le[of "INODE_SIZE * nodes root"] n1 lnb by (auto simp: INODE_SIZE_def)
  let ?s = "s\<lparr>FIRST_UNU := lnb, inbase := (\<lambda>_. zero_inode)\<rparr>"
  obtain i u where u: "cDF root ?s = (i, u)" by fastforce
  have b: "s' = wdiskr 0 lnb (table_bytes lnb (nodes root) (inbase u)) u"
    using s u lnb0 unfolding s' build_image_def r[symmetric] Let_def lnb[symmetric] by (simp add: fresh_mkfs_def)
  note c = cDF_ok(1)[OF u]
  have wf: "\<forall>j. inode_wf (inbase u j)" by (rule cDF_wf(1)[OF u]) (simp add: inode_wf_def zero_inode_def)
  have lt: "length (table_bytes lnb (nodes root) (inbase u)) = 512 * lnb"
    by (rule table_bytes_ok(1)[OF wf]) (simp add: lnb INODE_SIZE_def)
  then have D: "dbytes s' = stb FS_BASE (table_bytes lnb (nodes root) (inbase u)) (dbytes u)" "inbase s' = inbase u"
    by (simp_all add: b wdiskr_def Let_def)
  show "\<forall>j. inode_wf (inbase s' j)" using wf D by simp
  show "block_at (dbytes s') 0 lnb = table_bytes lnb (nodes root) (inbase s')"
    using lt ldb_stb_same[of "512 * lnb" "table_bytes lnb (nodes root) (inbase u)" FS_BASE "dbytes u"] by (simp add: block_at_def D)
  have "stored (dbytes s') (inbase s') 0 lnb root = stored (dbytes u) (inbase u) 0 lnb root"
    by (rule stored_cong(1)) (simp_all add: D lt stb_outside)
  then show "stored (dbytes s') (inbase s') 0 lnb root" using c s by (simp add: fresh_mkfs_def)
  have fl: "flll u = flll s" using c by (simp add: wrote_def)
  show "512 * (lnb + secs root) \<le> flll s \<Longrightarrow> errc s' = errc s"
    using c fl by (simp add: b wdiskr_def Let_def wrote_def)
qed

subsection \<open>The image as the kernel sees it\<close>

text \<open>The floppy disk with the bytes \<open>D\<close> on it, when the kernel has just started.\<close>

definition disk_image :: "(nat \<Rightarrow> u8) \<Rightarrow> qfs" where
  "disk_image D = \<lparr>medium = (\<lambda>c. ldb D (512 * chs_2_lba c) 512), disk0_held = False, kINb = (\<lambda>_. zero_vnode), kINb_sz = 0\<rparr>"

lemma disk_image_ok: "disk_ok (disk_image D)" "cache_ok (disk_image D)"
  by (simp_all add: disk_ok_def disk_image_def cache_ok_def cache_cap_def)

lemma img_disk_image: "k < 512 * SECTORS \<Longrightarrow> img (disk_image D) k = D (FS_BASE + k)"
proof -
  assume k: "k < 512 * SECTORS"
  then have "k div 512 < SECTORS" by (intro less_mult_imp_div_less) (simp add: mult.commute)
  then have "chs_2_lba (geom (108 + k div 512)) = 108 + k div 512" by (intro chs_2_lba_geom) (simp add: SECTORS_def)
  then have "img (disk_image D) k = D (512 * (108 + k div 512) + k mod 512)"
    by (simp add: img_def sector_def disk_image_def)
  moreover have "512 * (108 + k div 512) + k mod 512 = FS_BASE + k" by (simp add: FS_BASE_def LBA_FS_BASE_def distrib_left)
  ultimately show ?thesis by (simp only:)
qed

lemma ldb_disk_image: "a + n \<le> 512 * SECTORS \<Longrightarrow> ldb (img (disk_image D)) a n = ldb D (FS_BASE + a) n"
  unfolding ldb_def by (rule map_cong) (simp_all add: img_disk_image add.assoc)

definition inodes_are :: "qfs \<Rightarrow> (nat \<Rightarrow> inode) \<Rightarrow> nat \<Rightarrow> bool" where
  "inodes_are s T N \<longleftrightarrow> (\<forall>j < N. disk_inode s j = T j) \<and> 60 * N \<le> 512 * SECTORS"

lemma disk_image_inodes:
  assumes t: "block_at D 0 lnb = table_bytes lnb N T" and wf: "\<forall>j. inode_wf (T j)"
    and lnb: "lnb = sectors_for (60 * N)" "lnb \<le> SECTORS"
  shows "inodes_are (disk_image D) T N"
proof -
  have le: "60 * N \<le> 512 * lnb" using sectors_for_le[of "60 * N"] lnb by simp
  have "disk_inode (disk_image D) j = T j" if "j < N" for j
  proof -
    have "60 * j + 60 \<le> 512 * lnb" using that le by simp
    then have "ldb (img (disk_image D)) (60 * j) 60 = take 60 (drop (60 * j) (block_at D 0 lnb))"
      using lnb ldb_disk_image[of "60 * j" 60 D] by (simp add: block_at_def ldb_sub)
    also have "\<dots> = encode_inode (T j)" unfolding t by (rule table_bytes_ok(2)[OF wf lnb(1) that])
    finally show ?thesis using wf by (simp add: disk_inode_def decode_encode)
  qed
  then show ?thesis using le lnb by (simp add: inodes_are_def)
qed

text \<open>A block on the disk, through its inode.\<close>

lemma constructInode_block:
  assumes "a + b \<le> SECTORS" "n = constructInode a b p w"
  shows "unat (chunkaddr1 n) = a" "unat (chunklen n) = b" "in_bounds n" "content (disk_image D) n 0 (512 * b) = block_at D a b"
proof -
  have ab: "a < 2 ^ 64" "b < 2 ^ 64" using assms(1) by (simp_all add: SECTORS_def)
  then show u: "unat (chunkaddr1 n) = a" "unat (chunklen n) = b" by (simp_all add: assms(2) constructInode_def unat_of_nat_small)
  show "in_bounds n" using u assms(1) by (simp add: in_bounds_def)
  show "content (disk_image D) n 0 (512 * b) = block_at D a b"
    unfolding content_def u block_at_def using assms(1) by (simp add: ldb_disk_image)
qed

definition name_ok :: "u8 list \<Rightarrow> bool" where
  "name_ok w \<longleftrightarrow> length w < 32 \<and> cstring w"

lemma strncpy32_name: "name_ok w \<Longrightarrow> strncpy32 w = w @ replicate (32 - length w) 0"
  by (simp add: name_ok_def strncpy32_def min_def)

lemma constructInode_name:
  assumes "name_ok w"
  shows "entry_name (constructInode a b p w) = w" "0 \<in> set (iname (constructInode a b p w))"
proof -
  have z: "replicate (32 - length w) (0 :: u8) = 0 # replicate (31 - length w) 0"
    using assms by (cases "32 - length w") (simp_all add: name_ok_def)
  have "\<forall>x \<in> set w. x \<noteq> 0" using assms by (auto simp: name_ok_def cstring_def)
  then show "entry_name (constructInode a b p w) = w" "0 \<in> set (iname (constructInode a b p w))"
    using z by (simp_all add: entry_name_def constructInode_def strncpy32_name[OF assms] takeWhile_append2)
qed

lemma dir_ids_bytes:
  "\<forall>i \<in> set is. 0 < i \<and> i < 2 ^ 64 \<Longrightarrow> length is \<le> n \<Longrightarrow>
    dir_ids (id_bytes is @ replicate (8 * (n - length is)) 0) n = map of_nat is"
proof (induction "is" arbitrary: n)
  case Nil
  have "take 8 (replicate (8 + 8 * m) (0::u8)) = [0,0,0,0,0,0,0,0]" for m by (simp add: take_replicate eval_nat_numeral)
  then show ?case by (cases n) (simp_all add: id_bytes_def Let_def)
next
  case (Cons i "is")
  obtain n' where n: "n = Suc n'" using Cons.prems(2) by (cases n) auto
  have "unat (of_nat i :: u64) = i" using Cons.prems(1) by (simp add: unat_of_nat_small)
  then have "(of_nat i :: u64) \<noteq> 0" using Cons.prems(1) by force
  moreover have "dir_ids (id_bytes is @ replicate (8 * (n' - length is)) 0) n' = map of_nat is"
    using Cons.prems n by (intro Cons.IH) simp_all
  moreover have "id_bytes (i # is) = le_bytes 8 (of_nat i :: u64) @ id_bytes is" by (simp add: id_bytes_def)
  ultimately show ?case by (simp add: n Let_def le_word_bytes)
qed

lemma nodes_pos: "0 < nodes t"
  by (cases t) simp_all

lemma ids_from_range: "j \<in> set (ids_from i ts) \<Longrightarrow> i \<le> j \<and> j < i + nodes_all ts"
proof (induction ts arbitrary: i)
  case (Cons t ts)
  then show ?case using nodes_pos[of t] Cons.IH[of "i + nodes t"] by fastforce
qed simp

text \<open>The entries of a directory of at most 64 files.\<close>

lemma entries_disk_image:
  assumes st: "stored D T i a (Dir w ts)" and ab: "a + secs (Dir w ts) \<le> SECTORS" and ts: "ts \<noteq> []" "length ts \<le> 64"
    and N: "i + nodes_all ts < 2 ^ 60"
  shows "entries_of (disk_image D) (T i) = map of_nat (ids_from (i + 1) ts)" "in_bounds (T i)" "chunklen (T i) \<noteq> 0"
proof -
  let ?b = "sectors_for (length ts * INODE_SIZE)" and ?is = "ids_from (i + 1) ts"
  have T: "T i = constructInode a ?b 8 w" and B: "block_at D a ?b = block_of ?b (id_bytes ?is)"
    using st by (simp_all add: Let_def)
  have "a + ?b \<le> SECTORS" using ab by simp
  note c = constructInode_block[OF this T]
  have pos: "0 < ?b" using sectors_for_le[of "length ts * INODE_SIZE"] ts(1) by (cases ts) (auto simp: INODE_SIZE_def intro: gr0I)
  have "content (disk_image D) (T i) 0 512 = take 512 (content (disk_image D) (T i) 0 (512 * ?b))"
    using pos ldb_sub[of 0 512 "512 * ?b"] by (simp add: content_def)
  also have "\<dots> = take 512 (id_bytes ?is @ replicate (512 * ?b - 8 * length ts) 0)"
    by (simp add: c(4) B block_of_def length_id_bytes)
  also have "\<dots> = id_bytes ?is @ replicate (8 * (64 - length ?is)) 0"
  proof -
    have "512 - 8 * length ts \<le> 512 * ?b - 8 * length ts" using pos by simp
    moreover have "512 - 8 * length ts = 8 * (64 - length ts)" using ts(2) by simp
    ultimately show ?thesis using ts(2) by (simp add: length_id_bytes take_replicate min_def)
  qed
  finally have "content (disk_image D) (T i) 0 512 = \<dots>" .
  moreover have "\<forall>j \<in> set ?is. 0 < j \<and> j < 2 ^ 64" using ids_from_range[of _ "i + 1" ts] N by fastforce
  ultimately show "entries_of (disk_image D) (T i) = map of_nat ?is"
    using dir_ids_bytes[of ?is 64] ts(2) by (simp add: entries_of_def)
  show "in_bounds (T i)" by (rule c(3))
  show "chunklen (T i) \<noteq> 0" using c(2) pos by auto
qed

text \<open>Searching a directory for a name.\<close>

lemma find_entry_stored:
  assumes "stored_all D T i a ts" "\<forall>t \<in> set ts. name_ok (dname t)" "inodes_are s T N" "i + nodes_all ts \<le> N" "N < 2 ^ 60"
    "a + secs_all ts \<le> SECTORS"
  shows "case find (\<lambda>t. dname t = c) ts of
      None \<Rightarrow> find_entry s (map of_nat (ids_from i ts)) c = None
    | Some t \<Rightarrow> \<exists>j b. find_entry s (map of_nat (ids_from i ts)) c = Some (T j) \<and> stored D T j b t \<and>
        j + nodes t \<le> N \<and> b + secs t \<le> SECTORS"
  using assms
proof (induction ts arbitrary: i a)
  case (Cons t ts)
  have "i < N" using Cons.prems(4) nodes_pos[of t] by simp
  then have i: "disk_inode s (unat (of_nat i :: u64)) = T i"
    using Cons.prems(3,5) by (simp add: inodes_are_def unat_of_nat_small)
  obtain b p where T: "T i = constructInode a b p (dname t)" using Cons.prems(1) by (cases t) (auto simp: Let_def)
  have n: "entry_name (T i) = dname t" unfolding T by (rule constructInode_name) (use Cons.prems in simp)
  show ?case
  proof (cases "dname t = c")
    case True
    then have "find_entry s (map of_nat (ids_from i (t # ts))) c = Some (T i)" using i n by (simp add: Let_def)
    moreover have "stored D T i a t" "i + nodes t \<le> N" "a + secs t \<le> SECTORS" using Cons.prems by simp_all
    ultimately show ?thesis using True by auto
  next
    case False
    then have "find_entry s (map of_nat (ids_from i (t # ts))) c = find_entry s (map of_nat (ids_from (i + nodes t) ts)) c"
      using i n by (simp add: Let_def)
    moreover have "find (\<lambda>t. dname t = c) (t # ts) = find (\<lambda>t. dname t = c) ts" using False by simp
    ultimately show ?thesis using Cons.IH[of "i + nodes t" "a + secs t"] Cons.prems by (simp only:) simp
  qed
qed simp

lemma names_terminated:
  assumes "stored_all D T i a ts" "\<forall>t \<in> set ts. name_ok (dname t)" "j \<in> set (ids_from i ts)"
  shows "0 \<in> set (iname (T j))"
  using assms
proof (induction ts arbitrary: i a)
  case (Cons t ts)
  obtain b p where "T i = constructInode a b p (dname t)" using Cons.prems(1) by (cases t) (auto simp: Let_def)
  then have "0 \<in> set (iname (T i))" using constructInode_name(2)[of "dname t"] Cons.prems(2) by simp
  then show ?case using Cons.IH[of "i + nodes t" "a + secs t"] Cons.prems by auto
qed simp

subsection \<open>Paths in the tree\<close>

text \<open>
  \<open>tree_at\<close> follows a list of names from a node; \<open>through_dirs\<close> says that no file is used as a directory on
  the way. A tree fits when no directory is empty or has more than 64 entries, which is what the kernel reads
  of one, and no name is longer than 31 bytes.
\<close>

fun tree_at :: "dirORfile \<Rightarrow> u8 list list \<Rightarrow> dirORfile option" where
  "tree_at t [] = Some t"
| "tree_at (File w c) (n # ns) = None"
| "tree_at (Dir w ts) (n # ns) = (case find (\<lambda>t. dname t = n) ts of None \<Rightarrow> None | Some t \<Rightarrow> tree_at t ns)"

fun through_dirs :: "dirORfile \<Rightarrow> u8 list list \<Rightarrow> bool" where
  "through_dirs t [] \<longleftrightarrow> True"
| "through_dirs (File w c) (n # ns) \<longleftrightarrow> False"
| "through_dirs (Dir w ts) (n # ns) \<longleftrightarrow> (case find (\<lambda>t. dname t = n) ts of None \<Rightarrow> True | Some t \<Rightarrow> through_dirs t ns)"

fun tree_fits :: "dirORfile \<Rightarrow> bool" and trees_fit :: "dirORfile list \<Rightarrow> bool" where
  "tree_fits (File w c) \<longleftrightarrow> name_ok w"
| "tree_fits (Dir w ts) \<longleftrightarrow> name_ok w \<and> ts \<noteq> [] \<and> length ts \<le> 64 \<and> trees_fit ts"
| "trees_fit [] \<longleftrightarrow> True"
| "trees_fit (t # ts) \<longleftrightarrow> tree_fits t \<and> trees_fit ts"

lemma tree_fits_name: "tree_fits t \<Longrightarrow> name_ok (dname t)"
  by (cases t) simp_all

lemma trees_fit_all: "trees_fit ts = (\<forall>t \<in> set ts. tree_fits t)"
  by (induction ts) simp_all

text \<open>What the inode of a node says, and what the disk holds for it.\<close>

fun node_on :: "qfs \<Rightarrow> inode \<Rightarrow> dirORfile \<Rightarrow> bool" where
  "node_on s n (File w c) \<longleftrightarrow> entry_name n = w \<and> iperms n = 1 \<and> in_bounds n \<and> unat (chunklen n) = sectors_for (length c) \<and>
     content s n 0 (512 * unat (chunklen n)) = c @ replicate (512 * unat (chunklen n) - length c) 0"
| "node_on s n (Dir w ts) \<longleftrightarrow> entry_name n = w \<and> iperms n = 8 \<and> in_bounds n \<and> length (entries_of s n) = length ts"

lemma node_on_stored:
  assumes "stored D T i a t" "a + secs t \<le> SECTORS" "tree_fits t" "i + nodes t \<le> N" "N < 2 ^ 60"
  shows "node_on (disk_image D) (T i) t"
proof (cases t)
  case (File w c)
  let ?b = "sectors_for (length c)"
  have T: "T i = constructInode a ?b 1 w" and B: "block_at D a ?b = block_of ?b c"
    using assms(1) File by (simp_all add: Let_def)
  have "a + ?b \<le> SECTORS" using assms(2) File by simp
  note c = constructInode_block[OF this T]
  have "entry_name (T i) = w" unfolding T by (rule constructInode_name) (use assms(3) File in simp)
  moreover have "iperms (T i) = 1" by (simp add: T constructInode_def)
  ultimately show ?thesis using c B File by (simp add: block_of_def)
next
  case (Dir w ts)
  have "entry_name (T i) = w" "iperms (T i) = 8"
    using assms(1,3) Dir constructInode_name[of w] by (simp_all add: Let_def) (simp add: constructInode_def)
  then show ?thesis using entries_disk_image[of D T i a w ts] assms Dir by simp
qed

text \<open>Following the names on the disk is following them in the tree.\<close>

lemma resolve_tree:
  assumes "stored D T i a t" "a + secs t \<le> SECTORS" "tree_fits t" "i + nodes t \<le> N" "N < 2 ^ 60" "inodes_are (disk_image D) T N"
    "through_dirs t ns"
  shows "path_wf (disk_image D) (T i) ns \<and>
    (case tree_at t ns of
       None \<Rightarrow> resolve (disk_image D) (T i) ns = None
     | Some u \<Rightarrow> \<exists>n. resolve (disk_image D) (T i) ns = Some n \<and> node_on (disk_image D) n u)"
  using assms
proof (induction ns arbitrary: i a t)
  case Nil
  then show ?case using node_on_stored[of D T i a t N] by simp
next
  case (Cons c ns)
  obtain w ts where t: "t = Dir w ts" using Cons.prems(7) by (cases t) simp_all
  let ?s = "disk_image D"
  note P = Cons.prems[unfolded t]
  have e: "entries_of ?s (T i) = map of_nat (ids_from (i + 1) ts)" "in_bounds (T i)" "chunklen (T i) \<noteq> 0"
    using entries_disk_image[OF P(1,2)] P(3,4,5) by simp_all
  have st: "stored_all D T (i + 1) (a + getsizeofDOF (Dir w ts)) ts" using P(1) by (simp add: Let_def)
  have nm: "\<forall>t \<in> set ts. name_ok (dname t)" using P(3) tree_fits_name by (auto simp: trees_fit_all)
  have id: "60 * unat (of_nat j :: u64) + 60 \<le> 512 * SECTORS \<and> 0 \<in> set (iname (disk_inode ?s (unat (of_nat j :: u64))))"
    if "j \<in> set (ids_from (i + 1) ts)" for j
  proof -
    have "j < N" using ids_from_range[OF that] P(4) by simp
    then show ?thesis using names_terminated[OF st nm that] P(5,6) by (simp add: inodes_are_def unat_of_nat_small)
  qed
  then have wf: "dir_wf ?s (T i)" using e by (auto simp: dir_wf_def)
  note f = find_entry_stored[OF st nm P(6), of c]
  show ?case
  proof (cases "find (\<lambda>t. dname t = c) ts")
    case None
    then show ?thesis using f wf e P(2,4,5) t by simp
  next
    case (Some u)
    then obtain j b where j: "find_entry ?s (map of_nat (ids_from (i + 1) ts)) c = Some (T j)" "stored D T j b u" "j + nodes u \<le> N" "b + secs u \<le> SECTORS"
      using f P(2,4,5) by auto
    have "u \<in> set ts" using Some by (auto simp: find_Some_iff)
    then have "tree_fits u" using P(3) by (simp add: trees_fit_all)
    moreover have "through_dirs u ns" using Some P(7) by simp
    moreover have "path_wf ?s (T i) (c # ns) = path_wf ?s (T j) ns" "resolve ?s (T i) (c # ns) = resolve ?s (T j) ns"
      "tree_at t (c # ns) = tree_at u ns"
      using Some j(1) wf e(1) t by simp_all
    ultimately show ?thesis using Cons.IH[OF j(2,4) _ j(3) P(5,6)] by (simp only:)
  qed
qed

subsection \<open>The exit status\<close>

text \<open>A write beyond the length of the image is counted, and nothing else is.\<close>

lemma put_node_errc:
  assumes "length m = 512 * b" "put_node st b m i p name s = (r, s')"
  shows "flll s' = flll s" "errc s' = errc s + (if flll s < 512 * (st + b) then 1 else 0)"
proof -
  let ?w = "wdiskr st b m s"
  have "dbytes ?w = stb (FS_BASE + 512 * st) m (dbytes s)" using assms(1) by (simp add: wdiskr_def Let_def)
  then have "ldb (dbytes ?w) (FS_BASE + 512 * st) (512 * b) = m" using assms(1) by (simp add: ldb_stb_same)
  then have "s' = ?w\<lparr>inbase := (inbase ?w)(i := constructInode st b p name)\<rparr>"
    using assms(2) by (auto simp: put_node_def Let_def)
  then show "flll s' = flll s" "errc s' = errc s + (if flll s < 512 * (st + b) then 1 else 0)"
    by (simp_all add: wdiskr_def Let_def distrib_left)
qed

lemma cDF_errc:
  "cDF t s = (r, s') \<Longrightarrow> errc s \<le> errc s' \<and> (errc s' = errc s \<longleftrightarrow> 512 * (FIRST_UNU s + secs t) \<le> flll s)"
  "cDF_all ts s = (rs, s') \<Longrightarrow> errc s \<le> errc s' \<and> (errc s' = errc s \<longleftrightarrow> ts = [] \<or> 512 * (FIRST_UNU s + secs_all ts) \<le> flll s)"
proof (induction t s and ts s arbitrary: r s' and rs s' rule: cDF_cDF_all.induct)
  case (1 name c s)
  let ?b = "sectors_for (length c)"
  let ?s = "s\<lparr>FIRST_UNU := FIRST_UNU s + ?b, lastfucker := lastfucker s + 1\<rparr>"
  have fit: "length c \<le> 512 * ?b" by (rule sectors_for_le)
  then have r: "put_node (FIRST_UNU s) ?b (block_of ?b c) (lastfucker s) 1 name ?s = (r, s')"
    using 1 by (simp add: Let_def getdiskregion_def)
  show ?case using put_node_errc[OF length_block_of[OF fit] r] by simp
next
  case (2 name ts s)
  let ?b = "sectors_for (length ts * INODE_SIZE)"
  let ?s = "s\<lparr>FIRST_UNU := FIRST_UNU s + ?b, lastfucker := lastfucker s + 1\<rparr>"
  obtain "is" u where u: "cDF_all ts ?s = (is, u)" by fastforce
  have r: "put_node (FIRST_UNU s) ?b (block_of ?b (id_bytes is)) (lastfucker s) 8 name u = (r, s')"
    using 2(2) u by (simp add: Let_def getdiskregion_def)
  have ih: "errc s \<le> errc u" "errc u = errc s \<longleftrightarrow> ts = [] \<or> 512 * (FIRST_UNU s + ?b + secs_all ts) \<le> flll s"
    using 2(1)[OF refl _ refl refl refl] u by (simp_all add: getdiskregion_def)
  have l: "is = ids_from (lastfucker s + 1) ts" "flll u = flll s" using cDF_ok(2)[OF u] by (simp_all add: wrote_def)
  have "length (block_of ?b (id_bytes is)) = 512 * ?b" by (rule length_block_of) (simp add: l(1) id_bytes_fit)
  from put_node_errc[OF this r] have "errc s' = errc u + (if flll s < 512 * (FIRST_UNU s + ?b) then 1 else 0)"
    using l(2) by simp
  then show ?case using ih by (cases ts) auto
next
  case (3 s)
  then show ?case by simp
next
  case (4 t ts s)
  obtain i u where i: "cDF t s = (i, u)" by fastforce
  obtain "is" v where v: "cDF_all ts u = (is, v)" by fastforce
  have "s' = v" using 4(3) i v by simp
  moreover have "FIRST_UNU u = FIRST_UNU s + secs t" "flll u = flll s" using cDF_ok(1)[OF i] by (simp_all add: wrote_def)
  ultimately show ?case using 4(1)[OF i] 4(2)[OF i[symmetric] refl v] by (cases ts) (auto simp: add.assoc)
qed

definition table_sectors :: "dirORfile \<Rightarrow> nat" where
  "table_sectors root = sectors_for (INODE_SIZE * nodes root)"

text \<open>The image builder exits with 0 exactly when the table of inodes and all blocks fit into the length
  of the image, measured from the start of the image: the 108 sectors in front of the file system are not counted,
  so that an image with fewer sectors behind them is accepted and grows.\<close>

theorem mkfs_status:
  "fst (mkfs_main sysroot floppy len) =
    (let root = readDir SYSROOT (sysroot constructKeymap) in if 512 * (table_sectors root + secs root) \<le> len then 0 else - 1)"
proof -
  let ?root = "readDir SYSROOT (sysroot constructKeymap)"
  define lnb where "lnb = sectors_for (INODE_SIZE * nodes ?root)"
  define s :: mkfs where "s = \<lparr>dbytes = floppy, flll = len, FIRST_UNU = lnb, lastfucker = 0, inbase = (\<lambda>_. zero_inode), errc = 0\<rparr>"
  have lnb0: "lnb \<noteq> 0" using sectors_for_le[of "INODE_SIZE * nodes ?root"] nodes_pos[of ?root] by (auto simp: INODE_SIZE_def lnb_def)
  obtain i u where u: "cDF ?root s = (i, u)" by fastforce
  have "build_image (sysroot constructKeymap) \<lparr>dbytes = floppy, flll = len, FIRST_UNU = 0, lastfucker = 0, inbase = (\<lambda>_. zero_inode), errc = 0\<rparr> =
      wdiskr 0 lnb (table_bytes lnb (nodes ?root) (inbase u)) u"
    using u lnb0 unfolding build_image_def Let_def lnb_def[symmetric] by (simp add: s_def)
  moreover have "flll u = len" using cDF_ok(1)[OF u] by (simp add: wrote_def s_def)
  moreover have "errc u = 0 \<longleftrightarrow> 512 * (lnb + secs ?root) \<le> len" using cDF_errc(1)[OF u] by (simp add: s_def)
  ultimately show ?thesis
    by (auto simp: mkfs_main_def Let_def wdiskr_def table_sectors_def lnb_def[symmetric])
qed

subsection \<open>What the kernel finds\<close>

lemma through_dirs_found: "tree_at t ns = Some u \<Longrightarrow> through_dirs t ns"
  by (induction t ns rule: tree_at.induct) (auto split: option.splits)

text \<open>The image of a tree that fits on the disk.\<close>

definition holds_tree :: "dirORfile \<Rightarrow> (nat \<Rightarrow> u8) \<Rightarrow> bool" where
  "holds_tree root D \<longleftrightarrow> (\<forall>ns. through_dirs root ns \<longrightarrow>
     path_wf (disk_image D) (disk_inode (disk_image D) 0) ns \<and>
     (case tree_at root ns of
        None \<Rightarrow> resolve (disk_image D) (disk_inode (disk_image D) 0) ns = None
      | Some u \<Rightarrow> \<exists>n. resolve (disk_image D) (disk_inode (disk_image D) 0) ns = Some n \<and> node_on (disk_image D) n u))"

lemma mkfs_holds_tree:
  assumes r: "mkfs_main sysroot floppy len = (r, s)" and root: "root = readDir SYSROOT (sysroot constructKeymap)"
    and fits: "tree_fits root" "table_sectors root + secs root \<le> SECTORS"
  shows "holds_tree root (dbytes s)"
proof -
  let ?s = "\<lparr>dbytes = floppy, flll = len, FIRST_UNU = 0, lastfucker = 0, inbase = (\<lambda>_. zero_inode), errc = 0\<rparr>"
  have s: "s = build_image (sysroot constructKeymap) ?s" using r by (simp add: mkfs_main_def Let_def)
  have "fresh_mkfs ?s" by (simp add: fresh_mkfs_def)
  note b = build_image_ok[OF this root table_sectors_def s]
  have sz: "sectors_for (60 * nodes root) = table_sectors root" by (simp add: table_sectors_def INODE_SIZE_def)
  have "60 * nodes root \<le> 512 * table_sectors root" using sectors_for_le[of "60 * nodes root"] sz by simp
  then have N: "nodes root < 2 ^ 60" using fits(2) by (simp add: SECTORS_def)
  have I: "inodes_are (disk_image (dbytes s)) (inbase s) (nodes root)"
    by (rule disk_image_inodes[OF b(2,3) sz[symmetric]]) (use fits(2) in simp)
  then have e: "disk_inode (disk_image (dbytes s)) 0 = inbase s 0" using nodes_pos[of root] by (simp add: inodes_are_def)
  have le: "0 + nodes root \<le> nodes root" by simp
  show ?thesis
    unfolding holds_tree_def e using resolve_tree[OF b(1) fits(2,1) le N I] by blast
qed


text \<open>A \<open>sysroot\<close> with nothing but the keymap.\<close>

definition ETC :: "u8 list" where "ETC = [0x65, 0x74, 0x63]"

definition KEYMAP :: "u8 list" where "KEYMAP = [0x6b, 0x65, 0x79, 0x6d, 0x61, 0x70]"

definition demo_sysroot :: "u8 list \<Rightarrow> host" where
  "demo_sysroot km = HDir [([DOT], HDir []), (ETC, HDir [([DOT, DOT], HDir []), (KEYMAP, HFile km)])]"

definition demo_root :: dirORfile where
  "demo_root = Dir [] [Dir ETC [File KEYMAP constructKeymap]]"

lemma length_constructKeymap: "length constructKeymap = 512"
  by (simp add: constructKeymap_def keymap_quarter_def qwerty_def qwertySHIFT_def)

lemma demo_root_ok:
  "readDir SYSROOT (demo_sysroot constructKeymap) = demo_root" "tree_fits demo_root" "table_sectors demo_root + secs demo_root = 4"
  "tree_at demo_root [ETC, KEYMAP] = Some (File KEYMAP constructKeymap)" "component ETC" "component KEYMAP"
  by (simp_all add: demo_sysroot_def demo_root_def SYSROOT_def after_slash_def DOT_def SLASH_def ETC_def KEYMAP_def name_ok_def cstring_def
      table_sectors_def sectors_for_def INODE_SIZE_def length_constructKeymap component_def)


end
