(* ===== verification/Keymap.thy ===== *)
theory Keymap
  imports MkFs Ps2 Filesystem
begin

section \<open>Loading the keymap (ps2.c on top of filesystem.c, qfs.c and the image builder)\<close>

text \<open>
  The first call of \<open>KeyMap\<close> takes a page, opens \<open>/etc/keymap\<close>, reads 512 bytes of it into the page and
  closes it. The page comes cleared. \<open>kmi\<close> is the page once it is there (\<open>KMI\<close> and \<open>KM\<close>).
\<close>

definition KEYMAP_PATH :: "u8 list" where   \<comment> \<open>\<open>/etc/keymap\<close>\<close>
  "KEYMAP_PATH = [0x2f, 0x65, 0x74, 0x63, 0x2f, 0x6b, 0x65, 0x79, 0x6d, 0x61, 0x70]"

definition KeyMap_load :: "'a page_alloc \<Rightarrow> addr \<times> u8 list \<Rightarrow> u8 list \<Rightarrow> 'a fsys_scheme \<Rightarrow> ((nat \<Rightarrow> u8) \<times> 'a fsys_scheme) run" where
  "KeyMap_load kpalloc b2 junk s =
     bindR (lift (kpalloc s)) (\<lambda>(KM, s).
     bindR (OPEN kpalloc b2 junk KEYMAP_PATH 1 s) (\<lambda>(m, s).
     bindR (READ kpalloc b2 m (replicate 4096 0) 0x200 s) (\<lambda>(b, e, s).
     bindR (CLOSE kpalloc b2 m s) (\<lambda>s. ret (\<lambda>i. b ! i, s)))))"

definition KeyMap_call :: "'a page_alloc \<Rightarrow> addr \<times> u8 list \<Rightarrow> u8 list \<Rightarrow> (nat \<Rightarrow> u8) option \<Rightarrow> u8 \<Rightarrow> u8 \<Rightarrow> 'a fsys_scheme \<Rightarrow>
    (u8 \<times> (nat \<Rightarrow> u8) option \<times> 'a fsys_scheme) run" where
  "KeyMap_call kpalloc b2 junk kmi code ms s =
     bindR (case kmi of None \<Rightarrow> KeyMap_load kpalloc b2 junk s | Some KM \<Rightarrow> ret (KM, s)) (\<lambda>(KM, s).
       ret (KeyMap KM code ms, Some KM, s))"

text \<open>
  What \<open>PS2_DRIVER\<close> does before its loop: \<open>w\<close> is the state of the ports. When this returns, \<open>keyboard_init\<close> is
  set; the results are the channel the keyboard is on and the table of \<open>KeyMap\<close>.
\<close>

definition PS2_DRIVER_start :: "'a page_alloc \<Rightarrow> addr \<times> u8 list \<Rightarrow> u8 list \<Rightarrow> 'b io_scheme \<Rightarrow> 'a fsys_scheme \<Rightarrow>
    (u8 \<times> (nat \<Rightarrow> u8) option \<times> 'b io_scheme \<times> 'a fsys_scheme) run" where
  "PS2_DRIVER_start kpalloc b2 junk w s =
     (let s = s\<lparr>scr := (scr s)\<lparr>keyboard_is_raw := True\<rparr>\<rparr> in
      bindR (malloc kpalloc 4 s) (\<lambda>(k, s).
      bindR (lift (PS2_INIT w)) (\<lambda>(ch, w).
      bindR (InitKernelFd kpalloc b2 s) (\<lambda>s.
      bindR (KeyMap_call kpalloc b2 junk None 0 0 (PS2_DRIVER_BIND_STDIO s)) (\<lambda>(a, kmi, s).
        ret (ch, kmi, w, s))))))"

subsection \<open>Opening, reading and closing\<close>

text \<open>The first sector of a file, through a descriptor that is opened for it and closed again.\<close>

lemma open_read_close:
  assumes rt: "t_root (my_perms s) = Some rt" and q: "getFileFromFilename b2 rt name (fq s) = ret (Some n, q)" and ok: "disk_ok q"
    and n: "in_bounds n" "0 < unat (chunklen n)"
    and heap: "heap_owns s {}" "room s k" "k + 6 \<le> 31" and len: "fd_len s = FDS"
    and slot: "find_slot (fds s (fd_page s)) (unat (kernelFdLastClosed s)) (unat (fd_len s)) = ret i" "i < 128"
  shows "\<exists>m s1 s2 s3. OPEN (KPALLOC no_more_pages) b2 junk name flags s = ret (m, s1) \<and>
    READ (KPALLOC no_more_pages) b2 m buffer 0x200 s1 = ret (overlay (content q n 0 512) buffer, Complete, s2) \<and>
    CLOSE (KPALLOC no_more_pages) b2 m s2 = ret s3 \<and> fn (kernelFd m s3) = NULL_FN \<and> fd_page s3 = fd_page s \<and> fd_len s3 = FDS \<and>
    (\<forall>g. g \<noteq> m \<longrightarrow> kernelFd g s3 = kernelFd g s)"
proof -
  obtain a s1 where o: "OPEN (KPALLOC no_more_pages) b2 junk name flags s = ret (of_nat i, s1)" "fd_page s1 = fd_page s" "fd_len s1 = fd_len s"
      "fq s1 = q" "fargs s1 a = n" "heap_owns s1 {a}"
      "fds s1 (fd_page s) = (fds s (fd_page s))(i := \<lparr>fn = stream_function.FileStream, arguments = a, position = 0, sflags = flags\<rparr>)"
    using OPEN_opens[OF rt q heap slot(1)] by blast
  let ?m = "of_nat i :: u64"
  have u: "unat ?m = i" using slot(2) by (simp add: unat_of_nat_small)
  have le: "?m \<le> FDS" using u slot(2) by (simp add: word_le_nat_alt FDS_def)
  have k1: "kernelFd ?m s1 = \<lparr>fn = stream_function.FileStream, arguments = a, position = 0, sflags = flags\<rparr>"
    using o(2,7) u by (simp add: kernelFd_def)
  have k: "kernelFd g s1 = kernelFd g s" if "g \<noteq> ?m" for g
  proof -
    have "unat g \<noteq> i" using that u by (metis word_unat_eq_iff)
    then show ?thesis unfolding kernelFd_def o(2) using o(7) by simp
  qed
  have ir: "InodeRead n 0 buffer 0x200 q = ret (overlay (content q n 0 512) buffer, q)"
    using InodeRead_ok[OF ok n(1), of "0x200" 0 buffer] n(2) by simp
  define s2 where "s2 = set_kernelFd ?m (\<lambda>t. t\<lparr>position := 0x200\<rparr>) s1"
  have "stream_fn (KPALLOC no_more_pages) b2 (kernelFd ?m s1) buffer 0x200 0 s1 = ret (0x200, overlay (content q n 0 512) buffer, Complete, s1)"
    using ir o(4,5) by (simp add: k1 stream_fn_def Qfs.FileStream_def FileReaderStream_def)
  then have r: "READ (KPALLOC no_more_pages) b2 ?m buffer 0x200 s1 = ret (overlay (content q n 0 512) buffer, Complete, s2)"
    using le by (simp add: READ_def fd_used_ok k1 s2_def)
  have k2: "kernelFd ?m s2 = \<lparr>fn = stream_function.FileStream, arguments = a, position = 0x200, sflags = flags\<rparr>" by (simp add: s2_def k1)
  have "heap_owns s2 {a}" using o(6) heap_owns_cong[of s2 s1] by (simp add: s2_def)
  then obtain t where t: "free a s2 = Inr t" using heap_owns_free[of s2 "{a}" a] by auto
  note mf = more_fields[OF more_free[OF t]]
  define s3 where "s3 = (set_kernelFd ?m (\<lambda>t. t\<lparr>fn := NULL_FN\<rparr>) t)\<lparr>kernelFdLastClosed := ?m\<rparr>"
  have "stream_fn (KPALLOC no_more_pages) b2 (kernelFd ?m s2) [] 0 2 s2 = ret (0, [], Complete, t)"
    using t by (simp add: k2 stream_fn_def Qfs.FileStream_def)
  moreover have "fd_len s2 = FDS" using o(3) len by (simp add: s2_def)
  ultimately have c: "CLOSE (KPALLOC no_more_pages) b2 ?m s2 = ret s3"
    using le by (simp add: CLOSE_def fd_used_ok k2 s3_def)
  have "kernelFd g s3 = kernelFd g s" if "g \<noteq> ?m" for g
    using k[OF that] that by (simp add: s3_def mf s2_def)
  moreover have "fn (kernelFd ?m s3) = NULL_FN" "fd_page s3 = fd_page s" "fd_len s3 = FDS"
    using o(2,3) len by (simp_all add: s3_def mf s2_def)
  ultimately show ?thesis using o(1) r c by blast
qed

subsection \<open>From the image builder to the keyboard\<close>

lemma constructKeymap_layers:
  assumes "code < 0x80"
  shows "KeyMap (\<lambda>i. (constructKeymap @ replicate 3584 0) ! i) code ms =
    (if code < 0x53 then (if ms AND 3 = 0 then qwerty else qwertySHIFT) ! unat code else 0)"
proof -
  have c: "unat code < 128" "code < 0x53 \<longleftrightarrow> unat code < 83" using assms by (simp_all add: word_less_nat_alt)
  have q: "length (keymap_quarter qwerty) = 128" "length (keymap_quarter qwertySHIFT) = 128"
    by (simp_all add: keymap_quarter_def qwerty_def qwertySHIFT_def)
  have e: "keymap_quarter l ! i = (if i < 83 then l ! i else 0)" if "i < 128" "83 \<le> length l" for i l
    using that by (simp add: keymap_quarter_def nth_append)
  have l: "83 \<le> length qwerty" "83 \<le> length qwertySHIFT" by (simp_all add: qwerty_def qwertySHIFT_def)
  show ?thesis using c q e[OF c(1) l(1)] e[OF c(1) l(2)]
    by (simp add: KeyMap_def Let_def constructKeymap_def nth_append)
qed

text \<open>A task with room in its heap for the blocks \<open>OPEN\<close> allocates and with a free descriptor, whose root is the root of the disk.\<close>

definition can_open :: "'a fsys_scheme \<Rightarrow> bool" where
  "can_open s \<longleftrightarrow> t_root (my_perms s) = Some (disk_inode (fq s) 0) \<and> cache_ok (fq s) \<and> heap_owns s {} \<and> (\<exists>k \<le> 25. room s k) \<and>
     fd_len s = FDS \<and> kernelFdLastClosed s \<le> FDS \<and> (\<exists>i < 128. fn (fds s (fd_page s) i) = NULL_FN)"

lemma can_open_slot:
  assumes "can_open s"
  shows "\<exists>i < 128. find_slot (fds s (fd_page s)) (unat (kernelFdLastClosed s)) (unat (fd_len s)) = ret i"
proof -
  have "unat (kernelFdLastClosed s) \<le> 128" "unat (fd_len s) = 128" using assms by (simp_all add: can_open_def FDS_def word_le_nat_alt)
  then show ?thesis using find_slot_ok[of "unat (kernelFdLastClosed s)" 128 "fds s (fd_page s)"] assms by (auto simp: can_open_def)
qed

lemma keymap_file:
  assumes img: "holds_tree root D" "tree_at root [ETC, KEYMAP] = Some (File KEYMAP constructKeymap)"
    and disk: "same_disk (disk_image D) q" "cache_ok q"
  shows "\<exists>n q'. getFileFromFilename b2 (disk_inode q 0) KEYMAP_PATH q = ret (Some n, q') \<and> disk_ok q' \<and> in_bounds n \<and> 0 < unat (chunklen n) \<and>
    content q' n 0 512 = constructKeymap"
proof -
  let ?i = "disk_image D" and ?ns = "[ETC, KEYMAP]"
  note d = same_disk_inode[OF disk(1)] same_disk_tree[OF disk(1)]
  obtain n where n: "path_wf ?i (disk_inode ?i 0) ?ns" "resolve ?i (disk_inode ?i 0) ?ns = Some n" "node_on ?i n (File KEYMAP constructKeymap)"
    using img(1)[unfolded holds_tree_def, rule_format, OF through_dirs_found[OF img(2)]] unfolding img(2) option.case by blast
  have ok: "disk_ok q" using disk_image_ok(1)[of D] d by simp
  have p: "path_of ?ns = KEYMAP_PATH" by (simp add: path_of_def ETC_def KEYMAP_def KEYMAP_PATH_def SLASH_def)
  obtain q' where q': "getFileFromFilename b2 (disk_inode q 0) KEYMAP_PATH q = ret (Some n, q')" "same_disk q q'"
    using getFile_path[OF ok disk(2), of ?ns "disk_inode q 0" b2] n(1,2) demo_root_ok(5,6) unfolding p by (auto simp: d)
  have "same_disk ?i q'" by (rule same_disk_trans[OF disk(1) q'(2)])
  then have "disk_ok q'" "img q' = img ?i" using same_disk_inode disk_image_ok(1)[of D] by auto
  moreover have "unat (chunklen n) = 1" using n(3) by (simp add: sectors_for_def length_constructKeymap)
  ultimately show ?thesis using q'(1) n(3) by (auto simp: content_def length_constructKeymap)
qed

lemma KeyMap_load_ok:
  assumes img: "holds_tree root D" "tree_at root [ETC, KEYMAP] = Some (File KEYMAP constructKeymap)"
    and disk: "same_disk (disk_image D) (fq s1)" and page: "KPALLOC no_more_pages s = Inr (KM, s1)" and can: "can_open s1"
  shows "\<exists>s'. KeyMap_load (KPALLOC no_more_pages) b2 junk s = ret (\<lambda>i. (constructKeymap @ replicate 3584 0) ! i, s') \<and>
    (\<forall>g. fn (kernelFd g s') \<noteq> NULL_FN \<longrightarrow> kernelFd g s' = kernelFd g s1)"
proof -
  have co: "cache_ok (fq s1)" "t_root (my_perms s1) = Some (disk_inode (fq s1) 0)" "heap_owns s1 {}" "fd_len s1 = FDS"
    using can by (simp_all add: can_open_def)
  obtain k where k: "room s1 k" "k + 6 \<le> 31" using can by (auto simp: can_open_def)
  obtain i where i: "find_slot (fds s1 (fd_page s1)) (unat (kernelFdLastClosed s1)) (unat (fd_len s1)) = ret i" "i < 128"
    using can_open_slot[OF can] by blast
  obtain n q where n: "getFileFromFilename b2 (disk_inode (fq s1) 0) KEYMAP_PATH (fq s1) = ret (Some n, q)" "disk_ok q" "in_bounds n"
      "0 < unat (chunklen n)" "content q n 0 512 = constructKeymap"
    using keymap_file[OF img disk co(1), of b2] by blast
  obtain m t1 t2 t3 where t: "OPEN (KPALLOC no_more_pages) b2 junk KEYMAP_PATH 1 s1 = ret (m, t1)"
      "READ (KPALLOC no_more_pages) b2 m (replicate 4096 0) 0x200 t1 = ret (overlay constructKeymap (replicate 4096 0), Complete, t2)"
      "CLOSE (KPALLOC no_more_pages) b2 m t2 = ret t3" "fn (kernelFd m t3) = NULL_FN" "\<forall>g. g \<noteq> m \<longrightarrow> kernelFd g t3 = kernelFd g s1"
    using open_read_close[OF co(2) n(1-4) co(3) k co(4) i, of junk 1 "replicate 4096 0"] unfolding n(5) by blast
  have "KeyMap_load (KPALLOC no_more_pages) b2 junk s = ret (\<lambda>i. (constructKeymap @ replicate 3584 0) ! i, t3)"
    by (simp add: KeyMap_load_def page t(1-3)) (simp add: overlay_def length_constructKeymap)
  then show ?thesis using t(4,5) by metis
qed


subsection \<open>A driver that starts\<close>

text \<open>The demo task on the image of \<open>demo_sysroot\<close>, with one more page \<open>Pg\<close> in the pool.\<close>

definition km_image :: mkfs where
  "km_image = snd (mkfs_main demo_sysroot (\<lambda>_. 0) 1474560)"

definition km_disk :: qfs where
  "km_disk = disk_image (dbytes km_image)"

definition km_task :: fsys where
  "km_task = demo_fsys\<lparr>fq := km_disk, perm_descs := (\<lambda>_. \<lparr>t_root = Some (disk_inode km_disk 0), PM = 5\<rparr>)\<rparr>"

definition Pg :: addr where "Pg = 0x8000030000"

lemma first_block_mem: "mem (snd first_block) a \<noteq> 0 \<Longrightarrow> a \<in> {T0, T0 + 8, D0 + 40, D0 + 48, D0 + 56}"
  by (simp add: first_block_state put_header_def started_state stq_def memfill_page_def boot_heap_def boot_addresses split: if_splits)

lemma fill_stq: "memfill_page p (stq a v (stq a w s)) = s\<lparr>mem := (\<lambda>b. if b - p < 0x1000 then 0 else if b = a then v else mem s b)\<rparr>"
  by (cases s) (auto simp: memfill_page_def stq_def fun_eq_iff)

lemma km_task_pool:
  "KPALLOC no_more_pages (stq (slot 2) Pg km_task) = Inr (Pg, km_task)"
proof -
  have m: "mem km_task a = mem (snd first_block) a" for a by (simp add: km_task_def demo_fsys_simps demo_streams_simps)
  have z: "mem km_task a = 0" if "a \<notin> {T0, T0 + 8, D0 + 40, D0 + 48, D0 + 56}" for a
    using first_block_mem[of a] that unfolding m by blast
  have out: "mem km_task a = 0" if "a - Pg < 0x1000" for a
    by (rule z) (use that in \<open>auto simp: Pg_def T0_def D0_def\<close>)
  have sl: "mem km_task (slot j) = 0" if "j \<le> 2" for j
  proof -
    have "j = 0 \<or> j = 1 \<or> j = 2" using that by auto
    then show ?thesis by (intro z) (auto simp: slot_def POOL_def MBASE_def CBASE_def T0_def D0_def)
  qed
  have "KPALLOC no_more_pages (stq (slot 2) Pg km_task) = Inr (Pg, memfill_page Pg (stq (slot 2) 0 (stq (slot 2) Pg km_task)))"
  proof (rule KPALLOC_first)
    show "ldq (stq (slot 2) Pg km_task) (slot j) = 0" if "j < 2" for j
      using that sl[of j] by (auto simp: ldq_def stq_def slot_inj)
  qed (simp_all add: Pg_def)
  moreover have "(\<lambda>a. if a - Pg < 0x1000 then 0 else if a = slot 2 then 0 else mem km_task a) = mem km_task"
    by (rule ext) (use out sl[of 2] in auto)
  then have "memfill_page Pg (stq (slot 2) 0 (stq (slot 2) Pg km_task)) = km_task"
    by (simp only: fill_stq) simp
  ultimately show ?thesis by simp
qed

lemma km_task_can: "can_open km_task"
proof -
  have "heap_owns km_task {fst first_block}" "room km_task 3"
    using demo_room heap_owns_cong[of km_task demo_streams] room_cong[of km_task demo_streams]
    by (simp_all add: km_task_def demo_fsys_simps)
  then have h: "heap_owns km_task {}" "\<exists>k \<le> 25. room km_task k" using heap_owns_subset[of km_task] by (auto intro: exI[of _ 3])
  have f: "t_root (my_perms km_task) = Some (disk_inode (fq km_task) 0)" "fd_len km_task = FDS" "kernelFdLastClosed km_task \<le> FDS"
      "fds km_task (fd_page km_task) = demo_fd"
    using demo_fsys_simps(7,10)
    by (simp_all add: km_task_def my_perms_def fd_len_def fd_page_def tcb_def FDS_def)
      (simp add: demo_fsys_def demo_streams_def fsys.defs streams.defs)
  have "fn (fds km_task (fd_page km_task) 3) = NULL_FN" by (simp add: f demo_fd_def zero_stream_def)
  then show ?thesis using h f disk_image_ok(2)[of "dbytes km_image"]
    by (auto simp: can_open_def km_task_def km_disk_def intro: exI[of _ 3])
qed


end
