(* ===== verification/Stdio.thy ===== *)
theory Stdio
  imports Filesystem Libc
begin

section \<open>Standard input and output of programs (userland/libc.c)\<close>

text \<open>
  The rest of the C library: the functions that enter the kernel. \<open>INT0x80\<close> is the argument \<open>sys\<close>, a function on
  the memory of the program and the state of the kernel; a call that does not come back is \<open>None\<close>. A \<open>FILE *\<close> is
  the address of the descriptor number, and \<open>sp\<close> is the address of the local variable whose address a function takes.
  A prefix \<open>u\<close> tells the library's functions from the kernel's.

  Two locales say what a program relies on in the kernel: bytes written are appended to a queue, and bytes read are taken
  from the front of one. They are interpreted on the descriptors of \<open>Filesystem\<close> with the pipes of \<open>Streams\<close> behind them.
\<close>

type_synonym 'k uprog = "umem \<times> 'k"
type_synonym 'k INT0x80 = "u64 \<Rightarrow> u64 \<Rightarrow> u64 \<Rightarrow> u64 \<Rightarrow> 'k uprog \<Rightarrow> (u64 \<times> 'k uprog) run"

definition ustore :: "nat \<Rightarrow> u8 list \<Rightarrow> 'k uprog \<Rightarrow> 'k uprog" where
  "ustore a bs p = ((fst p)\<lparr>ubytes := stb a bs (ubytes (fst p))\<rparr>, snd p)"

definition on_mem :: "(umem \<Rightarrow> 'x \<times> umem) \<Rightarrow> 'k uprog \<Rightarrow> 'x \<times> 'k uprog" where
  "on_mem f p = (let (x, m) = f (fst p) in (x, (m, snd p)))"

definition fd_of :: "'k uprog \<Rightarrow> nat \<Rightarrow> u64" where
  "fd_of p f = ld64 (ubytes (fst p)) f"

subsection \<open>Strings\<close>

partial_function (option) ustrlen_from :: "(nat \<Rightarrow> u8) \<Rightarrow> nat \<Rightarrow> nat \<Rightarrow> nat option" where
  "ustrlen_from m a i = (if m (a + i) = 0 then Some i else ustrlen_from m a (i + 1))"

definition ustrlen :: "nat \<Rightarrow> 'k uprog \<Rightarrow> nat run" where
  "ustrlen a p = map_option Inr (ustrlen_from (ubytes (fst p)) a 0)"

text \<open>\<open>strcpy\<close> of the library does not copy the terminator.\<close>

partial_function (option) ustrcpy_from :: "nat \<Rightarrow> nat \<Rightarrow> nat \<Rightarrow> (nat \<Rightarrow> u8) \<Rightarrow> (nat \<Rightarrow> u8) option" where
  "ustrcpy_from d a i m = (if m (a + i) = 0 then Some m else ustrcpy_from d a (i + 1) (m(d + i := m (a + i))))"

definition ustrcpy :: "nat \<Rightarrow> nat \<Rightarrow> 'k uprog \<Rightarrow> 'k uprog run" where
  "ustrcpy d a p = map_option (\<lambda>m. Inr ((fst p)\<lparr>ubytes := m\<rparr>, snd p)) (ustrcpy_from d a 0 (ubytes (fst p)))"

subsection \<open>Output\<close>

text \<open>The product of the two \<open>int\<close>s is sign-extended; the functions of type \<open>int\<close> cut the result of the call.\<close>

definition int_result :: "(u64 \<times> 'k uprog) run \<Rightarrow> (u32 \<times> 'k uprog) run" where
  "int_result m = bindR m (\<lambda>(v, p). ret (ucast v, p))"

definition ufwrite :: "'k INT0x80 \<Rightarrow> nat \<Rightarrow> u32 \<Rightarrow> u32 \<Rightarrow> nat \<Rightarrow> 'k uprog \<Rightarrow> (u64 \<times> 'k uprog) run" where
  "ufwrite sys ptr sz n f p = sys 1 (fd_of p f) (of_nat ptr) (scast (sz * n)) p"

definition uputc :: "'k INT0x80 \<Rightarrow> nat \<Rightarrow> u32 \<Rightarrow> nat \<Rightarrow> 'k uprog \<Rightarrow> (u32 \<times> 'k uprog) run" where
  "uputc sys sp c f p = int_result (ufwrite sys sp 1 1 f (ustore sp (le_bytes 4 c) p))"

definition ufputs :: "'k INT0x80 \<Rightarrow> nat \<Rightarrow> nat \<Rightarrow> 'k uprog \<Rightarrow> (u32 \<times> 'k uprog) run" where
  "ufputs sys s f p = bindR (ustrlen s p) (\<lambda>l. int_result (ufwrite sys s 1 (of_nat l) f p))"

definition uputs :: "'k INT0x80 \<Rightarrow> nat \<Rightarrow> nat \<Rightarrow> 'k uprog \<Rightarrow> (u32 \<times> 'k uprog) run" where
  "uputs sys stdout s p =
     bindR (ustrlen s p) (\<lambda>l.
     let (s2, p) = on_mem (umalloc (l + 2)) p in
     bindR (ustrlen s p) (\<lambda>l.
     let p = (umemcpy s2 s l (fst p), snd p) in
     bindR (ustrlen s p) (\<lambda>l.
     let p = ustore (s2 + l) [0x0a] p in
     bindR (ustrlen s p) (\<lambda>l.
     let p = ustore (s2 + l + 1) [0] p in
     bindR (ufputs sys s2 stdout p) (\<lambda>(res, p).
     ret (res, (ufree s2 (fst p), snd p)))))))"

subsection \<open>Input\<close>

definition ufread :: "'k INT0x80 \<Rightarrow> nat \<Rightarrow> u32 \<Rightarrow> u32 \<Rightarrow> nat \<Rightarrow> 'k uprog \<Rightarrow> (u64 \<times> 'k uprog) run" where
  "ufread sys ptr sz n f p = sys 0 (fd_of p f) (of_nat ptr) (scast (sz * n)) p"

definition ugetc :: "'k INT0x80 \<Rightarrow> nat \<Rightarrow> nat \<Rightarrow> 'k uprog \<Rightarrow> (u32 \<times> 'k uprog) run" where
  "ugetc sys sp f p = bindR (ufread sys sp 1 1 f p) (\<lambda>(v, p). ret (scast (ubytes (fst p) sp), p))"

text \<open>\<open>fgets\<close>: \<open>i\<close> characters are there, at most \<open>k\<close> more are read.\<close>

fun ufgets_from :: "'k INT0x80 \<Rightarrow> nat \<Rightarrow> nat \<Rightarrow> nat \<Rightarrow> nat \<Rightarrow> nat \<Rightarrow> 'k uprog \<Rightarrow> 'k uprog run" where
  "ufgets_from sys sp s f i 0 p = ret p"
| "ufgets_from sys sp s f i (Suc k) p =
     bindR (ugetc sys sp f p) (\<lambda>(c, p).
     let p = ustore (s + i) [ucast c] p in
     if ubytes (fst p) (s + i) = 0x0a then ret p else ufgets_from sys sp s f (i + 1) k p)"

definition ufgets :: "'k INT0x80 \<Rightarrow> nat \<Rightarrow> nat \<Rightarrow> int \<Rightarrow> nat \<Rightarrow> 'k uprog \<Rightarrow> 'k uprog run" where
  "ufgets sys sp s n f p = ufgets_from sys sp s f 0 (nat n) p"

subsection \<open>Files and processes\<close>

definition ufopen :: "'k INT0x80 \<Rightarrow> nat \<Rightarrow> 'k uprog \<Rightarrow> (nat \<times> 'k uprog) run" where
  "ufopen sys name p =
     (let (k, p) = on_mem (umalloc 8) p in
      bindR (sys 2 (of_nat name) 0 0 p) (\<lambda>(fd, p). ret (k, ustore k (le_bytes 8 fd) p)))"

definition ufclose :: "'k INT0x80 \<Rightarrow> nat \<Rightarrow> 'k uprog \<Rightarrow> (u32 \<times> 'k uprog) run" where
  "ufclose sys f p = int_result (sys 3 (fd_of p f) 0 0 p)"

text \<open>A \<open>proc\<close> is the number of the process, the address of the permissions and two \<open>FILE\<close>s that nothing sets; \<open>argv0\<close> is
  \<open>__argv[0]\<close> and \<open>noname\<close> the address of the empty string.\<close>

definition uexecv :: "'k INT0x80 \<Rightarrow> nat \<Rightarrow> nat \<Rightarrow> nat \<Rightarrow> 'k uprog \<Rightarrow> (nat \<times> 'k uprog) run" where
  "uexecv sys noname path argv0 p =
     (let (k, p) = on_mem (umalloc 32) p;
          (m, p) = on_mem (umalloc 16) p;
          p = ustore (k + 8) (le_bytes 8 (of_nat m :: u64)) p;
          p = ustore m (le_bytes 8 (of_nat noname :: u64)) p;
          p = ustore (m + 8) (le_bytes 8 (0xF :: u64)) p
      in bindR (sys 7 (of_nat path) (of_nat argv0) (of_nat m) p) (\<lambda>(v, p). ret (k, ustore k (le_bytes 8 v) p)))"

definition uwait_call :: "'k INT0x80 \<Rightarrow> 'k uprog \<Rightarrow> (u64 \<times> 'k uprog) run" where
  "uwait_call sys p = sys 0xa 0 0 0 p"

definition ubind :: "'k INT0x80 \<Rightarrow> nat \<Rightarrow> nat \<Rightarrow> 'k uprog \<Rightarrow> 'k uprog run" where
  "ubind sys a b p = bindR (sys 8 (fd_of p a) (fd_of p b) 0 p) (\<lambda>(v, p). ret p)"

definition ubindT :: "'k INT0x80 \<Rightarrow> nat \<Rightarrow> nat \<Rightarrow> 'k uprog \<Rightarrow> 'k uprog run" where
  "ubindT sys a b p = bindR (sys 0xb (ld64 (ubytes (fst p)) a) (fd_of p b) 0 p) (\<lambda>(v, p). ret p)"

definition uexit :: "'k INT0x80 \<Rightarrow> 'k uprog \<Rightarrow> 'k uprog run" where
  "uexit sys p = bindR (sys 9 0 0 0 p) (\<lambda>(v, p). ret p)"

definition uunblock :: "'k INT0x80 \<Rightarrow> nat \<Rightarrow> 'k uprog \<Rightarrow> 'k uprog run" where
  "uunblock sys a p = bindR (sys 0xc (ld64 (ubytes (fst p)) a) 0 0 p) (\<lambda>(v, p). ret p)"

definition uunblockAndWait :: "'k INT0x80 \<Rightarrow> nat \<Rightarrow> 'k uprog \<Rightarrow> 'k uprog run" where
  "uunblockAndWait sys a p = bindR (sys 0x11 (ld64 (ubytes (fst p)) a) 0 0 p) (\<lambda>(v, p). ret p)"

text \<open>The result is \<open>stdin\<close> and \<open>stdout\<close>, which are the same \<open>FILE\<close>.\<close>

definition initialize_standard_library :: "'k uprog \<Rightarrow> (nat \<times> nat) \<times> 'k uprog" where
  "initialize_standard_library p =
     (let p = (init_umalloc (fst p), snd p);
          (f, p) = on_mem (umalloc 8) p
      in ((f, f), ustore f (le_bytes 8 (0 :: u64)) p))"

subsection \<open>What a program relies on in the kernel\<close>

definition USER_TOP :: nat where "USER_TOP = unat CBASE"

lemma scast_small: "n < 2 ^ 31 \<Longrightarrow> scast (of_nat n :: u32) = (of_nat n :: u64)"
proof -
  assume n: "n < 2 ^ 31"
  have "sint (of_nat n :: u32) = int n" using n by (simp add: signed_of_nat signed_take_bit_int_eq_self)
  then show ?thesis by (simp add: scast_eq)
qed

text \<open>A string with its terminator.\<close>

definition ustr_at :: "'k uprog \<Rightarrow> nat \<Rightarrow> u8 list \<Rightarrow> bool" where
  "ustr_at p a w \<longleftrightarrow> 0 \<notin> set w \<and> ldb (ubytes (fst p)) a (length w + 1) = w @ [0]"

lemma ustr_at_nth:
  assumes "ustr_at p a w"
  shows "i < length w \<Longrightarrow> ubytes (fst p) (a + i) = w ! i \<and> w ! i \<noteq> 0" "ubytes (fst p) (a + length w) = 0"
proof -
  have e: "ubytes (fst p) (a + i) = (w @ [0]) ! i" if "i < length w + 1" for i
    using assms nth_ldb[OF that, of "ubytes (fst p)" a] by (simp add: ustr_at_def)
  show "i < length w \<Longrightarrow> ubytes (fst p) (a + i) = w ! i \<and> w ! i \<noteq> 0"
    using e[of i] assms by (auto simp: nth_append ustr_at_def in_set_conv_nth)
  show "ubytes (fst p) (a + length w) = 0" using e[of "length w"] by simp
qed

lemma ustrlen_ok:
  assumes "ustr_at p a w"
  shows "ustrlen a p = ret (length w)"
proof -
  have "ustrlen_from (ubytes (fst p)) a (length w - j) = Some (length w)" if "j \<le> length w" for j
    using that
  proof (induction j)
    case 0
    then show ?case using ustr_at_nth(2)[OF assms] by (simp add: ustrlen_from.simps)
  next
    case (Suc j)
    have "ubytes (fst p) (a + (length w - Suc j)) \<noteq> 0" using ustr_at_nth(1)[OF assms, of "length w - Suc j"] Suc.prems by auto
    moreover have "length w - Suc j + 1 = length w - j" using Suc.prems by simp
    ultimately show ?case using Suc by (subst ustrlen_from.simps) simp
  qed
  from this[of "length w"] show ?thesis by (simp add: ustrlen_def ret_def)
qed

lemma ustr_at_cong:
  "(\<And>i. i \<le> length w \<Longrightarrow> ubytes (fst p') (a + i) = ubytes (fst p) (a + i)) \<Longrightarrow> ustr_at p a w \<Longrightarrow> ustr_at p' a w"
proof -
  assume e: "\<And>i. i \<le> length w \<Longrightarrow> ubytes (fst p') (a + i) = ubytes (fst p) (a + i)" and "ustr_at p a w"
  moreover have "ldb (ubytes (fst p')) a (length w + 1) = ldb (ubytes (fst p)) a (length w + 1)" by (rule ldb_cong) (use e in simp)
  ultimately show "ustr_at p' a w" by (simp add: ustr_at_def)
qed

text \<open>
  A write may stop with a fault; one that \<open>fits\<close> does not. \<open>ok a n\<close>: the \<open>n\<close> bytes at \<open>a\<close> are memory the
  program may name in a call. \<open>pages k\<close> is the number of calls the kernel can still serve.
\<close>

locale byte_sink =
  fixes sys :: "'k INT0x80" and fd :: u64 and rep :: "'k \<Rightarrow> u8 list \<Rightarrow> bool" and ok :: "nat \<Rightarrow> nat \<Rightarrow> bool"
    and fits :: "'k \<Rightarrow> nat \<Rightarrow> nat \<Rightarrow> bool" and pages :: "'k \<Rightarrow> nat"
  assumes write_ends: "rep k q \<Longrightarrow> ok a n \<Longrightarrow> sys 1 fd (of_nat a) (of_nat n) (m, k) \<noteq> None"
    and write_fits: "rep k q \<Longrightarrow> ok a n \<Longrightarrow> fits k a n \<Longrightarrow> \<exists>v p. sys 1 fd (of_nat a) (of_nat n) (m, k) = ret (v, p) \<and> pages k \<le> Suc (pages (snd p))"
    and write_appends: "rep k q \<Longrightarrow> ok a n \<Longrightarrow> sys 1 fd (of_nat a) (of_nat n) (m, k) = ret (v, p) \<Longrightarrow>
      v = 0 \<and> fst p = m \<and> rep (snd p) (q @ ldb (ubytes m) a n)"
begin

lemma fputs_ok:
  assumes "rep (snd p) q" "fd_of p f = fd" "ustr_at p s w" "ok s (length w)" "length w < 2 ^ 31"
  shows "ufputs sys s f p \<noteq> None \<and> (fits (snd p) s (length w) \<longrightarrow> (\<exists>v p'. ufputs sys s f p = ret (v, p') \<and> pages (snd p) \<le> Suc (pages (snd p')))) \<and>
    (\<forall>v p'. ufputs sys s f p = ret (v, p') \<longrightarrow> v = 0 \<and> fst p' = fst p \<and> rep (snd p') (q @ w))"
proof -
  let ?sys = "sys 1 fd (of_nat s) (of_nat (length w)) (fst p, snd p)"
  have e: "ufputs sys s f p = int_result ?sys"
    using assms(2) scast_small[OF assms(5)] by (simp add: ufputs_def ustrlen_ok[OF assms(3)] ufwrite_def)
  have l: "ldb (ubytes (fst p)) s (length w) = w"
    using assms(3) ldb_append[of "ubytes (fst p)" s "length w" 1] by (auto simp: ustr_at_def)
  have "ufputs sys s f p \<noteq> None" using write_ends[OF assms(1,4), of "fst p"]
    unfolding e int_result_def by (auto simp: bindR_def ret_def split: option.splits sum.splits)
  moreover have "\<exists>v p'. ufputs sys s f p = ret (v, p') \<and> pages (snd p) \<le> Suc (pages (snd p'))" if F: "fits (snd p) s (length w)"
  proof -
    obtain v p' where "?sys = ret (v, p')" "pages (snd p) \<le> Suc (pages (snd p'))" using write_fits[OF assms(1,4) F, of "fst p"] by blast
    then show ?thesis by (simp add: e int_result_def)
  qed
  moreover have "v = 0 \<and> fst p' = fst p \<and> rep (snd p') (q @ w)" if r: "ufputs sys s f p = ret (v, p')" for v p'
  proof -
    obtain u where u: "?sys = ret (u, p')" "v = ucast u" using r by (auto simp: e int_result_def bindR_ret_iff)
    show ?thesis using write_appends[OF assms(1,4) u(1)] u(2) l by simp
  qed
  ultimately show ?thesis by blast
qed

end

text \<open>
  \<open>rep k q c\<close>: the queue holds \<open>q\<close> and the kernel can serve \<open>c\<close> more calls. A read of what is there
  succeeds; a read of more does not come back.
\<close>

locale byte_source =
  fixes sys :: "'k INT0x80" and fd :: u64 and rep :: "'k \<Rightarrow> u8 list \<Rightarrow> nat \<Rightarrow> bool" and ok :: "nat \<Rightarrow> nat \<Rightarrow> bool"
  assumes read_takes: "rep k q (Suc c) \<Longrightarrow> ok a n \<Longrightarrow> n \<le> length q \<Longrightarrow>
      \<exists>k'. sys 0 fd (of_nat a) (of_nat n) (m, k) = ret (0, (m\<lparr>ubytes := stb a (take n q) (ubytes m)\<rparr>, k')) \<and> rep k' (drop n q) c"
    and read_waits: "rep k q (Suc c) \<Longrightarrow> ok a n \<Longrightarrow> length q < n \<Longrightarrow> sys 0 fd (of_nat a) (of_nat n) (m, k) = None"
begin

lemma getc_ok:
  assumes "rep (snd p) (x # q) (Suc c)" "fd_of p f = fd" "ok sp 1"
  shows "\<exists>k'. ugetc sys sp f p = ret (scast x, (fst (ustore sp [x] p), k')) \<and> rep k' q c"
proof -
  have "(scast (1 :: u32) :: u64) = of_nat 1" using scast_small[of 1] by simp
  moreover obtain k' where "sys 0 fd (of_nat sp) (of_nat 1) (fst p, snd p) = ret (0, ((fst p)\<lparr>ubytes := stb sp (take 1 (x # q)) (ubytes (fst p))\<rparr>, k'))"
      "rep k' (drop 1 (x # q)) c"
    using read_takes[OF assms(1,3), of "fst p"] by auto
  moreover have "stb sp [x] m sp = x" for m using stb_ldb_inside[of 0 "[x]" sp m] by simp
  ultimately show ?thesis using assms(2) by (simp add: ugetc_def ufread_def ustore_def)
qed

lemma getc_waits: "rep (snd p) [] (Suc c) \<Longrightarrow> fd_of p f = fd \<Longrightarrow> ok sp 1 \<Longrightarrow> ugetc sys sp f p = None"
proof -
  assume a: "rep (snd p) [] (Suc c)" "fd_of p f = fd" "ok sp 1"
  have "(scast (1 :: u32) :: u64) = of_nat 1" using scast_small[of 1] by simp
  then show ?thesis using read_waits[OF a(1,3), of "fst p"] a by (simp add: ugetc_def ufread_def bindR_def)
qed

end

subsection \<open>Reading a line\<close>

lemma char_int_char: "ucast (scast (c :: u8) :: u32) = c"
  by (rule bit_word_eqI) (simp add: bit_simps)

text \<open>The memory a function leaves alone: everything but the local variable and a buffer.\<close>

definition only_wrote :: "nat \<Rightarrow> nat \<Rightarrow> nat \<Rightarrow> 'k uprog \<Rightarrow> 'k uprog \<Rightarrow> bool" where
  "only_wrote sp a n p p' \<longleftrightarrow> brk_end (fst p') = brk_end (fst p) \<and> bucket (fst p') = bucket (fst p) \<and>
     (\<forall>x. x \<noteq> sp \<and> (x < a \<or> a + n \<le> x) \<longrightarrow> ubytes (fst p') x = ubytes (fst p) x)"

text \<open>A \<open>FILE\<close> and a buffer that do not meet each other or the local variable.\<close>

definition fgets_args :: "nat \<Rightarrow> nat \<Rightarrow> nat \<Rightarrow> nat \<Rightarrow> bool" where
  "fgets_args sp f a n \<longleftrightarrow> (sp < a \<or> a + n \<le> sp) \<and> (f + 8 \<le> a \<or> a + n \<le> f) \<and> (sp < f \<or> f + 8 \<le> sp)"

lemma fd_of_cong: "(\<And>i. i < 8 \<Longrightarrow> ubytes (fst p') (f + i) = ubytes (fst p) (f + i)) \<Longrightarrow> fd_of p' f = fd_of p f"
proof -
  assume "\<And>i. i < 8 \<Longrightarrow> ubytes (fst p') (f + i) = ubytes (fst p) (f + i)"
  then have "ldb (ubytes (fst p')) f 8 = ldb (ubytes (fst p)) f 8" by (rule ldb_cong)
  then show ?thesis by (simp add: fd_of_def ld64_def)
qed

context byte_source begin

text \<open>One character of the line.\<close>

lemma fgets_step:
  assumes "rep (snd p) (c # q) (Suc b)" "fd_of p f = fd" "fgets_args sp f (s + i) n" "0 < n" "ok sp 1"
  shows "\<exists>p1. ufgets_from sys sp s f i (Suc k) p = (if c = 0x0a then ret p1 else ufgets_from sys sp s f (i + 1) k p1) \<and>
    rep (snd p1) q b \<and> fd_of p1 f = fd \<and> ubytes (fst p1) (s + i) = c \<and> only_wrote sp (s + i) 1 p p1"
proof -
  have sp: "sp \<noteq> s + i" using assms(3,4) by (auto simp: fgets_args_def)
  obtain k' where g: "ugetc sys sp f p = ret (scast c, (fst (ustore sp [c] p), k'))" "rep k' q b"
    using getc_ok[OF assms(1,2,5)] by blast
  define p1 where "p1 = ustore (s + i) [c] (fst (ustore sp [c] p), k')"
  have b: "ubytes (fst p1) x = (if x = s + i then c else if x = sp then c else ubytes (fst p) x)" for x
    by (auto simp: p1_def ustore_def stb_def)
  have o: "only_wrote sp (s + i) 1 p p1" using b by (auto simp: only_wrote_def) (simp_all add: p1_def ustore_def)
  have "fd_of p1 f = fd_of p f"
    by (rule fd_of_cong) (use assms(3,4) b in \<open>auto simp: fgets_args_def\<close>)
  moreover have "ufgets_from sys sp s f i (Suc k) p = (if c = 0x0a then ret p1 else ufgets_from sys sp s f (i + 1) k p1)"
    using g b by (simp add: char_int_char p1_def Let_def)
  ultimately show ?thesis using g(2) o b assms(2) by (intro exI[of _ p1]) (simp add: p1_def ustore_def)
qed

lemma fgets_args_step: "fgets_args sp f (s + i) (Suc n) \<Longrightarrow> fgets_args sp f (s + (i + 1)) n"
  by (auto simp: fgets_args_def)

text \<open>The characters before the line feed.\<close>

lemma fgets_prefix:
  assumes "rep (snd p) (w @ q) (length w + b)" "0x0a \<notin> set w" "fd_of p f = fd" "fgets_args sp f (s + i) (length w + n)" "length w \<le> k" "ok sp 1"
  shows "\<exists>p1. ufgets_from sys sp s f i k p = ufgets_from sys sp s f (i + length w) (k - length w) p1 \<and> rep (snd p1) q b \<and> fd_of p1 f = fd \<and>
    ldb (ubytes (fst p1)) (s + i) (length w) = w \<and> only_wrote sp (s + i) (length w) p p1"
  using assms
proof (induction w arbitrary: p i k)
  case Nil
  have "only_wrote sp (s + i) 0 p p" by (simp add: only_wrote_def)
  then show ?case using Nil by (intro exI[of _ p]) (simp add: ldb_def)
next
  case (Cons c w)
  obtain k0 where k: "k = Suc k0" using Cons.prems(5) by (cases k) auto
  have args: "fgets_args sp f (s + i) (Suc (length w + n))" using Cons.prems(4) by simp
  obtain p1 where p1: "ufgets_from sys sp s f i (Suc k0) p = ufgets_from sys sp s f (i + 1) k0 p1" "rep (snd p1) (w @ q) (length w + b)" "fd_of p1 f = fd"
      "ubytes (fst p1) (s + i) = c" "only_wrote sp (s + i) 1 p p1"
    using fgets_step[of p c "w @ q" "length w + b" f sp s i "Suc (length w + n)" k0] Cons.prems(1-3,6) args by auto
  obtain p2 where p2: "ufgets_from sys sp s f (i + 1) k0 p1 = ufgets_from sys sp s f (i + 1 + length w) (k0 - length w) p2" "rep (snd p2) q b"
      "fd_of p2 f = fd" "ldb (ubytes (fst p2)) (s + (i + 1)) (length w) = w" "only_wrote sp (s + (i + 1)) (length w) p1 p2"
    using Cons.IH[OF p1(2) _ p1(3) fgets_args_step[OF args], of k0] Cons.prems(2,5,6) k by auto
  have "sp \<noteq> s + i" using args by (auto simp: fgets_args_def)
  then have "ubytes (fst p2) (s + i) = c" using p2(5) p1(4) by (simp add: only_wrote_def)
  then have "ldb (ubytes (fst p2)) (s + i) (1 + length w) = [c] @ w"
    unfolding ldb_append using p2(4) by (simp add: ldb_def)
  moreover have "only_wrote sp (s + i) (length (c # w)) p p2"
    using p1(5) p2(5) unfolding only_wrote_def by auto
  ultimately show ?case using p1(1) p2(1-3) k by (intro exI[of _ p2]) simp
qed

lemma fgets_line:
  assumes "rep (snd p) (w @ 0x0a # q) (length w + Suc b)" "0x0a \<notin> set w" "fd_of p f = fd" "fgets_args sp f s (length w + 1)" "int (length w) < n" "ok sp 1"
  shows "\<exists>p'. ufgets sys sp s n f p = ret p' \<and> rep (snd p') q b \<and> fd_of p' f = fd \<and> ldb (ubytes (fst p')) s (length w + 1) = w @ [0x0a] \<and>
    only_wrote sp s (length w + 1) p p'"
proof -
  have le: "length w \<le> nat n" using assms(5) by simp
  obtain p1 where p1: "ufgets_from sys sp s f 0 (nat n) p = ufgets_from sys sp s f (length w) (nat n - length w) p1" "rep (snd p1) (0x0a # q) (Suc b)"
      "fd_of p1 f = fd" "ldb (ubytes (fst p1)) s (length w) = w" "only_wrote sp s (length w) p p1"
    using fgets_prefix[OF assms(1-3), of sp s 0 1 "nat n"] assms(4,6) le by auto
  obtain j where j: "nat n - length w = Suc j" using assms(5) by (cases "nat n - length w") auto
  have "fgets_args sp f (s + length w) 1" using assms(4) by (auto simp: fgets_args_def)
  from fgets_step[OF p1(2,3) this _ assms(6), of j] obtain p2 where p2: "ufgets_from sys sp s f (length w) (Suc j) p1 = ret p2" "rep (snd p2) q b" "fd_of p2 f = fd"
      "ubytes (fst p2) (s + length w) = 0x0a" "only_wrote sp (s + length w) 1 p1 p2" by auto
  have "sp < s \<or> s + length w < sp" using assms(4) by (auto simp: fgets_args_def)
  then have "ldb (ubytes (fst p2)) s (length w) = ldb (ubytes (fst p1)) s (length w)"
    by (intro ldb_cong) (use p2(5) in \<open>auto simp: only_wrote_def\<close>)
  then have "ldb (ubytes (fst p2)) s (length w + 1) = w @ [0x0a]"
    unfolding ldb_append p1(4) using p2(4) by (simp add: ldb_def)
  moreover have "only_wrote sp s (length w + 1) p p2" using p1(5) p2(5) unfolding only_wrote_def by auto
  ultimately show ?thesis using p1(1) p2(1-3) j by (auto simp: ufgets_def)
qed

text \<open>Without a line feed \<open>fgets\<close> waits for more, or fills the buffer and adds no terminator.\<close>

lemma fgets_no_line:
  assumes "rep (snd p) w (length w + Suc b)" "0x0a \<notin> set w" "fd_of p f = fd" "fgets_args sp f s (length w + 1)" "0 \<le> n" "ok sp 1"
  shows "int (length w) < n \<Longrightarrow> ufgets sys sp s n f p = None"
    "int (length w) = n \<Longrightarrow> \<exists>p'. ufgets sys sp s n f p = ret p' \<and> rep (snd p') [] (Suc b) \<and> ldb (ubytes (fst p')) s (length w) = w \<and>
      only_wrote sp s (length w) p p'"
proof -
  have *: "\<exists>p1. ufgets_from sys sp s f 0 (nat n) p = ufgets_from sys sp s f (length w) (nat n - length w) p1 \<and> rep (snd p1) [] (Suc b) \<and> fd_of p1 f = fd \<and>
      ldb (ubytes (fst p1)) s (length w) = w \<and> only_wrote sp s (length w) p p1" if "length w \<le> nat n"
    using fgets_prefix[of p w "[]" "Suc b" f sp s 0 1 "nat n"] assms that by auto
  show "\<exists>p'. ufgets sys sp s n f p = ret p' \<and> rep (snd p') [] (Suc b) \<and> ldb (ubytes (fst p')) s (length w) = w \<and>
      only_wrote sp s (length w) p p'" if "int (length w) = n"
    using * that by (auto simp: ufgets_def)
  show "ufgets sys sp s n f p = None" if n: "int (length w) < n"
  proof -
    obtain p1 where p1: "ufgets_from sys sp s f 0 (nat n) p = ufgets_from sys sp s f (length w) (nat n - length w) p1" "rep (snd p1) [] (Suc b)" "fd_of p1 f = fd"
    proof -
      have "length w \<le> nat n" using n by simp
      then show thesis using * that by blast
    qed
    obtain j where "nat n - length w = Suc j" using n by (cases "nat n - length w") auto
    then show ?thesis using p1(1) getc_waits[OF p1(2,3) assms(6)] by (simp add: ufgets_def bindR_def)
  qed
qed

end

subsection \<open>Writing a line\<close>

lemma umalloc_brk:
  assumes "uheap_ok s F L" "brk_end s + max sz 4096 + 16 < 2 ^ 64"
  shows "brk_end (snd (umalloc sz s)) \<le> brk_end s + max sz 4096 + 16"
  using assms by (cases rule: umalloc_cases[where sz = sz]) (auto simp: set_header_def)

text \<open>Bytes that lie in a block in use.\<close>

definition in_blocks :: "ublock set \<Rightarrow> nat \<Rightarrow> nat \<Rightarrow> bool" where
  "in_blocks L a n \<longleftrightarrow> (\<exists>k b m. (k, b, m) \<in> L \<and> k \<le> a \<and> a + n \<le> k + m)"

lemma in_blocks_kept:
  assumes "in_blocks L a n" "\<forall>y \<in> L. same_block s s' y" "i < n"
  shows "ubytes s' (a + i) = ubytes s (a + i)"
proof -
  obtain k b m where k: "(k, b, m) \<in> L" "k \<le> a" "a + n \<le> k + m" using assms(1) by (auto simp: in_blocks_def)
  then have "\<forall>j < m. ubytes s' (k + j) = ubytes s (k + j)" using assms(2) by (fastforce simp: same_block_def)
  moreover have "a + i = k + (a + i - k)" "a + i - k < m" using k assms(3) by auto
  ultimately show ?thesis by metis
qed

lemma in_blocks_fd:
  "in_blocks L f 8 \<Longrightarrow> \<forall>y \<in> L. same_block (fst p) (fst p') y \<Longrightarrow> fd_of p' f = fd_of p f"
  by (rule fd_of_cong) (rule in_blocks_kept)

lemma in_blocks_str:
  "in_blocks L a (length w + 1) \<Longrightarrow> \<forall>y \<in> L. same_block (fst p) (fst p') y \<Longrightarrow> ustr_at p a w \<Longrightarrow> ustr_at p' a w"
  by (rule ustr_at_cong) (erule in_blocks_kept, simp_all)

lemma same_block_trans: "same_block s t y \<Longrightarrow> same_block t u y \<Longrightarrow> same_block s u y"
  by (cases y) (simp add: same_block_def)

lemma placed_below: "uheap_ok s F L \<Longrightarrow> (k, b, n) \<in> L \<Longrightarrow> k + n \<le> brk_end s"
  using uheap_placed[of s F L "(k, b, n)"] by auto

lemma ustore_block_ok:
  assumes ok: "uheap_ok (fst p) F (insert (s2, b, n) L)" and x: "(s2, b, n) \<notin> L" and n: "length bs \<le> n"
  shows "uheap_ok (fst (ustore s2 bs p)) F (insert (s2, b, n) L) \<and> (\<forall>y \<in> L. same_block (fst p) (fst (ustore s2 bs p)) y)"
  using user_write[OF ok insertI1 n refl] x by (simp add: ustore_def)

lemma ustore_more: "ustore (a + length xs) ys (ustore a xs p) = ustore a (xs @ ys) p"
  by (simp add: ustore_def stb_append)

text \<open>Everything \<open>puts\<close> does before it writes.\<close>

lemma uputs_prepares:
  assumes ok: "uheap_ok (fst p) F L" and str: "ustr_at p s w" "in_blocks L s (length w + 1)"
    and room: "brk_end (fst p) + max (length w + 2) 4096 + 16 < 2 ^ 64"
  shows "\<exists>s2 b n p2 F2. uputs sys f s p = bindR (ufputs sys s2 f p2) (\<lambda>(res, p). ret (res, (ufree s2 (fst p), snd p))) \<and>
    uheap_ok (fst p2) F2 (insert (s2, b, n) L) \<and> (s2, b, n) \<notin> L \<and> length w + 2 \<le> n \<and> (\<forall>y \<in> L. same_block (fst p) (fst p2) y) \<and>
    ustr_at p2 s2 (w @ [0x0a]) \<and> snd p2 = snd p \<and> brk_end (fst p2) \<le> brk_end (fst p) + max (length w + 2) 4096 + 16"
proof -
  let ?l = "length w"
  obtain s2 m1 where m1: "umalloc (?l + 2) (fst p) = (s2, m1)" by fastforce
  define p1 where "p1 = (m1, snd p)"
  obtain b n F2 where M: "?l + 2 \<le> n" "(s2, b, n) \<notin> L" "uheap_ok (fst p1) F2 (insert (s2, b, n) L)" "\<forall>y \<in> L. same_block (fst p) (fst p1) y"
    using umalloc_ok[OF ok room m1] by (auto simp: p1_def)
  have brk: "brk_end (fst p1) \<le> brk_end (fst p) + max (?l + 2) 4096 + 16" using umalloc_brk[OF ok room] m1 by (simp add: p1_def)
  have C: "uheap_ok (fst (ustore s2 bs p1)) F2 (insert (s2, b, n) L) \<and> (\<forall>y \<in> L. same_block (fst p) (fst (ustore s2 bs p1)) y)"
    if "length bs \<le> ?l + 2" for bs
  proof -
    have "length bs \<le> n" using that M(1) by simp
    from ustore_block_ok[OF M(3,2) this] show ?thesis using M(4) same_block_trans by blast
  qed
  have S: "ustr_at (ustore s2 bs p1) s w" if "length bs \<le> ?l + 2" for bs
    by (rule in_blocks_str[OF str(2) _ str(1)]) (use C[OF that] in blast)
  have str1: "ustr_at p1 s w" by (rule in_blocks_str[OF str(2) M(4) str(1)])
  have w: "ldb (ubytes (fst p1)) s ?l = w" using str1 ldb_append[of "ubytes (fst p1)" s ?l 1] by (auto simp: ustr_at_def)
  have c1: "(umemcpy s2 s ?l (fst p1), snd p1) = ustore s2 w p1" by (simp add: umemcpy_def ustore_def w)
  define p2 where "p2 = ustore s2 ((w @ [0x0a]) @ [0]) p1"
  have e: "ustore (s2 + ?l) [0x0a] (ustore s2 w p1) = ustore s2 (w @ [0x0a]) p1"
    "ustore (s2 + ?l + 1) [0] (ustore s2 (w @ [0x0a]) p1) = p2"
    using ustore_more[of s2 w "[0x0a]" p1] ustore_more[of s2 "w @ [0x0a]" "[0]" p1] by (simp_all add: p2_def add.assoc)
  have "uputs sys f s p = bindR (ufputs sys s2 f p2) (\<lambda>(res, p). ret (res, (ufree s2 (fst p), snd p)))"
    unfolding uputs_def ustrlen_ok[OF str(1)] bindR_simps on_mem_def m1 Let_def prod.case p1_def[symmetric] ustrlen_ok[OF str1] c1
      ustrlen_ok[OF S[of w, simplified]] e(1) ustrlen_ok[OF S[of "w @ [0x0a]", simplified]] e(2) ..
  moreover have "ustr_at p2 s2 (w @ [0x0a])"
    using str(1) ldb_stb_same[of "?l + 2" "(w @ [0x0a]) @ [0]" s2 "ubytes (fst p1)"] by (simp add: ustr_at_def p2_def ustore_def)
  moreover have "uheap_ok (fst p2) F2 (insert (s2, b, n) L) \<and> (\<forall>y \<in> L. same_block (fst p) (fst p2) y)"
    unfolding p2_def by (rule C) simp
  ultimately show ?thesis using M(1,2) brk
    by (intro exI[of _ s2] exI[of _ b] exI[of _ n] exI[of _ p2] exI[of _ F2]) (simp add: p2_def ustore_def p1_def)
qed

context byte_sink begin

lemma puts_ok:
  assumes R: "rep (snd p) q" "fd_of p f = fd" and heap: "uheap_ok (fst p) F L" and f: "in_blocks L f 8"
    and str: "ustr_at p s w" "in_blocks L s (length w + 1)" and room: "brk_end (fst p) + max (length w + 2) 4096 + 16 < 2 ^ 64" "length w < 2 ^ 31 - 1"
    and acc: "\<And>a. 16 \<le> a \<Longrightarrow> a + (length w + 1) \<le> brk_end (fst p) + max (length w + 2) 4096 + 16 \<Longrightarrow> ok a (length w + 1)"
  shows "uputs sys f s p \<noteq> None \<and>
    ((\<forall>a. 16 \<le> a \<and> a + (length w + 1) \<le> brk_end (fst p) + max (length w + 2) 4096 + 16 \<longrightarrow> fits (snd p) a (length w + 1)) \<longrightarrow>
      (\<exists>v p'. uputs sys f s p = ret (v, p') \<and> pages (snd p) \<le> Suc (pages (snd p')))) \<and> (\<forall>v p'. uputs sys f s p = ret (v, p') \<longrightarrow>
    v = 0 \<and> rep (snd p') (q @ w @ [0x0a]) \<and> (\<exists>F' L'. uheap_ok (fst p') F' L' \<and> L \<subseteq> L') \<and> (\<forall>y \<in> L. same_block (fst p) (fst p') y))"
proof -
  obtain s2 b n p2 F2 where P: "uputs sys f s p = bindR (ufputs sys s2 f p2) (\<lambda>(res, p). ret (res, (ufree s2 (fst p), snd p)))"
      "uheap_ok (fst p2) F2 (insert (s2, b, n) L)" "(s2, b, n) \<notin> L" "length w + 2 \<le> n" "\<forall>y \<in> L. same_block (fst p) (fst p2) y"
      "ustr_at p2 s2 (w @ [0x0a])" "snd p2 = snd p" "brk_end (fst p2) \<le> brk_end (fst p) + max (length w + 2) 4096 + 16"
    using uputs_prepares[OF heap str room(1), of sys f] by blast
  have "s2 + n \<le> brk_end (fst p2)" using placed_below[OF P(2) insertI1] .
  moreover have "16 \<le> s2" using P(2) by (simp add: uheap_ok_def)
  ultimately have rng: "16 \<le> s2 \<and> s2 + (length w + 1) \<le> brk_end (fst p) + max (length w + 2) 4096 + 16" using P(4,8) by simp
  then have u: "ok s2 (length (w @ [0x0a]))" using acc[of s2] by simp
  have fd: "fd_of p2 f = fd" using in_blocks_fd[OF f P(5)] R(2) by simp
  have "rep (snd p2) q" using R(1) P(7) by simp
  note W = fputs_ok[OF this fd P(6) u]
  have len: "length (w @ [0x0a]) < 2 ^ 31" using room(2) by simp
  show ?thesis
  proof (intro conjI allI impI)
    show "uputs sys f s p \<noteq> None" using W[OF len] unfolding P(1)
      by (auto simp: bindR_def ret_def split: option.splits sum.splits)
  next
    assume "\<forall>a. 16 \<le> a \<and> a + (length w + 1) \<le> brk_end (fst p) + max (length w + 2) 4096 + 16 \<longrightarrow> fits (snd p) a (length w + 1)"
    then have "fits (snd p2) s2 (length (w @ [0x0a]))" using rng P(7) by simp
    then obtain v p3 where "ufputs sys s2 f p2 = ret (v, p3)" "pages (snd p2) \<le> Suc (pages (snd p3))" using W[OF len] by blast
    then show "\<exists>v p'. uputs sys f s p = ret (v, p') \<and> pages (snd p) \<le> Suc (pages (snd p'))" using P(7) unfolding P(1) by simp
  next
    fix v p'
    assume "uputs sys f s p = ret (v, p')"
    then obtain p3 where p3: "ufputs sys s2 f p2 = ret (v, p3)" "p' = (ufree s2 (fst p3), snd p3)"
      unfolding P(1) by (auto simp: bindR_ret_iff)
    then have r: "v = 0" "fst p3 = fst p2" "rep (snd p3) (q @ w @ [0x0a])" using W[OF len] by (cases p3; simp)+
    show "v = 0" "rep (snd p') (q @ w @ [0x0a])" using r p3(2) by simp_all
    have "headed (fst p2) (s2, b, n)" "placed (fst p2) (s2, b, n)" using P(2) by (simp_all add: uheap_ok_def)
    then have hb: "ld32 (ubytes (fst p2)) (s2 - 16) = of_nat b" "b < 4 \<or> b = 4" by auto
    have "(\<exists>F' L'. uheap_ok (ufree s2 (fst p2)) F' L' \<and> L \<subseteq> L') \<and> (\<forall>y \<in> L. same_block (fst p2) (ufree s2 (fst p2)) y)"
    proof (cases "b = 4")
      case True
      then have "ufree s2 (fst p2) = fst p2" using hb(1) by (simp add: ufree_def)
      moreover have "same_block t t y" for t y by (cases y) (simp add: same_block_def)
      ultimately show ?thesis using P(2) by (metis subset_insertI)
    next
      case False
      then have b4: "b < 4" using hb(2) by simp
      note fr = ufree_ok[OF P(2) insertI1 b4]
      have L: "insert (s2, b, n) L - {(s2, b, n)} = L" using P(3) by blast
      show ?thesis using fr unfolding L by blast
    qed
    then show "\<exists>F' L'. uheap_ok (fst p') F' L' \<and> L \<subseteq> L'" "\<forall>y \<in> L. same_block (fst p) (fst p') y"
      using P(5) same_block_trans r(2) p3(2) by auto
  qed
qed

end

end
