(* ===== verification/UserIO.thy ===== *)
theory UserIO
  imports Exec Stdio
begin

section \<open>Programs that talk through the kernel (libc.c on syscall.c)\<close>

text \<open>
  The system call the C library makes is \<open>INT0x80C\<close> of \<open>Exec\<close>, on the state of the kernel in which the user
  memory is the program's. The queues of \<open>Stdio\<close> are interpreted on it: behind a descriptor with a standard stream
  is a pipe of \<open>Streams\<close>. Then a line that one program writes with \<open>puts\<close> is the line another one reads with \<open>fgets\<close>.
\<close>

subsection \<open>The call\<close>

text \<open>A call that has given up the processor has not come back.\<close>

definition user_view :: "umem \<Rightarrow> 'a user_fsys_scheme \<Rightarrow> 'a user_fsys_scheme" where
  "user_view m k = k\<lparr>umem := (\<lambda>a. ubytes m (unat a))\<rparr>"

definition prog_view :: "umem \<Rightarrow> 'a user_fsys_scheme \<Rightarrow> umem" where
  "prog_view m s = m\<lparr>ubytes := (\<lambda>x. if x < 2 ^ 64 then umem s (of_nat x) else ubytes m x)\<rparr>"

definition INT0x80_of :: "('a user_fsys_scheme \<Rightarrow> u64 \<Rightarrow> u64 \<Rightarrow> u64 \<Rightarrow> u64 \<Rightarrow> (u64 \<times> read_end \<times> 'a user_fsys_scheme) run) \<Rightarrow>
    'a user_fsys_scheme INT0x80" where
  "INT0x80_of call rdi rsi rdx rcx p =
     bindR (call (user_view (fst p) (snd p)) rdi rsi rdx rcx) (\<lambda>(v, e, s).
       if e = Waiting then None else ret (v, (prog_view (fst p) s, s)))"

definition kcall :: "addr \<times> u8 list \<Rightarrow> 'a user_fsys_scheme INT0x80" where
  "kcall b2 = INT0x80_of (\<lambda>s rdi rsi rdx rcx. INT0x80C (KPALLOC no_more_pages) b2 [] (\<lambda>_ _. []) 0 rdi rsi rdx rcx s)"

subsection \<open>Pages for the stacks of calls\<close>

text \<open>A call takes one page of the pool. Pages in the first 32 slots are found without a refill.\<close>

definition stack_pages :: "'a kpool_scheme \<Rightarrow> nat" where
  "stack_pages s = card {i. i < 32 \<and> ldq s (slot i) \<noteq> 0}"

lemma stack_pages_cong: "(\<And>i. i < 32 \<Longrightarrow> ldq s' (slot i) = ldq s (slot i)) \<Longrightarrow> stack_pages s' = stack_pages s"
  unfolding stack_pages_def by (rule arg_cong[where f = card]) auto

lemma KPALLOC_stack:
  assumes h: "pool_held s U" and n: "stack_pages s = Suc n"
  shows "\<exists>p s'. KPALLOC no_more_pages s = Inr (p, s') \<and> stack_pages s' = n"
proof -
  let ?I = "{i. i < 32 \<and> ldq s (slot i) \<noteq> 0}"
  have "?I \<noteq> {}"
  proof
    assume "?I = {}"
    then show False using n by (simp only: stack_pages_def card.empty nat.distinct)
  qed
  then obtain j where "j \<in> ?I" by blast
  define i where "i = (LEAST i. ldq s (slot i) \<noteq> 0)"
  have i: "ldq s (slot i) \<noteq> 0" unfolding i_def by (rule LeastI[of _ j]) (use \<open>j \<in> ?I\<close> in simp)
  have l: "i < 32" using Least_le[of "\<lambda>i. ldq s (slot i) \<noteq> 0" j] \<open>j \<in> ?I\<close> by (simp add: i_def)
  have z: "ldq s (slot x) = 0" if "x < i" for x using not_less_Least[of x "\<lambda>i. ldq s (slot i) \<noteq> 0"] that by (simp add: i_def)
  define s' where "s' = memfill_page (ldq s (slot i)) (stq (slot i) 0 s)"
  have k: "KPALLOC no_more_pages s = Inr (ldq s (slot i), s')"
    unfolding s'_def by (rule KPALLOC_first[OF i l refl]) (rule z)
  have "ldq s' (slot x) = (if x = i then 0 else ldq s (slot x))" if "x < 32" for x
  proof -
    have "page_of (slot x) \<noteq> ldq s (slot i)" "page_aligned (ldq s (slot i))"
      using pool_heldD(2)[OF h, of i] i l that slot_page[of x] by auto
    then show ?thesis using that l by (simp add: s'_def ldq_memfill slot_inj)
  qed
  then have "{x. x < 32 \<and> ldq s' (slot x) \<noteq> 0} = ?I - {i}" by (auto split: if_splits)
  then have "stack_pages s' = card (?I - {i})" by (simp add: stack_pages_def)
  also have "\<dots> = n" using n i l by (simp add: stack_pages_def card_Diff_singleton)
  finally show ?thesis using k by blast
qed

lemma heap_owns_KPALLOC:
  fixes s :: "'a streams_scheme"
  assumes "heap_owns s A" "KPALLOC no_more_pages s = Inr (p, s')"
  shows "heap_owns s' A"
proof -
  obtain U ts L where h: "pool_held s U" "heap_ok s U ts L" "A \<subseteq> user_ptr s ` L" using assms(1) by (auto simp: heap_owns_def)
  have fr: "pool_held s' (insert p U)" using boot.pool.fresh[OF h(1) assms(2)] by blast
  have "heap_ok s' (insert p U) ts L" using boot.heap.held_kept[OF h(1,2) assms(2)] .
  moreover have "user_ptr s' ` L = user_ptr s ` L"
    using keeps_user_ptr[OF boot.heap.page_kept(1)[OF h(1,2) assms(2)]] by (rule image_cong[OF refl])
  ultimately show ?thesis using fr h(3) unfolding heap_owns_def by (intro exI[of _ "insert p U"] exI[of _ ts] exI[of _ L]) simp
qed

text \<open>What entering and leaving the kernel leave alone.\<close>

definition same_call :: "'a user_fsys_scheme \<Rightarrow> 'a user_fsys_scheme \<Rightarrow> bool" where
  "same_call s s' \<longleftrightarrow> ios s' = ios s \<and> fifos s' = fifos s \<and> (\<forall>fd. kernelFd fd s' = kernelFd fd s) \<and>
     my_brk s' = my_brk s \<and> brks s' = brks s \<and> upages s' = upages s \<and> umem s' = umem s"

lemma loadRSP0_same: "same_call s (loadRSP0 r s)"
  by (simp add: same_call_def loadRSP0_def kernelFd_def fd_page_def my_brk_def tcb_def upd_def)

lemma syscall_enter_same:
  assumes "syscall_enter (KPALLOC no_more_pages) s = ret (old, n, s1)"
  obtains t where "KPALLOC no_more_pages (s\<lparr>int_flag := False\<rparr>) = Inr (n, t)" "mem s1 = mem t" "ml1 s1 = ml1 t" "same_call s s1"
proof -
  obtain t where t: "KPALLOC no_more_pages (s\<lparr>int_flag := False\<rparr>) = Inr (n, t)" "s1 = (loadRSP0 (n + 0xff8) t)\<lparr>int_flag := True\<rparr>"
    using assms that by (cases "KPALLOC no_more_pages (s\<lparr>int_flag := False\<rparr>)") (auto simp: syscall_enter_def Let_def bindR_def lift_def ret_def)
  have m: "kheap.more t = kheap.more (s\<lparr>int_flag := False\<rparr>)" by (rule more_KPALLOC[OF t(1)])
  have "umem t = umem s" using m by (cases s; cases t) simp
  then have "same_call s s1"
    using more_fields[OF m] more_user[OF m]
    by (simp add: t(2) same_call_def loadRSP0_def kernelFd_def fd_page_def my_brk_def tcb_def upd_def)
  then show thesis using that t by (simp add: loadRSP0_def upd_def)
qed

lemma syscall_enter_keeps:
  assumes "syscall_enter (KPALLOC no_more_pages) s = ret (old, n, s1)" "heap_owns s A"
  shows "heap_owns s1 A" "same_call s s1"
proof -
  obtain t where t: "KPALLOC no_more_pages (s\<lparr>int_flag := False\<rparr>) = Inr (n, t)" "mem s1 = mem t" "ml1 s1 = ml1 t" "same_call s s1"
    using syscall_enter_same[OF assms(1)] .
  have "heap_owns t A" by (rule heap_owns_KPALLOC[OF _ t(1)]) (use assms(2) heap_owns_cong[of "s\<lparr>int_flag := False\<rparr>" s] in simp)
  then show "heap_owns s1 A" "same_call s s1" using heap_owns_cong[OF t(2,3)] t(4) by simp_all
qed

lemma syscall_enter_ends: "syscall_enter (KPALLOC no_more_pages) s \<noteq> None"
  by (auto simp: syscall_enter_def Let_def bindR_def lift_def ret_def split: sum.splits)

lemma syscall_enter_stack:
  fixes s :: "'a user_fsys_scheme"
  assumes "heap_owns s A" "stack_pages s = Suc c"
  obtains old n s1 where "syscall_enter (KPALLOC no_more_pages) s = ret (old, n, s1)" "stack_pages s1 = c"
proof -
  obtain U where "pool_held s U" using assms(1) by (auto simp: heap_owns_def)
  then have h: "pool_held (s\<lparr>int_flag := False\<rparr>) U" by (rule pool_held_cong) (simp add: ldq_def)
  have "stack_pages (s\<lparr>int_flag := False\<rparr>) = Suc c" using assms(2) stack_pages_cong[of "s\<lparr>int_flag := False\<rparr>" s] by (simp add: ldq_def)
  from KPALLOC_stack[OF h this] obtain p t where t: "KPALLOC no_more_pages (s\<lparr>int_flag := False\<rparr>) = Inr (p, t)" "stack_pages t = c" by blast
  obtain old n s1 where e: "syscall_enter (KPALLOC no_more_pages) s = ret (old, n, s1)"
    using t(1) that by (simp add: syscall_enter_def Let_def lift_def ret_def bindR_def)
  obtain t' where t': "KPALLOC no_more_pages (s\<lparr>int_flag := False\<rparr>) = Inr (n, t')" "mem s1 = mem t'" using syscall_enter_same[OF e] .
  have "t' = t" using t(1) t'(1) by simp
  then have "stack_pages s1 = c" using t(2) t'(2) stack_pages_cong[of s1 t] by (simp add: ldq_def)
  with e that show thesis by blast
qed

lemma syscall_leave_same:
  "same_call s (syscall_leave old n s)" "mem (syscall_leave old n s) = mem s" "ml1 (syscall_leave old n s) = ml1 s"
  by (simp_all add: syscall_leave_def same_call_def loadRSP0_def P_FREE_event_def kernelFd_def fd_page_def my_brk_def tcb_def upd_def)

subsection \<open>User memory in calls\<close>

lemma touch_upages: "touch a e s = ret s' \<Longrightarrow> \<exists>P. s' = s\<lparr>upages := P\<rparr>"
proof -
  assume r: "touch a e s = ret s'"
  show ?thesis
  proof (cases "page_of a \<in> upages s")
    case True
    then have "s' = s\<lparr>upages := upages s\<rparr>" using r by (simp add: touch_def)
    then show ?thesis by blast
  next
    case False
    then have "UPALLOC_user (a AND NOT 0xFFF) s = ret s'"
      using r by (auto simp: touch_def PAGE_FAULT_def bindR_ret_iff Let_def split: if_splits)
    then show ?thesis by (auto simp: UPALLOC_user_def bindR_ret_iff)
  qed
qed

lemma touch_ends: "touch a e s \<noteq> None"
  by (simp add: touch_def PAGE_FAULT_def UPALLOC_user_def check_def bindR_def ret_def stop_def Let_def split: option.splits sum.splits)

lemma user_fetch_bytes: "user_fetch a n s = ret (bs, t) \<Longrightarrow> bs = user_bytes a n s \<and> (\<exists>P. t = s\<lparr>upages := P\<rparr>)"
proof (induction n arbitrary: a s bs)
  case 0
  then have "bs = []" "t = s\<lparr>upages := upages s\<rparr>" by simp_all
  then show ?case unfolding user_bytes_def by (intro conjI exI[of _ "upages s"]) simp_all
next
  case (Suc n)
  then obtain s1 cs where s1: "touch a 0 s = ret s1" "user_fetch (a + 1) n s1 = ret (cs, t)" "bs = umem s1 a # cs"
    by (auto simp: bindR_ret_iff)
  obtain P where P: "s1 = s\<lparr>upages := P\<rparr>" using touch_upages[OF s1(1)] by blast
  have "cs = user_bytes (a + 1) n s1 \<and> (\<exists>P. t = s1\<lparr>upages := P\<rparr>)" using Suc.IH[OF s1(2)] .
  moreover have "user_bytes a (Suc n) s = umem s a # user_bytes (a + 1) n s"
    unfolding user_bytes_def upt_conv_Cons[OF zero_less_Suc] map_Suc_upt[symmetric] by (simp add: add_ac comp_def)
  moreover have "user_bytes (a + 1) n s1 = user_bytes (a + 1) n s" by (simp add: user_bytes_def P)
  ultimately show ?case using P s1(3) by auto
qed

lemma bindR_ends: "m \<noteq> None \<Longrightarrow> (\<And>x. m = ret x \<Longrightarrow> f x \<noteq> None) \<Longrightarrow> bindR m f \<noteq> None"
  by (auto simp: bindR_def ret_def split: option.splits sum.splits)

lemma user_fetch_ends: "user_fetch a n s \<noteq> None"
proof (induction n arbitrary: a s)
  case (Suc n)
  show ?case unfolding user_fetch.simps
    by (rule bindR_ends[OF touch_ends], rule bindR_ends[OF Suc.IH]) (auto simp: ret_def)
qed (simp add: ret_def)

lemma user_fetch_ok:
  assumes "\<And>i. i < n \<Longrightarrow> in_brk s (a + of_nat i)"
  shows "\<exists>x. user_fetch a n s = ret x"
  using assms
proof (induction n arbitrary: a s)
  case (Suc n)
  have t: "touch a 0 s = ret (s\<lparr>upages := insert (page_of a) (upages s)\<rparr>)" by (rule touch_ok) (use Suc.prems[of 0] in simp_all)
  have "\<exists>x. user_fetch (a + 1) n (s\<lparr>upages := insert (page_of a) (upages s)\<rparr>) = ret x"
    by (rule Suc.IH) (use Suc.prems[of "Suc _"] in \<open>simp add: in_brk_def my_brk_def tcb_def add_ac\<close>)
  then show ?case using t by (auto simp: case_prod_beta')
qed simp

lemma user_view_same:
  "mem (user_view m k) = mem k" "ml1 (user_view m k) = ml1 k" "ios (user_view m k) = ios k" "fifos (user_view m k) = fifos k"
  "kernelFd fd (user_view m k) = kernelFd fd k" "my_brk (user_view m k) = my_brk k" "brks (user_view m k) = brks k"
  "stack_pages (user_view m k) = stack_pages k" "umem (user_view m k) x = ubytes m (unat x)" "in_brk (user_view m k) y = in_brk k y"
  by (simp_all add: user_view_def kernelFd_def fd_page_def my_brk_def tcb_def in_brk_def stack_pages_def ldq_def)

text \<open>The bytes of a call's buffer are the program's, and what a call stores there the program finds.\<close>

lemma user_bytes_view:
  assumes "a + n \<le> USER_TOP" "umem s = umem (user_view m k)"
  shows "user_bytes (of_nat a) n s = ldb (ubytes m) a n"
proof (rule nth_equalityI)
  fix i assume "i < length (user_bytes (of_nat a) n s)"
  then have i: "i < n" by (simp add: user_bytes_def)
  then have "unat (of_nat a + of_nat i :: addr) = a + i"
    using assms(1) unat_of_nat_small(4)[of "a + i"] by (simp add: USER_TOP_def CBASE_def)
  then show "user_bytes (of_nat a) n s ! i = ldb (ubytes m) a n ! i" using i assms(2) by (simp add: user_bytes_def user_view_same)
qed (simp add: user_bytes_def)

lemma prog_view_stb:
  assumes r: "a + length bs \<le> USER_TOP"
    and w: "\<And>i. i < length bs \<Longrightarrow> umem s (of_nat a + of_nat i) = bs ! i"
    and o: "\<And>x. (\<And>i. i < length bs \<Longrightarrow> x \<noteq> of_nat a + of_nat i) \<Longrightarrow> umem s x = ubytes m (unat x)"
  shows "prog_view m s = m\<lparr>ubytes := stb a bs (ubytes m)\<rparr>"
proof -
  have T: "USER_TOP = 2 ^ 39" by (simp add: USER_TOP_def CBASE_def)
  have "(if x < 2 ^ 64 then umem s (of_nat x) else ubytes m x) = stb a bs (ubytes m) x" for x
  proof (cases "a \<le> x \<and> x < a + length bs")
    case True
    have "x - a < length bs" "of_nat a + of_nat (x - a) = (of_nat x :: addr)" using True by (auto simp flip: of_nat_add)
    then have "umem s (of_nat x) = bs ! (x - a)" using w[of "x - a"] by simp
    then show ?thesis using True r T by (simp add: stb_def)
  next
    case False
    have "(of_nat x :: addr) \<noteq> of_nat a + of_nat i" if "x < 2 ^ 64" "i < length bs" for i
    proof
      assume "(of_nat x :: addr) = of_nat a + of_nat i"
      then have "unat (of_nat x :: addr) = unat (of_nat (a + i) :: addr)" by simp
      then have "x = a + i" using that r T unat_of_nat_small(4)[of x] unat_of_nat_small(4)[of "a + i"] by simp
      then show False using False that(2) by simp
    qed
    then show ?thesis using False o[of "of_nat x"] unat_of_nat_small(4)[of x] by (auto simp: stb_def)
  qed
  then show ?thesis by (simp add: prog_view_def)
qed

subsection \<open>A descriptor that is written\<close>

definition sink_at :: "u64 \<Rightarrow> addr \<Rightarrow> 'a fsys_scheme \<Rightarrow> u8 list \<Rightarrow> bool" where
  "sink_at fd r s q \<longleftrightarrow> fd \<le> FDS \<and> fn (kernelFd fd s) = StdIOStream \<and>
     iotype (ios s (pairOut (ios s (arguments (kernelFd fd s))))) \<noteq> 1 \<and> (\<exists>c. pipe heap_owns (arguments (kernelFd fd s)) r s q c)"

text \<open>The buffer the next bytes go to is empty.\<close>

definition sink_empty :: "u64 \<Rightarrow> 'a fsys_scheme \<Rightarrow> bool" where
  "sink_empty fd s \<longleftrightarrow> datac (fifos s (bufferOutEnd (ios s (arguments (kernelFd fd s))))) = 0"

lemma sink_at_cong:
  assumes "mem s' = mem s" "ml1 s' = ml1 s" "ios s' = ios s" "fifos s' = fifos s" "fn (kernelFd fd s') = fn (kernelFd fd s)"
    "arguments (kernelFd fd s') = arguments (kernelFd fd s)"
  shows "sink_at fd r s' q = sink_at fd r s q"
  using pipe_cong[OF assms(1-4)] assms(3,5,6) by (simp add: sink_at_def)

lemma stdout_small_mem:
  assumes "datac (fifos s (bufferOutEnd (ios s a))) = 0" "length xs \<le> 255"
  shows "\<exists>s'. stdout_loop mal a xs s = ret s' \<and> mem s' = mem s"
  using assms by (cases "xs = []")
    (simp_all add: stdout_loop.simps[of _ _ xs] stdout_loop.simps[of _ _ "[]"] stdout_chunk_def Let_def min_def upd_fifo_def)

lemma WRITE_sink:
  fixes s :: "'a fsys_scheme"
  assumes S: "sink_at fd r s q" and len: "length xs = unat len"
  shows "WRITE (KPALLOC no_more_pages) b2 fd xs len s \<noteq> None"
    and "sink_empty fd s \<Longrightarrow> length xs \<le> 255 \<Longrightarrow> \<exists>s'. WRITE (KPALLOC no_more_pages) b2 fd xs len s = ret s' \<and> mem s' = mem s"
    and "WRITE (KPALLOC no_more_pages) b2 fd xs len s = ret s' \<Longrightarrow> sink_at fd r s' (q @ xs)"
proof -
  define a where "a = arguments (kernelFd fd s)"
  obtain c where P: "pipe heap_owns a r s q c" using S by (auto simp: sink_at_def a_def)
  have fn: "fn (kernelFd fd s) = StdIOStream" "fd \<le> FDS" "iotype (ios s (pairOut (ios s a))) \<noteq> 1"
    using S by (simp_all add: sink_at_def a_def)
  obtain w where w: "stdout_loop buffer_malloc a xs s = Some w"
    "\<And>s2. w = Inr s2 \<Longrightarrow> \<exists>k. pipe heap_owns a r s2 (q @ xs) k" using kernel.write_ok[OF P, of xs] by auto
  have so: "STDOUTStream buffer_malloc a xs s = Some w" using w(1) fn(3) by (simp add: STDOUTStream_def Let_def)
  have wr: "WRITE (KPALLOC no_more_pages) b2 fd xs len s = bindR (Some w) (\<lambda>s. ret (set_kernelFd fd (\<lambda>t. t\<lparr>position := 0\<rparr>) s))"
  proof -
    have "take (unat len) xs = xs" using len by simp
    then have "stream_fn (KPALLOC no_more_pages) b2 (kernelFd fd s) xs len 1 s = bindR (Some w) (\<lambda>s. ret (0, xs, Complete, s))"
      using fn so by (simp add: stream_fn_def StdIOStream_fn_def a_def)
    then show ?thesis using fn by (cases w) (simp_all add: WRITE_def fd_used_ok bindR_def ret_def)
  qed
  show "WRITE (KPALLOC no_more_pages) b2 fd xs len s \<noteq> None" unfolding wr by (cases w) (simp_all add: bindR_def ret_def)
  show "\<exists>s'. WRITE (KPALLOC no_more_pages) b2 fd xs len s = ret s' \<and> mem s' = mem s" if "sink_empty fd s" "length xs \<le> 255"
    using stdout_small_mem[of s a xs buffer_malloc] that w(1) unfolding wr by (auto simp: sink_empty_def a_def ret_def bindR_def)
  show "sink_at fd r s' (q @ xs)" if res: "WRITE (KPALLOC no_more_pages) b2 fd xs len s = ret s'"
  proof -
    obtain t where t: "w = Inr t" "s' = set_kernelFd fd (\<lambda>t. t\<lparr>position := 0\<rparr>) t"
      using res unfolding wr by (cases w) (auto simp: bindR_def ret_def)
    obtain k where k: "pipe heap_owns a r t (q @ xs) k" using w(2) t(1) by blast
    have ab: "kernelFd fd t = kernelFd fd s"
      using above_kernelFd[OF STDOUT_above, of a xs s t fd] so t(1) by (simp add: ret_def)
    let ?F = "\<lambda>s :: 'a fsys_scheme. \<lambda>p. (iotype (ios s p), pairOut (ios s p))"
    have "?F t = ?F s"
    proof (rule stdout_loop_frame[where F = ?F and mal = buffer_malloc and a = a and xs = xs])
      show "stdout_loop buffer_malloc a xs s = ret t" using w(1) t(1) by (simp add: ret_def)
      show "?F s' = ?F s" if "buffer_malloc s = ret (p, s')" for s s' :: "'a fsys_scheme" and p
        using more_streams[OF more_malloc[of 265 s p s']] that by (simp add: ret_def)
    qed auto
    then have io: "iotype (ios t p) = iotype (ios s p)" "pairOut (ios t p) = pairOut (ios s p)" for p
      by (metis prod.inject)+
    have "sink_at fd r t (q @ xs)" using k fn ab io by (auto simp: sink_at_def a_def)
    then show ?thesis using sink_at_cong[of s' t fd r "q @ xs"] by (simp add: t(2))
  qed
qed

subsection \<open>A descriptor that is read\<close>

text \<open>
  A read frees buffers, and the pages of the pool stay what they were: the laws of \<open>stream_heap\<close> hold again when
  the pool's slots are part of what the heap keeps.
\<close>

definition slots_kept :: "(nat \<Rightarrow> u64) \<Rightarrow> 'a kpool_scheme \<Rightarrow> addr set \<Rightarrow> bool" where
  "slots_kept S s U \<longleftrightarrow> pool_held s U \<and> (\<forall>i < 32. ldq s (slot i) = S i)"

definition owns_slots :: "(nat \<Rightarrow> u64) \<Rightarrow> 'a streams_scheme \<Rightarrow> addr set \<Rightarrow> bool" where
  "owns_slots S s A \<longleftrightarrow> heap_owns s A \<and> (\<forall>i < 32. ldq s (slot i) = S i)"

interpretation frozen: heap_pages "\<lambda>s. Inl FAULT" "slots_kept S" for S
proof unfold_locales
  fix s :: "'a kheap_scheme" and U a b p and v :: u64
  show "slots_kept S (stq a v s) U" if "slots_kept S s U" "page_of a \<in> U"
  proof -
    have "slot i \<noteq> a" if "i < 32" for i
      using that \<open>page_of a \<in> U\<close> \<open>slots_kept S s U\<close> slot_page[of i] by (auto simp: slots_kept_def pool_held_def)
    then show ?thesis using that boot.pool.owner_writes[of s U a v] by (auto simp: slots_kept_def)
  qed
  show "ldq (stq a v s) b = (if b = a then v else ldq s b)" by simp
  show "slots_kept S (memfill_page p s) U" if "slots_kept S s U" "p \<in> U" "page_aligned p"
  proof -
    have "page_of (slot i) \<noteq> p" if "i < 32" for i
      using that \<open>p \<in> U\<close> \<open>slots_kept S s U\<close> slot_page[of i] by (auto simp: slots_kept_def pool_held_def)
    then show ?thesis using that boot.pool.owner_fills[of s U p] by (auto simp: slots_kept_def ldq_memfill)
  qed
  show "ldq (memfill_page p s) b = (if page_of b = p then 0 else ldq s b)" if "page_aligned p"
    using that by (simp add: ldq_memfill)
  show "slots_kept S (s\<lparr>ml1 := p\<rparr>) U = slots_kept S s U" by (simp add: slots_kept_def pool_held_def ldq_def)
qed auto

interpretation kept: stream_heap "\<lambda>s. stop FAULT" heap_free "owns_slots S" for S
proof unfold_locales
  fix s s' :: "'a streams_scheme" and A p and f :: "stdIO \<Rightarrow> stdIO" and g :: "stdFIFOBUF \<Rightarrow> stdFIFOBUF"
  show "owns_slots S (upd_io p f s) A = owns_slots S s A" "owns_slots S (upd_fifo p g s) A = owns_slots S s A"
    using kernel.upd_owns(1)[of p f s A] kernel.upd_owns(2)[of p g s A] by (simp_all add: owns_slots_def upd_io_def upd_fifo_def ldq_def)
  assume o: "owns_slots S s A"
  show "stop FAULT \<noteq> None" by (simp add: stop_def)
  show "p \<notin> A \<and> p \<noteq> 0 \<and> owns_slots S s' (insert p A) \<and> ios s' = ios s \<and> fifos s' = fifos s" if "stop FAULT = ret (p, s')"
    using that by (simp add: stop_def ret_def)
  assume p: "p \<in> A"
  obtain U ts L where h: "pool_held s U" "heap_ok s U ts L" "A \<subseteq> user_ptr s ` L" and S: "\<forall>i < 32. ldq s (slot i) = S i"
    using o by (auto simp: owns_slots_def heap_owns_def)
  obtain e lo n where b: "(e, lo, n) \<in> L" "p = user_ptr s (e, lo, n)" using h(3) p by (metis image_iff prod_cases3 subsetD)
  have "slots_kept S s U" using h(1) S by (simp add: slots_kept_def)
  then obtain t where t: "free p s = Inr t" "slots_kept S t U" using frozen.free_ok[OF _ h(2) b(1), of S] b(2) by blast
  have "heap_owns s A" using o by (simp add: owns_slots_def)
  from heap_owns_free[OF this p] t have "heap_owns t (A - {p}) \<and> kheap.more t = kheap.more s" by auto
  then show "\<exists>s'. heap_free p s = ret s' \<and> owns_slots S s' (A - {p}) \<and> ios s' = ios s \<and> fifos s' = fifos s"
    using t more_streams[of t s] by (simp add: owns_slots_def slots_kept_def)
qed

lemma pipe_transfer:
  assumes "pipe owns a r s q k" "\<And>A. owns s A \<Longrightarrow> owns' s' A" "ios s' = ios s" "fifos s' = fifos s"
  shows "pipe owns' a r s' q k"
proof -
  have "fifo_chain s' p e ps = fifo_chain s p e ps" for p e ps by (rule fifo_chain_cong) (simp add: assms)
  moreover have "bytes_of s' ps = bytes_of s ps" for ps by (rule bytes_of_cong) (simp add: assms)
  ultimately show ?thesis using assms(1,2) unfolding pipe_def assms(3,4) by metis
qed

text \<open>What the buffers do not touch of a task and its memory.\<close>

definition task_state :: "'a user_fsys_scheme \<Rightarrow> ((addr \<Rightarrow> nat \<Rightarrow> stream) \<times> (addr \<Rightarrow> thread_control_block) \<times> addr) \<times> (addr \<Rightarrow> prog_mem) \<times> addr set \<times> (addr \<Rightarrow> u8)" where
  "task_state s = (above s, brks s, upages s, umem s)"

lemma task_state_more: "kheap.more s' = kheap.more s \<Longrightarrow> task_state s' = task_state s"
  by (cases s; cases s') (simp add: task_state_def above_def)

lemma task_state_io: "task_state (upd_io p f s) = task_state s" "task_state (upd_fifo p g s) = task_state s"
  by (simp_all add: task_state_def above_def upd_io_def upd_fifo_def)

lemma task_stateD:
  assumes "task_state s' = task_state s"
  shows "kernelFd fd s' = kernelFd fd s" "my_brk s' = my_brk s" "brks s' = brks s" "umem s' = umem s" "in_brk s' x = in_brk s x"
  using assms by (simp_all add: task_state_def above_def kernelFd_def fd_page_def my_brk_def tcb_def in_brk_def)

lemma READ_source:
  fixes s :: "'a user_fsys_scheme"
  assumes fd: "fd \<le> FDS" "fn (kernelFd fd s) = StdIOStream" and P: "pipe heap_owns a (arguments (kernelFd fd s)) s q k"
  shows "\<exists>s' k'. READ (KPALLOC no_more_pages) b2 fd buffer n s =
      ret (overlay (take (unat n) q) buffer, if unat n \<le> length q then Complete else Waiting, s') \<and>
    pipe heap_owns a (arguments (kernelFd fd s)) s' (drop (unat n) q) k' \<and> stack_pages s' = stack_pages s \<and>
    fn (kernelFd fd s') = StdIOStream \<and> arguments (kernelFd fd s') = arguments (kernelFd fd s) \<and>
    (\<forall>x. in_brk s' x = in_brk s x) \<and> umem s' = umem s"
proof -
  define r where "r = arguments (kernelFd fd s)"
  define S where "S = (\<lambda>i. ldq s (slot i))"
  let ?e = "if unat n \<le> length q then Complete else Waiting"
  have "pipe (owns_slots S) a r s q k" by (rule pipe_transfer[OF P[folded r_def]]) (simp_all add: owns_slots_def S_def)
  from kept.read_ok[OF this, of "unat n" "[]"] obtain t k' where
    t: "stdin_loop heap_free r (unat n) [] s = ret (take (unat n) q, ?e, t)" "pipe (owns_slots S) a r t (drop (unat n) q) k'" by auto
  have pt: "pipe heap_owns a r t (drop (unat n) q) k'" by (rule pipe_transfer[OF t(2)]) (simp_all add: owns_slots_def)
  have sp: "stack_pages t = stack_pages s"
    using kept.pipe_owns[OF t(2)] by (intro stack_pages_cong) (auto simp: owns_slots_def S_def)
  have F: "task_state t = task_state s"
  proof (rule stdin_loop_frame[OF _ task_state_io t(1)])
    show "task_state s' = task_state s" if "heap_free p s = ret s'" for p and s s' :: "'a user_fsys_scheme"
      using task_state_more[OF more_free[of p s s']] that by (cases "free p s") (simp_all add: lift_def ret_def)
  qed
  define s' where "s' = (if ?e = Waiting then t else set_kernelFd fd (\<lambda>t. t\<lparr>position := 0\<rparr>) t)"
  have so: "STDINStream heap_free r (unat n) s = ret (take (unat n) q, ?e, t)"
    using t(1) kernel.pipe_open[OF P] by (simp add: STDINStream_def r_def)
  have rd: "READ (KPALLOC no_more_pages) b2 fd buffer n s = ret (overlay (take (unat n) q) buffer, ?e, s')"
    using fd so by (simp add: READ_def fd_used_ok stream_fn_def StdIOStream_fn_def r_def s'_def)
  have s': "mem s' = mem t" "ml1 s' = ml1 t" "ios s' = ios t" "fifos s' = fifos t" "fn (kernelFd fd s') = fn (kernelFd fd t)"
    "arguments (kernelFd fd s') = arguments (kernelFd fd t)" "my_brk s' = my_brk t" "brks s' = brks t" "umem s' = umem t"
    by (simp_all add: s'_def set_kernelFd_def upd_fd_def my_brk_def tcb_def kernelFd_def fd_page_def)
  have "pipe heap_owns a r s' (drop (unat n) q) k'" using pipe_cong[OF s'(1-4)] pt by simp
  moreover have "stack_pages s' = stack_pages s" using sp stack_pages_cong[of s' t] s'(1) by (simp add: ldq_def)
  moreover have "in_brk s' x = in_brk s x" for x using task_stateD(5)[OF F, of x] s'(7,8) by (simp add: in_brk_def)
  ultimately show ?thesis using rd s' task_stateD[OF F] fd(2) unfolding r_def by auto
qed

subsection \<open>The queues of the C library\<close>

definition source_at :: "addr set \<Rightarrow> u64 \<Rightarrow> 'a user_fsys_scheme \<Rightarrow> u8 list \<Rightarrow> nat \<Rightarrow> bool" where
  "source_at R fd s q c \<longleftrightarrow> fd \<le> FDS \<and> fn (kernelFd fd s) = StdIOStream \<and> (\<exists>a k. pipe heap_owns a (arguments (kernelFd fd s)) s q k) \<and>
     (\<forall>x \<in> R. in_brk s x) \<and> c \<le> stack_pages s"

definition buffer_in :: "addr set \<Rightarrow> nat \<Rightarrow> nat \<Rightarrow> bool" where
  "buffer_in R a n \<longleftrightarrow> a + n \<le> USER_TOP \<and> (\<forall>i < n. of_nat a + of_nat i \<in> R)"

lemma same_but_umem_all:
  assumes "same_but_umem s s'"
  shows "mem s' = mem s" "ml1 s' = ml1 s" "ios s' = ios s" "fifos s' = fifos s" "kernelFd fd s' = kernelFd fd s"
    "my_brk s' = my_brk s" "brks s' = brks s" "in_brk s' x = in_brk s x"
  using assms by (auto simp: same_but_umem_def my_brk_def tcb_def kernelFd_def fd_page_def in_brk_def)

lemma same_call_in_brk: "same_call s s' \<Longrightarrow> in_brk s' x = in_brk s x"
  by (simp add: same_call_def in_brk_def)

lemma read_call:
  fixes k :: "'a user_fsys_scheme"
  assumes S: "source_at R fd k q (Suc c)" and b: "buffer_in R a n"
  shows "if n \<le> length q
    then \<exists>k'. kcall b2 0 fd (of_nat a) (of_nat n) (m, k) = ret (0, (m\<lparr>ubytes := stb a (take n q) (ubytes m)\<rparr>, k')) \<and> source_at R fd k' (drop n q) c
    else kcall b2 0 fd (of_nat a) (of_nat n) (m, k) = None"
proof -
  define s where "s = user_view m k"
  define r where "r = arguments (kernelFd fd k)"
  have T: "USER_TOP = 2 ^ 39" "a + n \<le> 2 ^ 39" using b by (simp_all add: USER_TOP_def CBASE_def buffer_in_def)
  have u: "unat (of_nat a :: addr) = a" "unat (of_nat n :: u64) = n" using T by (simp_all add: unat_of_nat_small)
  have cb: "\<not> CBASE < of_nat a" using u T by (simp add: word_less_nat_alt CBASE_unat)
  obtain w j where P: "pipe heap_owns w r k q j" using S by (auto simp: source_at_def r_def)
  have Ps: "pipe heap_owns w r s q j"
    by (rule pipe_transfer[OF P]) (simp_all add: s_def user_view_same heap_owns_cong[OF user_view_same(1,2)])
  obtain A where A: "heap_owns s A" using kernel.pipe_owns[OF Ps] by blast
  obtain d where d: "stack_pages s = Suc d" "c \<le> d" using S by (cases "stack_pages k") (auto simp: source_at_def s_def user_view_same)
  obtain old np s1 where e: "syscall_enter (KPALLOC no_more_pages) s = ret (old, np, s1)" "stack_pages s1 = d"
    using syscall_enter_stack[OF A d(1)] .
  have e1: "same_call s s1" using syscall_enter_keeps(2)[OF e(1) A] .
  have P1: "pipe heap_owns w r s1 q j"
    by (rule pipe_transfer[OF Ps]) (use e1 syscall_enter_keeps(1)[OF e(1)] in \<open>simp_all add: same_call_def\<close>)
  have ib: "in_brk s1 x = in_brk k x" for x using same_call_in_brk[OF e1] by (simp add: s_def user_view_same)
  let ?buf = "user_bytes (of_nat a) n s1" and ?e = "if n \<le> length q then Complete else Waiting"
  have f1: "fd \<le> FDS" "fn (kernelFd fd s1) = StdIOStream" "arguments (kernelFd fd s1) = r"
    using S e1 by (simp_all add: source_at_def same_call_def s_def r_def user_view_same)
  obtain s2 k2 where rd: "READ (KPALLOC no_more_pages) b2 fd ?buf (of_nat n) s1 = ret (overlay (take n q) ?buf, ?e, s2)"
      "pipe heap_owns w r s2 (drop n q) k2" "stack_pages s2 = d" "fn (kernelFd fd s2) = StdIOStream" "arguments (kernelFd fd s2) = r"
      "\<And>x. in_brk s2 x = in_brk s1 x" "umem s2 = umem s1"
    using READ_source[OF f1(1,2) P1[folded f1(3)], of b2 ?buf "of_nat n"] e(2) u(2) f1(3) by auto
  define bs where "bs = overlay (take n q) ?buf"
  have len: "length bs = n" by (simp add: bs_def overlay_def user_bytes_def)
  have i2: "in_brk s2 (of_nat a + of_nat i)" if "i < length bs" for i
  proof -
    have "in_brk k (of_nat a + of_nat i)" using S b that len by (auto simp: source_at_def buffer_in_def)
    then show ?thesis using rd(6) ib by simp
  qed
  obtain s3 where cp: "user_copy (of_nat a) bs s2 = ret s3" "same_but_umem s2 s3" "\<And>i. i < length bs \<Longrightarrow> umem s3 (of_nat a + of_nat i) = bs ! i"
      "\<And>x. (\<And>i. i < length bs \<Longrightarrow> x \<noteq> of_nat a + of_nat i) \<Longrightarrow> umem s3 x = umem s2 x"
    using user_copy_ok[of bs s2 "of_nat a"] i2 len T by auto
  define k' where "k' = syscall_leave old np s3"
  have "syscall_switch (KPALLOC no_more_pages) b2 [] (\<lambda>_ _. []) 0 0 fd (of_nat a) (of_nat n) s1 = ret (0, ?e, s3)"
    using cb rd(1) cp(1) u(2) by (simp add: syscall_switch_def VERIFY_USER_def bs_def del: of_nat_add)
  then have kc: "kcall b2 0 fd (of_nat a) (of_nat n) (m, k) = (if n \<le> length q then ret (0, (prog_view m k', k')) else None)"
    using e(1) by (simp add: kcall_def INT0x80_of_def INT0x80C_def s_def[symmetric] k'_def)
  note l = syscall_leave_same[where s = s3 and old = old and n = np, folded k'_def, unfolded same_call_def] and c3 = same_but_umem_all[OF cp(2)]
  show ?thesis
  proof (cases "n \<le> length q")
    case True
    then have bq: "bs = take n q" by (simp add: bs_def overlay_def user_bytes_def)
    have um: "umem k' x = umem s3 x" for x using l by simp
    have "umem s2 x = ubytes m (unat x)" for x using rd(7) e1 by (simp add: same_call_def s_def user_view_same)
    then have "prog_view m k' = m\<lparr>ubytes := stb a bs (ubytes m)\<rparr>"
      using T len cp(3,4) by (intro prog_view_stb) (simp_all add: um USER_TOP_def CBASE_unat)
    moreover have "pipe heap_owns w r k' (drop n q) k2" using pipe_cong[of k' s2] rd(2) l c3 by simp
    moreover have "stack_pages k' = d" using rd(3) stack_pages_cong[of k' s2] l c3 by (simp add: ldq_def)
    moreover have "in_brk k' x = in_brk k x" for x
      using rd(6)[of x] ib[of x] c3(8) same_call_in_brk[OF syscall_leave_same(1)[where s = s3 and old = old and n = np]] by (simp add: k'_def)
    moreover have "fn (kernelFd fd k') = StdIOStream" "arguments (kernelFd fd k') = r" using rd(4,5) l c3 by simp_all
    ultimately show ?thesis using True kc bq S d(2) by (auto simp: source_at_def)
  qed (simp add: kc)
qed

lemma prog_view_same: "umem s = umem (user_view m k) \<Longrightarrow> prog_view m s = m"
proof -
  assume "umem s = umem (user_view m k)"
  then have "(\<lambda>x. if x < 2 ^ 64 then umem s (of_nat x) else ubytes m x) = ubytes m"
    by (intro ext) (simp add: user_view_same unat_of_nat_small)
  then show ?thesis by (simp add: prog_view_def)
qed

lemma WRITE_umem:
  fixes s :: "'a user_fsys_scheme"
  assumes "fn (kernelFd fd s) = StdIOStream" "WRITE (KPALLOC no_more_pages) b2 fd xs len s = ret s'"
  shows "umem s' = umem s"
proof -
  define a where "a = arguments (kernelFd fd s)"
  obtain t where t: "STDOUTStream buffer_malloc a (take (unat len) xs) s = ret t" "s' = set_kernelFd fd (\<lambda>t. t\<lparr>position := 0\<rparr>) t"
    using assms by (auto simp: WRITE_def bindR_ret_iff fd_used_def stream_fn_def StdIOStream_fn_def a_def)
  have "umem t = umem s"
  proof (cases "pairOut (ios s a) \<noteq> 0 \<and> iotype (ios s (pairOut (ios s a))) = 1")
    case True
    then show ?thesis using t(1) by (auto simp: STDOUTStream_def Let_def)
  next
    case False
    have "stdout_loop buffer_malloc a (take (unat len) xs) s = ret t" using t(1) False by (simp only: STDOUTStream_def Let_def if_False)
    then have "task_state t = task_state s"
    proof (rule stdout_loop_frame[where F = task_state, rotated -1])
      show "task_state s' = task_state s" if "buffer_malloc s = ret (p, s')" for s s' :: "'a user_fsys_scheme" and p
        using task_state_more[OF more_malloc] that by (simp add: ret_def)
    qed (simp_all add: task_state_io)
    then show ?thesis by (rule task_stateD)
  qed
  then show ?thesis by (simp add: t(2) set_kernelFd_def upd_fd_def)
qed

text \<open>A write that fits: short, into an empty buffer, from memory of the program, with a page for the call.\<close>

definition write_fits_in :: "u64 \<Rightarrow> 'a user_fsys_scheme \<Rightarrow> nat \<Rightarrow> nat \<Rightarrow> bool" where
  "write_fits_in fd s a n \<longleftrightarrow> n \<le> 255 \<and> sink_empty fd s \<and> 0 < stack_pages s \<and> (\<forall>i < n. in_brk s (of_nat a + of_nat i))"

lemma write_call:
  fixes k :: "'a user_fsys_scheme" and m :: umem and b2 :: "addr \<times> u8 list"
  assumes S: "sink_at fd r k q" and b: "a + n \<le> USER_TOP"
  defines "call \<equiv> kcall b2 1 fd (of_nat a) (of_nat n) (m, k)"
  shows "call \<noteq> None" "write_fits_in fd k a n \<Longrightarrow> \<exists>v p. call = ret (v, p) \<and> stack_pages k \<le> Suc (stack_pages (snd p))"
    "call = ret (v, p) \<Longrightarrow> v = 0 \<and> fst p = m \<and> sink_at fd r (snd p) (q @ ldb (ubytes m) a n)"
proof -
  define s where "s = user_view m k"
  let ?enter = "syscall_enter (KPALLOC no_more_pages) s"
  have T: "a + n \<le> 2 ^ 39" using b by (simp add: USER_TOP_def CBASE_def)
  have u: "unat (of_nat a :: addr) = a" "unat (of_nat n :: u64) = n" using T by (simp_all add: unat_of_nat_small)
  have cb: "\<not> CBASE < of_nat a" using u T by (simp add: word_less_nat_alt CBASE_unat)
  have Ss: "sink_at fd r s q" using S sink_at_cong[of s k] by (simp add: s_def user_view_same)
  obtain A where A: "heap_owns s A"
  proof -
    obtain c where "pipe heap_owns (arguments (kernelFd fd s)) r s q c" using Ss by (auto simp: sink_at_def)
    then show thesis using kernel.pipe_owns that by blast
  qed
  have c: "call = bindR ?enter (\<lambda>(old, np, s1).
      bindR (user_fetch (of_nat a) n s1) (\<lambda>(bs, t).
      bindR (WRITE (KPALLOC no_more_pages) b2 fd bs (of_nat n) t) (\<lambda>t.
        ret (0, (prog_view m (syscall_leave old np t), syscall_leave old np t)))))"
    unfolding call_def kcall_def INT0x80_of_def INT0x80C_def fst_conv snd_conv s_def[symmetric]
    using cb u(2) by (simp add: syscall_switch_def VERIFY_USER_def bindR_assoc case_prod_beta')
  have at: "sink_at fd r t q \<and> sink_empty fd t = sink_empty fd k \<and> length bs = n \<and> bs = ldb (ubytes m) a n \<and> umem t = umem s"
    if e: "?enter = ret (old, np, s1)" and f: "user_fetch (of_nat a) n s1 = ret (bs, t)" for old np s1 bs t
  proof -
    note k1 = syscall_enter_keeps[OF e]
    have e1: "same_call s s1" using k1(2)[OF A] .
    obtain P where P: "t = s1\<lparr>upages := P\<rparr>" "bs = user_bytes (of_nat a) n s1" using user_fetch_bytes[OF f] by blast
    have tk: "kernelFd fd t = kernelFd fd s1" by (simp add: P(1) kernelFd_def fd_page_def tcb_def)
    obtain c where pp: "pipe heap_owns (arguments (kernelFd fd s)) r s q c" using Ss by (auto simp: sink_at_def)
    have "pipe heap_owns (arguments (kernelFd fd s)) r t q c"
      by (rule pipe_transfer[OF pp]) (use k1(1) e1 heap_owns_cong[of t s1] in \<open>simp_all add: same_call_def P(1)\<close>)
    then have "sink_at fd r t q" using Ss e1 tk by (auto simp: sink_at_def same_call_def P(1))
    moreover have "sink_empty fd t = sink_empty fd k" using e1 tk by (simp add: sink_empty_def same_call_def P(1) s_def user_view_same)
    moreover have "bs = ldb (ubytes m) a n" using user_bytes_view[OF b, of s1 m k] e1 P(2) by (simp add: same_call_def s_def)
    ultimately show ?thesis using e1 P by (simp add: same_call_def)
  qed
  show "call \<noteq> None"
    unfolding c
  proof (intro bindR_ends, rule syscall_enter_ends)
    fix x assume x: "?enter = ret x"
    obtain old np s1 where xx: "x = (old, np, s1)" by (cases x) auto
    show "(case x of (old, np, s1) \<Rightarrow> bindR (user_fetch (of_nat a) n s1) (\<lambda>(bs, t).
      bindR (WRITE (KPALLOC no_more_pages) b2 fd bs (of_nat n) t) (\<lambda>t.
        ret (0, (prog_view m (syscall_leave old np t), syscall_leave old np t))))) \<noteq> None"
      unfolding xx prod.case
    proof (rule bindR_ends[OF user_fetch_ends])
      fix y assume y: "user_fetch (of_nat a) n s1 = ret y"
      obtain bs t where yy: "y = (bs, t)" by (cases y)
      have "sink_at fd r t q" "length bs = unat (of_nat n :: u64)" using at[OF x[unfolded xx] y[unfolded yy]] u(2) by auto
      then have "WRITE (KPALLOC no_more_pages) b2 fd bs (of_nat n) t \<noteq> None" by (rule WRITE_sink(1))
      then show "(case y of (bs, t) \<Rightarrow> bindR (WRITE (KPALLOC no_more_pages) b2 fd bs (of_nat n) t) (\<lambda>t.
        ret (0, (prog_view m (syscall_leave old np t), syscall_leave old np t)))) \<noteq> None"
        unfolding yy prod.case by (rule bindR_ends) (simp add: ret_def)
    qed
  qed
  show "\<exists>v p. call = ret (v, p) \<and> stack_pages k \<le> Suc (stack_pages (snd p))" if W: "write_fits_in fd k a n"
  proof -
    obtain d where d: "stack_pages s = Suc d" using W by (cases "stack_pages k") (auto simp: write_fits_in_def s_def user_view_same)
    then obtain old np s1 where e: "?enter = ret (old, np, s1)" "stack_pages s1 = d" by (rule syscall_enter_stack[OF A])
    have "in_brk s1 (of_nat a + of_nat i)" if "i < n" for i
      using W that same_call_in_brk[OF syscall_enter_keeps(2)[OF e(1) A]] by (simp add: write_fits_in_def s_def user_view_same)
    then obtain y where y: "user_fetch (of_nat a) n s1 = ret y" using user_fetch_ok by blast
    obtain bs t where "y = (bs, t)" by (cases y)
    then have f: "user_fetch (of_nat a) n s1 = ret (bs, t)" using y by simp
    note l = at[OF e(1) f]
    obtain t' where w: "WRITE (KPALLOC no_more_pages) b2 fd bs (of_nat n) t = ret t'" "mem t' = mem t"
      using WRITE_sink(2)[of fd r t q bs "of_nat n" b2] l u(2) W by (auto simp: write_fits_in_def)
    have "mem t = mem s1" using user_fetch_bytes[OF f] by auto
    then have "stack_pages (syscall_leave old np t') = d"
      using e(2) w(2) stack_pages_cong[of "syscall_leave old np t'" s1] by (simp add: syscall_leave_same ldq_def)
    then show ?thesis unfolding c using e(1) f w(1) d by (simp add: s_def user_view_same)
  qed
  show "v = 0 \<and> fst p = m \<and> sink_at fd r (snd p) (q @ ldb (ubytes m) a n)" if rr: "call = ret (v, p)"
  proof -
    obtain old np s1 where e: "?enter = ret (old, np, s1)" and r1: "bindR (user_fetch (of_nat a) n s1) (\<lambda>(bs, t).
      bindR (WRITE (KPALLOC no_more_pages) b2 fd bs (of_nat n) t) (\<lambda>t.
        ret (0, (prog_view m (syscall_leave old np t), syscall_leave old np t)))) = ret (v, p)"
      using rr unfolding c by (auto simp: bindR_ret_iff[of ?enter])
    obtain bs t where f: "user_fetch (of_nat a) n s1 = ret (bs, t)" and r2: "bindR (WRITE (KPALLOC no_more_pages) b2 fd bs (of_nat n) t) (\<lambda>t.
        ret (0, (prog_view m (syscall_leave old np t), syscall_leave old np t))) = ret (v, p)"
      using r1 by (auto simp: bindR_ret_iff[of "user_fetch (of_nat a) n s1"])
    obtain t' where w: "WRITE (KPALLOC no_more_pages) b2 fd bs (of_nat n) t = ret t'"
        and vp: "v = 0" "p = (prog_view m (syscall_leave old np t'), syscall_leave old np t')"
      using r2 by (auto simp: bindR_ret_iff)
    note l = at[OF e f] and lv = syscall_leave_same[where s = t' and old = old and n = np]
    have "sink_at fd r t' (q @ bs)" using WRITE_sink(3)[of fd r t q bs "of_nat n"] l u(2) w by auto
    then have "sink_at fd r (snd p) (q @ ldb (ubytes m) a n)"
      using sink_at_cong[of "syscall_leave old np t'" t'] l lv by (simp add: vp same_call_def)
    moreover have "umem t' = umem t" by (rule WRITE_umem[OF _ w]) (use l in \<open>auto simp: sink_at_def\<close>)
    then have "umem (syscall_leave old np t') = umem (user_view m k)" using l lv by (simp add: same_call_def s_def)
    then have "fst p = m" using prog_view_same[of "syscall_leave old np t'" m k] vp by simp
    ultimately show ?thesis using vp by simp
  qed
qed

interpretation user_out: byte_sink "kcall b2" fd "\<lambda>k q. sink_at fd r k q" "\<lambda>a n. a + n \<le> USER_TOP" "write_fits_in fd" stack_pages for b2 fd r
  by unfold_locales (rule write_call(1), assumption+, rule write_call(2), assumption+, rule write_call(3), assumption+)

interpretation user_in: byte_source "kcall b2" fd "source_at R fd" "buffer_in R" for b2 fd R
proof unfold_locales
  fix k :: "'a user_fsys_scheme" and q c a n m
  assume a: "source_at R fd k q (Suc c)" "buffer_in R a n"
  note rc = read_call[OF a, of b2 m]
  show "\<exists>k'. kcall b2 0 fd (of_nat a) (of_nat n) (m, k) = ret (0, (m\<lparr>ubytes := stb a (take n q) (ubytes m)\<rparr>, k')) \<and> source_at R fd k' (drop n q) c"
    if "n \<le> length q" using rc that by simp
  show "kcall b2 0 fd (of_nat a) (of_nat n) (m, k) = None" if "length q < n" using rc that by simp
qed

subsection \<open>A line from one program to another\<close>

text \<open>The kernel after a switch to a task whose descriptor \<open>fd\<close> is the end \<open>r\<close>; \<open>R\<close> is memory of that task.\<close>

definition reader_task :: "'a user_fsys_scheme \<Rightarrow> 'a user_fsys_scheme \<Rightarrow> u64 \<Rightarrow> addr \<Rightarrow> addr set \<Rightarrow> bool" where
  "reader_task k k2 fd r R \<longleftrightarrow> mem k2 = mem k \<and> ml1 k2 = ml1 k \<and> ios k2 = ios k \<and> fifos k2 = fifos k \<and> fd \<le> FDS \<and>
     fn (kernelFd fd k2) = StdIOStream \<and> arguments (kernelFd fd k2) = r \<and> (\<forall>x \<in> R. in_brk k2 x)"

lemma sink_source:
  assumes "sink_at fd r k q" "reader_task k k2 fd2 r R" "c \<le> stack_pages k2"
  shows "source_at R fd2 k2 q c"
proof -
  obtain j where "pipe heap_owns (arguments (kernelFd fd k)) r k q j" using assms(1) by (auto simp: sink_at_def)
  moreover note pipe_cong[of k2 k]
  ultimately have "pipe heap_owns (arguments (kernelFd fd k)) r k2 q j" using assms(2) by (simp add: reader_task_def)
  then show ?thesis using assms(2,3) by (auto simp: reader_task_def source_at_def)
qed

text \<open>The memory \<open>puts\<close> may allocate its copy of the line in.\<close>

definition puts_room :: "umem \<Rightarrow> u8 list \<Rightarrow> nat" where
  "puts_room m w = brk_end m + max (length w + 2) 4096 + 16"

text \<open>C4. A line from program to program. \<open>puts\<close> on a standard stream always ends, and returns if the line
  is short, the buffer empty and a page left for the call. When it has returned, the task at the other end reads
  exactly that line and its line feed with \<open>fgets\<close>, whatever memory the two programs use, and nothing is left in the pipe.\<close>

theorem puts_fgets:
  assumes "sink_at fd r k []" and "fd_of (m, k) f = fd" and "uheap_ok m F L" and "in_blocks L f 8"
    and "ustr_at (m, k) s w" and "in_blocks L s (length w + 1)" and "0x0a \<notin> set w"
    and "puts_room m w \<le> USER_TOP" and "length w < 2 ^ 31 - 1"
  shows "\<exists>res. uputs (kcall b2) f s (m, k) = Some res \<and>
    ((\<forall>a. 16 \<le> a \<and> a + (length w + 1) \<le> puts_room m w \<longrightarrow> write_fits_in fd k a (length w + 1)) \<longrightarrow>
       (\<exists>v m1 k1. res = Inr (v, (m1, k1)) \<and> stack_pages k \<le> Suc (stack_pages k1))) \<and>
    (\<forall>v m1 k1. res = Inr (v, (m1, k1)) \<longrightarrow> v = 0 \<and>
       (\<forall>k2 fd2 R m2 f2 sp a n. reader_task k1 k2 fd2 r R \<and> length w < stack_pages k2 \<and> fd_of (m2, k2) f2 = fd2 \<and>
          fgets_args sp f2 a (length w + 1) \<and> buffer_in R sp 1 \<and> int (length w) < n \<longrightarrow>
          (\<exists>m3 k3. ufgets (kcall b2) sp a n f2 (m2, k2) = ret (m3, k3) \<and>
             ldb (ubytes m3) a (length w + 1) = w @ [0x0a] \<and> source_at R fd2 k3 [] (stack_pages k2 - (length w + 1)))))"
proof -
  have T: "USER_TOP < 2 ^ 64" by (simp add: USER_TOP_def CBASE_def)
  have "puts_room m w < 2 ^ 64" using assms(8) T by linarith
  then have P: "uputs (kcall b2) f s (m, k) \<noteq> None"
    "(\<forall>a. 16 \<le> a \<and> a + (length w + 1) \<le> puts_room m w \<longrightarrow> write_fits_in fd k a (length w + 1)) \<Longrightarrow>
      \<exists>v p'. uputs (kcall b2) f s (m, k) = ret (v, p') \<and> stack_pages k \<le> Suc (stack_pages (snd p'))"
    "\<And>v p'. uputs (kcall b2) f s (m, k) = ret (v, p') \<Longrightarrow> v = 0 \<and> sink_at fd r (snd p') (w @ [0x0a])"
    using user_out.puts_ok[of fd r "(m, k)" "[]" f F L s w b2] assms unfolding puts_room_def by auto
  obtain res where res: "uputs (kcall b2) f s (m, k) = Some res" using P(1) by blast
  have R: "\<exists>m3 k3. ufgets (kcall b2) sp a n f2 (m2, k2) = ret (m3, k3) \<and>
      ldb (ubytes m3) a (length w + 1) = w @ [0x0a] \<and> source_at R fd2 k3 [] (stack_pages k2 - (length w + 1))"
    if r: "res = Inr (v, (m1, k1))" and t: "reader_task k1 k2 fd2 r R" "length w < stack_pages k2"
      and g: "fd_of (m2, k2) f2 = fd2" "fgets_args sp f2 a (length w + 1)" "buffer_in R sp 1" "int (length w) < n"
    for v m1 k1 k2 fd2 R m2 f2 sp a n
  proof -
    have "sink_at fd r k1 (w @ [0x0a])" using P(3)[of v "(m1, k1)"] res r by (simp add: ret_def)
    then have "source_at R fd2 k2 (w @ [0x0a]) (length w + Suc (stack_pages k2 - (length w + 1)))"
      by (rule sink_source[OF _ t(1)]) (use t(2) in simp)
    then obtain p' where "ufgets (kcall b2) sp a n f2 (m2, k2) = ret p'" "ldb (ubytes (fst p')) a (length w + 1) = w @ [0x0a]"
        "source_at R fd2 (snd p') [] (stack_pages k2 - (length w + 1))"
      using user_in.fgets_line[of R fd2 "(m2, k2)" w "[]" "stack_pages k2 - (length w + 1)" f2 sp a n b2] g assms(7) by auto
    then show ?thesis by (cases p') auto
  qed
  show ?thesis
  proof (intro exI[of _ res] conjI impI allI)
    show "uputs (kcall b2) f s (m, k) = Some res" by (rule res)
  next
    assume "\<forall>a. 16 \<le> a \<and> a + (length w + 1) \<le> puts_room m w \<longrightarrow> write_fits_in fd k a (length w + 1)"
    from P(2)[OF this] obtain v p' where "uputs (kcall b2) f s (m, k) = ret (v, p')" "stack_pages k \<le> Suc (stack_pages (snd p'))" by blast
    then show "\<exists>v m1 k1. res = Inr (v, (m1, k1)) \<and> stack_pages k \<le> Suc (stack_pages k1)"
      using res by (cases p') (simp add: ret_def)
  next
    fix v m1 k1 assume "res = Inr (v, (m1, k1))"
    then show "v = 0" using P(3)[of v "(m1, k1)"] res by (simp add: ret_def)
  next
    fix v m1 k1 k2 fd2 R' m2 f2 sp a n
    assume "res = Inr (v, (m1, k1))" and "reader_task k1 k2 fd2 r R' \<and> length w < stack_pages k2 \<and> fd_of (m2, k2) f2 = fd2 \<and>
          fgets_args sp f2 a (length w + 1) \<and> buffer_in R' sp 1 \<and> int (length w) < n"
    then show "\<exists>m3 k3. ufgets (kcall b2) sp a n f2 (m2, k2) = ret (m3, k3) \<and>
      ldb (ubytes m3) a (length w + 1) = w @ [0x0a] \<and> source_at R' fd2 k3 [] (stack_pages k2 - (length w + 1))"
      using R by blast
  qed
qed

subsection \<open>A kernel with pages left\<close>

text \<open>For the witnesses: the heap with one block of \<open>Malloc\<close> uses the pages \<open>T0\<close> and \<open>D0\<close> only; the pool gets three pages.\<close>

lemma first_block_table:
  assumes "page_of a = T0" "a \<noteq> T0"
  shows "ldq (snd first_block) a = (if a = T0 + 8 then D0 else 0)"
proof -
  have ne: "a \<noteq> slot 1" "a - D0 \<ge> 0x1000" "page_of a \<noteq> D0"
    using assms(1) slot_page[of 1] page_of_iff[of D0 a]
    by (auto simp: T0_def D0_def POOL_def MBASE_def CBASE_def page_aligned_def linorder_not_less)
  have h: "a \<noteq> D0 + 64 - 24" "a \<noteq> D0 + 64 - 16" "a \<noteq> D0 + 64 - 8" using ne(2) by (auto simp: D0_def)
  show ?thesis
    using assms started_zero[of a] ne h by (simp add: first_block_state put_header_def ldq_memfill_page boot_addresses linorder_not_less)
qed

lemma first_block_slots: "i < 512 \<Longrightarrow> ldq (snd first_block) (slot i) = 0"
proof -
  assume i: "i < 512"
  have p: "page_of (slot i) = POOL" by (rule slot_page[OF i])
  have "slot i - D0 \<ge> 0x1000" "slot i - T0 \<ge> 0x1000" "slot i \<noteq> T0" "slot i \<noteq> T0 + 8"
    using p page_of_iff[of D0 "slot i"] page_of_iff[of T0 "slot i"] page_of_iff[of POOL "T0 + 8"]
    by (auto simp: T0_def D0_def POOL_def MBASE_def CBASE_def page_aligned_def linorder_not_less page_of_def)
  moreover from this(1) have "slot i \<noteq> D0 + 64 - 24" "slot i \<noteq> D0 + 64 - 16" "slot i \<noteq> D0 + 64 - 8" by (auto simp: D0_def)
  moreover have "ldq started (slot i) = (if i = 1 then D0 else 0)"
  proof -
    have "slot i \<noteq> MBASE + 0x1fff0" "slot i \<noteq> MBASE + 0x1fff8" using calculation(2) by (auto simp: T0_def MBASE_def CBASE_def)
    then show ?thesis using calculation(2) i
      by (simp add: started_state boot_addresses(1) ldq_def stq_def memfill_page_def linorder_not_less boot_heap_def slot_inj)
        (auto simp: MBASE_def CBASE_def D0_def)
  qed
  ultimately show ?thesis using i
    by (simp add: first_block_state put_header_def ldq_memfill_page boot_addresses linorder_not_less slot_inj)
qed

lemma heap_ok_pages:
  assumes "heap_ok s V ts L" "set ts \<subseteq> W" "\<And>e. e \<in> entries ts \<Longrightarrow> data_page s e \<noteq> 0 \<Longrightarrow> data_page s e \<in> W"
  shows "heap_ok s W ts L"
  using assms unfolding heap_ok_def tables_ok_def by blast

lemma first_block_pages:
  "\<exists>b. pool_held (snd first_block) {T0, D0} \<and> heap_ok (snd first_block) {T0, D0} [T0] {b} \<and> fst first_block = user_ptr (snd first_block) b"
proof -
  obtain V us e lo n where b: "pool_held (snd first_block) V" "heap_ok (snd first_block) V us {(e, lo, n)}"
    "fst first_block = user_ptr (snd first_block) (e, lo, n)" using first_block_heap by blast
  have al: "page_aligned T0" by (simp add: boot_addresses)
  have tab: "ldq (snd first_block) (T0 + of_nat j) = (if j = 8 then D0 else 0)" if "0 < j" "j < 4096" for j
  proof -
    have "(of_nat j :: addr) \<noteq> 0" "(of_nat j :: addr) = 8 \<longleftrightarrow> j = 8"
      using that unat_of_nat_small(4)[of j] by (auto simp: word_unat_eq_iff)
    then have "T0 + of_nat j \<noteq> T0" "T0 + of_nat j = T0 + 8 \<longleftrightarrow> j = 8" by simp_all
    then show ?thesis using first_block_table[of "T0 + of_nat j"] page_offset[OF al that(2)] by simp
  qed
  have c: "chain (snd first_block) T0 us" using b(2) room_first_block by (simp add: heap_ok_def tables_ok_def room_def)
  have us: "us = [T0]"
  proof (cases us)
    case Nil
    then show ?thesis using c by (simp add: boot_addresses)
  next
    case (Cons t ts)
    have "ldq (snd first_block) (T0 + 0xff8) = 0" using tab[of 4088] by simp
    then show ?thesis using c Cons by (cases ts) auto
  qed
  have "data_page (snd first_block) x \<in> {0, D0}" if mx: "x \<in> entries [T0]" for x
  proof -
    obtain t i where ti: "t \<in> set [T0]" "i < 255" "x = t + of_nat (16 * i)" "x + 8 = t + of_nat (16 * i + 8)"
      using mx by (rule entriesE)
    then have i: "i < 255" "x + 8 = T0 + of_nat (16 * i + 8)" by simp_all
    show ?thesis unfolding data_page_def i(2) using tab[of "16 * i + 8"] i(1) by simp
  qed
  then have "heap_ok (snd first_block) {T0, D0} [T0] {(e, lo, n)}"
    using heap_ok_pages[OF b(2), of "{T0, D0}"] unfolding us by auto
  moreover have "pool_held (snd first_block) {T0, D0}"
    by (rule pool_heldI) (auto simp: first_block_slots T0_def D0_def POOL_def MBASE_def CBASE_def)
  ultimately show ?thesis using b(3) by blast
qed

text \<open>A page put into an empty slot.\<close>

lemma pool_gets_page:
  assumes h: "pool_held s U" and i: "i < 512" "ldq s (slot i) = 0"
    and p: "page_aligned p" "p \<notin> U" "p \<noteq> POOL" "\<And>j. j < 512 \<Longrightarrow> ldq s (slot j) \<noteq> p"
  shows "pool_held (stq (slot i) p s) U"
  by (rule pool_heldI) (use h i p pool_heldD[OF h] in \<open>auto simp: slot_inj split: if_splits\<close>)

lemma heap_ok_pool:
  assumes "heap_ok s U ts L" "POOL \<notin> U" "i < 512"
  shows "heap_ok (stq (slot i) p s) U ts L" "user_ptr (stq (slot i) p s) b = user_ptr s b \<or> b \<notin> L"
proof -
  have ne: "a \<noteq> slot i" if "page_of a \<in> U" for a using that assms(2) slot_page[OF assms(3)] by auto
  then show "heap_ok (stq (slot i) p s) U ts L" by (intro heap_ok_cong[OF assms(1)]) simp_all
  have T: "tables_ok s U ts" using assms(1) by (simp add: heap_ok_def)
  have "data_page (stq (slot i) p s) e = data_page s e" if "e \<in> entries ts" for e
    unfolding data_page_def using ne[OF entries_page(4)[OF T that]] by simp
  moreover have "fst b \<in> entries ts" if "b \<in> L" using assms(1) that by (cases b) (auto simp: heap_ok_def)
  ultimately show "user_ptr (stq (slot i) p s) b = user_ptr s b \<or> b \<notin> L" by (cases b) (auto simp: user_ptr_def)
qed

definition demo_talk :: user_fsys where
  "demo_talk = (stq (slot 2) 0x702000 (stq (slot 1) 0x701000 (stq (slot 0) 0x700000 demo_user)))
     \<lparr>brks := (\<lambda>_. \<lparr>brk_start = 0, brk_end = 0x100000\<rparr>)\<rparr>"

lemma demo_talk_simps:
  "ios demo_talk = ios demo_streams" "fifos demo_talk = fifos demo_streams" "kernelFd fd demo_talk = demo_fd (unat fd)"
  "my_brk demo_talk = 0x500" "brks demo_talk p = \<lparr>brk_start = 0, brk_end = 0x100000\<rparr>"
  "mem demo_talk = mem (stq (slot 2) 0x702000 (stq (slot 1) 0x701000 (stq (slot 0) 0x700000 (snd first_block))))"
  "ml1 demo_talk = ml1 (snd first_block)"
  using demo_user_simps(1)
  by (simp_all add: demo_talk_def stq_def my_brk_def tcb_def)
    (simp_all add: demo_user_def demo_fsys_def demo_streams_def kernelFd_def fd_page_def tcb_def fsys.defs streams.defs user_fsys.defs demo_sched_def sched.defs)

lemma demo_talk_heap: "heap_owns demo_talk {fst first_block}"
proof -
  let ?s0 = "snd first_block"
  let ?s1 = "stq (slot 0) 0x700000 ?s0"
  let ?s2 = "stq (slot 1) 0x701000 ?s1"
  let ?s3 = "stq (slot 2) 0x702000 ?s2"
  let ?U = "{T0, D0}"
  obtain b where b: "pool_held ?s0 ?U" "heap_ok ?s0 ?U [T0] {b}" "fst first_block = user_ptr ?s0 b" using first_block_pages by blast
  have z: "ldq ?s0 (slot i) = 0" if "i < 512" for i by (rule first_block_slots[OF that])
  have ne: "slot 0 \<noteq> slot 1" "slot 0 \<noteq> slot 2" "slot 1 \<noteq> slot 2" by (simp_all add: slot_inj)
  note ad = T0_def D0_def POOL_def MBASE_def CBASE_def page_aligned_def
  have U: "POOL \<notin> ?U" by (simp add: ad)
  have p1: "pool_held ?s1 ?U" by (rule pool_gets_page[OF b(1)]) (use z in \<open>simp_all add: ad\<close>)
  have p2: "pool_held ?s2 ?U" by (rule pool_gets_page[OF p1]) (use z ne in \<open>auto simp: ad\<close>)
  have p3: "pool_held ?s3 ?U" by (rule pool_gets_page[OF p2]) (use z ne in \<open>auto simp: ad\<close>)
  have h1: "heap_ok ?s1 ?U [T0] {b}" "user_ptr ?s1 b = user_ptr ?s0 b" using heap_ok_pool(1)[OF b(2) U, of 0] heap_ok_pool(2)[OF b(2) U, of 0 _ b] by simp_all
  have h2: "heap_ok ?s2 ?U [T0] {b}" "user_ptr ?s2 b = user_ptr ?s0 b" using heap_ok_pool(1)[OF h1(1) U, of 1] heap_ok_pool(2)[OF h1(1) U, of 1 _ b] h1(2) by simp_all
  have h3: "heap_ok ?s3 ?U [T0] {b}" "user_ptr ?s3 b = user_ptr ?s0 b" using heap_ok_pool(1)[OF h2(1) U, of 2] heap_ok_pool(2)[OF h2(1) U, of 2 _ b] h2(2) by simp_all
  have ml: "ml1 demo_talk = ml1 ?s3" by (simp add: demo_talk_simps)
  note same = heap_ok_same[OF demo_talk_simps(6) ml]
  show ?thesis
    unfolding heap_owns_def
    using p3 h3 b(3) same by (intro exI[of _ ?U] exI[of _ "[T0]"] exI[of _ "{b}"]) simp
qed

lemma demo_talk_pages: "3 \<le> stack_pages demo_talk"
proof -
  have "ldq demo_talk (slot i) \<noteq> 0" if "i \<in> {0, 1, 2}" for i
    using that by (auto simp: ldq_def demo_talk_simps(6) stq_def slot_inj)
  then have "{0, 1, 2} \<subseteq> {i. i < 32 \<and> ldq demo_talk (slot i) \<noteq> 0}" by auto
  then have "card {0, 1, 2 :: nat} \<le> stack_pages demo_talk" unfolding stack_pages_def by (rule card_mono[rotated]) simp
  then show ?thesis by simp
qed

lemma demo_talk_sink: "sink_at 0 2 demo_talk []" "sink_empty 0 demo_talk"
proof -
  have "pipe heap_owns 1 2 demo_talk [] 1"
    unfolding pipe_def using demo_talk_heap
    by (intro exI[of _ "{fst first_block}"] exI[of _ "[fst first_block]"])
      (simp add: demo_talk_simps demo_streams_simps buf_ok_def filled_def)
  then show "sink_at 0 2 demo_talk []" "sink_empty 0 demo_talk"
    by (auto simp: sink_at_def sink_empty_def demo_talk_simps demo_fd_def demo_streams_simps FDS_def)
qed

lemma demo_talk_brk: "in_brk demo_talk a \<longleftrightarrow> a \<le> 0x100000"
  by (auto simp: in_brk_def demo_talk_simps CBASE_def elim!: order.strict_trans1)

text \<open>The writer's memory: a \<open>FILE\<close> for descriptor 0 in one block, the string \<open>A\<close> in a second one.\<close>

definition demo_line :: umem where
  "demo_line = (let m = set_header 0x2028 2 0 (one_block\<lparr>brk_end := 0x2030\<rparr>) in m\<lparr>ubytes := stb 0x2028 [65, 0] (ubytes m)\<rparr>)"

lemma demo_line_ok:
  "uheap_ok demo_line (\<lambda>_. []) {(0x2028, 0, 8), (0x2010, 0, 8)}" "fd_of (demo_line, k) 0x2010 = 0" "ustr_at (demo_line, k) 0x2028 [65]"
  "brk_end demo_line = 0x2030"
proof -
  define m where "m = set_header 0x2028 2 0 (one_block\<lparr>brk_end := 0x2030\<rparr>)"
  have f: "brk_end one_block + 16 = 0x2028" "brk_end one_block + 8 + 16 = 0x2030" using one_block_ok(3) by simp_all
  have "uheap_ok m (\<lambda>_. []) (insert (0x2028, 0, 8) {(0x2010, 0, 8)})"
    using umalloc_fresh[OF one_block_ok(1), of 0 8 2 m, unfolded f] by (simp add: m_def bucket_size_def)
  from user_write[OF this insertI1, of "[65, 0]" demo_line]
  show "uheap_ok demo_line (\<lambda>_. []) {(0x2028, 0, 8), (0x2010, 0, 8)}" by (simp add: demo_line_def m_def Let_def)
  show "ustr_at (demo_line, k) 0x2028 [65]" by (simp add: ustr_at_def demo_line_def Let_def ldb_stb_same)
  show "brk_end demo_line = 0x2030" by (simp add: demo_line_def Let_def set_header_def)
  have "ubytes demo_line (0x2010 + i) = 0" if "i < 8" for i
    using that by (simp add: demo_line_def Let_def one_block_def start_umem_def init_umalloc_def set_header_def st32_def stb_def)
  then have "ldb (ubytes demo_line) 0x2010 8 = replicate 8 0" by (intro nth_equalityI) simp_all
  then show "fd_of (demo_line, k) 0x2010 = 0" by (simp add: fd_of_def ld64_def eval_nat_numeral)
qed

text \<open>The switch to another task with the same descriptors.\<close>

definition demo_switch :: "user_fsys \<Rightarrow> user_fsys" where
  "demo_switch k = k\<lparr>current_task_TCB := 0x900, tcbs := tcbs demo_talk, fds := fds demo_talk, brks := brks demo_talk\<rparr>"

definition demo_reader :: umem where
  "demo_reader = \<lparr>ubytes = (\<lambda>_. 0)(0x100 := 1), brk_end = 0x2000, bucket = (\<lambda>_. 0)\<rparr>"

lemma demo_reader_fd: "fd_of (demo_reader, k) 0x100 = 1"
proof -
  have "ldb (ubytes demo_reader) 0x100 8 = 1 # replicate 7 0" by (simp add: demo_reader_def ldb_def upt_conv_Cons eval_nat_numeral)
  then show ?thesis by (simp add: fd_of_def ld64_def eval_nat_numeral)
qed

lemma demo_switch_reads:
  "reader_task k (demo_switch k) 1 2 {x. x \<le> 0x1000}" "stack_pages (demo_switch k) = stack_pages k"
proof -
  have t: "tcbs demo_talk p = new_tcb\<lparr>kernelFdLen := 128, brk := 0x500\<rparr>" "fds demo_talk p = demo_fd" for p
    by (simp_all add: demo_talk_def stq_def demo_user_def demo_fsys_def demo_streams_def demo_sched_def sched.defs streams.defs fsys.defs user_fsys.defs)
  have "my_brk (demo_switch k) = 0x500" "kernelFd 1 (demo_switch k) = demo_fd 1"
    by (simp_all add: demo_switch_def my_brk_def kernelFd_def tcb_def t)
  moreover have "brks (demo_switch k) p = \<lparr>brk_start = 0, brk_end = 0x100000\<rparr>" for p by (simp add: demo_switch_def demo_talk_simps)
  ultimately show "reader_task k (demo_switch k) 1 2 {x. x \<le> 0x1000}"
    by (auto simp: reader_task_def in_brk_def demo_fd_def FDS_def CBASE_def elim!: order.trans order.strict_trans1)
      (simp_all add: demo_switch_def)
  show "stack_pages (demo_switch k) = stack_pages k" by (rule stack_pages_cong) (simp add: demo_switch_def ldq_def)
qed

theorem puts_fgets_witness:
  "\<exists>m1 k1 m3 k3. uputs (kcall (0, [])) 0x2010 0x2028 (demo_line, demo_talk) = ret (0, (m1, k1)) \<and>
    ufgets (kcall (0, [])) 0x300 0x200 80 0x100 (demo_reader, demo_switch k1) = ret (m3, k3) \<and> ldb (ubytes m3) 0x200 2 = [65, 0x0a]"
proof -
  let ?call = "kcall (0, []) :: user_fsys INT0x80"
  have room: "puts_room demo_line [65] = 0x3040" by (simp add: puts_room_def demo_line_ok)
  have blocks: "in_blocks {(0x2028, 0, 8), (0x2010, 0, 8)} 0x2010 8" "in_blocks {(0x2028, 0, 8), (0x2010, 0, 8)} 0x2028 (length [65 :: u8] + 1)"
    unfolding in_blocks_def by (rule exI[of _ "0x2010"], fastforce, rule exI[of _ "0x2028"], fastforce)
  have fits: "write_fits_in 0 demo_talk a (length [65 :: u8] + 1)" if "a + (length [65 :: u8] + 1) \<le> 0x3040" for a
  proof -
    have "(of_nat a + of_nat i :: addr) \<le> 0x100000" if "i < 2" for i
      using that \<open>a + _ \<le> _\<close> unat_of_nat_small(4)[of "a + i"] by (simp add: word_le_nat_alt flip: of_nat_add)
    then show ?thesis using demo_talk_sink(2) demo_talk_pages by (simp add: write_fits_in_def demo_talk_brk)
  qed
  obtain res where res: "uputs ?call 0x2010 0x2028 (demo_line, demo_talk) = Some res"
    "\<exists>v m1 k1. res = Inr (v, (m1, k1)) \<and> stack_pages demo_talk \<le> Suc (stack_pages k1)"
    "\<And>v m1 k1. res = Inr (v, (m1, k1)) \<Longrightarrow> v = 0 \<and>
       (\<forall>k2 fd2 R m2 f2 sp a n. reader_task k1 k2 fd2 2 R \<and> length [65 :: u8] < stack_pages k2 \<and> fd_of (m2, k2) f2 = fd2 \<and>
          fgets_args sp f2 a (length [65 :: u8] + 1) \<and> buffer_in R sp 1 \<and> int (length [65 :: u8]) < n \<longrightarrow>
          (\<exists>m3 k3. ufgets ?call sp a n f2 (m2, k2) = ret (m3, k3) \<and> ldb (ubytes m3) a (length [65 :: u8] + 1) = [65] @ [0x0a] \<and>
             source_at R fd2 k3 [] (stack_pages k2 - (length [65 :: u8] + 1))))"
    using puts_fgets[OF demo_talk_sink(1) demo_line_ok(2,1) blocks(1) demo_line_ok(3) blocks(2), of "(0, [])"] fits
    by (auto simp: room USER_TOP_def CBASE_unat)
  then obtain m1 k1 where k1: "res = Inr (0, (m1, k1))" "stack_pages demo_talk \<le> Suc (stack_pages k1)" by blast
  have "length [65 :: u8] < stack_pages (demo_switch k1)" using k1(2) demo_talk_pages demo_switch_reads(2)[of k1] by simp
  moreover have "fgets_args 0x300 0x100 0x200 (length [65 :: u8] + 1)" by (simp add: fgets_args_def)
  moreover have "buffer_in {x. x \<le> 0x1000} 0x300 1" by (simp add: buffer_in_def USER_TOP_def CBASE_unat)
  ultimately obtain m3 k3 where "ufgets ?call 0x300 0x200 80 0x100 (demo_reader, demo_switch k1) = ret (m3, k3)"
      "ldb (ubytes m3) 0x200 (length [65 :: u8] + 1) = [65] @ [0x0a]"
    using res(3)[OF k1(1), THEN conjunct2, rule_format, of "demo_switch k1" 1 "{x. x \<le> 0x1000}" demo_reader "0x100" "0x300" "0x200" 80]
      demo_switch_reads(1)[of k1] demo_reader_fd[of "demo_switch k1"] by auto
  then show ?thesis using res(1) k1(1) by (auto simp: ret_def[of "(0, _)"] numeral_2_eq_2)
qed

text \<open>C26. \<open>fgets\<close> ends a line with its line feed only. Fewer characters than the buffer takes, without a line feed,
  keep the program waiting; exactly as many fill the buffer, and no terminator is stored: the memory behind the
  characters is what it was.\<close>

theorem fgets_no_terminator:
  assumes "source_at R fd k w (length w + 1)" and "0x0a \<notin> set w" and "fd_of (m, k) f = fd"
    and "fgets_args sp f a (length w + 1)" and "buffer_in R sp 1"
  shows "(\<forall>n > int (length w). ufgets (kcall b2) sp a n f (m, k) = None) \<and>
    (\<exists>m1 k1. ufgets (kcall b2) sp a (int (length w)) f (m, k) = ret (m1, k1) \<and> source_at R fd k1 [] 1 \<and>
       ldb (ubytes m1) a (length w) = w \<and> (\<forall>x. x \<noteq> sp \<and> (x < a \<or> a + length w \<le> x) \<longrightarrow> ubytes m1 x = ubytes m x))"
proof -
  have S: "source_at R fd (snd (m, k)) w (length w + Suc 0)" "fd_of (m, k) f = fd" using assms(1,3) by simp_all
  note L = user_in.fgets_no_line[OF S(1) assms(2) S(2) assms(4) _ assms(5), where ?b2.0 = b2]
  have "ufgets (kcall b2) sp a n f (m, k) = None" if "int (length w) < n" for n using L(1)[of n] that by simp
  moreover obtain p where "ufgets (kcall b2) sp a (int (length w)) f (m, k) = ret p" "source_at R fd (snd p) [] (Suc 0)"
    "ldb (ubytes (fst p)) a (length w) = w" "only_wrote sp a (length w) (m, k) p"
    using L(2)[of "int (length w)"] by auto
  ultimately show ?thesis by (cases p) (auto simp: only_wrote_def)
qed

definition demo_typed :: user_fsys where
  "demo_typed = demo_talk\<lparr>fifos := (\<lambda>_. \<lparr>fdata = 65 # replicate 255 0, datac = 1, fnext = 0\<rparr>)\<rparr>"

lemma demo_typed_source: "source_at {x. x \<le> 0x1000} 1 demo_typed [65] 2"
proof -
  have "heap_owns demo_typed {fst first_block}" using demo_talk_heap heap_owns_cong[of demo_typed demo_talk] by (simp add: demo_typed_def)
  then have "pipe heap_owns 1 2 demo_typed [65] 1"
    unfolding pipe_def by (intro exI[of _ "{fst first_block}"] exI[of _ "[fst first_block]"])
      (simp add: demo_typed_def demo_talk_simps demo_streams_simps buf_ok_def filled_def)
  moreover have "stack_pages demo_typed = stack_pages demo_talk" by (rule stack_pages_cong) (simp add: demo_typed_def ldq_def)
  moreover have "kernelFd 1 demo_typed = demo_fd 1" using demo_talk_simps(3)[of 1] by (simp add: demo_typed_def kernelFd_def fd_page_def tcb_def)
  moreover have "in_brk demo_typed x = in_brk demo_talk x" for x by (simp add: demo_typed_def in_brk_def my_brk_def tcb_def)
  ultimately show ?thesis using demo_talk_pages demo_talk_brk by (auto simp: source_at_def demo_fd_def FDS_def elim: order.trans)
qed

theorem fgets_no_terminator_witness:
  "ufgets (kcall (0, [])) 0x300 0x200 2 0x100 (demo_reader, demo_typed) = None \<and>
   (\<exists>m1 k1. ufgets (kcall (0, [])) 0x300 0x200 1 0x100 (demo_reader, demo_typed) = ret (m1, k1) \<and> ubytes m1 0x200 = 65)"
proof -
  have s: "source_at {x. x \<le> 0x1000} 1 demo_typed [65] (length [65 :: u8] + 1)" using demo_typed_source by (simp add: numeral_2_eq_2)
  have a: "fgets_args 0x300 0x100 0x200 (length [65 :: u8] + 1)" by (simp add: fgets_args_def)
  have b: "buffer_in {x. x \<le> 0x1000} 0x300 1" by (simp add: buffer_in_def USER_TOP_def CBASE_unat)
  show ?thesis
    using fgets_no_terminator[OF s _ demo_reader_fd a b, of "(0, [])"] by (auto simp: ldb_def)
qed

text \<open>C27. The break is the same in both models: \<open>sbrk\<close> of the C library, on which its \<open>malloc\<close> rests, is what system
  call 5 does to the task's program memory, as long as the program stays below \<open>CBASE\<close>.\<close>

theorem sbrk_is_call_5:
  assumes "INT0x80C (KPALLOC no_more_pages) b2 junk ustr execn 5 (of_nat n) rdx rcx s = ret (v, e, s')"
    and "brks s (my_brk s) = \<lparr>brk_start = lo, brk_end = of_nat (umem.brk_end m)\<rparr>" and "umem.brk_end m + n < USER_TOP"
  shows "v = of_nat (fst (sbrk n m)) \<and> prog_mem.brk_end (brks s' (my_brk s')) = of_nat (umem.brk_end (snd (sbrk n m))) \<and>
    fst (sbrk n m) = umem.brk_end m + n"
proof -
  have r: "bindR (syscall_enter (KPALLOC no_more_pages) s) (\<lambda>(old, n', s1).
      bindR (syscall_switch (KPALLOC no_more_pages) b2 junk ustr execn 5 (of_nat n) rdx rcx s1) (\<lambda>(v, e, s).
        ret (v, e, if e = Waiting then s else syscall_leave old n' s))) = ret (v, e, s')"
    using assms(1) by (simp only: INT0x80C_def)
  obtain old np s1 where e: "syscall_enter (KPALLOC no_more_pages) s = ret (old, np, s1)"
      and r1: "bindR (syscall_switch (KPALLOC no_more_pages) b2 junk ustr execn 5 (of_nat n) rdx rcx s1) (\<lambda>(v, e, s).
        ret (v, e, if e = Waiting then s else syscall_leave old np s)) = ret (v, e, s')"
    using r by (auto simp: bindR_ret_iff[of "syscall_enter _ _"])
  obtain t where "same_call s s1" using syscall_enter_same[OF e] by blast
  then have b: "brks s1 (my_brk s1) = \<lparr>brk_start = lo, brk_end = of_nat (umem.brk_end m)\<rparr>" using assms(2) by (simp add: same_call_def)
  have "v = of_nat (umem.brk_end m) + of_nat n \<and>
      s' = syscall_leave old np (set_brk \<lparr>brk_start = lo, brk_end = of_nat (umem.brk_end m) + of_nat n\<rparr> s1)"
    using r1 b by (auto simp: syscall_switch_def sbrk_call_def check_def Let_def bindR_def ret_def stop_def split: if_splits)
  moreover have "same_call t' (syscall_leave old np t')" for t' :: "'a user_fsys_scheme" by (rule syscall_leave_same)
  ultimately have "v = of_nat (umem.brk_end m) + of_nat n \<and> prog_mem.brk_end (brks s' (my_brk s')) = of_nat (umem.brk_end m) + of_nat n"
    by (simp add: same_call_def)
  moreover have "(umem.brk_end m + n) mod 2 ^ 64 = umem.brk_end m + n"
    using assms(3) by (simp add: USER_TOP_def CBASE_unat)
  ultimately show ?thesis by (simp add: sbrk_def Let_def)
qed

theorem sbrk_is_call_5_witness:
  "\<exists>v s'. INT0x80C (KPALLOC no_more_pages) (0, []) [] (\<lambda>_ _. []) 0 5 (of_nat 24) 0 0 demo_talk = ret (v, Complete, s') \<and>
    v = of_nat (fst (sbrk 24 (demo_line\<lparr>brk_end := 0x100000\<rparr>)))"
proof -
  obtain c where c: "stack_pages demo_talk = Suc c" using demo_talk_pages by (cases "stack_pages demo_talk") auto
  obtain old n s1 where e: "syscall_enter (KPALLOC no_more_pages) demo_talk = ret (old, n, s1)" "stack_pages s1 = c"
    by (rule syscall_enter_stack[OF demo_talk_heap c])
  have "my_brk s1 \<noteq> 0" using syscall_enter_keeps(2)[OF e(1) demo_talk_heap] demo_talk_simps(4) by (simp add: same_call_def)
  then obtain v s' where r: "INT0x80C (KPALLOC no_more_pages) (0, []) [] (\<lambda>_ _. []) 0 5 (of_nat 24) 0 0 demo_talk = ret (v, Complete, s')"
    using e(1) by (simp add: INT0x80C_def syscall_switch_def sbrk_call_def check_def Let_def bindR_def ret_def)
  have b: "brks demo_talk (my_brk demo_talk) = \<lparr>brk_start = 0, brk_end = of_nat (umem.brk_end (demo_line\<lparr>brk_end := 0x100000\<rparr>))\<rparr>"
    by (simp add: demo_talk_simps)
  from sbrk_is_call_5[OF r b] r show ?thesis by (simp add: USER_TOP_def CBASE_unat)
qed

end
