(* ===== verification/Serial.thy ===== *)
theory Serial
  imports UserIO PortIO
begin

section \<open>The serial port driver (userland/serial.c)\<close>

text \<open>
  A program with access to the ports. It looks for a UART, sets it up, registers as the driver \<open>com\<close> and then
  waits for the interrupt of the UART again and again: a byte the UART has received goes to the standard output, and
  when the UART can send, the next byte of the standard input goes to it. \<open>sys\<close> is the system call, \<open>sp\<close> the address of
  a local variable, \<open>f\<close> the address of the \<open>FILE\<close> that is \<open>stdin\<close> and \<open>stdout\<close>, and \<open>lit\<close> gives the addresses of the string literals.
\<close>

record 'k com = io +
  prog :: "'k uprog"
  ourCOMbase :: u32

subsection \<open>The ports of the UART\<close>

definition COMtoIO :: "u32 \<Rightarrow> u32" where
  "COMtoIO no =
     (if no = 1 then 0x3f8 else if no = 2 then 0x2f8 else if no = 3 then 0x3e8 else if no = 4 then 0x2e8
      else if no = 5 then 0x5f8 else if no = 6 then 0x4f8 else if no = 7 then 0x5e8 else if no = 8 then 0x4e8 else 0x3f8)"

definition checkCOM :: "u32 \<Rightarrow> 'a io_scheme \<Rightarrow> bool \<times> 'a io_scheme" where
  "checkCOM port w =
     (let w = outb (ucast (port + 7)) 0x3e w; (chk, w) = inb (ucast (port + 7)) w in (chk = 0x3e, w))"

fun findCOM_from :: "nat \<Rightarrow> nat \<Rightarrow> 'a io_scheme \<Rightarrow> u32 \<times> 'a io_scheme" where
  "findCOM_from i 0 w = (0, w)"
| "findCOM_from i (Suc n) w =
     (let (found, w) = checkCOM (COMtoIO (of_nat i)) w in if found then (of_nat i, w) else findCOM_from (i + 1) n w)"

definition findCOM :: "'a io_scheme \<Rightarrow> u32 \<times> 'a io_scheme" where
  "findCOM w = findCOM_from 1 7 w"

definition sBaud :: "u32 \<Rightarrow> u32 \<Rightarrow> 'a io_scheme \<Rightarrow> 'a io_scheme" where
  "sBaud cb k w =
     (let (b, w) = inb (ucast (cb + 3)) w;
          b = (ucast b :: u32) OR 0x80;
          w = outb (ucast (cb + 3)) (ucast b) w;
          w = outb (ucast cb) (ucast (k AND 0xFF)) w;
          w = outb (ucast (cb + 1)) (ucast (drop_bit 8 (k AND 0xFF00))) w;
          b = b XOR 0x80
      in outb (ucast (cb + 3)) (ucast b) w)"

definition sProt :: "u32 \<Rightarrow> u32 \<Rightarrow> u32 \<Rightarrow> u32 \<Rightarrow> 'a io_scheme \<Rightarrow> 'a io_scheme" where
  "sProt cb bits parity stop_bits w =
     (let (b, w) = inb (ucast (cb + 3)) w;
          b = (ucast b :: u32) AND 0x80;
          b = b OR (bits - 5) OR push_bit 2 (stop_bits - 1) OR push_bit 3 parity
      in outb (ucast (cb + 3)) (ucast b) w)"

definition setupSerial :: "'k com \<Rightarrow> 'k com" where
  "setupSerial s =
     (let (i, s) = findCOM s;
          s = s\<lparr>ourCOMbase := COMtoIO i\<rparr>;
          s = outb (ucast (ourCOMbase s + 1)) 0 s;
          s = sBaud (ourCOMbase s) 4 s;
          s = sProt (ourCOMbase s) 8 0 1 s;
          s = outb (ucast (ourCOMbase s + 2)) 7 s
      in outb (ucast (ourCOMbase s + 4)) 0x0f s)"

subsection \<open>The loop\<close>

datatype literal = Name_com | Wrong_PL | Nothing_to_read | LSR_errors

definition com_sys :: "'k INT0x80 \<Rightarrow> u64 \<Rightarrow> u64 \<Rightarrow> u64 \<Rightarrow> 'k com \<Rightarrow> (u64 \<times> 'k com) run" where
  "com_sys sys rdi rsi rdx s = bindR (sys rdi rsi rdx 0 (prog s)) (\<lambda>(v, p). ret (v, s\<lparr>prog := p\<rparr>))"

text \<open>What the driver does for the four kinds of interrupt.\<close>

definition modem_status :: "'k com \<Rightarrow> 'k com run" where
  "modem_status s = ret (snd (inb (ucast (ourCOMbase s + 6)) s))"

definition line_status :: "'k INT0x80 \<Rightarrow> (literal \<Rightarrow> nat) \<Rightarrow> 'k com \<Rightarrow> 'k com run" where
  "line_status sys lit s =
     (let (ls, s) = inb (ucast (ourCOMbase s + 5)) s in
      if ls AND 0x80 \<noteq> 0 \<or> ls AND 0xE \<noteq> 0 then bindR (com_sys sys 0xe 0 (of_nat (lit LSR_errors)) s) (\<lambda>(v, s). ret s) else ret s)"

definition send_byte :: "'k INT0x80 \<Rightarrow> nat \<Rightarrow> nat \<Rightarrow> 'k com \<Rightarrow> 'k com run" where
  "send_byte sys sp f s =
     bindR (com_sys sys 0x10 0 0 s) (\<lambda>(v, s).
       if v \<noteq> 0 then bindR (ugetc sys sp f (prog s)) (\<lambda>(c, p). ret (outb (ucast (ourCOMbase s)) (ucast c) (s\<lparr>prog := p\<rparr>)))
       else bindR (com_sys sys 0x12 0x1000000 0 s) (\<lambda>(v, s). ret s))"

definition receive_byte :: "'k INT0x80 \<Rightarrow> nat \<Rightarrow> nat \<Rightarrow> 'k com \<Rightarrow> 'k com run" where
  "receive_byte sys sp f s =
     (let (v, s) = inb (ucast (ourCOMbase s)) s in
      bindR (uputc sys sp (ucast v) f (prog s)) (\<lambda>(r, p). ret (s\<lparr>prog := p\<rparr>)))"

definition serial_turn :: "'k INT0x80 \<Rightarrow> (literal \<Rightarrow> nat) \<Rightarrow> nat \<Rightarrow> nat \<Rightarrow> 'k com \<Rightarrow> 'k com run" where
  "serial_turn sys lit sp f s =
     (let s = outb (ucast (ourCOMbase s + 1)) 0xf s in
      bindR (com_sys sys 0xf 4 0 s) (\<lambda>(rv, s).
      let s = outb (ucast (ourCOMbase s + 1)) 0 s in
      bindR (if (ucast rv :: u32) = - 1 then bindR (com_sys sys 0xe 0 (of_nat (lit Wrong_PL)) s) (\<lambda>(v, s). ret s) else ret s) (\<lambda>s.
      let (irb, s) = inb (ucast (ourCOMbase s + 2)) s in
      if irb AND 1 \<noteq> 0 then bindR (com_sys sys 0xe (ucast irb) (of_nat (lit Nothing_to_read)) s) (\<lambda>(v, s). ret s)
      else let irb = 3 AND drop_bit 1 irb in
        if irb = 0 then modem_status s
        else if irb = 3 then line_status sys lit s
        else if irb = 1 then send_byte sys sp f s
        else if irb = 2 then receive_byte sys sp f s
        else ret s)))"

text \<open>The driver for \<open>n\<close> turns of its endless loop.\<close>

fun serial_turns :: "'k INT0x80 \<Rightarrow> (literal \<Rightarrow> nat) \<Rightarrow> nat \<Rightarrow> nat \<Rightarrow> nat \<Rightarrow> 'k com \<Rightarrow> 'k com run" where
  "serial_turns sys lit sp f 0 s = ret s"
| "serial_turns sys lit sp f (Suc n) s = bindR (serial_turn sys lit sp f s) (serial_turns sys lit sp f n)"

definition serial_main :: "'k INT0x80 \<Rightarrow> (literal \<Rightarrow> nat) \<Rightarrow> nat \<Rightarrow> nat \<Rightarrow> nat \<Rightarrow> 'k com \<Rightarrow> 'k com run" where
  "serial_main sys lit sp f n s =
     bindR (com_sys sys 0xd (of_nat (lit Name_com)) 0 s) (\<lambda>(v, s). serial_turns sys lit sp f n (setupSerial s))"

subsection \<open>Setting up\<close>

text \<open>The probes of \<open>findCOM\<close>, one write and one read of a scratch register each.\<close>

definition scratch :: "nat \<Rightarrow> u16" where
  "scratch i = ucast (COMtoIO (of_nat i) + 7)"

lemma findCOM_from_ok:
  assumes pres: "\<And>es i. i \<in> {1..7} \<Longrightarrow> dev w (es @ [Outb (scratch i) 0x3e]) (scratch i) = 0x3e \<longleftrightarrow> i \<in> C"
    and i: "1 \<le> i" "i + n = 8"
  shows "\<exists>es w'. findCOM_from i n w = (of_nat (if C \<inter> {i..7} = {} then 0 else Min (C \<inter> {i..7})), w\<lparr>trace := trace w @ es\<rparr>) \<and>
    (\<forall>e \<in> set es. \<exists>j v. j \<in> {1..7} \<and> (e = Outb (scratch j) 0x3e \<or> e = Inb (scratch j) v))"
  using assms
proof (induction n arbitrary: i w)
  case 0
  then have "w\<lparr>trace := trace w @ []\<rparr> = w" by simp
  then show ?case using 0 by (intro exI[of _ "[]"]) simp
next
  case (Suc n)
  let ?p = "scratch i"
  define v where "v = dev w (trace w @ [Outb ?p 0x3e]) ?p"
  define w1 where "w1 = w\<lparr>trace := trace w @ [Outb ?p 0x3e, Inb ?p v]\<rparr>"
  have ch: "checkCOM (COMtoIO (of_nat i)) w = (v = 0x3e, w1)"
    by (simp add: checkCOM_def Let_def scratch_def[symmetric] inb_pair v_def w1_def emit_def outb_def)
  have i7: "i \<in> {1..7}" using Suc.prems by simp
  have p: "\<exists>j u. j \<in> {1..7} \<and> (e = Outb (scratch j) 0x3e \<or> e = Inb (scratch j) u)" if "e \<in> set [Outb ?p 0x3e, Inb ?p v]" for e
    using that i7 by auto
  show ?case
  proof (cases "i \<in> C")
    case True
    then have "v = 0x3e" using Suc.prems(1)[OF i7, of "trace w"] by (simp add: v_def)
    moreover have "Min (C \<inter> {i..7}) = i" using True i7 by (intro Min_eqI) auto
    moreover have "C \<inter> {i..7} \<noteq> {}" using True i7 by auto
    ultimately show ?thesis using ch p by (intro exI[of _ "[Outb ?p 0x3e, Inb ?p v]"]) (simp add: w1_def)
  next
    case False
    then have "v \<noteq> 0x3e" using Suc.prems(1)[OF i7, of "trace w"] by (simp add: v_def)
    then have f: "findCOM_from i (Suc n) w = findCOM_from (i + 1) n w1" using ch by simp
    have "{i..7} = insert i {i + 1..7}" using i7 by auto
    then have C: "C \<inter> {i..7} = C \<inter> {i + 1..7}" using False by auto
    obtain es where es: "findCOM_from (i + 1) n w1 = (of_nat (if C \<inter> {i + 1..7} = {} then 0 else Min (C \<inter> {i + 1..7})), w1\<lparr>trace := trace w1 @ es\<rparr>)"
      "\<forall>e \<in> set es. \<exists>j v. j \<in> {1..7} \<and> (e = Outb (scratch j) 0x3e \<or> e = Inb (scratch j) v)"
      using Suc.IH[of w1 "i + 1"] Suc.prems by (auto simp: w1_def)
    show ?thesis unfolding f C es(1)
      by (rule exI[of _ "[Outb ?p 0x3e, Inb ?p v] @ es"]) (use es(2) p in \<open>auto simp: w1_def\<close>)
  qed
qed

lemma bit_dlab: "bit (0x80 :: int) k \<longleftrightarrow> k = 7"
proof -
  have "bit (2 ^ 7 :: int) k \<longleftrightarrow> k = 7" by (simp only: bit_exp_iff possible_bit_def) auto
  then show ?thesis by simp
qed

lemma lcr_bits:
  fixes l :: u8
  shows "ucast ((ucast l :: u32) OR 0x80) = l OR 0x80" "ucast (((ucast l :: u32) OR 0x80) XOR 0x80) = l AND 0x7f"
    "ucast ((ucast (l AND 0x7f) :: u32) AND 0x80 OR (8 - 5) OR push_bit 2 (1 - 1) OR push_bit 3 0) = (3 :: u8)"
proof -
  show "ucast ((ucast l :: u32) OR 0x80) = l OR 0x80" "ucast (((ucast l :: u32) OR 0x80) XOR 0x80) = l AND 0x7f"
    by (rule bit_word_eqI; auto simp: bit_simps c_int_simps bit_dlab)+
  have "(ucast (l AND 0x7f) :: u32) AND 0x80 = 0" by (rule bit_word_eqI) (auto simp: bit_simps c_int_simps bit_dlab)
  then show "ucast ((ucast (l AND 0x7f) :: u32) AND 0x80 OR (8 - 5) OR push_bit 2 (1 - 1) OR push_bit 3 0) = (3 :: u8)" by simp
qed

text \<open>The driver takes the first of COM1 to COM7 whose scratch register keeps what is written to it, and COM1 when there
  is none. It then opens the divisor latch, sets the divisor 4, closes the latch, and sets eight data bits, no parity
  and one stop bit; the interrupts are off until the loop.\<close>

theorem serial_setup:
  assumes "\<And>es i. i \<in> {1..7} \<Longrightarrow> dev s (es @ [Outb (scratch i) 0x3e]) (scratch i) = 0x3e \<longleftrightarrow> i \<in> C"
    and "i = (if C \<inter> {1..7} = {} then 0 else Min (C \<inter> {1..7}))" and "b = COMtoIO (of_nat i)"
    and "\<And>es. outs_to (ucast (b + 3)) es \<noteq> [] \<Longrightarrow> dev s es (ucast (b + 3)) = last (outs_to (ucast (b + 3)) es)"
  shows "\<exists>probes l. ourCOMbase (setupSerial s) = b \<and> prog (setupSerial s) = prog s \<and>
    (\<forall>e \<in> set probes. \<exists>j v. j \<in> {1..7} \<and> (e = Outb (scratch j) 0x3e \<or> e = Inb (scratch j) v)) \<and>
    trace (setupSerial s) = trace s @ probes @
      [Outb (ucast (b + 1)) 0, Inb (ucast (b + 3)) l, Outb (ucast (b + 3)) (l OR 0x80), Outb (ucast b) 4, Outb (ucast (b + 1)) 0,
       Outb (ucast (b + 3)) (l AND 0x7f), Inb (ucast (b + 3)) (l AND 0x7f), Outb (ucast (b + 3)) 3, Outb (ucast (b + 2)) 7, Outb (ucast (b + 4)) 0xf]"
proof -
  obtain probes where pr: "findCOM s = (of_nat i, s\<lparr>trace := trace s @ probes\<rparr>)"
    "\<forall>e \<in> set probes. \<exists>j v. j \<in> {1..7} \<and> (e = Outb (scratch j) 0x3e \<or> e = Inb (scratch j) v)"
    using findCOM_from_ok[of s C 1 7, OF assms(1)] unfolding findCOM_def assms(2) by auto
  define p where "p = (ucast (b + 3) :: u16)"
  define t0 where "t0 = trace s @ probes @ [Outb (ucast (b + 1)) 0]"
  define l where "l = dev s t0 p"
  define t1 where "t1 = t0 @ [Inb p l, Outb p (l OR 0x80), Outb (ucast b) 4, Outb (ucast (b + 1)) 0, Outb p (l AND 0x7f)]"
  have k: "ucast ((4 :: u32) AND 0xFF) = (4 :: u8)" "ucast (drop_bit 8 ((4 :: u32) AND 0xFF00)) = (0 :: u8)" by simp_all
  have "last (outs_to p t1) = l AND 0x7f" "outs_to p t1 \<noteq> []" by (simp_all add: t1_def)
  then have l2: "dev s t1 p = l AND 0x7f" using assms(4)[of t1] by (simp add: p_def)
  define s0 where "s0 = s\<lparr>trace := t0, ourCOMbase := b\<rparr>"
  have f0: "dev s0 = dev s" "trace s0 = t0" "ourCOMbase s0 = b" by (simp_all add: s0_def)
  have sb: "sBaud b 4 s0 = s0\<lparr>trace := t1\<rparr>"
    unfolding sBaud_def Let_def p_def[symmetric] inb_pair prod.case f0 l_def[symmetric] lcr_bits(1,2) k
    by (simp add: outb_def emit_def f0 t1_def)
  have sp: "sProt b 8 0 1 (s0\<lparr>trace := t1\<rparr>) = s0\<lparr>trace := t1 @ [Inb p (l AND 0x7f), Outb p 3]\<rparr>"
  proof -
    have "dev (s0\<lparr>trace := t1\<rparr>) (trace (s0\<lparr>trace := t1\<rparr>)) p = l AND 0x7f" using l2 f0 by simp
    then show ?thesis
      unfolding sProt_def Let_def p_def[symmetric] inb_pair prod.case by (simp only: lcr_bits(3)) (simp add: outb_def emit_def)
  qed
  have "setupSerial s = outb (ucast (b + 4)) 0x0f (outb (ucast (b + 2)) 7 (sProt b 8 0 1 (sBaud b 4 s0)))"
    unfolding setupSerial_def pr(1) prod.case Let_def assms(3)[symmetric]
    by (simp add: s0_def t0_def outb_def emit_def sBaud_def sProt_def Let_def inb_pair)
  then have "setupSerial s = s0\<lparr>trace := t1 @ [Inb p (l AND 0x7f), Outb p 3, Outb (ucast (b + 2)) 7, Outb (ucast (b + 4)) 0xf]\<rparr>"
    unfolding sb sp by (simp add: outb_def emit_def)
  then show ?thesis using pr(2) by (intro exI[of _ probes] exI[of _ l]) (simp add: s0_def t1_def t0_def p_def)
qed

definition demo_com :: "user_fsys com" where
  "demo_com = \<lparr>dev = (\<lambda>es p. if p \<in> {0x2f8, 0x2f9, 0x2fa, 0x2fb, 0x2fc, 0x2fd, 0x2fe, 0x2ff} \<and> outs_to p es \<noteq> [] then last (outs_to p es) else 0),
     dma = (\<lambda>_ _. 0), trace = [], prog = (demo_reader, demo_talk), ourCOMbase = 0\<rparr>"

theorem serial_setup_witness:
  "ourCOMbase (setupSerial demo_com) = 0x2f8 \<and> last (outs_to 0x2fb (trace (setupSerial demo_com))) = 3"
proof -
  have sc: "scratch 1 = 0x3ff" "scratch 2 = 0x2ff" "scratch 3 = 0x3ef" "scratch 4 = 0x2ef" "scratch 5 = 0x5ff" "scratch 6 = 0x4ff" "scratch 7 = 0x5ef"
    by (simp_all add: scratch_def COMtoIO_def)
  have i7: "{1..7} = {1, 2, 3, 4, 5, 6, 7 :: nat}" by auto
  have pres: "dev demo_com (es @ [Outb (scratch i) 0x3e]) (scratch i) = 0x3e \<longleftrightarrow> i \<in> {2}" if "i \<in> {1..7}" for es i
    using that unfolding i7 by (auto simp: demo_com_def sc sc(1)[unfolded One_nat_def])
  have m: "(if {2 :: nat} \<inter> {1..7} = {} then 0 else Min ({2 :: nat} \<inter> {1..7})) = 2" by simp
  have b: "COMtoIO (of_nat 2) = 0x2f8" by (simp add: COMtoIO_def)
  have lcr: "dev demo_com es (ucast ((0x2f8 :: u32) + 3)) = last (outs_to (ucast ((0x2f8 :: u32) + 3)) es)" if "outs_to (ucast ((0x2f8 :: u32) + 3)) es \<noteq> []" for es
    using that by (simp add: demo_com_def)
  from serial_setup[OF pres m[symmetric] b[symmetric] lcr] show ?thesis by auto
qed

subsection \<open>One turn\<close>

text \<open>
  The calls that wait for an interrupt or for time come back when another task has run: \<open>meanwhile\<close> is what the
  kernel's state has become by then. All other calls are those of \<open>UserIO\<close>.
\<close>

definition resume_call :: "('k \<Rightarrow> 'k) \<Rightarrow> 'k INT0x80 \<Rightarrow> 'k INT0x80" where
  "resume_call meanwhile sys rdi rsi rdx rcx p =
     (if rdi = 0xf \<or> rdi = 0x12 then ret (0, (fst p, meanwhile (snd p))) else sys rdi rsi rdx rcx p)"

text \<open>Whether the next buffer a reader takes bytes from has any.\<close>

definition first_ready :: "'a user_fsys_scheme \<Rightarrow> bool" where
  "first_ready k \<longleftrightarrow> 0 < datac (fifos k (bufferOut (ios k (pairIn (ios k (arguments (kernelFd 0 k)))))))"

lemma first_ready_bytes:
  assumes "source_at R 0 k q c" "first_ready k"
  shows "q \<noteq> []"
proof -
  define r where "r = arguments (kernelFd 0 k)"
  obtain a j where "pipe heap_owns a r k q j" using assms(1) by (auto simp: source_at_def r_def)
  then obtain ps where p: "pairIn (ios k r) = a" "fifo_chain k (bufferOut (ios k a)) (bufferOutEnd (ios k a)) ps" "q = bytes_of k ps"
    "\<forall>p. buf_ok (fifos k p)" by (auto simp: pipe_def)
  then obtain x xs where "ps = x # xs" "x = bufferOut (ios k a)" using fifo_chain_ends[OF p(2)] by (cases ps) auto
  moreover have "filled (fifos k (bufferOut (ios k a))) \<noteq> []"
  proof -
    have "length (fdata (fifos k (bufferOut (ios k a)))) = 256" using p(4) by (simp add: buf_ok_def)
    moreover have "0 < unat (datac (fifos k (bufferOut (ios k a))))"
      using assms(2) p(1) by (simp add: first_ready_def r_def[symmetric] word_less_nat_alt)
    ultimately show ?thesis by (auto simp: filled_def)
  qed
  ultimately show ?thesis using p(3) by simp
qed

lemma check_call:
  fixes k :: "'a user_fsys_scheme"
  assumes S: "source_at R 0 k q (Suc c)"
  shows "\<exists>k'. kcall b2 0x10 0 0 0 (m, k) = ret (if first_ready k then 1 else 0, (m, k')) \<and> source_at R 0 k' q c"
proof -
  define s where "s = user_view m k"
  define r where "r = arguments (kernelFd 0 k)"
  obtain w j where P: "pipe heap_owns w r k q j" using S by (auto simp: source_at_def r_def)
  have Ps: "pipe heap_owns w r s q j"
    by (rule pipe_transfer[OF P]) (simp_all add: s_def user_view_same heap_owns_cong[OF user_view_same(1,2)])
  obtain A where A: "heap_owns s A" using kernel.pipe_owns[OF Ps] by blast
  obtain d where d: "stack_pages s = Suc d" "c \<le> d" using S by (cases "stack_pages k") (auto simp: source_at_def s_def user_view_same)
  obtain old np s1 where e: "syscall_enter (KPALLOC no_more_pages) s = ret (old, np, s1)" "stack_pages s1 = d"
    using syscall_enter_stack[OF A d(1)] .
  have e1: "same_call s s1" using syscall_enter_keeps(2)[OF e(1) A] .
  have P1: "pipe heap_owns w r s1 q j"
    by (rule pipe_transfer[OF Ps]) (use e1 syscall_enter_keeps(1)[OF e(1)] in \<open>simp_all add: same_call_def\<close>)
  define k' where "k' = syscall_leave old np s1"
  note l = syscall_leave_same[where s = s1 and old = old and n = np, folded k'_def]
  have k1: "kernelFd 0 s1 = kernelFd 0 k" "ios s1 = ios k" "fifos s1 = fifos k" using e1 by (simp_all add: same_call_def s_def user_view_same)
  have "pairIn (ios k r) \<noteq> 0" using kernel.pipe_open[OF P] by simp
  then have "checkStream 0 s1 = ret (first_ready k)"
    using S k1 by (simp add: checkStream_def fd_used_ok source_at_def r_def first_ready_def Let_def)
  then have "kcall b2 0x10 0 0 0 (m, k) = ret (if first_ready k then 1 else 0, (prog_view m k', k'))"
    using e(1) by (simp add: kcall_def INT0x80_of_def INT0x80C_def syscall_switch_def s_def[symmetric] k'_def)
  moreover have "umem k' = umem (user_view m k)" using l(1) e1 by (simp add: same_call_def s_def)
  then have "prog_view m k' = m" by (rule prog_view_same)
  moreover have "source_at R 0 k' q c"
  proof -
    have "pipe heap_owns w r k' q j" using pipe_cong[of k' s1] P1 l by (simp add: same_call_def)
    moreover have "stack_pages k' = d" using e(2) stack_pages_cong[of k' s1] l by (simp add: ldq_def)
    moreover have "in_brk k' x = in_brk k x" for x
      using same_call_in_brk[OF l(1)] same_call_in_brk[OF e1] by (simp add: s_def user_view_same)
    moreover have "kernelFd 0 k' = kernelFd 0 k" using l(1) k1 by (simp add: same_call_def)
    ultimately show ?thesis using S d(2) by (auto simp: source_at_def r_def)
  qed
  ultimately show ?thesis by auto
qed

text \<open>The events of a turn up to the reading of the interrupt's identification.\<close>

definition turn_start :: "u32 \<Rightarrow> io_event list \<Rightarrow> io_event list" where
  "turn_start b es = es @ [Outb (ucast (b + 1)) 0xf, Outb (ucast (b + 1)) 0]"

lemma serial_turn_start:
  fixes meanwhile :: "'k \<Rightarrow> 'k" and call :: "'k INT0x80"
  assumes "prog s = (m, k)" "v = dev s (turn_start (ourCOMbase s) (trace s)) (ucast (ourCOMbase s + 2))" "v AND 1 = 0"
  defines "sys \<equiv> resume_call meanwhile call"
  shows "\<exists>s1. trace s1 = turn_start (ourCOMbase s) (trace s) @ [Inb (ucast (ourCOMbase s + 2)) v] \<and> dev s1 = dev s \<and> ourCOMbase s1 = ourCOMbase s \<and>
    prog s1 = (m, meanwhile k) \<and>
    (v AND 7 = 2 \<longrightarrow> serial_turn sys lit sp f s = send_byte sys sp f s1) \<and>
    (v AND 7 = 4 \<longrightarrow> serial_turn sys lit sp f s = receive_byte sys sp f s1)"
proof -
  let ?b = "ourCOMbase s"
  define s1 where "s1 = s\<lparr>prog := (m, meanwhile k), trace := turn_start ?b (trace s) @ [Inb (ucast (?b + 2)) v]\<rparr>"
  have c: "com_sys sys 0xf 4 0 (outb (ucast (?b + 1)) 0xf s) = ret (0, (outb (ucast (?b + 1)) 0xf s)\<lparr>prog := (m, meanwhile k)\<rparr>)"
    using assms(1) by (simp add: com_sys_def sys_def resume_call_def outb_def emit_def)
  have b1: "drop_bit 1 v AND 3 = drop_bit 1 (v AND 7)" by (rule bit_word_eqI) (auto simp: bit_simps c_int_simps)
  have v: "dev s (trace s @ [Outb (ucast (?b + 1)) 15, Outb (ucast (?b + 1)) 0]) (ucast (?b + 2)) = v"
    using assms(2) by (simp add: turn_start_def)
  have t: "serial_turn sys lit sp f s = (let irb = 3 AND drop_bit 1 v in
        if irb = 0 then modem_status s1 else if irb = 3 then line_status sys lit s1 else if irb = 1 then send_byte sys sp f s1
        else if irb = 2 then receive_byte sys sp f s1 else ret s1)"
    using c v assms(3) by (simp add: serial_turn_def Let_def inb_pair s1_def turn_start_def outb_def emit_def)
  have i: "v AND 7 = 2 \<Longrightarrow> 3 AND drop_bit 1 v = 1" "v AND 7 = 4 \<Longrightarrow> 3 AND drop_bit 1 v = 2"
    unfolding and.commute[of 3] b1 by simp_all
  show ?thesis
  proof (intro exI[of _ s1] conjI impI)
    assume "v AND 7 = 2"
    then show "serial_turn sys lit sp f s = send_byte sys sp f s1" using i(1) t by (simp add: Let_def)
  next
    assume "v AND 7 = 4"
    then show "serial_turn sys lit sp f s = receive_byte sys sp f s1" using i(2) t by (simp add: Let_def)
  qed (simp_all add: s1_def)
qed

lemma putc_byte:
  assumes "sink_at fd r k q" "fd_of (m, k) f = fd" "sp < USER_TOP" "sp + 4 \<le> f \<or> f + 8 \<le> sp"
  shows "uputc (kcall b2) sp (ucast (d :: u8)) f (m, k) \<noteq> None \<and>
    (write_fits_in fd k sp 1 \<longrightarrow> (\<exists>v p. uputc (kcall b2) sp (ucast d) f (m, k) = ret (v, p))) \<and>
    (\<forall>v p. uputc (kcall b2) sp (ucast d) f (m, k) = ret (v, p) \<longrightarrow> sink_at fd r (snd p) (q @ [d]))"
proof -
  define m1 where "m1 = m\<lparr>ubytes := stb sp (le_bytes 4 (ucast d :: u32)) (ubytes m)\<rparr>"
  have st: "ustore sp (le_bytes 4 (ucast d :: u32)) (m, k) = (m1, k)" by (simp add: ustore_def m1_def)
  have "fd_of (m1, k) f = fd_of (m, k) f"
    by (rule fd_of_cong) (use assms(4) in \<open>auto simp: m1_def stb_outside\<close>)
  then have fd: "fd_of (m1, k) f = fd" using assms(2) by simp
  have one: "(scast ((1 :: u32) * 1) :: u64) = of_nat 1" using scast_small[of 1] by simp
  have u: "uputc (kcall b2) sp (ucast d) f (m, k) = int_result (kcall b2 1 fd (of_nat sp) (of_nat 1) (m1, k))"
    unfolding uputc_def ufwrite_def st fd one ..
  have "ucast (ucast d :: u32) = d" by (rule bit_word_eqI) (auto simp: bit_simps)
  then have "ubytes m1 sp = d" by (simp add: m1_def stb_def le_bytes_def)
  then have l: "ldb (ubytes m1) sp 1 = [d]" by (simp add: ldb_def)
  have r: "sp + 1 \<le> USER_TOP" using assms(3) by simp
  note W = write_call[OF assms(1) r, of b2 m1]
  show ?thesis
  proof (intro conjI allI impI)
    show "uputc (kcall b2) sp (ucast d) f (m, k) \<noteq> None" using W(1)
      unfolding u int_result_def by (auto simp: bindR_def ret_def split: option.splits sum.splits)
  next
    assume "write_fits_in fd k sp 1"
    then show "\<exists>v p. uputc (kcall b2) sp (ucast d) f (m, k) = ret (v, p)" using W(2) unfolding u int_result_def by auto
  next
    fix v p assume "uputc (kcall b2) sp (ucast d) f (m, k) = ret (v, p)"
    then obtain w where "kcall b2 1 fd (of_nat sp) (of_nat 1) (m1, k) = ret (w, p)" by (auto simp: u int_result_def bindR_ret_iff)
    then show "sink_at fd r (snd p) (q @ [d])" using W(3) l by simp
  qed
qed


definition demo_send :: user_fsys where
  "demo_send = demo_typed\<lparr>fds := (\<lambda>_. demo_fd(0 := demo_fd 1))\<rparr>"

lemma demo_send_source: "source_at {x. x \<le> 0x1000} 0 demo_send [65] 2"
proof -
  note T = demo_typed_source[unfolded source_at_def]
  have fd: "kernelFd 1 demo_typed = demo_fd 1" using demo_talk_simps(3)[of 1] by (simp add: demo_typed_def kernelFd_def fd_page_def tcb_def)
  then have k: "kernelFd 0 demo_send = kernelFd 1 demo_typed" by (simp add: demo_send_def kernelFd_def)
  have "pipe heap_owns a r demo_send [65] j \<longleftrightarrow> pipe heap_owns a r demo_typed [65] j" for a r j by (rule pipe_cong) (simp_all add: demo_send_def)
  moreover have "stack_pages demo_send = stack_pages demo_typed" by (rule stack_pages_cong) (simp add: demo_send_def ldq_def)
  moreover have "in_brk demo_send x = in_brk demo_typed x" for x by (simp add: demo_send_def in_brk_def my_brk_def tcb_def)
  ultimately show ?thesis using T by (auto simp: source_at_def k FDS_def)
qed


text \<open>C25. The UART says that it has received. The byte its data port gives goes to the end of the standard output; this
  never hangs, and it comes back when the write fits.\<close>

theorem serial_receives:
  fixes meanwhile :: "'a user_fsys_scheme \<Rightarrow> 'a user_fsys_scheme" and b2 :: "addr \<times> u8 list"
  assumes "prog s = (m, k)" and "v = dev s (turn_start (ourCOMbase s) (trace s)) (ucast (ourCOMbase s + 2))" and "v AND 7 = 4"
    and es: "es = turn_start (ourCOMbase s) (trace s) @ [Inb (ucast (ourCOMbase s + 2)) v]"
    and "sink_at fd r (meanwhile k) q" and "fd_of (m, meanwhile k) f = fd" and "sp < USER_TOP" and "sp + 4 \<le> f \<or> f + 8 \<le> sp"
  shows "serial_turn (resume_call meanwhile (kcall b2)) lit sp f s \<noteq> None \<and>
    (write_fits_in fd (meanwhile k) sp 1 \<longrightarrow> (\<exists>s'. serial_turn (resume_call meanwhile (kcall b2)) lit sp f s = ret s')) \<and>
    (\<forall>s'. serial_turn (resume_call meanwhile (kcall b2)) lit sp f s = ret s' \<longrightarrow>
      (let d = dev s es (ucast (ourCOMbase s)) in
       trace s' = es @ [Inb (ucast (ourCOMbase s)) d] \<and> sink_at fd r (snd (prog s')) (q @ [d])))"
proof -
  let ?sys = "resume_call meanwhile (kcall b2)"
  define d where "d = dev s es (ucast (ourCOMbase s))"
  have "v AND 1 = (v AND 7) AND 1" by (simp add: and.assoc)
  then have v1: "v AND 1 = 0" unfolding assms(3) by simp
  obtain s1 where s1: "trace s1 = es" "dev s1 = dev s" "ourCOMbase s1 = ourCOMbase s" "prog s1 = (m, meanwhile k)"
      "serial_turn ?sys lit sp f s = receive_byte ?sys sp f s1"
    using serial_turn_start[OF assms(1,2) v1, of meanwhile "kcall b2" lit sp f] assms(3) by (auto simp: es)
  have rp: "uputc ?sys sp c f p = uputc (kcall b2) sp c f p" for c p by (simp add: uputc_def ufwrite_def resume_call_def)
  have t: "serial_turn ?sys lit sp f s = bindR (uputc (kcall b2) sp (ucast d) f (m, meanwhile k))
      (\<lambda>(r, p). ret (s1\<lparr>trace := es @ [Inb (ucast (ourCOMbase s)) d], prog := p\<rparr>))"
    unfolding s1(5) using s1(1-4) by (simp add: receive_byte_def inb_pair rp d_def emit_def Let_def)
  note P = putc_byte[OF assms(5-8), of b2 d]
  have A: "serial_turn ?sys lit sp f s \<noteq> None"
    unfolding t using P by (auto simp: bindR_def ret_def split: option.splits sum.splits)
  have B: "\<exists>s'. serial_turn ?sys lit sp f s = ret s'" if "write_fits_in fd (meanwhile k) sp 1"
    using P that unfolding t by auto
  have "trace s' = es @ [Inb (ucast (ourCOMbase s)) d] \<and> sink_at fd r (snd (prog s')) (q @ [d])"
    if r: "serial_turn ?sys lit sp f s = ret s'" for s'
  proof -
    obtain x where x: "uputc (kcall b2) sp (ucast d) f (m, meanwhile k) = ret x"
        "(\<lambda>(r, p). ret (s1\<lparr>trace := es @ [Inb (ucast (ourCOMbase s)) d], prog := p\<rparr>)) x = ret s'"
      using r unfolding t bindR_ret_iff by blast
    then have "s' = s1\<lparr>trace := es @ [Inb (ucast (ourCOMbase s)) d], prog := snd x\<rparr>" by (cases x) simp
    moreover have "sink_at fd r (snd (snd x)) (q @ [d])" using P x(1) by (metis prod.collapse)
    ultimately show ?thesis by simp
  qed
  then show ?thesis using A B by (simp add: Let_def d_def)
qed

theorem serial_receives_witness:
  "\<exists>s'. serial_turn (resume_call (\<lambda>k. k) (kcall (0, []))) (\<lambda>_. 0) 0x3000 0x2010
      (demo_com\<lparr>ourCOMbase := 0x2f8, prog := (demo_line, demo_talk), dev := (\<lambda>es p. if p = 0x2fa then 4 else 66)\<rparr>) = ret s' \<and>
    trace s' = [Outb 0x2f9 0xf, Outb 0x2f9 0, Inb 0x2fa 4, Inb 0x2f8 66] \<and> sink_at 0 2 (snd (prog s')) [66]"
proof -
  let ?s = "demo_com\<lparr>ourCOMbase := 0x2f8, prog := (demo_line, demo_talk), dev := (\<lambda>es p. if p = 0x2fa then 4 else 66)\<rparr>"
  let ?es = "turn_start (ourCOMbase ?s) (trace ?s) @ [Inb (ucast (ourCOMbase ?s + 2)) 4]"
  have p: "prog ?s = (demo_line, demo_talk)" by simp
  have v: "4 = dev ?s (turn_start (ourCOMbase ?s) (trace ?s)) (ucast (ourCOMbase ?s + 2))" by simp
  have v7: "(4 :: u8) AND 7 = 4" by simp
  note S = demo_talk_sink(1)
  have sp: "0x3000 < USER_TOP" "(0x3000 :: nat) + 4 \<le> 0x2010 \<or> (0x2010 :: nat) + 8 \<le> 0x3000" by (simp_all add: USER_TOP_def CBASE_unat)
  note R = serial_receives[where s = "?s" and es = "?es" and ?b2.0 = "(0, [])" and lit = "\<lambda>_. 0" and meanwhile = "\<lambda>k. k", OF p v v7 refl S demo_line_ok(2) sp]
  have "write_fits_in 0 demo_talk 0x3000 1" using demo_talk_sink(2) demo_talk_pages by (simp add: write_fits_in_def demo_talk_brk)
  then obtain s' where s': "serial_turn (resume_call (\<lambda>k. k) (kcall (0, []))) (\<lambda>_. 0) 0x3000 0x2010 ?s = ret s'" using R by blast
  from R[THEN conjunct2, THEN conjunct2, rule_format, OF this] show ?thesis by (intro exI[of _ s'] conjI s') (simp_all add: Let_def turn_start_def demo_com_def)
qed

end
