(* ===== verification/Programs.thy ===== *)
theory Programs
  imports UserIO
begin

section \<open>The programs echo and sh (userland/echo.c, userland/sh.c)\<close>

text \<open>
  The two programs on their own memory: \<open>echo\<close> joins its arguments into a block of the heap and writes it, \<open>sh\<close> prompts, reads a
  line, cuts it at the first space and starts the program it names. \<open>f\<close> is the address of the \<open>FILE\<close> that is \<open>stdin\<close> and
  \<open>stdout\<close>; the buffer handling of \<open>echo\<close> on lists is in \<open>Libc\<close>, and the one here implements it.
\<close>

subsection \<open>echo\<close>

text \<open>A pointer plus an \<open>int\<close>, and \<open>argv[i]\<close>.\<close>

definition plus_int :: "nat \<Rightarrow> u32 \<Rightarrow> nat" where
  "plus_int s m = unat (of_nat s + scast m :: u64)"

definition arg_of :: "'k uprog \<Rightarrow> nat \<Rightarrow> nat \<Rightarrow> nat" where
  "arg_of p argv i = unat (ld64 (ubytes (fst p)) (argv + 8 * i))"

fun echo_count :: "nat \<Rightarrow> nat \<Rightarrow> nat \<Rightarrow> u32 \<Rightarrow> 'k uprog \<Rightarrow> u32 run" where
  "echo_count argv i 0 k p = ret k"
| "echo_count argv i (Suc n) k p =
     bindR (ustrlen (arg_of p argv i) p) (\<lambda>l. echo_count argv (i + 1) n (k + of_nat (l + 1)) p)"

fun echo_copy :: "nat \<Rightarrow> nat \<Rightarrow> nat \<Rightarrow> nat \<Rightarrow> u32 \<Rightarrow> 'k uprog \<Rightarrow> (u32 \<times> 'k uprog) run" where
  "echo_copy s argv i 0 m p = ret (m, p)"
| "echo_copy s argv i (Suc n) m p =
     bindR (ustrcpy (plus_int s m) (arg_of p argv i) p) (\<lambda>p.
     bindR (ustrlen (arg_of p argv i) p) (\<lambda>l.
     let m = m + of_nat (l + 1) in
     echo_copy s argv (i + 1) n m (ustore (plus_int s (m - 1)) [SPACE] p)))"

definition echo_main :: "'k INT0x80 \<Rightarrow> nat \<Rightarrow> u32 \<Rightarrow> nat \<Rightarrow> 'k uprog \<Rightarrow> (u32 \<times> 'k uprog) run" where
  "echo_main sys f argc argv p =
     bindR (echo_count argv 0 (nat (sint argc)) 0 p) (\<lambda>k.
     let (s, p) = on_mem (umalloc (unat (scast (k + 1) :: u64))) p in
     bindR (echo_copy s argv 0 (nat (sint argc)) 0 p) (\<lambda>(m, p).
     let p = ustore (plus_int s m) [0x0a] p;
         p = ustore (plus_int s (m + 1)) [0] p
     in bindR (ufputs sys s f p) (\<lambda>(v, p). ret (0, p))))"

subsection \<open>Copying the arguments\<close>

lemma stb_nil: "stb a [] m = m"
  by (rule ext) (auto simp: stb_def)

lemma plus_int_small:
  assumes "m < 2 ^ 31" "s + m < 2 ^ 64"
  shows "plus_int s (of_nat m) = s + m"
proof -
  have "plus_int s (of_nat m) = unat (of_nat (s + m) :: u64)" using assms(1) by (simp add: plus_int_def scast_small)
  also have "\<dots> = s + m" by (rule unat_of_nat_small(4)) (use assms(2) in simp)
  finally show ?thesis .
qed

text \<open>\<open>strcpy\<close> of a string to memory that does not meet it.\<close>

lemma ustrcpy_ok:
  assumes "ustr_at p a w" "d + length w \<le> a \<or> a + length w + 1 \<le> d"
  shows "ustrcpy d a p = ret (ustore d w p)"
proof -
  let ?m = "ubytes (fst p)"
  have "ustrcpy_from d a (length w - j) (stb d (take (length w - j) w) ?m) = Some (stb d w ?m)" if "j \<le> length w" for j
    using that
  proof (induction j)
    case 0
    have "stb d w ?m (a + length w) = 0" using ustr_at_nth(2)[OF assms(1)] assms(2) by (auto simp: stb_outside)
    then show ?case by (simp add: ustrcpy_from.simps)
  next
    case (Suc j)
    define i where "i = length w - Suc j"
    have i: "i < length w" "length w - j = Suc i" using Suc.prems by (simp_all add: i_def)
    have "stb d (take i w) ?m (a + i) = ?m (a + i)" using assms(2) i(1) by (auto simp: stb_outside)
    then have c: "stb d (take i w) ?m (a + i) = w ! i" "w ! i \<noteq> 0" using ustr_at_nth(1)[OF assms(1) i(1)] by simp_all
    have "(stb d (take i w) ?m)(d + i := w ! i) = stb d (take (Suc i) w) ?m"
    proof -
      have "stb (d + i) [w ! i] m = m(d + i := w ! i)" for m by (rule ext) (simp add: stb_def)
      then have "(stb d (take i w) ?m)(d + i := w ! i) = stb (d + length (take i w)) [w ! i] (stb d (take i w) ?m)" using i(1) by simp
      also have "\<dots> = stb d (take (Suc i) w) ?m" using i(1) by (simp only: stb_append take_Suc_conv_app_nth)
      finally show ?thesis .
    qed
    then show ?case using Suc c i by (subst ustrcpy_from.simps) (simp add: i_def[symmetric])
  qed
  from this[of "length w"] show ?thesis by (simp add: stb_nil ustrcpy_def ustore_def ret_def)
qed

text \<open>The arguments of a program: an array of pointers and the strings, all in blocks in use.\<close>

definition args_at :: "ublock set \<Rightarrow> 'k uprog \<Rightarrow> nat \<Rightarrow> u8 list list \<Rightarrow> bool" where
  "args_at L p argv ws \<longleftrightarrow> in_blocks L argv (8 * length ws) \<and>
     (\<forall>i < length ws. ustr_at p (arg_of p argv i) (ws ! i) \<and> in_blocks L (arg_of p argv i) (length (ws ! i) + 1))"

text \<open>Memory where all bytes in blocks in use are what they were.\<close>

lemma in_blocks_data:
  assumes "in_blocks L a n" "\<forall>y \<in> L. data_kept s s' y" "i < n"
  shows "ubytes s' (a + i) = ubytes s (a + i)"
proof -
  obtain k b m where k: "(k, b, m) \<in> L" "k \<le> a" "a + n \<le> k + m" using assms(1) by (auto simp: in_blocks_def)
  then have "\<forall>j < m. ubytes s' (k + j) = ubytes s (k + j)" using assms(2) by (fastforce simp: data_kept_def)
  moreover have "a + i = k + (a + i - k)" "a + i - k < m" using k assms(3) by auto
  ultimately show ?thesis by metis
qed

lemma arg_of_kept:
  assumes "in_blocks L argv (8 * n)" "\<forall>y \<in> L. data_kept (fst p) (fst p') y" "i < n"
  shows "arg_of p' argv i = arg_of p argv i"
proof -
  have "ubytes (fst p') (argv + 8 * i + j) = ubytes (fst p) (argv + 8 * i + j)" if "j < 8" for j
    using in_blocks_data[OF assms(1,2), of "8 * i + j"] that assms(3) by (simp add: add.assoc)
  then have "ldb (ubytes (fst p')) (argv + 8 * i) 8 = ldb (ubytes (fst p)) (argv + 8 * i) 8" by (rule ldb_cong)
  then show ?thesis by (simp add: arg_of_def ld64_def)
qed

lemma args_at_kept:
  assumes "args_at L p argv ws" "\<forall>y \<in> L. data_kept (fst p) (fst p') y"
  shows "args_at L p' argv ws" "i < length ws \<Longrightarrow> arg_of p' argv i = arg_of p argv i"
proof -
  have a: "arg_of p' argv i = arg_of p argv i" if "i < length ws" for i
    using arg_of_kept[OF _ assms(2) that] assms(1) by (simp add: args_at_def)
  have "ustr_at p' (arg_of p argv i) (ws ! i)" if "i < length ws" for i
    by (rule ustr_at_cong[where p = p]) (use assms that in_blocks_data in \<open>auto simp: args_at_def\<close>)
  then show "args_at L p' argv ws" using assms(1) a by (simp add: args_at_def)
  show "i < length ws \<Longrightarrow> arg_of p' argv i = arg_of p argv i" by (rule a)
qed

text \<open>Writes to a block that is not in \<open>L\<close>, or to the header that follows it.\<close>

lemma ustore_beside:
  assumes "\<forall>y \<in> L. apart (s, b, N) y" "\<forall>(k, c, n) \<in> L. 16 \<le> k" "16 \<le> s" "s \<le> a" "a + length bs \<le> s + N + 16"
  shows "\<forall>y \<in> L. data_kept (fst p) (fst (ustore a bs p)) y"
proof
  fix y assume y: "y \<in> L"
  obtain k c n where e: "y = (k, c, n)" by (cases y)
  then have "s + N \<le> k - 16 \<or> k + n \<le> s - 16" "16 \<le> k" using assms(1,2) y by auto
  then show "data_kept (fst p) (fst (ustore a bs p)) y"
    using assms(3-5) by (auto simp: data_kept_def e ustore_def intro!: stb_outside)
qed

lemma echo_size_take: "i < length ws \<Longrightarrow> echo_size (take (Suc i) ws) = echo_size (take i ws) + length (ws ! i) + 1"
  by (simp add: echo_size_def take_Suc_conv_app_nth)

lemma echo_size_take_le: "echo_size (take i ws) \<le> echo_size ws"
proof -
  have "echo_size (take i ws @ drop i ws) = echo_size (take i ws) + echo_size (drop i ws)" unfolding echo_size_def map_append sum_list_append ..
  then show ?thesis by simp
qed

lemma echo_count_ok:
  assumes "args_at L p argv ws" "i + r = length ws"
  shows "echo_count argv i r (of_nat (echo_size (take i ws))) p = ret (of_nat (echo_size ws))"
  using assms(2)
proof (induction r arbitrary: i)
  case (Suc r)
  then have i: "i < length ws" by simp
  then have l: "ustrlen (arg_of p argv i) p = ret (length (ws ! i))" using assms(1) by (intro ustrlen_ok) (simp add: args_at_def)
  have "(of_nat (echo_size (take i ws)) + of_nat (length (ws ! i) + 1) :: u32) = of_nat (echo_size (take (Suc i) ws))"
    unfolding echo_size_take[OF i] by simp
  then show ?case using Suc l by (simp only: echo_count.simps bindR_simps) simp
qed simp

lemma echo_copy_ok:
  assumes "args_at L p argv ws" "\<forall>y \<in> L. apart (s, b, N) y" "\<forall>(k, c, n) \<in> L. 16 \<le> k" "16 \<le> s"
    and "echo_size ws \<le> N" "s + N < 2 ^ 64" "echo_size ws < 2 ^ 31" "i + r = length ws"
  shows "echo_copy s argv i r (of_nat (echo_size (take i ws))) p =
    ret (of_nat (echo_size ws), ustore (s + echo_size (take i ws)) (concat (map (\<lambda>w. w @ [SPACE]) (drop i ws))) p)"
  using assms(1,8)
proof (induction r arbitrary: i p)
  case 0
  show ?case using 0 stb_nil by (simp add: ustore_def)
next
  case (Suc r)
  define w where "w = ws ! i"
  define M where "M = echo_size (take i ws)"
  define a where "a = arg_of p argv i"
  have i: "i < length ws" using Suc.prems(2) by simp
  have w: "ustr_at p a w" "in_blocks L a (length w + 1)" using Suc.prems(1) i by (simp_all add: args_at_def a_def w_def)
  have M: "echo_size (take (Suc i) ws) = M + length w + 1" "M + length w + 1 \<le> echo_size ws"
    using echo_size_take[OF i] echo_size_take_le[of "Suc i" ws] by (simp_all add: M_def w_def)
  have at: "plus_int s (of_nat M) = s + M" "plus_int s (of_nat (M + length w)) = s + (M + length w)"
    by (rule plus_int_small; use M(2) assms(5-7) in linarith)+
  obtain k c n where k: "(k, c, n) \<in> L" "k \<le> a" "a + (length w + 1) \<le> k + n" using w(2) by (auto simp: in_blocks_def)
  then have "s + N \<le> k - 16 \<or> k + n \<le> s - 16" using assms(2) by fastforce
  then have "(s + M) + length w \<le> a \<or> a + length w + 1 \<le> s + M" using k M(2) assms(4,5) by linarith
  then have c: "ustrcpy (s + M) a p = ret (ustore (s + M) w p)" by (rule ustrcpy_ok[OF w(1)])
  define p1 where "p1 = ustore (s + M) w p"
  have "\<forall>y \<in> L. data_kept (fst p) (fst p1) y"
    unfolding p1_def by (rule ustore_beside[OF assms(2-4)]) (use M(2) assms(5) in simp_all)
  then have p1: "args_at L p1 argv ws" "arg_of p1 argv i = a" using args_at_kept[OF Suc.prems(1)] i by (simp_all add: a_def)
  have l: "ustrlen a p1 = ret (length w)" using p1 i by (auto simp: args_at_def w_def intro: ustrlen_ok)
  define p2 where "p2 = ustore (s + M + length w) [SPACE] p1"
  have "\<forall>y \<in> L. data_kept (fst p1) (fst p2) y"
    unfolding p2_def by (rule ustore_beside[OF assms(2-4)]) (use M(2) assms(5) in simp_all)
  then have p2: "args_at L p2 argv ws" using args_at_kept(1)[OF p1(1)] by blast
  have e2: "p2 = ustore (s + M) (w @ [SPACE]) p" by (simp add: p2_def p1_def ustore_more)
  have n: "(of_nat M + of_nat (length w + 1) :: u32) = of_nat (M + length w + 1)" "(of_nat (M + length w + 1) - 1 :: u32) = of_nat (M + length w)"
    by simp_all
  have "echo_copy s argv i (Suc r) (of_nat M) p = echo_copy s argv (i + 1) r (of_nat (M + length w + 1)) p2"
    unfolding echo_copy.simps a_def[symmetric] c bindR_simps p1_def[symmetric] p1(2) l Let_def n at p2_def add.assoc[of s] ..
  also have "\<dots> = ret (of_nat (echo_size ws), ustore (s + (M + length w + 1)) (concat (map (\<lambda>w. w @ [SPACE]) (drop (Suc i) ws))) p2)"
    using Suc.IH[OF p2, of "i + 1"] Suc.prems(2) M(1) by simp
  also have "\<dots> = ret (of_nat (echo_size ws), ustore (s + M) ((w @ [SPACE]) @ concat (map (\<lambda>w. w @ [SPACE]) (drop (Suc i) ws))) p)"
    using ustore_more[of "s + M" "w @ [SPACE]" "concat (map (\<lambda>w. w @ [SPACE]) (drop (Suc i) ws))" p] unfolding e2 by (simp add: add.assoc)
  finally show ?case using Cons_nth_drop_Suc[OF i] by (simp add: M_def w_def flip: Cons_nth_drop_Suc[OF i])
qed

subsection \<open>What echo writes\<close>

definition echo_line :: "u8 list list \<Rightarrow> u8 list" where
  "echo_line ws = concat (map (\<lambda>w. w @ [SPACE]) ws) @ [0x0a]"

lemma length_echo_line: "length (echo_line ws) = echo_size ws + 1"
  by (simp add: echo_line_def length_echo)

text \<open>Up to the write, the program does to its memory what \<open>echo\<close> of \<open>Libc\<close> says.\<close>

lemma echo_prepares:
  assumes ok: "uheap_ok (fst p) F L" and args: "args_at L p argv ws" and argc: "sint argc = int (length ws)"
    and size: "echo_size ws + 1 < 2 ^ 31" and room: "brk_end (fst p) + max (echo_size ws + 1) 4096 + 16 < 2 ^ 64"
    and f: "in_blocks L f 8" and sm: "echo ws (fst p) = (s, m2)"
  shows "echo_main sys f argc argv p = bindR (ufputs sys s f (m2, snd p)) (\<lambda>(v, p). ret (0, p)) \<and>
    ustr_at (m2, snd p) s (echo_line ws) \<and> fd_of (m2, snd p) f = fd_of p f \<and> s + echo_size ws + 1 \<le> brk_end (fst p) + max (echo_size ws + 1) 4096 + 16"
proof -
  let ?n = "echo_size ws"
  let ?t = "concat (map (\<lambda>w. w @ [SPACE]) ws)"
  have l: "length ?t = ?n" by (rule length_echo)
  obtain s' m1 where m1: "umalloc (?n + 1) (fst p) = (s', m1)" by fastforce
  have sm2: "s' = s" "m2 = m1\<lparr>ubytes := stb s (?t @ [0x0a, 0]) (ubytes m1)\<rparr>"
    using sm m1 echo_fill_stb[of s 0 ws] by (auto simp: echo_def)
  note m1 = m1[unfolded sm2(1)]
  define p1 where "p1 = (m1, snd p)"
  obtain b N F2 where M: "?n + 1 \<le> N" "uheap_ok m1 F2 (insert (s, b, N) L)" "\<forall>y \<in> L. apart (s, b, N) y \<and> same_block (fst p) m1 y"
    using umalloc_ok[OF ok room m1] by blast
  have brk: "brk_end m1 \<le> brk_end (fst p) + max (?n + 1) 4096 + 16" using umalloc_brk[OF ok room] m1 by simp
  have "placed m1 y" if "y \<in> insert (s, b, N) L" for y using uheap_placed[OF M(2), of y] that by blast
  moreover have "brk_end m1 < 2 ^ 64" using M(2) by (simp add: uheap_ok_def)
  ultimately have pl: "\<forall>(k, c, n) \<in> L. 16 \<le> k" "16 \<le> s" "s + N < 2 ^ 64" "s + N \<le> brk_end m1" by fastforce+
  have ap: "\<forall>y \<in> L. apart (s, b, N) y" using M(3) by blast
  have dk: "\<forall>y \<in> L. data_kept (fst p) (fst p1) y"
  proof
    fix y assume "y \<in> L"
    then show "data_kept (fst p) (fst p1) y" using M(3) by (cases y) (auto simp: same_block_def data_kept_def p1_def)
  qed
  have a1: "args_at L p1 argv ws" by (rule args_at_kept(1)[OF args dk])
  have n: "nat (sint argc) = length ws" using argc by simp
  have cnt: "echo_count argv 0 (length ws) 0 p = ret (of_nat ?n)" using echo_count_ok[OF args, of 0 "length ws"] by (simp add: echo_size_def)
  have "(of_nat ?n + 1 :: u32) = of_nat (?n + 1)" by simp
  then have "(scast (of_nat ?n + 1 :: u32) :: u64) = of_nat (?n + 1)" unfolding scast_small[OF size, symmetric] by (simp only:)
  moreover have "unat (of_nat (?n + 1) :: u64) = ?n + 1" by (rule unat_of_nat_small(4)) (use size in simp)
  ultimately have al: "unat (scast (of_nat ?n + 1 :: u32) :: u64) = ?n + 1" by simp
  have cp: "echo_copy s argv 0 (length ws) 0 p1 = ret (of_nat ?n, ustore s ?t p1)"
    using echo_copy_ok[OF a1 ap pl(1,2) _ pl(3), of 0 "length ws"] M(1) size by (simp add: echo_size_def)
  have at: "plus_int s (of_nat ?n) = s + ?n" "plus_int s (of_nat ?n + 1) = s + ?n + 1"
    using plus_int_small[of ?n s] plus_int_small[of "?n + 1" s] size M(1) pl(3) by (simp_all add: add.commute[of 1])
  have st: "ustore (s + ?n + 1) [0] (ustore (s + ?n) [0x0a] (ustore s ?t p1)) = (m2, snd p)"
    using ustore_more[of s ?t "[0x0a]" p1] ustore_more[of s "?t @ [0x0a]" "[0]" p1] l
    by (simp add: add.assoc) (simp add: ustore_def p1_def sm2)
  have "echo_main sys f argc argv p = bindR (ufputs sys s f (m2, snd p)) (\<lambda>(v, p). ret (0, p))"
    unfolding echo_main_def n cnt bindR_simps al on_mem_def m1 Let_def prod.case p1_def[symmetric] cp at st ..
  moreover have "ustr_at (m2, snd p) s (echo_line ws)"
  proof -
    have z: "0 \<notin> set w" if "w \<in> set ws" for w
      using args that by (auto simp: args_at_def ustr_at_def in_set_conv_nth)
    have "length (?t @ [0x0a, 0]) = length (echo_line ws) + 1" by (simp add: echo_line_def)
    then have "ldb (stb s (?t @ [0x0a, 0]) (ubytes m1)) s (length (echo_line ws) + 1) = ?t @ [0x0a, 0]"
      by (metis ldb_stb_same)
    then show ?thesis using z by (auto simp: ustr_at_def sm2 echo_line_def SPACE_def)
  qed
  moreover have "fd_of (m2, snd p) f = fd_of p f"
  proof (rule fd_of_cong)
    have "\<forall>y \<in> L. data_kept (fst p1) (fst (ustore s (?t @ [0x0a, 0]) p1)) y"
      by (rule ustore_beside[OF ap pl(1,2)]) (use M(1) l in simp_all)
    then have "\<forall>y \<in> L. data_kept (fst p) m2 y" using dk by (fastforce simp: data_kept_def ustore_def p1_def sm2)
    then show "ubytes (fst (m2, snd p)) (f + i) = ubytes (fst p) (f + i)" if "i < 8" for i using in_blocks_data[OF f] that by simp
  qed
  ultimately show ?thesis using M(1) pl(4) brk by simp
qed

text \<open>C22. \<open>echo\<close> sends its arguments, each followed by a space, and a line feed to its standard output. It never hangs, and
  it returns 0 when the write fits; its memory is then what the two loops on lists give.\<close>

theorem echo_writes:
  fixes b2 :: "addr \<times> u8 list" and k :: "'a user_fsys_scheme"
  assumes "sink_at fd r k q" and "fd_of (m, k) f = fd" and "uheap_ok m F L" and "in_blocks L f 8"
    and "args_at L (m, k) argv ws" and "sint argc = int (length ws)"
    and "echo_size ws + 1 < 2 ^ 31" and "brk_end m + max (echo_size ws + 1) 4096 + 16 \<le> USER_TOP"
  shows "echo_main (kcall b2) f argc argv (m, k) \<noteq> None \<and>
    (write_fits_in fd k (fst (echo ws m)) (echo_size ws + 1) \<longrightarrow> (\<exists>p. echo_main (kcall b2) f argc argv (m, k) = ret (0, p))) \<and>
    (\<forall>v p. echo_main (kcall b2) f argc argv (m, k) = ret (v, p) \<longrightarrow>
       v = 0 \<and> fst p = snd (echo ws m) \<and> sink_at fd r (snd p) (q @ concat (map (\<lambda>w. w @ [SPACE]) ws) @ [0x0a]))"
proof -
  obtain s m2 where sm: "echo ws m = (s, m2)" by fastforce
  have "brk_end m + max (echo_size ws + 1) 4096 + 16 < 2 ^ 64" using assms(8) by (simp add: USER_TOP_def CBASE_unat)
  note P = echo_prepares[of "(m, k)", simplified fst_conv snd_conv, OF assms(3,5-7) this assms(4) sm, of "kcall b2"]
  have fd: "fd_of (m2, k) f = fd" using P assms(2) by simp
  have u: "s + length (echo_line ws) \<le> USER_TOP" using P assms(8) length_echo_line[of ws] by simp
  have S: "sink_at fd r (snd (m2, k)) q" using assms(1) by simp
  have len: "length (echo_line ws) < 2 ^ 31" using assms(7) length_echo_line[of ws] by simp
  note W = user_out.fputs_ok[OF S fd conjunct1[OF conjunct2[OF P]] u len, of b2]
  have e: "echo_main (kcall b2) f argc argv (m, k) = bindR (ufputs (kcall b2) s f (m2, k)) (\<lambda>(v, p). ret (0, p))" using P by blast
  show ?thesis
  proof (intro conjI allI impI)
    show "echo_main (kcall b2) f argc argv (m, k) \<noteq> None"
      using W unfolding e by (auto simp: bindR_def ret_def split: option.splits sum.splits)
  next
    assume "write_fits_in fd k (fst (echo ws m)) (echo_size ws + 1)"
    then show "\<exists>p. echo_main (kcall b2) f argc argv (m, k) = ret (0, p)" using W sm length_echo_line[of ws] unfolding e by auto
  next
    fix v p assume "echo_main (kcall b2) f argc argv (m, k) = ret (v, p)"
    then obtain x where x: "ufputs (kcall b2) s f (m2, k) = ret x" "ret (0, snd x) = (ret (v, p) :: (u32 \<times> 'a user_fsys_scheme uprog) run)"
      unfolding e bindR_ret_iff by (auto split: prod.splits)
    then have x: "v = 0" "p = snd x" "ufputs (kcall b2) s f (m2, k) = ret (fst x, p)" by (auto simp: ret_def)
    have "fst p = m2 \<and> sink_at fd r (snd p) (q @ echo_line ws)"
      using W[THEN conjunct2, THEN conjunct2, rule_format, OF x(3)] by simp
    then have "fst p = m2" "sink_at fd r (snd p) (q @ echo_line ws)" by blast+
    then show "v = 0" "fst p = snd (echo ws m)" "sink_at fd r (snd p) (q @ concat (map (\<lambda>w. w @ [SPACE]) ws) @ [0x0a])"
      using x sm by (simp_all add: echo_line_def)
  qed
qed

text \<open>The memory of \<open>echo A\<close>: a \<open>FILE\<close> for descriptor 0, the string and the array of one pointer, each in a block.\<close>

definition demo_args :: umem where
  "demo_args = (let m = set_header 0x2040 8 0 (demo_line\<lparr>brk_end := 0x2048\<rparr>) in m\<lparr>ubytes := stb 0x2040 (le_bytes 8 (0x2028 :: u64)) (ubytes m)\<rparr>)"

abbreviation demo_blocks :: "ublock set" where
  "demo_blocks \<equiv> {(0x2040, 0, 8), (0x2028, 0, 8), (0x2010, 0, 8)}"

lemma demo_args_ok:
  "uheap_ok demo_args (\<lambda>_. []) demo_blocks" "fd_of (demo_args, k) 0x2010 = 0" "args_at demo_blocks (demo_args, k) 0x2040 [[65]]"
  "brk_end demo_args = 0x2048"
proof -
  define m where "m = set_header 0x2040 8 0 (demo_line\<lparr>brk_end := 0x2048\<rparr>)"
  have d: "demo_args = m\<lparr>ubytes := stb 0x2040 (le_bytes 8 (0x2028 :: u64)) (ubytes m)\<rparr>" by (simp add: demo_args_def m_def Let_def)
  have f: "brk_end demo_line + 16 = 0x2040" "brk_end demo_line + 8 + 16 = 0x2048" using demo_line_ok(4) by simp_all
  have ok: "uheap_ok m (\<lambda>_. []) demo_blocks" and S1: "\<forall>y \<in> {(0x2028, 0, 8), (0x2010, 0, 8)}. same_block demo_line m y"
    using umalloc_fresh[OF demo_line_ok(1), of 0 8 8 m, unfolded f] by (simp_all add: m_def bucket_size_def)
  have w: "uheap_ok demo_args (\<lambda>_. []) demo_blocks" "\<forall>y \<in> demo_blocks - {(0x2040, 0, 8)}. same_block m demo_args y"
    using user_write[OF ok insertI1 _ d] by simp_all
  show "uheap_ok demo_args (\<lambda>_. []) demo_blocks" by (rule w(1))
  have S: "\<forall>y \<in> {(0x2028, 0, 8), (0x2010, 0, 8)}. same_block (fst (demo_line, k)) (fst (demo_args, k)) y"
    using S1 w(2) same_block_trans[of demo_line m _ demo_args] by simp
  have B: "in_blocks {(0x2028, 0, 8), (0x2010, 0, 8)} 0x2010 8" "in_blocks {(0x2028, 0, 8), (0x2010, 0, 8)} 0x2028 (length [65 :: u8] + 1)"
    unfolding in_blocks_def by (rule exI[of _ "0x2010"], fastforce, rule exI[of _ "0x2028"], fastforce)
  show "fd_of (demo_args, k) 0x2010 = 0" using in_blocks_fd[OF B(1) S] demo_line_ok(2) by simp
  have str: "ustr_at (demo_args, k) 0x2028 [65]" by (rule in_blocks_str[OF B(2) S demo_line_ok(3)])
  have "ldb (ubytes demo_args) 0x2040 8 = le_bytes 8 (0x2028 :: u64)" by (simp add: d ldb_stb_same)
  then have "arg_of (demo_args, k) 0x2040 0 = 0x2028" by (simp add: arg_of_def ld64_def le_word_bytes)
  moreover have "in_blocks demo_blocks 0x2040 8" "in_blocks demo_blocks 0x2028 (Suc (Suc 0))"
    unfolding in_blocks_def by (rule exI[of _ "0x2040"], fastforce, rule exI[of _ "0x2028"], fastforce)
  ultimately show "args_at demo_blocks (demo_args, k) 0x2040 [[65]]" using str by (simp add: args_at_def)
  show "brk_end demo_args = 0x2048" by (simp add: d m_def set_header_def)
qed

theorem echo_writes_witness:
  "\<exists>p. echo_main (kcall (0, [])) 0x2010 1 0x2040 (demo_args, demo_talk) = ret (0, p) \<and> sink_at 0 2 (snd p) [65, SPACE, 0x0a]"
proof -
  let ?k = demo_talk
  have f: "in_blocks demo_blocks 0x2010 8" unfolding in_blocks_def by (rule exI[of _ "0x2010"]) fastforce
  have n: "echo_size [[65]] + 1 < 2 ^ 31" "brk_end demo_args + max (echo_size [[65]] + 1) 4096 + 16 \<le> USER_TOP" "sint (1 :: u32) = int (length [[65 :: u8]])"
    by (simp_all add: echo_size_def demo_args_ok USER_TOP_def CBASE_unat)
  have room: "brk_end demo_args + max (echo_size [[65]] + 1) 4096 + 16 < 2 ^ 64" by (simp add: echo_size_def demo_args_ok)
  define s where "s = fst (echo [[65]] demo_args)"
  have "s + echo_size [[65]] + 1 \<le> brk_end demo_args + max (echo_size [[65]] + 1) 4096 + 16"
    using echo_prepares[of "(demo_args, ?k)", simplified fst_conv snd_conv, OF demo_args_ok(1,3) n(3,1) room f surjective_pairing] by (simp add: s_def)
  then have s: "s + 3 \<le> 0x3058" by (simp add: echo_size_def demo_args_ok)
  have "(of_nat s + of_nat i :: addr) \<le> 0x100000" if "i < 3" for i
    using that s unat_of_nat_small(4)[of "s + i"] by (simp add: word_le_nat_alt flip: of_nat_add)
  then have "write_fits_in 0 ?k s (echo_size [[65]] + 1)"
    using demo_talk_sink(2) demo_talk_pages by (simp add: write_fits_in_def demo_talk_brk echo_size_def)
  then show ?thesis
    using echo_writes[OF demo_talk_sink(1) demo_args_ok(2,1) f demo_args_ok(3) n(3,1,2), of "(0, [])"] by (auto simp: s_def)
qed

subsection \<open>sh\<close>

text \<open>The loop \<open>for(i = 0; buf[i] != c; i++)\<close>, which knows no end.\<close>

partial_function (option) uscan_from :: "u8 \<Rightarrow> (nat \<Rightarrow> u8) \<Rightarrow> nat \<Rightarrow> nat \<Rightarrow> nat option" where
  "uscan_from c m a i = (if m (a + i) = c then Some i else uscan_from c m a (i + 1))"

definition uscan :: "u8 \<Rightarrow> nat \<Rightarrow> 'k uprog \<Rightarrow> nat run" where
  "uscan c a p = map_option Inr (uscan_from c (ubytes (fst p)) a 0)"

text \<open>One turn of the loop: the prompt, then the line. \<open>noname\<close> is the address of the empty string in \<open>execv\<close>.\<close>

definition sh_line :: "'k INT0x80 \<Rightarrow> nat \<Rightarrow> nat \<Rightarrow> nat \<Rightarrow> nat \<Rightarrow> 'k uprog \<Rightarrow> 'k uprog run" where
  "sh_line sys sp f noname buf p =
     bindR (ufgets sys sp buf 0x1000 f p) (\<lambda>p.
     bindR (uscan 0x0a buf p) (\<lambda>i.
     let p = ustore (buf + i) [0] p in
     bindR (uscan SPACE buf p) (\<lambda>i.
     let p = ustore (buf + i) [0] p; kk = buf + i + 1 in
     bindR (uexecv sys noname buf kk p) (\<lambda>(k, p).
     bindR (ubindT sys k f p) (\<lambda>p. uunblockAndWait sys k p)))))"

definition sh_turn :: "'k INT0x80 \<Rightarrow> nat \<Rightarrow> nat \<Rightarrow> nat \<Rightarrow> nat \<Rightarrow> nat \<Rightarrow> 'k uprog \<Rightarrow> 'k uprog run" where
  "sh_turn sys sp f prompt noname buf p = bindR (ufputs sys prompt f p) (\<lambda>(v, p). sh_line sys sp f noname buf p)"

fun sh_turns :: "'k INT0x80 \<Rightarrow> nat \<Rightarrow> nat \<Rightarrow> nat \<Rightarrow> nat \<Rightarrow> nat \<Rightarrow> nat \<Rightarrow> 'k uprog \<Rightarrow> 'k uprog run" where
  "sh_turns sys sp f prompt noname buf 0 p = ret p"
| "sh_turns sys sp f prompt noname buf (Suc n) p = bindR (sh_turn sys sp f prompt noname buf p) (sh_turns sys sp f prompt noname buf n)"

definition sh_main :: "'k INT0x80 \<Rightarrow> nat \<Rightarrow> nat \<Rightarrow> nat \<Rightarrow> nat \<Rightarrow> nat \<Rightarrow> nat \<Rightarrow> 'k uprog \<Rightarrow> 'k uprog run" where
  "sh_main sys sp f banner prompt noname n p =
     bindR (uputc sys sp 0x11 f p) (\<lambda>(v, p).
     bindR (uputs sys f banner p) (\<lambda>(v, p).
     let (buf, p) = on_mem (umalloc 0x1000) p in sh_turns sys sp f prompt noname buf n p))"

lemma uscan_ok:
  assumes "\<And>j. j < i \<Longrightarrow> ubytes (fst p) (a + j) \<noteq> c" "ubytes (fst p) (a + i) = c"
  shows "uscan c a p = ret i"
proof -
  have "uscan_from c (ubytes (fst p)) a (i - j) = Some i" if "j \<le> i" for j
    using that
  proof (induction j)
    case 0
    then show ?case using assms(2) by (simp add: uscan_from.simps)
  next
    case (Suc j)
    have "ubytes (fst p) (a + (i - Suc j)) \<noteq> c" using assms(1)[of "i - Suc j"] Suc.prems by simp
    moreover have "i - Suc j + 1 = i - j" using Suc.prems by simp
    ultimately show ?case using Suc by (subst uscan_from.simps) simp
  qed
  from this[of i] show ?thesis by (simp add: uscan_def ret_def)
qed

subsection \<open>The heap under a line\<close>

text \<open>A local variable above the heap is no part of it.\<close>

lemma uheap_above:
  assumes ok: "uheap_ok s F L" and sp: "brk_end s \<le> sp" and s': "s' = s\<lparr>ubytes := (ubytes s)(sp := x)\<rparr>"
  shows "uheap_ok s' F L" "\<forall>y \<in> L. same_block s s' y"
proof -
  have u: "ubytes s' = stb sp [x] (ubytes s)" by (rule ext) (simp add: s' stb_def)
  have S: "same_block s s' y" if "y \<in> free_blocks F \<union> L" for y
  proof (cases y)
    case (fields k c n)
    then have k: "16 \<le> k" "k + n \<le> sp" using uheap_placed[OF ok that] sp by auto
    obtain k' where "k = k' + 16" using k(1) by (metis le_add_diff_inverse2)
    then show ?thesis using k(2) by (auto simp: fields same_block_def u ld32_def ld64_def ldb_stb_other stb_outside)
  qed
  then show "\<forall>y \<in> L. same_block s s' y" by blast
  have f: "brk_end s' = brk_end s" "bucket s' = bucket s" by (simp_all add: s')
  have "linked s' (bucket s b) (F b) = linked s (bucket s b) (F b)" if "b < 4" for b by (rule linked_same) (use S that in blast)+
  moreover have "placed s' y = placed s y" for y by (cases y) (simp add: f)
  moreover have "headed s' y = headed s y" if "y \<in> L" for y using S that headed_same by blast
  ultimately show "uheap_ok s' F L" using ok by (simp add: uheap_ok_def f)
qed

lemma uheap_only_wrote:
  assumes ok: "uheap_ok (fst p) F L" and x: "(a, b, N) \<in> L" "n \<le> N" and w: "only_wrote sp a n p p'" and sp: "brk_end (fst p) \<le> sp"
  shows "uheap_ok (fst p') F L" "\<forall>y \<in> L - {(a, b, N)}. same_block (fst p) (fst p') y"
proof -
  define s1 where "s1 = (fst p)\<lparr>ubytes := stb a (ldb (ubytes (fst p')) a n) (ubytes (fst p))\<rparr>"
  have W: "uheap_ok s1 F L" "\<forall>y \<in> L - {(a, b, N)}. same_block (fst p) s1 y"
    using user_write[OF ok x(1) _ s1_def] x(2) by simp_all
  have "ubytes (fst p') = (ubytes s1)(sp := ubytes (fst p') sp)"
    using w by (auto simp: s1_def only_wrote_def stb_def fun_eq_iff nth_ldb)
  then have e: "fst p' = s1\<lparr>ubytes := (ubytes s1)(sp := ubytes (fst p') sp)\<rparr>"
    using w by (intro umem.equality) (simp_all add: s1_def only_wrote_def)
  have b: "brk_end s1 \<le> sp" using sp by (simp add: s1_def)
  show "uheap_ok (fst p') F L" by (rule uheap_above(1)[OF W(1) b e])
  show "\<forall>y \<in> L - {(a, b, N)}. same_block (fst p) (fst p') y"
    using W(2) uheap_above(2)[OF W(1) b e] same_block_trans by blast
qed

text \<open>The line as \<open>fgets\<close> leaves it is cut in two strings.\<close>

lemma sh_cuts:
  assumes l: "ldb (ubytes (fst p)) a (length (cmd @ SPACE # arg) + 1) = (cmd @ SPACE # arg) @ [0x0a]"
    and c: "set cmd \<inter> {0, SPACE, 0x0a} = {}" and g: "set arg \<inter> {0, 0x0a} = {}"
  defines "p1 \<equiv> ustore (a + length (cmd @ SPACE # arg)) [0] p"
  defines "p2 \<equiv> ustore (a + length cmd) [0] p1"
  shows "uscan 0x0a a p = ret (length (cmd @ SPACE # arg))" "uscan SPACE a p1 = ret (length cmd)"
    "ustr_at p2 a cmd" "ustr_at p2 (a + length cmd + 1) arg" "only_wrote sp a (length (cmd @ SPACE # arg) + 1) p p2" "snd p2 = snd p"
proof -
  let ?w = "cmd @ SPACE # arg"
  have n: "SPACE \<noteq> 0x0a" "SPACE \<noteq> 0" by (simp_all add: SPACE_def)
  have at: "ubytes (fst p) (a + j) = (?w @ [0x0a]) ! j" if "j < length ?w + 1" for j
    using nth_ldb[OF that, of "ubytes (fst p)" a] l by simp
  have at1: "ubytes (fst p1) (a + j) = (?w @ [0]) ! j" if "j < length ?w + 1" for j
  proof (cases "j < length ?w")
    case True
    then have "(?w @ [0x0a]) ! j = ?w ! j" "(?w @ [0]) ! j = ?w ! j" by (simp_all only: nth_append if_True)
    then show ?thesis using at[OF that] True by (simp add: p1_def ustore_def stb_outside)
  next
    case False
    then have "j = length ?w" using that by simp
    then show ?thesis by (simp only: nth_append_length) (simp add: p1_def ustore_def stb_def)
  qed
  have at2: "ubytes (fst p2) (a + j) = ((cmd @ 0 # arg) @ [0]) ! j" if "j < length ?w + 1" for j
    using at1[OF that] that by (auto simp: p2_def ustore_def stb_def nth_append nth_Cons')
  show "uscan 0x0a a p = ret (length ?w)"
  proof (rule uscan_ok)
    show "ubytes (fst p) (a + j) \<noteq> 0x0a" if "j < length ?w" for j
    proof -
      have "0x0a \<notin> set ?w" using c g n by auto
      then show ?thesis using at[of j] that nth_mem[OF that] by (metis less_SucI nth_append Suc_eq_plus1)
    qed
    show "ubytes (fst p) (a + length ?w) = 0x0a" using at[of "length ?w"] by (simp add: nth_append)
  qed
  show "uscan SPACE a p1 = ret (length cmd)"
  proof (rule uscan_ok)
    show "ubytes (fst p1) (a + j) \<noteq> SPACE" if "j < length cmd" for j
    proof -
      have "SPACE \<notin> set cmd" using c by blast
      then have "cmd ! j \<noteq> SPACE" using nth_mem[OF that] by metis
      then show ?thesis using at1[of j] that by (simp add: nth_append)
    qed
    show "ubytes (fst p1) (a + length cmd) = SPACE" using at1[of "length cmd"] by (simp add: nth_append)
  qed
  show "ustr_at p2 a cmd"
  proof -
    have "ldb (ubytes (fst p2)) a (length cmd + 1) = cmd @ [0]"
      by (rule nth_equalityI) (use at2 in \<open>auto simp: nth_append nth_ldb\<close>)
    then show ?thesis using c by (simp add: ustr_at_def)
  qed
  show "ustr_at p2 (a + length cmd + 1) arg"
  proof -
    have "ldb (ubytes (fst p2)) (a + length cmd + 1) (length arg + 1) = arg @ [0]"
    proof (rule nth_equalityI)
      show "ldb (ubytes (fst p2)) (a + length cmd + 1) (length arg + 1) ! j = (arg @ [0]) ! j"
        if "j < length (ldb (ubytes (fst p2)) (a + length cmd + 1) (length arg + 1))" for j
        using that at2[of "length cmd + 1 + j"] by (auto simp: nth_append nth_ldb add.assoc)
    qed simp
    then show ?thesis using g by (simp add: ustr_at_def)
  qed
  show "only_wrote sp a (length ?w + 1) p p2" by (auto simp: only_wrote_def p1_def p2_def ustore_def stb_def)
  show "snd p2 = snd p" by (simp add: p1_def p2_def ustore_def)
qed

lemma data_kept_trans: "data_kept s t y \<Longrightarrow> data_kept t u y \<Longrightarrow> data_kept s u y"
  by (cases y) (simp add: data_kept_def)

lemma same_block_data: "same_block s s' y \<Longrightarrow> data_kept s s' y"
  by (cases y) (simp add: same_block_def data_kept_def)

lemma uheap_from_16: "uheap_ok s F L \<Longrightarrow> \<forall>(k, c, n) \<in> L. 16 \<le> k"
  using uheap_placed[of s F L] by fastforce

lemma bindR_pair: "bindR (bindR x (\<lambda>(v, p). ret (c, g v p))) h = bindR x (\<lambda>(v, p). h (c, g v p))"
proof (cases x)
  case (Some y)
  then show ?thesis by (cases y) (auto simp: bindR_def ret_def)
qed (simp add: bindR_def)

text \<open>\<open>execv\<close> up to its system call: the strings are where they were, the permissions are those of a program.\<close>

lemma uexecv_calls:
  assumes ok: "uheap_ok (fst p) F L" and room: "brk_end (fst p) + 8224 < 2 ^ 64"
  shows "\<exists>kk pd m'. uexecv sys noname path a p = bindR (sys 7 (of_nat path) (of_nat a) (of_nat pd) (m', snd p)) (\<lambda>(v, p). ret (kk, ustore kk (le_bytes 8 v) p)) \<and>
    (\<forall>y \<in> L. data_kept (fst p) m' y) \<and> ld64 (ubytes m') pd = of_nat noname \<and> ld64 (ubytes m') (pd + 8) = 0xF"
proof -
  obtain kk m1 where m1: "umalloc 32 (fst p) = (kk, m1)" by fastforce
  have r1: "brk_end (fst p) + max 32 4096 + 16 < 2 ^ 64" using room by simp
  obtain b1 n1 F1 where A: "32 \<le> n1" "uheap_ok m1 F1 (insert (kk, b1, n1) L)" "\<forall>y \<in> L. apart (kk, b1, n1) y \<and> same_block (fst p) m1 y"
    using umalloc_ok[OF ok r1 m1] by blast
  have "brk_end m1 \<le> brk_end (fst p) + 4112" using umalloc_brk[OF ok r1] m1 by simp
  then have r2: "brk_end m1 + max 16 4096 + 16 < 2 ^ 64" using room by simp
  obtain pd m2 where m2: "umalloc 16 m1 = (pd, m2)" by fastforce
  obtain b2 n2 F2 where B: "16 \<le> n2" "uheap_ok m2 F2 (insert (pd, b2, n2) (insert (kk, b1, n1) L))"
      "\<forall>y \<in> insert (kk, b1, n1) L. apart (pd, b2, n2) y \<and> same_block m1 m2 y"
    using umalloc_ok[OF A(2) r2 m2] by blast
  define p3 where "p3 = ustore (kk + 8) (le_bytes 8 (of_nat pd :: u64)) (m2, snd p)"
  define p4 where "p4 = ustore pd (le_bytes 8 (of_nat noname :: u64)) p3"
  define p5 where "p5 = ustore (pd + 8) (le_bytes 8 (0xF :: u64)) p4"
  have lo: "\<forall>(k, c, n) \<in> L. 16 \<le> k" "16 \<le> kk" "16 \<le> pd" using uheap_from_16[OF B(2)] by auto
  have ak: "\<forall>y \<in> L. apart (kk, b1, n1) y" and ap: "\<forall>y \<in> L. apart (pd, b2, n2) y" using A(3) B(3) by blast+
  have d: "\<forall>y \<in> L. data_kept m2 (fst p3) y" using ustore_beside[OF ak lo(1,2), of "kk + 8" _ "(m2, snd p)"] A(1) by (simp add: p3_def)
  have d4: "\<forall>y \<in> L. data_kept (fst p3) (fst p4) y" unfolding p4_def by (rule ustore_beside[OF ap lo(1,3)]) (use B(1) in simp_all)
  have d5: "\<forall>y \<in> L. data_kept (fst p4) (fst p5) y" unfolding p5_def by (rule ustore_beside[OF ap lo(1,3)]) (use B(1) in simp_all)
  have K: "\<forall>y \<in> L. data_kept (fst p) (fst p5) y"
  proof
    fix y assume y: "y \<in> L"
    then have "data_kept (fst p) m1 y" "data_kept m1 m2 y" using A(3) B(3) by (auto intro: same_block_data)
    then show "data_kept (fst p) (fst p5) y" using bspec[OF d y] bspec[OF d4 y] bspec[OF d5 y] by (blast intro: data_kept_trans)
  qed
  have "snd p5 = snd p" by (simp add: p5_def p4_def p3_def ustore_def)
  then have e: "p5 = (fst p5, snd p)" by (metis prod.collapse)
  have "uexecv sys noname path a p = bindR (sys 7 (of_nat path) (of_nat a) (of_nat pd) p5) (\<lambda>(v, p). ret (kk, ustore kk (le_bytes 8 v) p))"
    unfolding uexecv_def on_mem_def m1 m2 Let_def prod.case fst_conv snd_conv p3_def[symmetric] p4_def[symmetric] p5_def[symmetric] ..
  moreover have "ldb (ubytes (fst p5)) pd 8 = le_bytes 8 (of_nat noname :: u64)"
    by (simp add: p5_def p4_def ustore_def ldb_stb_other ldb_stb_same)
  moreover have "ldb (ubytes (fst p5)) (pd + 8) 8 = le_bytes 8 (0xF :: u64)"
    by (simp add: p5_def ustore_def ldb_stb_same)
  ultimately show ?thesis using K e
    by (intro exI[of _ kk] exI[of _ pd] exI[of _ "fst p5"]) (simp add: ld64_def le_word_bytes)
qed


text \<open>A shell with a buffer in its heap, and the line \<open>A\<close>, a space and a line feed, typed.\<close>

definition demo_shell :: umem where
  "demo_shell = set_header 0x2010 0x1000 3 (start_umem\<lparr>brk_end := 0x3010\<rparr>)"

lemma demo_shell_ok:
  "uheap_ok demo_shell (\<lambda>_. []) {(0x2010, 3, 4096)}" "fd_of (demo_shell, k) 0x100 = 0" "brk_end demo_shell = 0x3010"
proof -
  have f: "brk_end start_umem + 16 = 0x2010" "brk_end start_umem + 4096 + 16 = 0x3010" by (simp_all add: start_umem_def init_umalloc_def)
  show "uheap_ok demo_shell (\<lambda>_. []) {(0x2010, 3, 4096)}"
    using umalloc_fresh[OF start_umem_ok, of 3 4096 "0x1000" demo_shell, unfolded f] by (simp add: demo_shell_def bucket_size_def)
  show "brk_end demo_shell = 0x3010" by (simp add: demo_shell_def set_header_def)
  have "ubytes demo_shell (0x100 + i) = 0" if "i < 8" for i
    using that by (simp add: demo_shell_def start_umem_def init_umalloc_def set_header_def st32_def stb_def)
  then have "ldb (ubytes demo_shell) 0x100 8 = replicate 8 0" by (intro nth_equalityI) simp_all
  then show "fd_of (demo_shell, k) 0x100 = 0" by (simp add: fd_of_def ld64_def eval_nat_numeral)
qed

definition demo_command :: user_fsys where
  "demo_command = demo_talk\<lparr>fifos := (\<lambda>_. \<lparr>fdata = [65, SPACE, 0x0a] @ replicate 253 0, datac = 3, fnext = 0\<rparr>), fds := (\<lambda>_. demo_fd(0 := demo_fd 1))\<rparr>"

lemma demo_command_source: "source_at {x. x \<le> 0x100000} 0 demo_command [65, SPACE, 0x0a] 3"
proof -
  have "heap_owns demo_command {fst first_block}" using demo_talk_heap heap_owns_cong[of demo_command demo_talk] by (simp add: demo_command_def)
  then have "pipe heap_owns 1 2 demo_command [65, SPACE, 0x0a] 1"
    unfolding pipe_def by (intro exI[of _ "{fst first_block}"] exI[of _ "[fst first_block]"])
      (simp add: demo_command_def demo_talk_simps demo_streams_simps buf_ok_def filled_def)
  moreover have "stack_pages demo_command = stack_pages demo_talk" by (rule stack_pages_cong) (simp add: demo_command_def ldq_def)
  moreover have "kernelFd 0 demo_command = demo_fd 1" by (simp add: demo_command_def kernelFd_def)
  moreover have "in_brk demo_command x = in_brk demo_talk x" for x by (simp add: demo_command_def in_brk_def my_brk_def tcb_def)
  ultimately show ?thesis using demo_talk_pages demo_talk_brk by (auto simp: source_at_def demo_fd_def FDS_def)
qed


end
