(* ===== verification/Handshake.thy ===== *)
theory Handshake
  imports Streams
begin

section \<open>Reader and writer of a stream as two tasks (filesystem.c)\<close>

text \<open>
  The loops of \<open>STDOUTStream\<close> and \<open>STDINStream\<close> with the calls around their iterations: the semaphore of the
  chain, the cell \<open>waiter\<close> with \<open>wfPokeT\<close> and \<open>PokeT\<close>, and the sleep of the writer. The two tasks run one step at a time in any
  order. A step is a stretch of code between two points where the processor can change hands; the iteration itself is \<open>put\<close>
  or \<open>get\<close> on the chain. The semaphore admits one task and hands itself to the first task in its queue when it is released, the
  behaviour \<open>Proc\<close> shows of \<open>acquire_semaphore\<close> and \<open>release_semaphore\<close>; \<open>waiter_set\<close> says that the cell holds the reader, the
  only task that ever waits for a poke here.
\<close>

subsection \<open>The two programs\<close>

datatype writer_at = W_test | W_locked | W_in | W_release | W_poke | W_sleep | W_done
datatype reader_at = R_test | R_blocked | R_acquire | R_locked | R_in | R_release | R_done
datatype party = Writer | Reader

record 's streaming =
  w_at :: writer_at
  w_left :: "u8 list"
  r_at :: reader_at
  r_got :: "u8 list"
  r_want :: nat
  toRelent :: bool
  sema_count :: nat
  sema_queue :: "party list"
  waiter_set :: bool
  chan :: 's

fun enters :: "party \<Rightarrow> 's streaming \<Rightarrow> 's streaming" where
  "enters Writer c = c\<lparr>w_at := W_in\<rparr>"
| "enters Reader c = c\<lparr>r_at := R_in\<rparr>"

fun lines_up :: "party \<Rightarrow> 's streaming \<Rightarrow> 's streaming" where
  "lines_up Writer c = c\<lparr>w_at := W_locked\<rparr>"
| "lines_up Reader c = c\<lparr>r_at := R_locked\<rparr>"

definition sema_acquire :: "party \<Rightarrow> 's streaming \<Rightarrow> 's streaming" where
  "sema_acquire t c =
     (if sema_count c < 1 then enters t (c\<lparr>sema_count := sema_count c + 1\<rparr>) else lines_up t (c\<lparr>sema_queue := sema_queue c @ [t]\<rparr>))"

definition sema_release :: "'s streaming \<Rightarrow> 's streaming" where
  "sema_release c =
     (case sema_queue c of [] \<Rightarrow> c\<lparr>sema_count := sema_count c - 1\<rparr> | t # ts \<Rightarrow> enters t (c\<lparr>sema_queue := ts\<rparr>))"

text \<open>\<open>STDOUTStream\<close>; a fault of \<open>put\<close> ends the machine.\<close>

definition writer_step :: "(u8 list \<Rightarrow> 's \<Rightarrow> (u8 list \<times> 's) run) \<Rightarrow> 's streaming \<Rightarrow> 's streaming option" where
  "writer_step put c =
     (case w_at c of
        W_test \<Rightarrow> Some (if w_left c = [] then c\<lparr>w_at := W_done\<rparr> else sema_acquire Writer c)
      | W_in \<Rightarrow> (case put (w_left c) (chan c) of
            Some (Inr (ys, s)) \<Rightarrow> Some (c\<lparr>w_left := ys, chan := s, w_at := W_release\<rparr>)
          | _ \<Rightarrow> None)
      | W_release \<Rightarrow> Some (sema_release (c\<lparr>w_at := W_poke\<rparr>))
      | W_poke \<Rightarrow> Some (if waiter_set c then c\<lparr>waiter_set := False, r_at := R_acquire, w_at := W_test\<rparr> else c\<lparr>w_at := W_sleep\<rparr>)
      | W_sleep \<Rightarrow> Some (c\<lparr>w_at := W_test\<rparr>)
      | W_locked \<Rightarrow> None
      | W_done \<Rightarrow> None)"

text \<open>\<open>STDINStream\<close> on an end that is open when it starts; \<open>opn\<close> says whether it still is. \<open>wfPokeT\<close> stops with a fault when
  somebody waits already.\<close>

definition reader_step :: "(nat \<Rightarrow> 's \<Rightarrow> (u8 list \<times> bool \<times> 's) run) \<Rightarrow> ('s \<Rightarrow> bool) \<Rightarrow> 's streaming \<Rightarrow> 's streaming option" where
  "reader_step get opn c =
     (case r_at c of
        R_test \<Rightarrow>
          if r_want c = 0 \<or> \<not> opn (chan c) then Some (c\<lparr>r_at := R_done\<rparr>)
          else if toRelent c then (if waiter_set c then None else Some (c\<lparr>r_at := R_blocked, waiter_set := True, toRelent := False\<rparr>))
          else Some (sema_acquire Reader c)
      | R_acquire \<Rightarrow> Some (sema_acquire Reader c)
      | R_in \<Rightarrow> (case get (r_want c) (chan c) of
            Some (Inr (ys, w, s)) \<Rightarrow> Some (c\<lparr>r_got := r_got c @ ys, r_want := r_want c - length ys, toRelent := w, chan := s, r_at := R_release\<rparr>)
          | _ \<Rightarrow> None)
      | R_release \<Rightarrow> Some (sema_release (c\<lparr>r_at := R_test\<rparr>))
      | R_blocked \<Rightarrow> None
      | R_locked \<Rightarrow> None
      | R_done \<Rightarrow> None)"

inductive pipe_step :: "(u8 list \<Rightarrow> 's \<Rightarrow> (u8 list \<times> 's) run) \<Rightarrow> (nat \<Rightarrow> 's \<Rightarrow> (u8 list \<times> bool \<times> 's) run) \<Rightarrow> ('s \<Rightarrow> bool) \<Rightarrow>
    's streaming \<Rightarrow> 's streaming \<Rightarrow> bool" for put get opn where
  writer: "writer_step put c = Some c' \<Longrightarrow> pipe_step put get opn c c'"
| reader: "reader_step get opn c = Some c' \<Longrightarrow> pipe_step put get opn c c'"

inductive_cases pipe_stepE: "pipe_step put get opn c c'"

definition pipe_start :: "u8 list \<Rightarrow> nat \<Rightarrow> 's \<Rightarrow> 's streaming" where
  "pipe_start xs n s = \<lparr>w_at = W_test, w_left = xs, r_at = R_test, r_got = [], r_want = n, toRelent = False,
     sema_count = 0, sema_queue = [], waiter_set = False, chan = s\<rparr>"

subsection \<open>The invariant\<close>

definition w_holds :: "'s streaming \<Rightarrow> bool" where
  "w_holds c \<longleftrightarrow> w_at c = W_in \<or> w_at c = W_release"

definition r_holds :: "'s streaming \<Rightarrow> bool" where
  "r_holds c \<longleftrightarrow> r_at c = R_in \<or> r_at c = R_release"

definition exclusive :: "'s streaming \<Rightarrow> bool" where
  "exclusive c \<longleftrightarrow> \<not> (w_holds c \<and> r_holds c) \<and> sema_count c = (if w_holds c \<or> r_holds c then 1 else 0) \<and>
     sema_queue c = (if w_at c = W_locked then [Writer] else if r_at c = R_locked then [Reader] else []) \<and>
     (w_at c = W_locked \<longrightarrow> r_holds c) \<and> (r_at c = R_locked \<longrightarrow> w_holds c)"

definition busy :: "'s streaming \<Rightarrow> bool" where
  "busy c \<longleftrightarrow> (waiter_set c \<longleftrightarrow> r_at c = R_blocked) \<and> (w_at c \<in> {W_in, W_locked} \<longrightarrow> w_left c \<noteq> []) \<and>
     (r_at c \<in> {R_in, R_locked, R_acquire, R_blocked} \<longrightarrow> 0 < r_want c) \<and> (w_at c = W_done \<longrightarrow> w_left c = [])"

lemmas protocol_defs = exclusive_def busy_def w_holds_def r_holds_def sema_acquire_def sema_release_def

definition protocol_ok :: "'s streaming \<Rightarrow> bool" where
  "protocol_ok c \<longleftrightarrow> exclusive c \<and> busy c"

lemmas protocol_ok_defs = protocol_ok_def protocol_defs

lemma acquire_keeps:
  "\<lbrakk>protocol_ok c; w_at c = W_test; w_left c \<noteq> []\<rbrakk> \<Longrightarrow> protocol_ok (sema_acquire Writer c)"
  "\<lbrakk>protocol_ok c; r_at c = R_test \<or> r_at c = R_acquire; 0 < r_want c\<rbrakk> \<Longrightarrow> protocol_ok (sema_acquire Reader c)"
  by (cases "r_at c"; simp add: protocol_ok_defs) (cases "w_at c"; auto simp: protocol_ok_defs)

lemma release_keeps:
  "\<lbrakk>protocol_ok c; w_at c = W_release\<rbrakk> \<Longrightarrow> protocol_ok (sema_release (c\<lparr>w_at := W_poke\<rparr>))"
  "\<lbrakk>protocol_ok c; r_at c = R_release\<rbrakk> \<Longrightarrow> protocol_ok (sema_release (c\<lparr>r_at := R_test\<rparr>))"
  by (cases "r_at c"; simp add: protocol_ok_defs) (cases "w_at c"; simp add: protocol_ok_defs)

lemma moves_keep:
  assumes "protocol_ok c"
  shows "w_at c = W_test \<Longrightarrow> w_left c = [] \<Longrightarrow> protocol_ok (c\<lparr>w_at := W_done\<rparr>)"
    "w_at c = W_in \<Longrightarrow> protocol_ok (c\<lparr>w_left := ys, chan := s, w_at := W_release\<rparr>)"
    "w_at c = W_poke \<Longrightarrow> waiter_set c \<Longrightarrow> protocol_ok (c\<lparr>waiter_set := False, r_at := R_acquire, w_at := W_test\<rparr>)"
    "w_at c = W_poke \<Longrightarrow> \<not> waiter_set c \<Longrightarrow> protocol_ok (c\<lparr>w_at := W_sleep\<rparr>)"
    "w_at c = W_sleep \<Longrightarrow> protocol_ok (c\<lparr>w_at := W_test\<rparr>)"
    "r_at c = R_test \<Longrightarrow> protocol_ok (c\<lparr>r_at := R_done\<rparr>)"
    "r_at c = R_test \<Longrightarrow> 0 < r_want c \<Longrightarrow> protocol_ok (c\<lparr>r_at := R_blocked, waiter_set := True, toRelent := False\<rparr>)"
    "r_at c = R_in \<Longrightarrow> protocol_ok (c\<lparr>r_got := g, r_want := n, toRelent := w, chan := s, r_at := R_release\<rparr>)"
  using assms by (simp_all add: protocol_ok_defs)

lemma writer_keeps:
  assumes "protocol_ok c" "writer_step put c = Some c'"
  shows "protocol_ok c'"
proof (cases "w_at c")
  case W_in
  then show ?thesis using assms(2) moves_keep(2)[OF assms(1)] by (auto simp: writer_step_def split: option.splits sum.splits)
next
  case W_test
  then have "c' = (if w_left c = [] then c\<lparr>w_at := W_done\<rparr> else sema_acquire Writer c)" using assms(2) by (simp add: writer_step_def)
  then show ?thesis using W_test moves_keep(1)[OF assms(1)] acquire_keeps(1)[OF assms(1)] by simp
next
  case W_release
  then show ?thesis using assms(2) release_keeps(1)[OF assms(1)] by (auto simp: writer_step_def)
next
  case W_poke
  then have "c' = (if waiter_set c then c\<lparr>waiter_set := False, r_at := R_acquire, w_at := W_test\<rparr> else c\<lparr>w_at := W_sleep\<rparr>)"
    using assms(2) by (simp add: writer_step_def)
  then show ?thesis using W_poke moves_keep(3,4)[OF assms(1)] by simp
next
  case W_sleep
  then show ?thesis using assms(2) moves_keep(5)[OF assms(1)] by (auto simp: writer_step_def)
qed (use assms(2) in \<open>simp_all add: writer_step_def\<close>)

lemma reader_keeps:
  assumes "protocol_ok c" "reader_step get opn c = Some c'"
  shows "protocol_ok c'"
proof (cases "r_at c")
  case R_in
  then show ?thesis using assms(2) moves_keep(8)[OF assms(1)] by (auto simp: reader_step_def split: option.splits sum.splits)
next
  case R_test
  then show ?thesis using assms(2) moves_keep(6,7)[OF assms(1)] acquire_keeps(2)[OF assms(1)]
    by (auto simp: reader_step_def split: if_splits)
next
  case R_acquire
  then have "0 < r_want c" using assms(1) by (simp add: protocol_ok_defs)
  then show ?thesis using assms(2) R_acquire acquire_keeps(2)[OF assms(1)] by (auto simp: reader_step_def)
next
  case R_release
  then show ?thesis using assms(2) release_keeps(2)[OF assms(1)] by (auto simp: reader_step_def)
qed (use assms(2) in \<open>simp_all add: reader_step_def\<close>)

lemma pipe_step_keeps: "pipe_step put get opn c c' \<Longrightarrow> protocol_ok c \<Longrightarrow> protocol_ok c'"
  by (erule pipe_stepE) (rule writer_keeps reader_keeps, assumption+)+

lemma pipe_start_ok: "protocol_ok (pipe_start xs n s)"
  by (simp add: pipe_start_def protocol_ok_defs)

lemma pipe_steps_keep:
  assumes "(pipe_step put get opn)\<^sup>*\<^sup>* c c'" "protocol_ok c"
  shows "protocol_ok c'"
  using assms(1)
proof (induction rule: rtranclp_induct)
  case base
  show ?case by (rule assms(2))
next
  case (step c1 c2)
  show ?case by (rule pipe_step_keeps[OF step(2,3)])
qed

text \<open>Neither party is on the way to wait for the other for ever: only \<open>done\<close>, a fault and the missed poke stop the machine.\<close>

lemma pipe_stuck:
  assumes "protocol_ok c" "\<nexists>c'. pipe_step put get opn c c'" "r_at c = R_in \<Longrightarrow> \<exists>r. get (r_want c) (chan c) = ret r"
  shows "(w_at c = W_in \<and> (\<nexists>r. put (w_left c) (chan c) = ret r)) \<or> (w_at c = W_done \<and> r_at c \<in> {R_done, R_blocked})"
proof -
  have P: "exclusive c" "busy c" using assms(1) by (simp_all add: protocol_ok_def)
  have W: "writer_step put c = None"
  proof (cases "writer_step put c")
    case (Some c')
    then show ?thesis using assms(2) pipe_step.writer by metis
  qed
  have R: "reader_step get opn c = None"
  proof (cases "reader_step get opn c")
    case (Some c')
    then show ?thesis using assms(2) pipe_step.reader by metis
  qed
  have "r_at c \<noteq> R_in" using R assms(3) by (auto simp: reader_step_def ret_def)
  then have r: "r_at c \<in> {R_done, R_blocked, R_locked}"
    using R P(2) by (cases "r_at c") (auto simp: reader_step_def busy_def split: if_splits)
  then have rh: "\<not> r_holds c" by (auto simp: r_holds_def)
  have w: "w_at c \<in> {W_in, W_locked, W_done}" using W by (cases "w_at c") (auto simp: writer_step_def)
  have "w_at c \<noteq> W_locked" using P(1) rh by (auto simp: exclusive_def)
  moreover have "\<nexists>r. put (w_left c) (chan c) = ret r" if "w_at c = W_in"
    using W that by (auto simp: writer_step_def ret_def)
  moreover have "r_at c \<noteq> R_locked" if "w_at c = W_done" using P(1) that by (auto simp: exclusive_def w_holds_def)
  ultimately show ?thesis using r w by auto
qed

subsection \<open>The machine refines the interleaving of iterations\<close>

definition config_of :: "'s streaming \<Rightarrow> 's config" where
  "config_of c = (w_left c, r_got c, r_want c, chan c)"

lemma config_of_sema: "config_of (sema_acquire t c) = config_of c" "config_of (sema_release c) = config_of c"
  by (cases t; simp add: sema_acquire_def config_of_def)
    (cases "sema_queue c"; simp add: sema_release_def config_of_def; cases "hd (sema_queue c)"; simp)

lemma config_of_moves:
  "config_of (c\<lparr>w_at := x\<rparr>) = config_of c" "config_of (c\<lparr>r_at := y\<rparr>) = config_of c" "config_of (c\<lparr>waiter_set := b\<rparr>) = config_of c"
  "config_of (c\<lparr>toRelent := t\<rparr>) = config_of c"
  by (simp_all add: config_of_def)

lemma writer_refines:
  assumes "protocol_ok c" "writer_step put c = Some c'"
  shows "(chan_step put get)\<^sup>*\<^sup>* (config_of c) (config_of c')"
proof (cases "w_at c = W_in")
  case True
  then obtain ys s where p: "put (w_left c) (chan c) = ret (ys, s)" "c' = c\<lparr>w_left := ys, chan := s, w_at := W_release\<rparr>"
    using assms(2) by (auto simp: writer_step_def ret_def split: option.splits sum.splits)
  have "w_left c \<noteq> []" using assms(1) True by (simp add: protocol_ok_defs)
  then have "chan_step put get (config_of c) (config_of c')" unfolding p(2) using write_step[where put = put, OF _ p(1)] by (simp add: config_of_def)
  then show ?thesis ..
next
  case False
  then have "config_of c' = config_of c"
    using assms(2) by (cases "w_at c") (auto simp: writer_step_def config_of_sema config_of_moves split: if_splits)
  then show ?thesis by simp
qed

lemma reader_refines:
  assumes "protocol_ok c" "reader_step get opn c = Some c'"
  shows "(chan_step put get)\<^sup>*\<^sup>* (config_of c) (config_of c')"
proof (cases "r_at c = R_in")
  case True
  then obtain ys w s where p: "get (r_want c) (chan c) = ret (ys, w, s)"
      "c' = c\<lparr>r_got := r_got c @ ys, r_want := r_want c - length ys, toRelent := w, chan := s, r_at := R_release\<rparr>"
    using assms(2) by (auto simp: reader_step_def ret_def split: option.splits sum.splits)
  have "0 < r_want c" using assms(1) True by (simp add: protocol_ok_defs)
  then have "chan_step put get (config_of c) (config_of c')" unfolding p(2) using read_step[where get = get, OF _ p(1)] by (simp add: config_of_def)
  then show ?thesis ..
next
  case False
  then have "config_of c' = config_of c"
    using assms(2) by (cases "r_at c") (auto simp: reader_step_def config_of_sema config_of_moves split: if_splits)
  then show ?thesis by simp
qed

lemma pipe_refines:
  assumes "(pipe_step put get opn)\<^sup>*\<^sup>* c c'" "protocol_ok c"
  shows "(chan_step put get)\<^sup>*\<^sup>* (config_of c) (config_of c')"
  using assms(1)
proof (induction rule: rtranclp_induct)
  case (step c1 c2)
  have "protocol_ok c1" by (rule pipe_steps_keep[OF step(1) assms(2)])
  then have "(chan_step put get)\<^sup>*\<^sup>* (config_of c1) (config_of c2)"
    using step(2) writer_refines reader_refines by (blast elim: pipe_stepE)
  then show ?case using step(3) by (rule rtranclp_trans[rotated])
qed simp

context channel begin

lemma machine_in_order:
  assumes "(pipe_step put get opn)\<^sup>*\<^sup>* (pipe_start xs n s) c" "rep s [] k"
  shows "(\<exists>rest. xs = r_got c @ rest) \<and> (r_want c = 0 \<longrightarrow> r_got c = take n xs) \<and> (\<exists>q k'. rep (chan c) q k' \<and> xs = r_got c @ q @ w_left c)"
proof -
  have "(chan_step put get)\<^sup>*\<^sup>* (xs, [], n, s) (w_left c, r_got c, r_want c, chan c)"
    using pipe_refines[OF assms(1) pipe_start_ok] by (simp add: config_of_def pipe_start_def)
  from in_order[OF this assms(2)] steps_keep[OF this assms(2)] show ?thesis by auto
qed

lemma machine_stuck:
  assumes r: "(pipe_step put get opn)\<^sup>*\<^sup>* (pipe_start xs n s) c" and k: "rep s [] k" and st: "\<nexists>c'. pipe_step put get opn c c'"
  shows "(w_at c = W_in \<and> (\<nexists>r. put (w_left c) (chan c) = ret r)) \<or> (w_at c = W_done \<and> r_at c \<in> {R_done, R_blocked})"
proof (rule pipe_stuck[OF _ st])
  show P: "protocol_ok c" by (rule pipe_steps_keep[OF r pipe_start_ok])
  assume "r_at c = R_in"
  then have "0 < r_want c" using P by (simp add: protocol_ok_defs)
  moreover obtain q k' where "rep (chan c) q k'" using machine_in_order[OF r k] by blast
  ultimately show "\<exists>r. get (r_want c) (chan c) = ret r" using get by blast
qed

end

text \<open>The run in which the poke is missed: the reader finds nothing, and before it waits the writer does all it has to do.\<close>

lemma missed_poke_run:
  fixes s s1 s2 :: 's
  assumes g: "get n s = ret ([], True, s1)" and p: "put xs s1 = ret ([], s2)" and "0 < n" "xs \<noteq> []" "opn s" "opn s2"
  shows "(pipe_step put get opn)\<^sup>*\<^sup>* (pipe_start xs n s) \<lparr>w_at = W_done, w_left = [], r_at = R_blocked, r_got = [], r_want = n, toRelent = False,
     sema_count = 0, sema_queue = [], waiter_set = True, chan = s2\<rparr>"
proof -
  let ?R = "(pipe_step put get opn)\<^sup>*\<^sup>*"
  define C where "C w xs r rel i b s = \<lparr>w_at = w, w_left = xs, r_at = r, r_got = [] :: u8 list, r_want = n, toRelent = rel,
     sema_count = i, sema_queue = [] :: party list, waiter_set = b, chan = s\<rparr>" for w xs r rel i b and s :: 's
  have R: "?R c c'" if "reader_step get opn c = Some c'" for c c' using pipe_step.reader[OF that] by blast
  have W: "?R c c'" if "writer_step put c = Some c'" for c c' using pipe_step.writer[OF that] by blast
  note simps = C_def reader_step_def writer_step_def sema_acquire_def sema_release_def
  have "?R (C W_test xs R_test False 0 False s) (C W_test xs R_in False 1 False s)" by (rule R) (use assms in \<open>simp add: simps\<close>)
  also have "?R \<dots> (C W_test xs R_release True 1 False s1)" by (rule R) (use g in \<open>simp add: simps ret_def\<close>)
  also have "?R \<dots> (C W_test xs R_test True 0 False s1)" by (rule R) (simp add: simps)
  also have "?R \<dots> (C W_in xs R_test True 1 False s1)" by (rule W) (use assms in \<open>simp add: simps\<close>)
  also have "?R \<dots> (C W_release [] R_test True 1 False s2)" by (rule W) (use p in \<open>simp add: simps ret_def\<close>)
  also have "?R \<dots> (C W_poke [] R_test True 0 False s2)" by (rule W) (simp add: simps)
  also have "?R \<dots> (C W_sleep [] R_test True 0 False s2)" by (rule W) (simp add: simps)
  also have "?R \<dots> (C W_test [] R_test True 0 False s2)" by (rule W) (simp add: simps)
  also have "?R \<dots> (C W_done [] R_test True 0 False s2)" by (rule W) (simp add: simps)
  also have "?R \<dots> (C W_done [] R_blocked False 0 True s2)" by (rule R) (use assms in \<open>simp add: simps\<close>)
  finally show ?thesis by (simp add: C_def pipe_start_def)
qed

subsection \<open>The tasks on the kernel's pipes\<close>

definition stream_step :: "addr \<Rightarrow> addr \<Rightarrow> 'a streams_scheme streaming \<Rightarrow> 'a streams_scheme streaming \<Rightarrow> bool" where
  "stream_step a r = pipe_step (stdout_chunk buffer_malloc a) (stdin_chunk heap_free r) (\<lambda>s. pairIn (ios s r) \<noteq> 0)"



text \<open>C8. The poke can be missed. The reader finds the pipe empty and gives the semaphore back; before it waits for the poke the
  writer writes its bytes, finds nobody waiting, and returns. The bytes are in the pipe, the reader waits, and nothing moves.\<close>

theorem stream_poke_missed:
  assumes "pipe heap_owns a r s [] 1" and "0 < n" and "xs \<noteq> []" and "length xs \<le> 255"
  shows "\<exists>c. (stream_step a r)\<^sup>*\<^sup>* (pipe_start xs n s) c \<and> (\<nexists>c'. stream_step a r c c') \<and> w_at c = W_done \<and> r_at c = R_blocked \<and>
    r_got c = [] \<and> (\<exists>k. pipe heap_owns a r (chan c) xs k)"
proof -
  obtain ps where ps: "length ps = 1" "fifo_chain s (bufferOut (ios s a)) (bufferOutEnd (ios s a)) ps" "bytes_of s ps = []"
      "\<forall>p. buf_ok (fifos s p)" "a \<noteq> 0" "pairIn (ios s r) = a"
    using assms(1) by (auto simp: pipe_def)
  obtain b where b: "ps = [b]" using ps(1) by (metis One_nat_def length_0_conv length_Suc_conv)
  then have e: "bufferOut (ios s a) = b" "bufferOutEnd (ios s a) = b" using ps(2) by simp_all
  have "filled (fifos s b) = []" using ps(3) b by simp
  moreover have "length (fdata (fifos s b)) = 256" using ps(4) by (simp add: buf_ok_def)
  ultimately have d: "datac (fifos s b) = 0" by (auto simp: filled_def unsigned_eq_0_iff)
  have g: "stdin_chunk heap_free r n s = ret ([], True, s)" by (simp add: stdin_chunk_def e d ps(6))
  obtain s2 where p: "stdout_chunk buffer_malloc a xs s = ret ([], s2)" using assms(4) by (simp add: stdout_chunk_def e d Let_def)
  obtain k where k: "pipe heap_owns a r s2 xs k" using kernel.put_ok[OF assms(1,3) p] by auto
  have o: "pairIn (ios s r) \<noteq> 0" "pairIn (ios s2 r) \<noteq> 0" using ps(5,6) kernel.pipe_open[OF k] by simp_all
  define c where "c = \<lparr>w_at = W_done, w_left = [], r_at = R_blocked, r_got = [], r_want = n, toRelent = False,
     sema_count = 0, sema_queue = [], waiter_set = True, chan = s2\<rparr>"
  have "(stream_step a r)\<^sup>*\<^sup>* (pipe_start xs n s) c"
    unfolding stream_step_def c_def by (rule missed_poke_run) (rule g p assms(2,3) o)+
  moreover have "\<not> stream_step a r c c'" for c'
    by (auto simp: stream_step_def c_def writer_step_def reader_step_def elim: pipe_stepE)
  ultimately show ?thesis using k by (intro exI[of _ c]) (auto simp: c_def)
qed

text \<open>Two bytes for a reader of one: the run above on concrete streams, and a state in it where the reader holds the semaphore.\<close>

lemma demo_first_step: "(stream_step 1 2)\<^sup>*\<^sup>* (pipe_start [65, 66] 1 demo_streams) ((pipe_start [65, 66] 1 demo_streams)\<lparr>sema_count := 1, r_at := R_in\<rparr>)"
proof -
  have "reader_step (stdin_chunk heap_free 2) (\<lambda>s. pairIn (ios s 2) \<noteq> 0) (pipe_start [65, 66] 1 demo_streams) =
      Some ((pipe_start [65, 66] 1 demo_streams)\<lparr>sema_count := 1, r_at := R_in\<rparr>)"
    by (simp add: reader_step_def pipe_start_def sema_acquire_def demo_streams_simps)
  then show ?thesis unfolding stream_step_def by (intro r_into_rtranclp pipe_step.reader)
qed


theorem stream_poke_missed_witness:
  "\<exists>c. (stream_step 1 2)\<^sup>*\<^sup>* (pipe_start [65, 66] 1 demo_streams) c \<and> (\<nexists>c'. stream_step 1 2 c c') \<and> r_at c = R_blocked \<and>
    (\<exists>k. pipe heap_owns 1 2 (chan c) [65, 66] k)"
  using stream_poke_missed[OF demo_pipe, of 1 "[65, 66]"] by auto


end
