(* ===== verification/Init.thy ===== *)
theory Init
  imports Exec
begin

section \<open>Starting programs (usermode.c, driver.c, filesystem.c)\<close>

text \<open>
  The functions that start a task and wait for it. A task that gives up the processor goes on when it is switched to again: \<open>asleep\<close>
  is \<open>nano_sleep\<close>, \<open>paused\<close> is \<open>block_task(4)\<close> and \<open>buried\<close> is \<open>waitForChildToDie\<close> as the calling task sees them, from the
  state in which it calls to the one in which it runs again. What the calls themselves do is in \<open>Proc\<close>.
\<close>

type_synonym 's resumed = "'s \<Rightarrow> 's run"

subsection \<open>exec\<close>

partial_function (option) ExecFile_wait :: "'a user_fsys_scheme resumed \<Rightarrow> addr \<Rightarrow> 'a user_fsys_scheme \<Rightarrow> 'a user_fsys_scheme run" where
  "ExecFile_wait asleep n s =
     (if ea_done (exec_args s n) then ret s else bindR (asleep s) (\<lambda>s. ExecFile_wait asleep n s))"

definition ExecFile :: "'a user_alloc \<Rightarrow> addr \<Rightarrow> 'a user_fsys_scheme resumed \<Rightarrow> u8 list \<Rightarrow> u8 list \<Rightarrow> addr \<Rightarrow> 'a user_fsys_scheme \<Rightarrow>
    (u64 \<times> 'a user_fsys_scheme) run" where
  "ExecFile kpalloc execn asleep A argv pd s =
     bindR (ExecFile_args kpalloc A argv s) (\<lambda>(n, s).
     bindR (ckprocA kpalloc execn n pd s) (\<lambda>(M, s).
     bindR (ExecFile_wait asleep n s) (\<lambda>s. ret (pid (tcb M s), s))))"

text \<open>The new task; the result is the entry of the program and the argument of its start.\<close>

definition ExecN :: "'a user_alloc \<Rightarrow> (u64 \<Rightarrow> 'a user_fsys_scheme \<Rightarrow> (addr \<times> u8 list \<times> 'a user_fsys_scheme) run) \<Rightarrow>
    addr \<times> u8 list \<Rightarrow> u8 list \<Rightarrow> 'a user_fsys_scheme resumed \<Rightarrow> addr \<Rightarrow> 'a user_fsys_scheme \<Rightarrow> (addr \<times> u64 \<times> 'a user_fsys_scheme) run" where
  "ExecN kpalloc kpallocs b2 junk paused A s =
     bindR (ExecN_load kpalloc kpallocs b2 junk A s) (\<lambda>(INI, rdi, s).
     bindR (paused s) (\<lambda>s. switchToUserModeProc kpalloc INI rdi s))"

subsection \<open>Drivers and the first program\<close>

definition dProbe :: "'a user_alloc \<Rightarrow> addr \<Rightarrow> 'a user_fsys_scheme resumed \<Rightarrow> u8 list \<Rightarrow> u8 list \<Rightarrow> 'a user_fsys_scheme \<Rightarrow> 'a user_fsys_scheme run" where
  "dProbe kpalloc execn asleep name argv s =
     bindR (if LAST_DEVICE s = - 1 then bindR (lift (kpalloc s)) (\<lambda>(p, s). ret (s\<lparr>LAST_DEVICE := 0\<rparr>)) else ret s) (\<lambda>s.
     bindR (ExecFile kpalloc execn asleep name argv (perms (tcb (current_task_TCB s) s)) s) (\<lambda>(new_PID, s).
     bindR (find_child_by_pid new_PID s) (\<lambda>new_task.
     bindR (unblock_task new_task (upd new_task (\<lambda>t. t\<lparr>PL := 2\<rparr>) s)) (\<lambda>s. block_task STATE_WAITING_FOR_POKE s))))"

partial_function (option) keyboard_wait :: "'a user_fsys_scheme resumed \<Rightarrow> ('a user_fsys_scheme \<Rightarrow> bool) \<Rightarrow> 'a user_fsys_scheme \<Rightarrow>
    'a user_fsys_scheme run" where
  "keyboard_wait asleep keyboard_init s =
     (if keyboard_init s then ret s else bindR (asleep s) (\<lambda>s. keyboard_wait asleep keyboard_init s))"

definition sbin_init :: "u8 list" where
  "sbin_init = [0x2f, 0x73, 0x62, 0x69, 0x6e, 0x2f, 0x69, 0x6e, 0x69, 0x74]"

text \<open>\<open>driver\<close> is the address of \<open>PS2_DRIVER\<close>, \<open>root\<close> the inode of the root directory; the \<open>int\<close> that holds the number of the
  process is sign-extended.\<close>

definition start_init_task :: "'a user_alloc \<Rightarrow> addr \<times> u8 list \<Rightarrow> addr \<Rightarrow> addr \<Rightarrow> inode option \<Rightarrow> ('a user_fsys_scheme \<Rightarrow> bool) \<Rightarrow>
    'a user_fsys_scheme resumed \<Rightarrow> 'a user_fsys_scheme resumed \<Rightarrow> 'a user_fsys_scheme \<Rightarrow> 'a user_fsys_scheme run" where
  "start_init_task kpalloc b2 driver execn root keyboard_init asleep buried s =
     bindR (InitKernelFd kpalloc b2 s) (\<lambda>s.
     bindR (cPD kpalloc 0xFF root s) (\<lambda>(pd, s).
     bindR (ckprocA kpalloc driver 0 pd s) (\<lambda>(M, s).
     bindR (keyboard_wait asleep keyboard_init s) (\<lambda>s.
     bindR (cPD kpalloc 0xFF root s) (\<lambda>(pd, s).
     bindR (ExecFile kpalloc execn asleep sbin_init [] pd s) (\<lambda>(m, s).
     bindR (unblock_child (scast (ucast m :: u32)) s) (\<lambda>s.
     bindR (buried s) (\<lambda>s. stop (ERROR ERR_DEADCODE 1)))))))))"

subsection \<open>Letting a new program go\<close>

fun children_at :: "'a sched_scheme \<Rightarrow> addr \<Rightarrow> addr list \<Rightarrow> bool" where
  "children_at s w [] \<longleftrightarrow> w = 0"
| "children_at s w (x # xs) \<longleftrightarrow> w = x \<and> x \<noteq> 0 \<and> children_at s (ch_next (chs s x)) xs"

lemma unblock_child_none:
  "children_at s w xs \<Longrightarrow> \<forall>x \<in> set xs. pid (tcb (ch (chs s x)) s) \<noteq> q \<Longrightarrow> unblock_child_loop q w s = ret s"
  by (induction xs arbitrary: w) (simp_all add: unblock_child_loop.simps[of q])

text \<open>What a switch of tasks leaves alone.\<close>

definition tree_kept :: "'a user_fsys_scheme \<Rightarrow> 'a user_fsys_scheme \<Rightarrow> bool" where
  "tree_kept s s' \<longleftrightarrow> chs s' = chs s \<and> exec_args s' = exec_args s \<and>
     (\<forall>p. pid (tcb p s') = pid (tcb p s) \<and> children (tcb p s') = children (tcb p s))"

lemma tree_kept_trans: "tree_kept s t \<Longrightarrow> tree_kept t u \<Longrightarrow> tree_kept s u"
  by (simp add: tree_kept_def)

lemma tree_kept_upd: "(\<And>t. pid (f t) = pid t \<and> children (f t) = children t) \<Longrightarrow> tree_kept s (upd p f s)"
  by (simp add: tree_kept_def) (simp add: upd_def)

lemma tree_kept_fields:
  "tree_kept s (s\<lparr>current_task_TCB := a\<rparr>)" "tree_kept s (s\<lparr>LAST_THREAD := a\<rparr>)" "tree_kept s (s\<lparr>FIRST_THREAD := a\<rparr>)" "tree_kept s (stq a v s)"
  by (simp_all add: tree_kept_def stq_def tcb_def)

lemma switch_to_task_keeps:
  assumes "switch_to_task task s = ret s'"
  shows "tree_kept s s'"
proof -
  let ?old = "current_task_TCB s"
  define s1 where "s1 = (if ?old \<noteq> 0 \<and> state (tcb ?old s) = STATE_RUNNING then requeue ?old s else s)"
  define s2 where "s2 = (upd task (\<lambda>t. t\<lparr>state := STATE_RUNNING\<rparr>) s1)\<lparr>current_task_TCB := task\<rparr>"
  have "tree_kept s (requeue ?old s)"
    unfolding requeue_def append_ready_def Let_def by (simp add: tree_kept_def) (simp add: upd_def)
  then have 1: "tree_kept s s1" by (simp add: s1_def tree_kept_def)
  have 2: "tree_kept s1 s2" unfolding s2_def by (rule tree_kept_trans[OF tree_kept_upd tree_kept_fields(1)]) simp
  have "s' = s2 \<or> s' = stq PML4V (ldq s2 (cr3 (tcb task s2))) (stq (cr3 (tcb ?old s2)) (ldq s2 PML4V) s2)"
    using assms by (auto simp: switch_to_task_def Let_def s1_def[symmetric] s2_def[symmetric] bindR_ret_iff split: if_splits)
  moreover have "tree_kept s2 s2" by (simp add: tree_kept_def)
  moreover have "tree_kept s2 (stq PML4V v (stq a u s2))" for a u v by (rule tree_kept_trans[OF tree_kept_fields(4) tree_kept_fields(4)])
  ultimately have "tree_kept s2 s'" by metis
  then show ?thesis using 1 2 tree_kept_trans by blast
qed

lemma schedule_keeps:
  assumes p: "postpone_task_switches_counter s = 0" and c: "current_task_TCB s \<noteq> 0" and dead: "DEAD_TASKS s = 0"
    and st: "state (tcb (current_task_TCB s) s) = STATE_RUNNING" and x: "FIRST_THREAD s = x" "x \<noteq> 0" and r: "schedule s = ret s'"
  shows "tree_kept s s'"
proof -
  define s1 where "s1 = s\<lparr>DEAD_TASKS := 0, FIRST_THREAD := nxt (tcb x s), time_slice_remaining := 50000000\<rparr>"
  define s2 where "s2 = (update_time_used s1)\<lparr>iopl := if PL (tcb x (update_time_used s1)) = 2 then 3 else 0\<rparr>"
  have "schedule s = switch_to_task x (loadRSP0 (rsp0 (tcb x s2)) s2)"
    using p c dead st x by (simp add: schedule_def switch_to_task_wrapper_def Let_def s1_def s2_def)
  then have "tree_kept (loadRSP0 (rsp0 (tcb x s2)) s2) s'" using r by (intro switch_to_task_keeps) simp
  moreover have "tree_kept s2 (loadRSP0 (rsp0 (tcb x s2)) s2)" by (simp add: tree_kept_def loadRSP0_def) (simp add: upd_def)
  moreover have "tree_kept s s1" by (simp add: tree_kept_def s1_def tcb_def)
  moreover have "tree_kept s1 s2" by (simp add: tree_kept_def s2_def update_time_used_def Let_def tcb_def upd_def)
  ultimately show ?thesis using tree_kept_trans by blast
qed


lemma unblock_task_children:
  assumes "task \<noteq> 0" "state (tcb task s) \<noteq> STATE_RUNNING" "state (tcb task s) \<noteq> STATE_READY"
  shows "\<exists>s'. unblock_task task s = ret s' \<and> chs s' = chs s \<and> (\<forall>p. pid (tcb p s') = pid (tcb p s))"
  unfolding unblock_task_eq[OF assms] by (simp add: append_ready_def irq_enable_def lock_scheduler_def Let_def)

lemma children_at_cong: "chs s' = chs s \<Longrightarrow> children_at s' w xs = children_at s w xs"
  by (induction xs arbitrary: w) simp_all


lemma exec_args_upd [simp]: "exec_args (upd p f s) = exec_args s"
  by (simp add: upd_def)

text \<open>C10. The second case is reachable: the timer interrupt that ends the time slice of the new task between \<open>done = 1\<close> and \<open>block_task(4)\<close>
  makes the sleeping parent run, which finds \<open>done\<close> set.\<close>

theorem child_let_go_early:
  fixes s :: "'a user_fsys_scheme"
  assumes "postpone_task_switches_counter s = 0" and "\<not> task_switches_postponed_flag s" and "irqwaiting s = 0" and "DEAD_TASKS s = 0"
    and "0 < time_slice_remaining s" and "time_slice_remaining s \<le> 10000000" and "FIRST_THREAD s = 0"
    and "current_task_TCB s = M" and "M \<noteq> 0" and "state (tcb M s) = STATE_RUNNING"
    and "sleeping_task_list s = P" and "P \<noteq> 0" and "P \<noteq> M" and "nxt (tcb P s) = 0" and "state (tcb P s) = STATE_WAITING"
    and "ttn (tcb P s) \<le> TIME s + 10000000" and "rsp (tcb P s) = [K_unlock_scheduler]"
    and "ea_done (exec_args s n)" and "children (tcb P s) = w" and "w \<noteq> 0" and "ch (chs s w) = M" and "pid (tcb M s) = q"
  shows "\<exists>s'. PIT_IRQ_handler s = ret s' \<and> current_task_TCB s' = P \<and>
    bindR (run_tail s') (\<lambda>s. bindR (ExecFile_wait asleep n s) (unblock_child q)) = stop (ERROR ERR_TASK_BADUNBLOCK M)"
proof -
  define s1 where "s1 = (lock_stuff s)\<lparr>TIME := TIME s + 10000000, sleeping_task_list := 0\<rparr>"
  define s2 where "s2 = unlock_scheduler ((upd P (nxt_update (\<lambda>_. 0)) ((upd P (state_update (\<lambda>_. STATE_READY)) (lock_scheduler s1))
    \<lparr>LAST_THREAD := P\<rparr>))\<lparr>FIRST_THREAD := P\<rparr>)"
  have ws: "wake_sleepers P s1 = ret s2"
    using assms by (simp add: wake_sleepers.simps unblock_task_def Let_def lock_stuff_def s1_def s2_def)
  have f2: "FIRST_THREAD s2 = P" "LAST_THREAD s2 = P" "current_task_TCB s2 = M" "irqwaiting s2 = 0" "DEAD_TASKS s2 = 0"
      "postpone_task_switches_counter s2 = 1" "time_slice_remaining s2 = time_slice_remaining s" "chs s2 = chs s" "exec_args s2 = exec_args s"
    using assms by (simp_all add: s2_def s1_def unlock_scheduler_def irq_enable_def lock_scheduler_def lock_stuff_def Let_def)
  have t2: "tcb M s2 = tcb M s" "tcb P s2 = (tcb P s)\<lparr>state := STATE_READY, nxt := 0\<rparr>"
    using assms by (simp_all add: s2_def s1_def unlock_scheduler_def irq_enable_def lock_scheduler_def lock_stuff_def Let_def)
  define s3 where "s3 = push K_irq_enable (s2\<lparr>irqwaiting := 0, postpone_task_switches_counter := 0, task_switches_postponed_flag := False\<rparr>)"
  define rest where "rest = (\<lambda>s :: 'a user_fsys_scheme. let next_task = irqwaiting s; s = s\<lparr>irqwaiting := 0\<rparr>
    in bindR (wake_timeouts next_task s) (\<lambda>s. unlock_stuff_with schedule
         (if time_slice_remaining s \<noteq> 0
          then if time_slice_remaining s \<le> 10000000 then schedule_postponed s
               else s\<lparr>time_slice_remaining := time_slice_remaining s - 10000000\<rparr>
          else s)))"
  have "PIT_IRQ_handler s = bindR (wake_sleepers P s1) rest"
    using assms(11) by (simp add: PIT_IRQ_handler_def PIT_IRQ_handler_with_def s1_def lock_stuff_def rest_def Let_def)
  also have "\<dots> = schedule s3"
    using f2 assms(5,6,9) unfolding ws word_neq_0_conv[symmetric] by (simp add: rest_def Let_def wake_timeouts.simps unlock_stuff_with_def schedule_postponed_def s3_def)
  finally have pit: "PIT_IRQ_handler s = schedule s3" .
  have f3: "FIRST_THREAD s3 = P" "LAST_THREAD s3 = P" "current_task_TCB s3 = M" "DEAD_TASKS s3 = 0" "postpone_task_switches_counter s3 = 0"
      "chs s3 = chs s" "exec_args s3 = exec_args s"
    using f2 by (simp_all add: s3_def push_def)
  have t3: "tcb M s3 = (tcb M s)\<lparr>rsp := K_irq_enable # rsp (tcb M s)\<rparr>" "tcb P s3 = (tcb P s)\<lparr>state := STATE_READY, nxt := 0\<rparr>"
    using f2(3) t2 assms(13) by (simp_all add: s3_def push_def)
  have R: "ready_ok s3 [P]" using f3 t3 assms(12) by (simp add: ready_ok_def)
  have st3: "state (tcb (current_task_TCB s3) s3) = STATE_RUNNING" using f3 t3 assms(10) by simp
  obtain s4 where s4: "schedule s3 = ret s4" "current_task_TCB s4 = P" "state (tcb M s4) = STATE_READY" "rsp (tcb P s4) = [K_unlock_scheduler]"
    using schedule_switch[OF f3(5) _ f3(4) _ _ R] st3 f3(3) assms(9,13,17) t3 by auto
  have "tree_kept s3 s4" by (rule schedule_keeps[OF f3(5) _ f3(4) st3 f3(1) assms(12) s4(1)]) (use f3(3) assms(9) in simp)
  then have k4: "chs s4 = chs s" "exec_args s4 = exec_args s" "pid (tcb M s4) = q" "children (tcb P s4) = w"
    using f3 t3 assms by (simp_all add: tree_kept_def)
  define s5 where "s5 = unlock_scheduler (pop_rsp s4)"
  have f5: "chs s5 = chs s" "exec_args s5 = exec_args s" "current_task_TCB s5 = P" "pid (tcb M s5) = q" "children (tcb P s5) = w"
      "state (tcb M s5) = STATE_READY" "rsp (tcb P s5) = []"
    using k4 s4(2-4) assms(13) by (simp_all add: s5_def pop_rsp_def unlock_scheduler_def irq_enable_def Let_def)
  have "run_tail s4 = run_tail s5" using s4(2,4) by (simp add: run_tail.simps[of s4] exec_kont_def s5_def)
  also have "\<dots> = ret s5" using f5(3,7) by (simp add: run_tail.simps)
  finally have run: "run_tail s4 = ret s5" .
  have "unblock_task M s5 = stop (ERROR ERR_TASK_BADUNBLOCK M)" using assms(9) f5(6) by (simp add: unblock_task_def lock_scheduler_def tcb_def)
  then have "bindR (ExecFile_wait asleep n s5) (unblock_child q) = stop (ERROR ERR_TASK_BADUNBLOCK M)"
    using f5 assms(18,20,21) by (simp add: ExecFile_wait.simps unblock_child_def unblock_child_loop.simps[of q w])
  then show ?thesis using pit s4(1,2) run by auto
qed

text \<open>A parent at \<open>0x200\<close> that sleeps, and its only child at \<open>0x100\<close>, which runs and has set \<open>done\<close>.\<close>

definition demo_tasks :: "task_state \<Rightarrow> task_state \<Rightarrow> addr \<Rightarrow> thread_control_block" where
  "demo_tasks child parnt p =
     (if p = 0x100 then new_tcb\<lparr>state := child, pid := 7\<rparr>
      else if p = 0x200 then new_tcb\<lparr>state := parnt, rsp := [K_unlock_scheduler], children := 0x300\<rparr> else new_tcb)"

definition demo_start :: "addr \<Rightarrow> addr \<Rightarrow> (addr \<Rightarrow> thread_control_block) \<Rightarrow> user_fsys" where
  "demo_start cur asleep t = demo_user\<lparr>tcbs := t, chs := (\<lambda>_. \<lparr>ch_next = 0, ch = 0x100\<rparr>),
     exec_args := (\<lambda>_. \<lparr>ea_File = [], ea_arguments = [], ea_sema = 0, ea_done = True\<rparr>), current_task_TCB := cur, sleeping_task_list := asleep,
     time_slice_remaining := 10000000, FIRST_THREAD := 0, irqwaiting := 0, DEAD_TASKS := 0, postpone_task_switches_counter := 0,
     task_switches_postponed_flag := False\<rparr>"

lemma demo_start_simps [simp]:
  "tcb p (demo_start cur z t) = t p" "chs (demo_start cur z t) p = \<lparr>ch_next = 0, ch = 0x100\<rparr>" "ea_done (exec_args (demo_start cur z t) n)"
  "current_task_TCB (demo_start cur z t) = cur" "sleeping_task_list (demo_start cur z t) = z" "time_slice_remaining (demo_start cur z t) = 10000000"
  "FIRST_THREAD (demo_start cur z t) = 0" "irqwaiting (demo_start cur z t) = 0" "DEAD_TASKS (demo_start cur z t) = 0"
  "postpone_task_switches_counter (demo_start cur z t) = 0" "\<not> task_switches_postponed_flag (demo_start cur z t)"
  by (simp_all add: demo_start_def tcb_def)


theorem child_let_go_early_witness:
  "\<exists>s'. PIT_IRQ_handler (demo_start 0x100 0x200 (demo_tasks STATE_RUNNING STATE_WAITING)) = ret s' \<and> current_task_TCB s' = 0x200 \<and>
    bindR (run_tail s') (\<lambda>s. bindR (ExecFile_wait ret 0 s) (unblock_child 7)) = stop (ERROR ERR_TASK_BADUNBLOCK 0x100)"
  by (rule child_let_go_early[where P = "0x200" and w = "0x300"]) (simp_all add: demo_tasks_def new_tcb_def)

end
