(* ===== verification/Spec2Isabelle.thy ===== *)
theory Spec2Isabelle
  imports Prelude Idt Chs Malloc Proc Terminal Ps2 Libc Qfs Streams Filesystem Exec BootPages Keymap UserIO Serial Programs Handshake Init
begin

text \<open>
  \<^bold>\<open>Verification of the unnamed operating system.\<close> The program is a small 64-bit x86 kernel in C with a
  floppy file system, a round-robin scheduler, pipes and user programs. This library models its C
  code function by function and proves what its parts promise each other.

  \<^bold>\<open>How the parts interact.\<close> A program enters the kernel with interrupt 0x80 (\<open>syscall.c\<close>); the call is
  checked and passed on to the descriptors (\<open>filesystem.c\<close>), which reach either a pipe, the screen
  (\<open>terminal.c\<close>) or a file (\<open>qfs.c\<close>) on the floppy (\<open>chs_qfs_if.c\<close>, \<open>chs.c\<close>). Everything the kernel
  allocates comes from the heap (\<open>malloc.c\<close>), whose pages come from a pool and from the page tables
  (\<open>page.c\<close>). Tasks wait for
  each other, for interrupts and for time in \<open>proc.c\<close>. A program is loaded by \<open>flat.c\<close> and \<open>usermode.c\<close>
  and gets its memory on demand in \<open>pf.c\<close>.

  \<^bold>\<open>Theories and the code they model.\<close>
  \<^item> \<open>ErrorTypes\<close>, \<open>Prelude\<close>: the codes of \<open>headers/error_types.h\<close>; a call of \<open>ERROR(code, type)\<close> never
    returns, so it is a value of type \<open>fault\<close>, and a function that may stop has a sum as its result;
    machine integers and their conversions; the division helpers of \<open>asmbridge.S\<close>.
  \<^item> \<open>PortIO\<close>: \<open>inb\<close> and \<open>outb\<close>. The devices are an argument (a function from the trace to the next value
    read); the trace of accesses is part of the state.
  \<^item> \<open>Idt\<close>: \<open>idt.c\<close>, the gates and the two interrupt controllers. \<open>Chs\<close>: \<open>chs.c\<close>, the floppy
    controller's protocol. \<open>Ps2\<close>: \<open>ps2.c\<close>, the keyboard controller and the decoder. \<open>Terminal\<close>:
    \<open>terminal.c\<close>, the text screen.
  \<^item> \<open>Kmem\<close>: kernel memory as quads and the pool of \<open>KPALLOC\<close> (\<open>page.c\<close>). \<open>Malloc\<close>: \<open>malloc.c\<close>.
  \<^item> \<open>Proc\<close>: \<open>proc.c\<close> and \<open>switch_to_task\<close>: tasks, lists, semaphores, pokes, interrupts, time. Its results
    are of type \<open>run\<close>: \<open>None\<close> is a loop that does not end, \<open>Inl\<close> a stop, \<open>Inr\<close> a return.
  \<^item> \<open>Bytes\<close>, \<open>CString\<close>: little-endian encoding, byte stores, \<open>string.c\<close>. \<open>Qfs\<close>: \<open>qfs.c\<close> and
    \<open>chs_qfs_if.c\<close>: inodes, the inode cache, files, directories, path lookup.
  \<^item> \<open>Streams\<close>: the pipes of \<open>filesystem.c\<close>. \<open>Filesystem\<close>: its descriptors, and \<open>driver.c\<close>, \<open>perm.c\<close>.
    \<open>Exec\<close>: \<open>flat.c\<close>, \<open>pf.c\<close>, \<open>usermode.c\<close>, \<open>syscall.c\<close>. \<open>Libc\<close>: the allocator and the command-line
    splitter of \<open>userland/libc.c\<close>, and the text handling of \<open>echo.c\<close> and \<open>sh.c\<close>.
  \<^item> \<open>Paging\<close>: the rest of \<open>page.c\<close>, every function: the window on the tables, the bitmap of frames, the
    allocators for the kernel and for programs, \<open>P_FREE\<close>. \<open>Translation\<close>: what one change of an entry does to
    the processor's walks, and what the window and the bitmap show. \<open>PageAlloc\<close>: the invariant of the tables
    and \<open>ALSP\<close>, \<open>KPALLOC\<close>. \<open>KernelPages\<close>: \<open>KP_ALLOC3\<close>. \<open>PageFree\<close>: \<open>P_FREE\<close>. \<open>BootPages\<close>: the tables after
    boot and the properties of the allocator.

  \<^item> \<open>MkFs\<close>: \<open>insertFileSystem/main.c\<close>, the program that writes the directory \<open>sysroot\<close> onto the image.
    \<open>Keymap\<close>: the start of \<open>PS2_DRIVER\<close> and the loading of the keymap, which runs from the image builder through
    \<open>OPEN\<close>, \<open>READ\<close> and \<open>CLOSE\<close> to \<open>KeyMap\<close>.

  \<^item> \<open>Stdio\<close>: the functions of \<open>userland/libc.c\<close> that enter the kernel, with the system call as an argument, and
    what \<open>puts\<close> and \<open>fgets\<close> do with any kernel that keeps the laws of a byte queue. \<open>UserIO\<close>: the call is \<open>INT0x80C\<close>
    of \<open>Exec\<close>; the descriptors and pipes keep those laws, and a line goes from one program to another.
  \<^item> \<open>Handshake\<close>: the reader and the writer of a pipe as two tasks, with the semaphore and the pokes of \<open>filesystem.c\<close>.
  \<^item> \<open>Init\<close>: the start of programs and drivers, \<open>ExecFile\<close>, \<open>dProbe\<close> and \<open>start_init_task\<close>.
  \<^item> \<open>Programs\<close>: \<open>userland/echo.c\<close> and \<open>userland/sh.c\<close> on the memory of a program and the system calls.
  \<^item> \<open>Serial\<close>: \<open>userland/serial.c\<close>, a program with the ports of a UART: the set-up of the port, and the turns of its loop,
    which move bytes between the port and the standard streams.

  The state is one chain of records (\<open>kmem\<close>, \<open>kpool\<close>, \<open>kheap\<close>, \<open>sched\<close>, \<open>streams\<close>, \<open>fsys\<close>,
  \<open>user_fsys\<close>, \<open>paged\<close>), each adding the variables of one file to those of the files it uses, so that the
  operations of a lower layer apply to the states of a higher one as they are.

  \<^bold>\<open>Interfaces.\<close> \<open>page_source\<close> (what \<open>malloc\<close> relies on in \<open>KPALLOC\<close>), \<open>page_mapper\<close> (what \<open>KPALLOC\<close>
  relies on in \<open>KP_ALLOC3\<close>), \<open>channel\<close> (what a reader and a writer rely on in a pipe), \<open>stream_heap\<close>
  (what a pipe relies on in the heap), \<open>page_supply\<close> (what the making of a table relies on in \<open>KPALLOC\<close>, and
  \<open>KPALLOC\<close> in \<open>KP_ALLOC3\<close>), \<open>byte_sink\<close> and \<open>byte_source\<close> (what the C library relies on in a descriptor that is
  written and in one that is read) are locales, interpreted on the model's own functions.

  \<^bold>\<open>What is shown.\<close> The heap hands out disjoint blocks and \<open>free\<close> returns them; the scheduler is
  round-robin and wakes exactly who is due; semaphores admit no more than they may; path lookup
  follows the directory tree on the disk and a read returns the file; pipes deliver their bytes in
  order under every interleaving, but the reader can miss the poke that would wake it; a program is loaded where its header says and reaches its own
  memory only, but its parent can let it go too early; system calls reject kernel addresses; a program gets no permission its parent lacks. The
  page tables stay a tree in which no frame is mapped twice; a new page goes to the first free frame and
  moves no other page; \<open>UPALLOC\<close> refines the set of mapped pages that \<open>Exec\<close> works with. The
  image builder and the path lookup of the kernel agree: every path of \<open>sysroot\<close> leads to its file on the image.
  The properties are numbered C1 to C40 in the theories.

  \<^bold>\<open>Bounds and fuel.\<close> Loops over fixed ranges (512 slots, 255 entries, 64 directory entries) are recursions
  over the number of turns left, so the bound is the code's own. Loops that need not end are
  \<open>partial_function\<close>s; that they end is a theorem where it is claimed. The theorems on page tables are about
  the first page of the bitmap (the frames below \<open>64 * 511\<close>) and ask for the frames an operation may need:
  one for a page, 64 for a refill of the pool, 193 for a user page with three new tables.

  \<^bold>\<open>Parameters.\<close> The devices behind the ports, the page allocator below the heap (\<open>no_more_pages\<close> in closed
  examples: the pool is never refilled), the addresses the linker fixes, the contents of memory that
  the code leaves uninitialised.

  \<^bold>\<open>Waits and endless loops.\<close> A wait inside a longer operation (\<open>nano_sleep\<close> in \<open>ExecFile\<close>, \<open>waitForChildToDie\<close>
  in \<open>start_init_task\<close>) is an argument, a function from the state of the call to the state in which the task
  runs again; what a wait does to the scheduler is in \<open>Proc\<close>. The loops of \<open>sh.c\<close> and \<open>serial.c\<close> never end and run
  for a given number of turns.

  \<^bold>\<open>Not modelled.\<close> The boot code, the entry stubs and the start-up code of programs, which are assembly
  or only call \<open>main\<close>; \<open>pci.S\<close>; the self-tests between \<open>#ifdef FLOPPY_DBG\<close> and \<open>#ifdef IFS_DBG\<close>, which
  the build leaves out, and the test hooks under \<open>tests\<close>; \<open>elf.c\<close>, which nothing calls and which does not compile: its
  header names one member twice and declares a member \<open>st-shndx\<close>, so the structures it reads have no layout
  to model.
\<close>

end
